(* ===== verification/Prelude.thy ===== *)
theory Prelude
  imports Complex_Main "HOL-Library.AList"
begin

text \<open>
  Shared vocabulary of the development: the fact collections, the representation of Python
  strings and dictionaries, and the generic lemmas on lists and association lists that the
  component theories use.

  A Python \<open>str\<close> is a \<open>string\<close> holding its UTF-8 bytes. Every test the modelled code makes on
  a character compares it with an ASCII character, and no byte of a multi-byte character is an
  ASCII byte, so such a test on the bytes has the answer it has on the characters; the few
  operations that look at other characters (stripping white space, decoding) spell out their
  encodings. A Python \<open>bytes\<close> value is a \<open>string\<close> too. A \<open>dict\<close> is an association list with
  \<open>AList.update\<close> (in place when the key is present, else at the end, as Python does) and
  \<open>AList.delete\<close>, so that the iteration order is kept.
\<close>

named_theorems inv_intros \<open>preservation of a component's invariant by one operation\<close>
named_theorems dom_simps \<open>the keys an operation leaves behind\<close>

type_synonym pystr = string
type_synonym bytes = string
type_synonym 'v dict = "(pystr \<times> 'v) list"

definition keys :: "('k \<times> 'v) list \<Rightarrow> 'k set" where
  "keys d = fst ` set d"

lemma keys_Nil [simp]: "keys [] = {}"
  by (simp add: keys_def)

lemma keys_update [simp]: "keys (AList.update k v d) = insert k (keys d)"
  by (simp add: keys_def dom_update)

lemma keys_delete [simp]: "keys (AList.delete k d) = keys d - {k}"
proof -
  have "set (map fst (AList.delete k d)) = set (map fst d) - {k}"
    by (simp only: delete_keys set_removeAll)
  then show ?thesis by (simp add: keys_def)
qed

lemma map_of_None_keys: "map_of d k = None \<longleftrightarrow> k \<notin> keys d"
  by (simp add: keys_def map_of_eq_None_iff)

lemma map_of_SomeD_keys: "map_of d k = Some v \<Longrightarrow> k \<in> keys d"
  by (metis map_of_None_keys option.distinct(1))

lemma in_keys_iff: "k \<in> keys d \<longleftrightarrow> (\<exists>v. map_of d k = Some v)"
  by (metis map_of_None_keys not_Some_eq)

lemma map_of_update [simp]:
  "map_of (AList.update k v d) k' = (if k' = k then Some v else map_of d k')"
  by (simp add: update_conv')

lemma map_of_delete [simp]:
  "map_of (AList.delete k d) k' = (if k' = k then None else map_of d k')"
  by (simp add: delete_conv')

lemma distinct_keys_length: "distinct (map fst d) \<Longrightarrow> length d = card (keys d)"
  by (metis distinct_card keys_def length_map list.set_map)

lemma distinct_map_fst_delete [simp]:
  "distinct (map fst d) \<Longrightarrow> distinct (map fst (AList.delete k d))"
  by (rule distinct_delete)

lemma distinct_map_fst_update [simp]:
  "distinct (map fst d) \<Longrightarrow> distinct (map fst (AList.update k v d))"
  by (rule distinct_update)

lemma finite_keys [simp]: "finite (keys d)"
  by (simp add: keys_def)

text \<open>Positions in a list, counted from 1 as Python's \<open>enumerate(..., start=1)\<close>.\<close>

fun place :: "'a \<Rightarrow> 'a list \<Rightarrow> nat option" where
  "place x [] = None"
| "place x (y # ys) = (if y = x then Some 1 else map_option Suc (place x ys))"

lemma place_None [simp]: "place x xs = None \<longleftrightarrow> x \<notin> set xs"
  by (induction xs) auto

lemma place_SomeD: "place x xs = Some n \<Longrightarrow> x \<in> set xs"
  using place_None [of x xs] by fastforce

lemma place_ge_1: "place x xs = Some n \<Longrightarrow> 1 \<le> n"
  by (induction xs arbitrary: n) (auto split: if_splits)

lemma place_append_left: "x \<in> set xs \<Longrightarrow> place x (xs @ ys) = place x xs"
  by (induction xs) auto

lemma place_append_right:
  "x \<notin> set xs \<Longrightarrow>
   place x (xs @ ys) = (case place x ys of None \<Rightarrow> None | Some n \<Rightarrow> Some (length xs + n))"
  by (induction xs) (auto split: option.split dest: place_SomeD)

lemma place_le_length: "place x xs = Some n \<Longrightarrow> n \<le> length xs"
  by (induction xs arbitrary: n) (auto split: if_splits)

lemma remove1_distinct_set: "distinct xs \<Longrightarrow> set (remove1 x xs) = set xs - {x}"
  by simp

end
