(* ===== verification/Py_Str.thy ===== *)
theory Py_Str
  imports Prelude
begin

text \<open>
  The operations of Python's \<open>str\<close> and \<open>bytes\<close> (and of \<open>urllib.parse\<close>) the proxies use, on the
  byte representation of the prelude: splitting and joining, stripping, the ASCII character
  classes of the regular expressions, UTF-8 decoding, percent encoding.
\<close>

subsection \<open>Splitting and joining\<close>

fun split_on :: "'a \<Rightarrow> 'a list \<Rightarrow> 'a list list" where
  "split_on c [] = [[]]"
| "split_on c (x # xs) =
     (if x = c then [] # split_on c xs
      else (case split_on c xs of [] \<Rightarrow> [[x]] | p # ps \<Rightarrow> (x # p) # ps))"

fun join :: "'a list \<Rightarrow> 'a list list \<Rightarrow> 'a list" where
  "join sep [] = []"
| "join sep [p] = p"
| "join sep (p # q # ps) = p @ sep @ join sep (q # ps)"

lemma split_on_not_Nil [simp]: "split_on c xs \<noteq> []"
  by (induction xs) (auto split: list.splits)

lemma join_Cons: "ps \<noteq> [] \<Longrightarrow> join sep (p # ps) = p @ sep @ join sep ps"
  by (cases ps) auto

lemma join_split_on: "join [c] (split_on c xs) = xs"
proof (induction xs)
  case (Cons x xs)
  obtain p ps where ps: "split_on c xs = p # ps" by (cases "split_on c xs") auto
  with Cons show ?case by (cases ps) auto
qed simp

lemma split_on_no_sep: "c \<notin> set xs \<Longrightarrow> split_on c xs = [xs]"
  by (induction xs) auto

lemma split_on_append: "c \<notin> set p \<Longrightarrow> split_on c (p @ c # xs) = p # split_on c xs"
  by (induction p) auto

lemma split_on_join:
  "ps \<noteq> [] \<Longrightarrow> \<forall>p \<in> set ps. c \<notin> set p \<Longrightarrow> split_on c (join [c] ps) = ps"
  by (induction "[c]" ps rule: join.induct) (auto simp: split_on_no_sep split_on_append)

lemma split_on_parts: "p \<in> set (split_on c xs) \<Longrightarrow> c \<notin> set p"
proof (induction xs arbitrary: p)
  case (Cons x xs)
  obtain q qs where qs: "split_on c xs = q # qs" by (cases "split_on c xs") auto
  with Cons show ?case by (auto split: if_splits)
qed simp

lemma set_join: "set (join sep ps) \<subseteq> set sep \<union> (\<Union>p \<in> set ps. set p)"
  by (induction sep ps rule: join.induct) auto

lemma set_split_on: "p \<in> set (split_on c xs) \<Longrightarrow> set p \<subseteq> set xs"
proof (induction xs arbitrary: p)
  case (Cons x xs)
  obtain q qs where qs: "split_on c xs = q # qs" by (cases "split_on c xs") auto
  with Cons show ?case by (fastforce split: if_splits)
qed simp

lemma map_join: "map f (join sep ps) = join (map f sep) (map (map f) ps)"
  by (induction sep ps rule: join.induct) auto

definition starts_with :: "'a list \<Rightarrow> 'a list \<Rightarrow> bool" where
  "starts_with s p \<longleftrightarrow> take (length p) s = p"

definition ends_with :: "'a list \<Rightarrow> 'a list \<Rightarrow> bool" where
  "ends_with s p \<longleftrightarrow> starts_with (rev s) (rev p)"

lemma starts_with_append [simp]: "starts_with (p @ s) p"
  by (simp add: starts_with_def)

lemma starts_with_iff: "starts_with s p \<longleftrightarrow> (\<exists>t. s = p @ t)"
  by (metis append_eq_conv_conj starts_with_def)

lemma ends_with_iff: "ends_with s p \<longleftrightarrow> (\<exists>t. s = t @ p)"
proof -
  have "rev s = rev p @ t \<longleftrightarrow> s = rev t @ p" for t
    by (metis rev_append rev_rev_ident)
  then show ?thesis by (auto simp: ends_with_def starts_with_iff) (metis rev_rev_ident)
qed

text \<open>The substring test \<open>p in s\<close>.\<close>

fun contains :: "'a list \<Rightarrow> 'a list \<Rightarrow> bool" where
  "contains [] p \<longleftrightarrow> p = []"
| "contains (x # xs) p \<longleftrightarrow> starts_with (x # xs) p \<or> contains xs p"

subsection \<open>Character classes\<close>

definition ord :: "char \<Rightarrow> nat" where
  "ord c = of_char c"

definition in_range :: "char \<Rightarrow> char \<Rightarrow> char \<Rightarrow> bool" where
  "in_range lo hi c \<longleftrightarrow> ord lo \<le> ord c \<and> ord c \<le> ord hi"

definition is_digit :: "char \<Rightarrow> bool" where
  "is_digit c = in_range CHR ''0'' CHR ''9'' c"

definition is_alpha :: "char \<Rightarrow> bool" where
  "is_alpha c \<longleftrightarrow> in_range CHR ''a'' CHR ''z'' c \<or> in_range CHR ''A'' CHR ''Z'' c"

definition is_alnum :: "char \<Rightarrow> bool" where
  "is_alnum c \<longleftrightarrow> is_digit c \<or> is_alpha c"

definition is_hex :: "char \<Rightarrow> bool" where
  "is_hex c \<longleftrightarrow> is_digit c \<or> in_range CHR ''a'' CHR ''f'' c \<or> in_range CHR ''A'' CHR ''F'' c"

text \<open>\<open>str.lower\<close> on an ASCII character; the code lower-cases checked ASCII names only.\<close>

definition lower_char :: "char \<Rightarrow> char" where
  "lower_char c = (if in_range CHR ''A'' CHR ''Z'' c then char_of (ord c + 32) else c)"

definition ascii_lower :: "string \<Rightarrow> string" where
  "ascii_lower s = map lower_char s"

lemmas char_classes = is_digit_def is_alpha_def is_alnum_def is_hex_def in_range_def ord_def

lemma ord_less [simp]: "ord c < 256"
  by (simp add: ord_def)

lemma lower_char_range:
  "in_range CHR ''A'' CHR ''Z'' c \<Longrightarrow> in_range CHR ''a'' CHR ''z'' (lower_char c)"
  by (simp add: lower_char_def in_range_def ord_def of_char_of take_bit_eq_mod)

lemma lower_char_idem [simp]: "lower_char (lower_char c) = lower_char c"
proof (cases "in_range CHR ''A'' CHR ''Z'' c")
  case True
  then have "in_range CHR ''a'' CHR ''z'' (lower_char c)" by (rule lower_char_range)
  then have "\<not> in_range CHR ''A'' CHR ''Z'' (lower_char c)" by (simp add: in_range_def ord_def)
  then show ?thesis by (simp add: lower_char_def [of "lower_char c"])
qed (simp add: lower_char_def)

lemma ascii_lower_idem [simp]: "ascii_lower (ascii_lower s) = ascii_lower s"
  by (simp add: ascii_lower_def)

lemma is_alnum_lower [simp]: "is_alnum (lower_char c) \<longleftrightarrow> is_alnum c"
proof (cases "in_range CHR ''A'' CHR ''Z'' c")
  case True
  then show ?thesis
    using lower_char_range [OF True] by (simp add: is_alnum_def is_alpha_def)
qed (simp add: lower_char_def)

lemma lower_char_non_alpha: "\<not> in_range CHR ''A'' CHR ''Z'' c \<Longrightarrow> lower_char c = c"
  by (simp add: lower_char_def)

lemma lower_char_eq_iff:
  assumes "\<not> is_alpha d"
  shows "lower_char c = d \<longleftrightarrow> c = d"
proof (cases "in_range CHR ''A'' CHR ''Z'' c")
  case True
  then have "is_alpha c" "is_alpha (lower_char c)"
    using lower_char_range [OF True] by (auto simp: is_alpha_def)
  with assms show ?thesis by auto
qed (simp add: lower_char_def)


subsection \<open>White space\<close>

text \<open>The characters \<open>str.isspace\<close> accepts, in UTF-8.\<close>

definition white_space :: "string list" where
  "white_space =
     map (\<lambda>n. [char_of n]) ([9..<14] @ [28..<33]) @
     map (\<lambda>n. [CHR 0xC2, char_of n]) [133::nat, 160] @
     [[CHR 0xE1, CHR 0x9A, CHR 0x80], [CHR 0xE2, CHR 0x81, CHR 0x9F], [CHR 0xE3, CHR 0x80, CHR 0x80]] @
     map (\<lambda>n. [CHR 0xE2, CHR 0x80, char_of n]) ([128..<139] @ [168, 169, 175])"

function strip_front :: "string list \<Rightarrow> string \<Rightarrow> string" where
  "strip_front ws s =
     (case find (\<lambda>w. w \<noteq> [] \<and> starts_with s w) ws of
        None \<Rightarrow> s
      | Some w \<Rightarrow> strip_front ws (drop (length w) s))"
  by pat_completeness auto
termination
  by (relation "measure (\<lambda>(ws, s). length s)")
    (auto simp: find_Some_iff starts_with_iff)

declare strip_front.simps [simp del]

definition strip :: "string \<Rightarrow> string" where
  "strip s = rev (strip_front (map rev white_space) (rev (strip_front white_space s)))"

definition printable :: "char \<Rightarrow> bool" where
  "printable c \<longleftrightarrow> 32 < ord c \<and> ord c < 127"

lemma strip_front_id:
  assumes "s = [] \<or> printable (hd s)" and "\<forall>w \<in> set ws. w \<noteq> [] \<longrightarrow> \<not> printable (hd w)"
  shows "strip_front ws s = s"
proof -
  have "find (\<lambda>w. w \<noteq> [] \<and> starts_with s w) ws = None"
    using assms by (auto simp: find_None_iff starts_with_iff)
  then show ?thesis by (simp add: strip_front.simps)
qed

lemma white_space_not_printable:
  "\<forall>w \<in> set white_space. \<not> printable (hd w)"
  "\<forall>w \<in> set (map rev white_space). \<not> printable (hd w)"
  by (simp_all add: white_space_def printable_def ord_def)

lemma strip_id:
  assumes "s = [] \<or> printable (hd s) \<and> printable (last s)"
  shows "strip s = s"
proof -
  have "strip_front white_space s = s"
    using assms white_space_not_printable by (intro strip_front_id) auto
  moreover have "strip_front (map rev white_space) (rev s) = rev s"
    using assms white_space_not_printable by (intro strip_front_id) (auto simp: hd_rev)
  ultimately show ?thesis by (simp add: strip_def)
qed

text \<open>Stripping twice is stripping once.\<close>

lemma strip_front_clean: "w \<in> set ws \<Longrightarrow> w \<noteq> [] \<Longrightarrow> \<not> starts_with (strip_front ws s) w"
proof (induction ws s rule: strip_front.induct)
  case (1 ws s)
  show ?case
  proof (cases "find (\<lambda>w. w \<noteq> [] \<and> starts_with s w) ws")
    case None
    then have "strip_front ws s = s" by (simp add: strip_front.simps)
    with None "1.prems" show ?thesis by (auto simp: find_None_iff)
  next
    case (Some v)
    then have "strip_front ws s = strip_front ws (drop (length v) s)" by (subst strip_front.simps) simp
    with "1.IH" [OF Some "1.prems"] show ?thesis by simp
  qed
qed

lemma strip_front_clean_id: "(\<And>w. w \<in> set ws \<Longrightarrow> w \<noteq> [] \<Longrightarrow> \<not> starts_with s w) \<Longrightarrow> strip_front ws s = s"
  by (subst strip_front.simps) (auto simp: find_None_iff find_Some_iff split: option.split)

lemma strip_front_suffix: "\<exists>p. s = p @ strip_front ws s"
proof (induction ws s rule: strip_front.induct)
  case (1 ws s)
  show ?case
  proof (cases "find (\<lambda>w. w \<noteq> [] \<and> starts_with s w) ws")
    case None
    then have "strip_front ws s = s" by (simp add: strip_front.simps)
    then show ?thesis by simp
  next
    case (Some v)
    then have e: "strip_front ws s = strip_front ws (drop (length v) s)" by (subst strip_front.simps) simp
    from "1" [OF Some] obtain p where "drop (length v) s = p @ strip_front ws (drop (length v) s)" by blast
    then have "s = (take (length v) s @ p) @ strip_front ws s" unfolding e by (metis append.assoc append_take_drop_id)
    then show ?thesis by blast
  qed
qed

lemma strip_idem [simp]: "strip (strip s) = strip s"
proof -
  define a where "a = strip_front white_space s"
  define b where "b = strip_front (map rev white_space) (rev a)"
  have b: "strip s = rev b" by (simp add: strip_def a_def b_def)
  obtain p where "rev a = p @ b" using strip_front_suffix [of "rev a" "map rev white_space"] by (auto simp: b_def)
  then have "a = rev b @ rev p" by (metis rev_append rev_rev_ident)
  then have "\<not> starts_with (rev b) w" if "w \<in> set white_space" "w \<noteq> []" for w
    using strip_front_clean [of w white_space s] that by (auto simp: a_def [symmetric] starts_with_iff)
  then have "strip_front white_space (rev b) = rev b" by (rule strip_front_clean_id)
  moreover have "strip_front (map rev white_space) b = b"
    by (rule strip_front_clean_id) (auto simp: b_def strip_front_clean)
  ultimately show ?thesis unfolding b by (simp add: strip_def)
qed

subsection \<open>UTF-8\<close>

definition cont :: "char \<Rightarrow> bool" where
  "cont c \<longleftrightarrow> 0x80 \<le> ord c \<and> ord c \<le> 0xBF"

text \<open>What the strict decoder takes: no overlong form, no surrogate, nothing above U+10FFFF.\<close>

fun utf8_valid :: "bytes \<Rightarrow> bool" where
  "utf8_valid [] = True"
| "utf8_valid (b # bs) =
     (if ord b < 0x80 then utf8_valid bs
      else if 0xC2 \<le> ord b \<and> ord b \<le> 0xDF then
        (case bs of c1 # r \<Rightarrow> cont c1 \<and> utf8_valid r | _ \<Rightarrow> False)
      else if 0xE0 \<le> ord b \<and> ord b \<le> 0xEF then
        (case bs of c1 # c2 # r \<Rightarrow>
           cont c1 \<and> cont c2 \<and> (ord b = 0xE0 \<longrightarrow> 0xA0 \<le> ord c1) \<and> (ord b = 0xED \<longrightarrow> ord c1 \<le> 0x9F) \<and>
           utf8_valid r
         | _ \<Rightarrow> False)
      else if 0xF0 \<le> ord b \<and> ord b \<le> 0xF4 then
        (case bs of c1 # c2 # c3 # r \<Rightarrow>
           cont c1 \<and> cont c2 \<and> cont c3 \<and> (ord b = 0xF0 \<longrightarrow> 0x90 \<le> ord c1) \<and>
           (ord b = 0xF4 \<longrightarrow> ord c1 \<le> 0x8F) \<and> utf8_valid r
         | _ \<Rightarrow> False)
      else False)"

lemma utf8_valid_ascii: "\<forall>c \<in> set s. ord c < 128 \<Longrightarrow> utf8_valid s"
  by (induction s) auto

subsection \<open>Percent encoding\<close>

definition hex_val :: "char \<Rightarrow> nat" where
  "hex_val c = (if is_digit c then ord c - 48
                else if in_range CHR ''a'' CHR ''f'' c then ord c - 87 else ord c - 55)"

definition upper_hex :: "nat \<Rightarrow> char" where
  "upper_hex n = (if n < 10 then char_of (48 + n) else char_of (55 + n))"

fun unquote_bytes :: "string \<Rightarrow> bytes" where
  "unquote_bytes [] = []"
| "unquote_bytes (c # cs) =
     (if c = CHR ''%'' then
        (case cs of
           h1 # h2 # r \<Rightarrow>
             if is_hex h1 \<and> is_hex h2
             then char_of (16 * hex_val h1 + hex_val h2) # unquote_bytes r
             else c # unquote_bytes cs
         | _ \<Rightarrow> c # unquote_bytes cs)
      else c # unquote_bytes cs)"

text \<open>
  \<open>unquote(s, errors="strict")\<close>; None is the \<open>UnicodeDecodeError\<close>. The library decodes each run
  of ASCII characters on its own; the characters between the runs are whole, so all runs decode
  exactly when the concatenation does.
\<close>

definition unquote :: "string \<Rightarrow> string option" where
  "unquote s = (let b = unquote_bytes s in if utf8_valid b then Some b else None)"

definition quote_char :: "(char \<Rightarrow> bool) \<Rightarrow> char \<Rightarrow> string" where
  "quote_char safe c =
     (if safe c then [c] else [CHR ''%'', upper_hex (ord c div 16), upper_hex (ord c mod 16)])"

definition quote :: "(char \<Rightarrow> bool) \<Rightarrow> string \<Rightarrow> string" where
  "quote safe s = concat (map (quote_char safe) s)"

text \<open>\<open>re.search("%[0-9A-Fa-f]{2}", s)\<close>.\<close>

fun has_escape :: "string \<Rightarrow> bool" where
  "has_escape [] = False"
| "has_escape (c # cs) \<longleftrightarrow>
     (c = CHR ''%'' \<and> (case cs of h1 # h2 # _ \<Rightarrow> is_hex h1 \<and> is_hex h2 | _ \<Rightarrow> False)) \<or> has_escape cs"

lemma ord_char_of [simp]: "n < 256 \<Longrightarrow> ord (char_of n) = n"
  by (simp add: ord_def of_char_of take_bit_eq_mod)

lemma upper_hex: assumes "n < 16"
  shows "is_hex (upper_hex n) \<and> hex_val (upper_hex n) = n \<and> upper_hex n \<noteq> CHR ''%''
    \<and> is_alnum (upper_hex n)"
proof (cases "n < 10")
  case True
  then have d: "ord (upper_hex n) = 48 + n" by (simp add: upper_hex_def)
  then have "upper_hex n \<noteq> CHR ''%''" by (auto simp: ord_def)
  with True d show ?thesis by (simp add: is_hex_def is_alnum_def is_digit_def in_range_def hex_val_def ord_def)
next
  case False
  with assms have d: "ord (upper_hex n) = 55 + n" by (simp add: upper_hex_def)
  then have "upper_hex n \<noteq> CHR ''%''" by (auto simp: ord_def)
  with False assms d show ?thesis
    by (simp add: is_hex_def is_alnum_def is_alpha_def is_digit_def in_range_def hex_val_def ord_def)
qed

lemma ord_div_16: "ord c div 16 < 16"
  using ord_less [of c] by (simp add: less_mult_imp_div_less)

lemma char_of_ord_parts: "char_of (16 * (ord c div 16) + ord c mod 16) = c"
  by (simp add: ord_def mult_div_mod_eq)

lemma unquote_quote_char:
  assumes "\<not> safe CHR ''%''"
  shows "unquote_bytes (quote_char safe c @ s) = c # unquote_bytes s"
proof (cases "safe c")
  case True
  with assms show ?thesis by (auto simp: quote_char_def)
next
  case False
  show ?thesis
    using False ord_div_16 [of c] upper_hex [of "ord c div 16"] upper_hex [of "ord c mod 16"] char_of_ord_parts [of c]
    by (simp add: quote_char_def)
qed

lemma unquote_quote:
  assumes "\<not> safe CHR ''%''"
  shows "unquote_bytes (quote safe s) = s"
  by (induction s) (simp_all add: quote_def unquote_quote_char [of safe, OF assms])

lemma quote_chars:
  assumes "c \<in> set (quote safe s)"
  shows "safe c \<or> c = CHR ''%'' \<or> is_alnum c"
proof -
  from assms obtain x where "c \<in> set (quote_char safe x)" by (auto simp: quote_def)
  then show ?thesis
    using ord_div_16 [of x] upper_hex [of "ord x div 16"] upper_hex [of "ord x mod 16"]
    by (auto simp: quote_char_def split: if_splits)
qed

lemma quote_eq_Nil [simp]: "quote safe s = [] \<longleftrightarrow> s = []"
  by (cases s) (auto simp: quote_def quote_char_def)

lemma unquote_bytes_eq_Nil [simp]: "unquote_bytes s = [] \<longleftrightarrow> s = []"
  by (cases s) (auto split: list.split)

lemma quote_safe_id: "\<forall>c \<in> set s. safe c \<Longrightarrow> quote safe s = s"
  by (induction s) (auto simp: quote_def quote_char_def)

subsection \<open>Decimal numerals and partitions\<close>

fun nat_str :: "nat \<Rightarrow> string" where
  "nat_str n = (if n < 10 then [char_of (48 + n)] else nat_str (n div 10) @ [char_of (48 + n mod 10)])"

declare nat_str.simps [simp del]

definition int_of_str :: "string \<Rightarrow> int" where
  "int_of_str s = foldl (\<lambda>n c. 10 * n + int (ord c - 48)) 0 s"

lemma int_of_str_nat_str [simp]: "int_of_str (nat_str n) = int n"
proof (induction n rule: nat_str.induct)
  case (1 n)
  have "10 * int (n div 10) + int (n mod 10) = int n" by presburger
  with 1 show ?case by (subst nat_str.simps) (auto simp: int_of_str_def)
qed

lemma digit_char [simp]: "d < (10 :: nat) \<Longrightarrow> is_digit (char_of (48 + d))"
  by (simp add: is_digit_def in_range_def) (simp add: ord_def)

lemma nat_str_digits [simp]: "list_all is_digit (nat_str n)"
  by (induction n rule: nat_str.induct) (subst nat_str.simps, auto)

lemma nat_str_not_Nil [simp]: "nat_str n \<noteq> []"
  by (subst nat_str.simps) auto

text \<open>\<open>s.partition(c)\<close>: the part before the first \<open>c\<close>, whether there is one, the part after it.\<close>

definition partition_at :: "'a \<Rightarrow> 'a list \<Rightarrow> 'a list \<times> bool \<times> 'a list" where
  "partition_at c s = (takeWhile (\<lambda>x. x \<noteq> c) s, c \<in> set s, drop 1 (dropWhile (\<lambda>x. x \<noteq> c) s))"

definition rpartition_at :: "'a \<Rightarrow> 'a list \<Rightarrow> 'a list \<times> bool \<times> 'a list" where
  "rpartition_at c s =
     (case partition_at c (rev s) of (b, found, a) \<Rightarrow>
        if found then (rev a, True, rev b) else ([], False, s))"

lemma partition_at_found: "c \<notin> set p \<Longrightarrow> partition_at c (p @ c # q) = (p, True, q)"
  by (induction p) (auto simp: partition_at_def)

lemma partition_at_missing: "c \<notin> set p \<Longrightarrow> partition_at c p = (p, False, [])"
  by (induction p) (auto simp: partition_at_def)

lemma partition_at_cases:
  "partition_at c s = (b, found, a) \<Longrightarrow> s = (if found then b @ c # a else b) \<and> c \<notin> set b"
  by (induction s arbitrary: b found a) (auto simp: partition_at_def)

lemma rpartition_at_missing: "c \<notin> set p \<Longrightarrow> rpartition_at c p = ([], False, p)"
  by (simp add: rpartition_at_def partition_at_missing)

end
