(* ===== verification/Py_Value.thy ===== *)
theory Py_Value
  imports Py_Str
begin

text \<open>
  Python numbers and JSON values. A \<open>float\<close> is a rational, an infinity or NaN, compared and
  added as Python does but without rounding: the modelled code compares and adds clock readings,
  time spans and amounts of money, and no branch of it depends on the last bits of a sum. An
  \<open>int\<close> is \<open>int\<close>. JSON values are what \<open>request.json()\<close> returns; Python's decoder accepts the
  literals \<open>NaN\<close> and \<open>Infinity\<close>.
\<close>

datatype pyfloat = Fin rat | PInf | NInf | NaN

fun flt :: "pyfloat \<Rightarrow> pyfloat \<Rightarrow> bool" where
  "flt (Fin a) (Fin b) \<longleftrightarrow> a < b"
| "flt NaN _ = False"
| "flt _ NaN = False"
| "flt PInf _ = False"
| "flt _ PInf = True"
| "flt _ NInf = False"
| "flt NInf _ = True"

fun fle :: "pyfloat \<Rightarrow> pyfloat \<Rightarrow> bool" where
  "fle (Fin a) (Fin b) \<longleftrightarrow> a \<le> b"
| "fle NaN _ = False"
| "fle _ NaN = False"
| "fle _ PInf = True"
| "fle PInf _ = False"
| "fle NInf _ = True"
| "fle _ NInf = False"

fun fadd :: "pyfloat \<Rightarrow> pyfloat \<Rightarrow> pyfloat" where
  "fadd (Fin a) (Fin b) = Fin (a + b)"
| "fadd NaN _ = NaN"
| "fadd _ NaN = NaN"
| "fadd PInf NInf = NaN"
| "fadd NInf PInf = NaN"
| "fadd PInf _ = PInf"
| "fadd _ PInf = PInf"
| "fadd NInf _ = NInf"
| "fadd _ NInf = NInf"

fun fneg :: "pyfloat \<Rightarrow> pyfloat" where
  "fneg (Fin a) = Fin (- a)"
| "fneg PInf = NInf"
| "fneg NInf = PInf"
| "fneg NaN = NaN"

definition fsub :: "pyfloat \<Rightarrow> pyfloat \<Rightarrow> pyfloat" where
  "fsub a b = fadd a (fneg b)"

text \<open>\<open>min(a, b)\<close> and \<open>max(a, b)\<close> keep their first argument unless the second is strictly past it.\<close>

definition fmin :: "pyfloat \<Rightarrow> pyfloat \<Rightarrow> pyfloat" where
  "fmin a b = (if flt b a then b else a)"

definition fmax :: "pyfloat \<Rightarrow> pyfloat \<Rightarrow> pyfloat" where
  "fmax a b = (if flt a b then b else a)"

definition ftruthy :: "pyfloat \<Rightarrow> bool" where
  "ftruthy f \<longleftrightarrow> f \<noteq> Fin 0"

text \<open>\<open>float(n)\<close> of an \<open>int\<close> raises \<open>OverflowError\<close> (None) where the nearest double is infinite.\<close>

definition float_of_int :: "int \<Rightarrow> pyfloat option" where
  "float_of_int n = (if \<bar>n\<bar> < 2 ^ 1024 - 2 ^ 970 then Some (Fin (of_int n)) else None)"

text \<open>Python rounds halves to even.\<close>

definition round_even :: "rat \<Rightarrow> int" where
  "round_even x =
     (let f = floor x; d = x - of_int f
      in if d < 1 / 2 then f else if 1 / 2 < d then f + 1 else if even f then f else f + 1)"

definition round_to :: "nat \<Rightarrow> rat \<Rightarrow> rat" where
  "round_to n x = of_int (round_even (x * 10 ^ n)) / 10 ^ n"

text \<open>\<open>round(f, n)\<close> of a float.\<close>

fun fround :: "nat \<Rightarrow> pyfloat \<Rightarrow> pyfloat" where
  "fround n (Fin a) = Fin (round_to n a)"
| "fround n f = f"

datatype json =
    JNull
  | JBool bool
  | JInt int
  | JFloat pyfloat
  | JStr pystr
  | JList "json list"
  | JObj "(pystr \<times> json) list"

fun truthy :: "json \<Rightarrow> bool" where
  "truthy JNull = False"
| "truthy (JBool b) = b"
| "truthy (JInt n) = (n \<noteq> 0)"
| "truthy (JFloat f) = ftruthy f"
| "truthy (JStr s) = (s \<noteq> [])"
| "truthy (JList xs) = (xs \<noteq> [])"
| "truthy (JObj d) = (d \<noteq> [])"

text \<open>\<open>body.get(key, default)\<close>.\<close>

definition get_or :: "(pystr \<times> json) list \<Rightarrow> pystr \<Rightarrow> json \<Rightarrow> json" where
  "get_or d k v = (case map_of d k of Some x \<Rightarrow> x | None \<Rightarrow> v)"

definition get :: "(pystr \<times> json) list \<Rightarrow> pystr \<Rightarrow> json" where
  "get d k = get_or d k JNull"

text \<open>\<open>len(v)\<close>; None is the \<open>TypeError\<close>. A \<open>str\<close> counts code points, not bytes.\<close>

definition str_len :: "pystr \<Rightarrow> nat" where
  "str_len s = length (filter (\<lambda>c. \<not> cont c) s)"

fun py_len :: "json \<Rightarrow> nat option" where
  "py_len (JStr s) = Some (str_len s)"
| "py_len (JList xs) = Some (length xs)"
| "py_len (JObj d) = Some (length d)"
| "py_len _ = None"

text \<open>\<open>x if isinstance(x, str) and x else None\<close>.\<close>

definition nonempty_str :: "json \<Rightarrow> pystr option" where
  "nonempty_str v = (case v of JStr s \<Rightarrow> if s = [] then None else Some s | _ \<Rightarrow> None)"

lemma fmin_le_right: "\<not> fle (fmin a (Fin b)) (Fin b) \<Longrightarrow> a = NaN"
  by (cases a) (auto simp: fmin_def split: if_splits)

lemma fmin_Fin: "fmin (Fin a) (Fin b) = Fin (min a b)"
  by (auto simp: fmin_def)

lemma fmax_Fin: "fmax (Fin a) (Fin b) = Fin (max a b)"
  by (auto simp: fmax_def)

lemma fsub_Fin [simp]: "fsub (Fin a) (Fin b) = Fin (a - b)"
  by (simp add: fsub_def)

lemma round_even_near: "x - 1 / 2 \<le> of_int (round_even x) \<and> of_int (round_even x) \<le> x + 1 / 2"
proof -
  have f: "of_int \<lfloor>x\<rfloor> \<le> x" "x < of_int \<lfloor>x\<rfloor> + 1" by linarith+
  show ?thesis
    by (auto simp: round_even_def Let_def) (use f in linarith)+
qed

lemma round_to_near: "x - 1 / (2 * 10 ^ n) \<le> round_to n x \<and> round_to n x \<le> x + 1 / (2 * 10 ^ n)"
proof -
  define p where "p = (10 :: rat) ^ n"
  have p: "0 < p" by (simp add: p_def)
  define e where "e = (of_int (round_even (x * p)) :: rat)"
  have "x * p - 1 / 2 \<le> e" "e \<le> x * p + 1 / 2" using round_even_near [of "x * p"] by (simp_all add: e_def)
  then have "(x * p - 1 / 2) / p \<le> e / p" "e / p \<le> (x * p + 1 / 2) / p"
    using p by (simp_all add: divide_right_mono del: le_divide_eq_numeral1)
  moreover have "round_to n x = e / p" by (simp add: round_to_def e_def p_def)
  ultimately show ?thesis using p by (simp add: diff_divide_distrib add_divide_distrib p_def [symmetric])
qed

end
