(* ===== verification/Json.thy ===== *)
theory Json
  imports Py_Value
begin

text \<open>
  Python's \<open>json\<close> decoder (\<open>json.loads\<close>, \<open>JSONDecoder.raw_decode\<close>) and the string operations the modules
  that read an agent's output use: \<open>str.lower\<close>, \<open>str.split\<close> on a substring, \<open>str(v)\<close> of a JSON value. The
  decoder takes what Python's takes: \<open>NaN\<close> and the infinities, lone surrogates in escapes (kept as
  their three-byte form), a later duplicate of a key. A float is the rational its literal names,
  infinite where the nearest double is. Not modelled: the refusals of an integer of more than 4,300
  digits and of nesting beyond the interpreter's recursion limit.
\<close>

subsection \<open>Scanning\<close>

definition json_space :: "char \<Rightarrow> bool" where
  "json_space c \<longleftrightarrow> ord c = 32 \<or> ord c = 9 \<or> ord c = 10 \<or> ord c = 13"

definition skip_ws :: "string \<Rightarrow> string" where
  "skip_ws s = dropWhile json_space s"

definition utf8_encode :: "nat \<Rightarrow> string" where
  "utf8_encode n =
     (if n < 128 then [char_of n]
      else if n < 2048 then [char_of (192 + n div 64), char_of (128 + n mod 64)]
      else if n < 65536 then [char_of (224 + n div 4096), char_of (128 + n div 64 mod 64), char_of (128 + n mod 64)]
      else [char_of (240 + n div 262144), char_of (128 + n div 4096 mod 64), char_of (128 + n div 64 mod 64),
            char_of (128 + n mod 64)])"

definition hex4_at :: "string \<Rightarrow> nat option" where
  "hex4_at s =
     (case s of a # b # c # d # _ \<Rightarrow>
        if is_hex a \<and> is_hex b \<and> is_hex c \<and> is_hex d
        then Some (((hex_val a * 16 + hex_val b) * 16 + hex_val c) * 16 + hex_val d) else None
      | _ \<Rightarrow> None)"

datatype string_part = Part_End string | Part_Bad | Part string string

definition unicode_part :: "string \<Rightarrow> string_part" where
  "unicode_part r =
     (case hex4_at r of
        None \<Rightarrow> Part_Bad
      | Some u \<Rightarrow>
          (let r1 = drop 4 r
           in if 0xD800 \<le> u \<and> u \<le> 0xDBFF \<and> starts_with r1 [CHR 0x5C, CHR ''u''] then
                (case hex4_at (drop 2 r1) of
                   Some v \<Rightarrow> if 0xDC00 \<le> v \<and> v \<le> 0xDFFF
                             then Part (utf8_encode (0x10000 + (u - 0xD800) * 1024 + (v - 0xDC00))) (drop 6 r1)
                             else Part (utf8_encode u) r1
                 | None \<Rightarrow> Part (utf8_encode u) r1)
              else Part (utf8_encode u) r1))"

definition escapes :: "(char \<times> nat) list" where
  "escapes = [(CHR 0x22, 0x22), (CHR 0x5C, 0x5C), (CHR ''/'', 0x2F), (CHR ''b'', 8), (CHR ''f'', 12), (CHR ''n'', 10),
     (CHR ''r'', 13), (CHR ''t'', 9)]"

text \<open>One character of a string body.\<close>

definition string_step :: "string \<Rightarrow> string_part" where
  "string_step s =
     (case s of
        [] \<Rightarrow> Part_Bad
      | c # r \<Rightarrow>
          if ord c = 0x22 then Part_End r
          else if ord c < 32 then Part_Bad
          else if ord c \<noteq> 0x5C then Part [c] r
          else (case r of
                  [] \<Rightarrow> Part_Bad
                | e # r' \<Rightarrow>
                    if e = CHR ''u'' then unicode_part r'
                    else (case map_of escapes e of None \<Rightarrow> Part_Bad | Some n \<Rightarrow> Part [char_of n] r')))"

lemma unicode_part_shorter: "unicode_part r = Part x r' \<Longrightarrow> length r' \<le> length r"
  by (auto simp: unicode_part_def Let_def split: option.splits if_splits)

lemma string_step_shorter: "string_step s = Part x r \<Longrightarrow> length r < length s"
  by (auto simp: string_step_def split: list.splits if_splits option.splits dest!: unicode_part_shorter)

function scan_string :: "string \<Rightarrow> (pystr \<times> string) option" where
  "scan_string s =
     (case string_step s of
        Part_Bad \<Rightarrow> None
      | Part_End r \<Rightarrow> Some ([], r)
      | Part x r \<Rightarrow> (case scan_string r of None \<Rightarrow> None | Some (y, r') \<Rightarrow> Some (x @ y, r')))"
  by pat_completeness auto
termination by (relation "measure length") (auto dest: string_step_shorter)

declare scan_string.simps [simp del]

lemma string_end_shorter: "string_step s = Part_End r \<Longrightarrow> length r < length s"
  by (auto simp: string_step_def unicode_part_def Let_def split: list.splits if_splits option.splits)

lemma scan_string_shorter: "scan_string s = Some (x, r) \<Longrightarrow> length r < length s"
proof (induction s arbitrary: x r rule: scan_string.induct)
  case (1 s)
  have e: "scan_string s = (case string_step s of
        Part_Bad \<Rightarrow> None
      | Part_End r \<Rightarrow> Some ([], r)
      | Part x r \<Rightarrow> (case scan_string r of None \<Rightarrow> None | Some (y, r') \<Rightarrow> Some (x @ y, r')))"
    by (rule scan_string.simps)
  show ?case
  proof (cases "string_step s")
    case (Part y r1)
    with "1.prems" e obtain z where "scan_string r1 = Some (z, r)" by (auto split: option.splits)
    from "1.IH" [OF Part this] string_step_shorter [OF Part] show ?thesis by simp
  qed (use "1.prems" e in \<open>auto dest: string_end_shorter\<close>)
qed

subsection \<open>Numbers\<close>

definition digits :: "string \<Rightarrow> string \<times> string" where
  "digits s = (takeWhile is_digit s, dropWhile is_digit s)"

definition frac_part :: "string \<Rightarrow> string \<times> string" where
  "frac_part s =
     (case s of c # r \<Rightarrow> if c = CHR ''.'' \<and> fst (digits r) \<noteq> [] then digits r else ([], s) | [] \<Rightarrow> ([], s))"

text \<open>The exponent: its sign, its digits, what is left; None when there is none.\<close>

definition exp_part :: "string \<Rightarrow> (bool \<times> string \<times> string) option" where
  "exp_part s =
     (case s of
        c # r \<Rightarrow>
          if c = CHR ''e'' \<or> c = CHR ''E'' then
            (let neg = starts_with r ''-''; r' = (if neg \<or> starts_with r ''+'' then tl r else r)
             in if fst (digits r') \<noteq> [] then Some (neg, digits r') else None)
          else None
      | [] \<Rightarrow> None)"

definition int_part :: "string \<Rightarrow> (string \<times> string) option" where
  "int_part s =
     (case s of
        c # r \<Rightarrow> if c = CHR ''0'' then Some (''0'', r) else if is_digit c then Some (digits s) else None
      | [] \<Rightarrow> None)"

definition float_of_rat :: "rat \<Rightarrow> pyfloat" where
  "float_of_rat q =
     (if 2 ^ 1024 - 2 ^ 970 \<le> q then PInf else if q \<le> - (2 ^ 1024 - 2 ^ 970) then NInf else Fin q)"

definition scan_number :: "string \<Rightarrow> (json \<times> string) option" where
  "scan_number s =
     (let neg = starts_with s ''-''; body = (if neg then tl s else s)
      in case int_part body of
           None \<Rightarrow> None
         | Some (i, r) \<Rightarrow>
             (case frac_part r of (f, r1) \<Rightarrow>
               (case exp_part r1 of
                  None \<Rightarrow>
                    if f = [] then Some (JInt (if neg then - int_of_str i else int_of_str i), r1)
                    else Some (JFloat (float_of_rat ((if neg then - 1 else 1) * of_int (int_of_str (i @ f)) / 10 ^ length f)), r1)
                | Some (eneg, e, r2) \<Rightarrow>
                    (let m = (if neg then - 1 else 1) * of_int (int_of_str (i @ f)) / 10 ^ length f; p = 10 ^ nat (int_of_str e)
                     in Some (JFloat (float_of_rat (if eneg then m / p else m * p)), r2)))))"

subsection \<open>Values\<close>

definition word_value :: "string \<Rightarrow> (json \<times> string) option" where
  "word_value s =
     (case find (\<lambda>(w, _). starts_with s w)
         [(''null'', JNull), (''true'', JBool True), (''false'', JBool False), (''NaN'', JFloat NaN),
          (''Infinity'', JFloat PInf), (''-Infinity'', JFloat NInf)] of
        Some (w, v) \<Rightarrow> Some (v, drop (length w) s)
      | None \<Rightarrow> scan_number s)"

fun value_at :: "nat \<Rightarrow> string \<Rightarrow> (json \<times> string) option"
  and items_at :: "nat \<Rightarrow> string \<Rightarrow> (json list \<times> string) option"
  and members_at :: "nat \<Rightarrow> string \<Rightarrow> ((pystr \<times> json) list \<times> string) option" where
  "value_at 0 s = None"
| "value_at (Suc n) s =
     (case s of
        [] \<Rightarrow> None
      | c # r \<Rightarrow>
          if c = CHR 0x22 then map_option (\<lambda>(x, r'). (JStr x, r')) (scan_string r)
          else if c = CHR ''['' then
            (if starts_with (skip_ws r) '']'' then Some (JList [], tl (skip_ws r))
             else map_option (\<lambda>(vs, r'). (JList vs, r')) (items_at n (skip_ws r)))
          else if c = CHR ''{'' then
            (if starts_with (skip_ws r) ''}'' then Some (JObj [], tl (skip_ws r))
             else map_option (\<lambda>(ms, r'). (JObj (fold (\<lambda>(k, v). AList.update k v) ms []), r')) (members_at n (skip_ws r)))
          else word_value s)"
| "items_at 0 s = None"
| "items_at (Suc n) s =
     (case value_at n s of
        None \<Rightarrow> None
      | Some (v, r) \<Rightarrow>
          (if starts_with (skip_ws r) '']'' then Some ([v], tl (skip_ws r))
           else if starts_with (skip_ws r) '',''
           then map_option (\<lambda>(vs, r'). (v # vs, r')) (items_at n (skip_ws (tl (skip_ws r))))
           else None))"
| "members_at 0 s = None"
| "members_at (Suc n) s =
     (if \<not> starts_with s [CHR 0x22] then None
      else case scan_string (tl s) of
        None \<Rightarrow> None
      | Some (k, r) \<Rightarrow>
          if \<not> starts_with (skip_ws r) '':'' then None
          else (case value_at n (skip_ws (tl (skip_ws r))) of
             None \<Rightarrow> None
           | Some (v, r1) \<Rightarrow>
               (if starts_with (skip_ws r1) ''}'' then Some ([(k, v)], tl (skip_ws r1))
                else if starts_with (skip_ws r1) '',''
                then map_option (\<lambda>(ms, r'). ((k, v) # ms, r')) (members_at n (skip_ws (tl (skip_ws r1))))
                else None)))"

definition raw_decode :: "string \<Rightarrow> (json \<times> string) option" where
  "raw_decode s = value_at (2 * length s + 1) s"

definition json_loads :: "string \<Rightarrow> json option" where
  "json_loads s =
     (if starts_with s [CHR 0xEF, CHR 0xBB, CHR 0xBF] then None
      else case raw_decode (skip_ws s) of
             Some (v, r) \<Rightarrow> if skip_ws r = [] then Some v else None
           | None \<Rightarrow> None)"

subsection \<open>The fuel is enough\<close>

lemma skip_ws_shorter: "length (skip_ws s) \<le> length s"
  by (simp add: skip_ws_def length_dropWhile_le)

lemma tl_skip_ws_shorter: "starts_with (skip_ws s) w \<Longrightarrow> w \<noteq> [] \<Longrightarrow> length (tl (skip_ws s)) < length s"
  using skip_ws_shorter [of s] by (cases "skip_ws s") (auto simp: starts_with_iff)

lemma digits_shorter: "length (snd (digits s)) \<le> length s"
  by (simp add: digits_def length_dropWhile_le)

lemma number_parts_shorter:
  "int_part s = Some (i, r) \<Longrightarrow> length r \<le> length s"
  "frac_part s = (f, r) \<Longrightarrow> length r \<le> length s"
  "exp_part s = Some (b, e, r) \<Longrightarrow> length r \<le> length s"
proof -
  show "int_part s = Some (i, r) \<Longrightarrow> length r \<le> length s"
    using digits_shorter [of s] by (auto simp: int_part_def split: list.splits if_splits)
  show "frac_part s = (f, r) \<Longrightarrow> length r \<le> length s"
    using digits_shorter [of "tl s"] by (auto simp: frac_part_def split: list.splits if_splits)
  show "exp_part s = Some (b, e, r) \<Longrightarrow> length r \<le> length s"
  proof -
    assume e: "exp_part s = Some (b, e, r)"
    then obtain c t where s: "s = c # t" by (cases s) (auto simp: exp_part_def)
    define t' where "t' = (if starts_with t ''-'' \<or> starts_with t ''+'' then tl t else t)"
    have "r = snd (digits t')" using e by (auto simp: s exp_part_def Let_def t'_def split: if_splits)
    moreover have "length t' \<le> length t" by (simp add: t'_def)
    ultimately show ?thesis using digits_shorter [of t'] by (simp add: s)
  qed
qed

lemma scan_number_shorter: "scan_number s = Some (v, r) \<Longrightarrow> length r \<le> length s"
proof -
  assume n: "scan_number s = Some (v, r)"
  let ?body = "if starts_with s ''-'' then tl s else s"
  obtain i r0 where i: "int_part ?body = Some (i, r0)"
    using n by (auto simp: scan_number_def Let_def split: option.splits)
  obtain f r1 where f: "frac_part r0 = (f, r1)" by (cases "frac_part r0")
  have body: "length ?body \<le> length s" by simp
  show ?thesis
  proof (cases "exp_part r1")
    case None
    then have "r = r1" using n i f by (auto simp: scan_number_def Let_def split: if_splits)
    then show ?thesis using order_trans [OF order_trans [OF number_parts_shorter(2) [OF f] number_parts_shorter(1) [OF i]] body] by simp
  next
    case (Some x)
    obtain b e r2 where x: "x = (b, e, r2)" by (cases x)
    then have "r = r2" using n i f Some by (auto simp: scan_number_def Let_def split: if_splits)
    then show ?thesis
      using number_parts_shorter(1) [OF i] number_parts_shorter(2) [OF f] number_parts_shorter(3) [of r1 b e r2] Some x body
      by (simp del: length_tl)
  qed
qed

lemma word_value_shorter: "word_value s = Some (v, r) \<Longrightarrow> length r \<le> length s"
  by (auto simp: word_value_def scan_number_shorter split: option.splits)

text \<open>What a reader leaves is no longer than what it was given.\<close>

lemma value_shorter:
  "value_at n s = Some (v, r) \<Longrightarrow> length r \<le> length s"
  "items_at n s = Some (vs, r) \<Longrightarrow> length r \<le> length s"
  "members_at n s = Some (ms, r) \<Longrightarrow> length r \<le> length s"
proof (induction n arbitrary: s v vs ms r)
  case (Suc n)
  note ws = skip_ws_shorter tl_skip_ws_shorter
  {
    case 1
    then obtain c t where s: "s = c # t" by (cases s) auto
    have t: "length (skip_ws t) \<le> length t" "length (tl (skip_ws t)) \<le> length t"
      using skip_ws_shorter [of t] by simp_all
    show ?case using 1 t Suc.IH(2) [of "skip_ws t"] Suc.IH(3) [of "skip_ws t"] scan_string_shorter [of t] word_value_shorter [of s]
      by (fastforce simp: s split: if_splits)
  next
    case 2
    then obtain w r1 where w: "value_at n s = Some (w, r1)" by (auto split: option.splits)
    have r1: "length (tl (skip_ws r1)) \<le> length r1" "length (skip_ws (tl (skip_ws r1))) \<le> length r1"
      using skip_ws_shorter [of r1] skip_ws_shorter [of "tl (skip_ws r1)"] by simp_all
    show ?case using 2 w r1 Suc.IH(1) [OF w] Suc.IH(2) [of "skip_ws (tl (skip_ws r1))"]
      by (fastforce split: if_splits)
  next
    case 3
    then obtain k r0 where k: "scan_string (tl s) = Some (k, r0)" by (auto split: option.splits if_splits)
    let ?r = "skip_ws (tl (skip_ws r0))"
    obtain w r1 where w: "value_at n ?r = Some (w, r1)" using 3 k by (auto split: option.splits if_splits)
    have r1: "length (tl (skip_ws r1)) \<le> length r1" "length (skip_ws (tl (skip_ws r1))) \<le> length r1"
      using skip_ws_shorter [of r1] skip_ws_shorter [of "tl (skip_ws r1)"] by simp_all
    have "length ?r \<le> length r0" using skip_ws_shorter [of r0] skip_ws_shorter [of "tl (skip_ws r0)"] by simp
    moreover have "length r0 < length (tl s)" by (rule scan_string_shorter [OF k])
    ultimately have "length r1 \<le> length s" using Suc.IH(1) [OF w] by simp
    then show ?case using 3 k w r1 Suc.IH(3) [of "skip_ws (tl (skip_ws r1))"] by (fastforce split: if_splits)
  }
qed simp_all

text \<open>More fuel than twice the length changes no answer, so \<open>raw_decode\<close> never runs out.\<close>

lemma fuel_enough:
  "2 * length s + 1 \<le> n \<Longrightarrow> n \<le> m \<Longrightarrow> value_at m s = value_at n s"
  "2 * length s + 2 \<le> n \<Longrightarrow> n \<le> m \<Longrightarrow> items_at m s = items_at n s"
  "2 * length s + 2 \<le> n \<Longrightarrow> n \<le> m \<Longrightarrow> members_at m s = members_at n s"
proof (induction n arbitrary: s m)
  case (Suc n)
  {
    case 1
    then obtain m' where m: "m = Suc m'" "n \<le> m'" by (cases m) auto
    show ?case
    proof (cases s)
      case (Cons c t)
      have "2 * length (skip_ws t) + 2 \<le> n" using 1 Cons skip_ws_shorter [of t] by simp
      then show ?thesis using Suc.IH(2) [OF _ m(2)] Suc.IH(3) [OF _ m(2)] by (simp add: m Cons)
    qed (simp add: m)
  next
    case 2
    then obtain m' where m: "m = Suc m'" "n \<le> m'" by (cases m) auto
    have v: "value_at m' s = value_at n s" using Suc.IH(1) [OF _ m(2)] 2 by simp
    have "items_at m' (skip_ws (tl (skip_ws r))) = items_at n (skip_ws (tl (skip_ws r)))"
      if "value_at n s = Some (w, r)" and "starts_with (skip_ws r) '',''" for w r
    proof (rule Suc.IH(2) [OF _ m(2)])
      have "length (skip_ws (tl (skip_ws r))) < length r"
        using tl_skip_ws_shorter [OF that(2)] skip_ws_shorter [of "tl (skip_ws r)"] by simp
      then show "2 * length (skip_ws (tl (skip_ws r))) + 2 \<le> n" using value_shorter(1) [OF that(1)] 2 by simp
    qed
    then show ?case by (auto simp: m v split: option.splits)
  next
    case 3
    then obtain m' where m: "m = Suc m'" "n \<le> m'" by (cases m) auto
    have v: "value_at m' (skip_ws (tl (skip_ws r))) = value_at n (skip_ws (tl (skip_ws r)))"
      if "scan_string (tl s) = Some (k, r)" for k r
    proof (rule Suc.IH(1) [OF _ m(2)])
      have "length (skip_ws (tl (skip_ws r))) \<le> length r"
        using skip_ws_shorter [of r] skip_ws_shorter [of "tl (skip_ws r)"] by simp
      then show "2 * length (skip_ws (tl (skip_ws r))) + 1 \<le> n" using scan_string_shorter [OF that] 3 by simp
    qed
    have r: "members_at m' (skip_ws (tl (skip_ws r1))) = members_at n (skip_ws (tl (skip_ws r1)))"
      if "scan_string (tl s) = Some (k, r)" and "value_at n (skip_ws (tl (skip_ws r))) = Some (w, r1)"
        and "starts_with (skip_ws r1) '',''" for k r w r1
    proof (rule Suc.IH(3) [OF _ m(2)])
      have "length (skip_ws (tl (skip_ws r1))) < length r1"
        using tl_skip_ws_shorter [OF that(3)] skip_ws_shorter [of "tl (skip_ws r1)"] by simp
      moreover have "length (skip_ws (tl (skip_ws r))) \<le> length r"
        using skip_ws_shorter [of r] skip_ws_shorter [of "tl (skip_ws r)"] by simp
      ultimately show "2 * length (skip_ws (tl (skip_ws r1))) + 2 \<le> n"
        using value_shorter(1) [OF that(2)] scan_string_shorter [OF that(1)] 3 by simp
    qed
    show ?case by (auto simp: m v r split: option.splits)
  }
qed simp_all

lemma raw_decode_fuel: "2 * length s + 1 \<le> n \<Longrightarrow> value_at n s = raw_decode s"
  unfolding raw_decode_def by (rule fuel_enough) simp_all

subsection \<open>Strings\<close>

text \<open>
  \<open>s.lower()\<close> where the result is compared with ASCII text: the two characters outside ASCII whose
  lower case has an ASCII letter are the Kelvin sign and the dotted capital I; every other letter
  outside ASCII is left as it is.
\<close>

fun str_lower :: "string \<Rightarrow> string" where
  "str_lower [] = []"
| "str_lower (c # cs) =
     (if starts_with (c # cs) [CHR 0xE2, CHR 0x84, CHR 0xAA] then CHR ''k'' # str_lower (drop 2 cs)
      else if starts_with (c # cs) [CHR 0xC4, CHR 0xB0] then ''i'' @ [CHR 0xCC, CHR 0x87] @ str_lower (drop 1 cs)
      else lower_char c # str_lower cs)"

text \<open>\<open>s.split(sep)\<close> on a non-empty substring.\<close>

function split_str :: "string \<Rightarrow> string \<Rightarrow> string list" where
  "split_str sep s =
     (if s = [] then [[]]
      else if sep \<noteq> [] \<and> starts_with s sep then [] # split_str sep (drop (length sep) s)
      else (case split_str sep (tl s) of [] \<Rightarrow> [[hd s]] | p # ps \<Rightarrow> (hd s # p) # ps))"
  by pat_completeness auto
termination by (relation "measure (length \<circ> snd)") (auto simp: starts_with_iff)

declare split_str.simps [simp del]

definition int_str :: "int \<Rightarrow> pystr" where
  "int_str n = (if n < 0 then CHR ''-'' # nat_str (nat (- n)) else nat_str (nat n))"

text \<open>\<open>str(v)\<close>; how Python prints a float, a list or a dict is a parameter.\<close>

definition str_of :: "(json \<Rightarrow> pystr) \<Rightarrow> json \<Rightarrow> pystr" where
  "str_of show v =
     (case v of
        JStr s \<Rightarrow> s
      | JNull \<Rightarrow> ''None''
      | JBool b \<Rightarrow> (if b then ''True'' else ''False'')
      | JInt n \<Rightarrow> int_str n
      | _ \<Rightarrow> show v)"

text \<open>\<open>str(v or "")\<close>.\<close>

definition str_or_empty :: "(json \<Rightarrow> pystr) \<Rightarrow> json \<Rightarrow> pystr" where
  "str_or_empty show v = (if truthy v then str_of show v else [])"

end
