(* ===== verification/Context_Fit.thy ===== *)
theory Context_Fit
  imports Json
begin

text \<open>Keeping a chat conversation inside a model's context window
  (\<open>src/embry0/agents/context_fit.py\<close>). A message is a JSON object. The length of \<open>json.dumps\<close> of a value
  is a parameter; the estimate multiplies it with an exact rational where the code has a float.

  The lemmas show what the fitting returns: the conversation with just as many of its oldest tool
  results elided as it takes, or an error when eliding them all is not enough.\<close>

type_synonym message = "(pystr \<times> json) list"

record fit_env =
  fe_dump :: "json \<Rightarrow> int"
  fe_system :: pystr
  fe_tools :: "json list"
  fe_window :: int
  fe_ratio :: rat

definition DEFAULT_TOKENS_PER_CHAR :: rat where
  "DEFAULT_TOKENS_PER_CHAR = 3 / 10"

definition answer_reserve :: "int \<Rightarrow> int" where
  "answer_reserve window = max 1024 (min 8192 (window div 8))"

definition request_chars :: "fit_env \<Rightarrow> message list \<Rightarrow> int" where
  "request_chars E msgs =
     int (str_len (fe_system E)) + fe_dump E (JList (fe_tools E)) + fe_dump E (JList (map JObj msgs))"

text \<open>\<open>int(x)\<close> cuts towards zero.\<close>

definition truncated :: "rat \<Rightarrow> int" where
  "truncated x = (if 0 \<le> x then floor x else ceiling x)"

definition estimate :: "fit_env \<Rightarrow> message list \<Rightarrow> int" where
  "estimate E msgs = truncated (of_int (request_chars E msgs) * fe_ratio E)"

definition budget :: "fit_env \<Rightarrow> int" where
  "budget E = fe_window E - answer_reserve (fe_window E)"

definition ELIDED_START :: pystr where
  "ELIDED_START = ''[earlier tool output elided''"

definition elided :: "fit_env \<Rightarrow> message \<Rightarrow> message" where
  "elided E m =
     (let size = (case get m ''content'' of JStr s \<Rightarrow> int (str_len s) | c \<Rightarrow> fe_dump E c)
      in AList.update ''content''
           (JStr (ELIDED_START @ '' to fit the '' @ int_str (fe_window E) @ ''-token context window: '' @
                  int_str size @ '' characters]'')) m)"

definition has_role :: "pystr \<Rightarrow> message \<Rightarrow> bool" where
  "has_role r m \<longleftrightarrow> map_of m ''role'' = Some (JStr r)"

text \<open>What the loop skips: other roles, and what is elided already. No \<open>str()\<close> of another JSON value
  starts with the elision text.\<close>

definition is_elided :: "message \<Rightarrow> bool" where
  "is_elided m \<longleftrightarrow> (case get_or m ''content'' (JStr []) of JStr s \<Rightarrow> starts_with s ELIDED_START | _ \<Rightarrow> False)"

definition old_result :: "message \<Rightarrow> bool" where
  "old_result m \<longleftrightarrow> has_role ''tool'' m \<and> \<not> is_elided m"

definition latest_turn :: "message list \<Rightarrow> nat" where
  "latest_turn msgs =
     (case filter (\<lambda>i. has_role ''assistant'' (msgs ! i)) [0..<length msgs] of
        [] \<Rightarrow> length msgs | is \<Rightarrow> last is)"

fun elide_loop :: "fit_env \<Rightarrow> message list \<Rightarrow> nat list \<Rightarrow> message list \<times> bool" where
  "elide_loop E fitted [] = (fitted, False)"
| "elide_loop E fitted (i # is) =
     (if \<not> old_result (fitted ! i) then elide_loop E fitted is
      else
        (let fitted' = fitted[i := elided E (fitted ! i)]
         in if estimate E fitted' \<le> budget E then (fitted', True) else elide_loop E fitted' is))"

text \<open>\<open>ContextWindowExceeded\<close>, with the estimate it reports.\<close>

datatype fit_error = Context_Window_Exceeded int

definition fit_messages :: "fit_env \<Rightarrow> message list \<Rightarrow> fit_error + message list" where
  "fit_messages E msgs =
     (if estimate E msgs \<le> budget E then Inr msgs
      else
        (let (fitted, found) = elide_loop E msgs [1..<latest_turn msgs]
         in if found \<or> estimate E fitted \<le> budget E then Inr fitted
            else Inl (Context_Window_Exceeded (estimate E fitted))))"

definition calibrated_ratio :: "int \<Rightarrow> int \<Rightarrow> rat \<Rightarrow> rat" where
  "calibrated_ratio prompt_tokens chars previous =
     (if prompt_tokens \<le> 0 \<or> chars \<le> 0 then previous
      else max (of_int prompt_tokens / of_int chars) (DEFAULT_TOKENS_PER_CHAR / 2))"

text \<open>A boolean is an \<open>int\<close> to \<open>isinstance\<close>.\<close>

fun positive_int :: "json \<Rightarrow> int option" where
  "positive_int (JInt n) = (if 0 < n then Some n else None)"
| "positive_int (JBool b) = (if b then Some 1 else None)"
| "positive_int _ = None"

fun first_some :: "'b option list \<Rightarrow> 'b option" where
  "first_some [] = None"
| "first_some (x # xs) = (case x of None \<Rightarrow> first_some xs | Some y \<Rightarrow> Some y)"

definition window_from_models :: "json \<Rightarrow> pystr \<Rightarrow> int option" where
  "window_from_models listing model =
     (case listing of
        JObj d \<Rightarrow>
          (case get d ''data'' of
             JList entries \<Rightarrow>
               first_some (map (\<lambda>entry. case entry of
                   JObj e \<Rightarrow> if get e ''id'' \<noteq> JStr model then None
                             else first_some (map (\<lambda>key. positive_int (get e key))
                                    [''max_model_len'', ''context_length'', ''context_window''])
                 | _ \<Rightarrow> None) entries)
           | _ \<Rightarrow> None)
      | _ \<Rightarrow> None)"

section \<open>What the fitting returns\<close>

text \<open>The conversation with the old tool results before message \<open>k\<close> elided, the first message never.\<close>

definition shrunk :: "fit_env \<Rightarrow> message list \<Rightarrow> nat \<Rightarrow> message list" where
  "shrunk E msgs k =
     map (\<lambda>i. if 1 \<le> i \<and> i < k \<and> old_result (msgs ! i) then elided E (msgs ! i) else msgs ! i) [0..<length msgs]"

lemma shrunk_length [simp]: "length (shrunk E msgs k) = length msgs"
  by (simp add: shrunk_def)

lemma shrunk_start: "k \<le> 1 \<Longrightarrow> shrunk E msgs k = msgs"
  by (rule nth_equalityI) (auto simp: shrunk_def)

lemma shrunk_nth: "i < length msgs \<Longrightarrow> k \<le> i \<Longrightarrow> shrunk E msgs k ! i = msgs ! i"
  by (simp add: shrunk_def)

lemma shrunk_Suc:
  assumes "1 \<le> k" and "k < length msgs"
  shows "shrunk E msgs (Suc k) =
    (if old_result (msgs ! k) then (shrunk E msgs k)[k := elided E (msgs ! k)] else shrunk E msgs k)"
  by (rule nth_equalityI) (use assms in \<open>auto simp: shrunk_def nth_list_update less_Suc_eq\<close>)

lemma elide_loop_shrunk:
  assumes "1 \<le> k" and "k \<le> n" and "n \<le> length msgs" and "\<forall>j \<le> k. budget E < estimate E (shrunk E msgs j)"
  shows "elide_loop E (shrunk E msgs k) [k..<n] =
    (if \<exists>j \<le> n. estimate E (shrunk E msgs j) \<le> budget E
     then (shrunk E msgs (LEAST j. estimate E (shrunk E msgs j) \<le> budget E), True) else (shrunk E msgs n, False))"
  using assms
proof (induction "n - k" arbitrary: k)
  case 0
  then have n: "n = k" by simp
  then have "\<not> (\<exists>j \<le> n. estimate E (shrunk E msgs j) \<le> budget E)" using 0(5) by (auto simp: not_le)
  then show ?case using n by simp
next
  case (Suc d)
  then have kn: "k < n" "k < length msgs" by auto
  then have up: "[k..<n] = k # [Suc k..<n]" by (simp add: upt_rec)
  have at: "shrunk E msgs k ! k = msgs ! k" using kn by (simp add: shrunk_nth)
  have step: "shrunk E msgs (Suc k) = (if old_result (msgs ! k) then (shrunk E msgs k)[k := elided E (msgs ! k)] else shrunk E msgs k)"
    using shrunk_Suc Suc.prems(1) kn by simp
  show ?case
  proof (cases "estimate E (shrunk E msgs (Suc k)) \<le> budget E")
    case True
    then have o: "old_result (msgs ! k)" using step Suc.prems(4) by (metis linorder_not_le order_refl)
    have "(LEAST j. estimate E (shrunk E msgs j) \<le> budget E) = Suc k"
      by (rule Least_equality) (use True Suc.prems(4) not_less_eq_eq in \<open>force+\<close>)
    moreover have "\<exists>j \<le> n. estimate E (shrunk E msgs j) \<le> budget E" using True kn(1) by (intro exI [of _ "Suc k"]) simp
    ultimately show ?thesis using True o at step up by (simp add: Let_def)
  next
    case False
    then have "\<forall>j \<le> Suc k. budget E < estimate E (shrunk E msgs j)" using Suc.prems(4) by (auto simp: le_Suc_eq)
    then have "elide_loop E (shrunk E msgs (Suc k)) [Suc k..<n] =
      (if \<exists>j \<le> n. estimate E (shrunk E msgs j) \<le> budget E
       then (shrunk E msgs (LEAST j. estimate E (shrunk E msgs j) \<le> budget E), True) else (shrunk E msgs n, False))"
      using Suc.hyps kn Suc.prems by simp
    moreover have "elide_loop E (shrunk E msgs k) [k..<n] = elide_loop E (shrunk E msgs (Suc k)) [Suc k..<n]"
      using False at step up by (auto simp: Let_def)
    ultimately show ?thesis by simp
  qed
qed

lemma latest_turn_bound: "latest_turn msgs \<le> length msgs"
proof (cases "filter (\<lambda>i. has_role ''assistant'' (msgs ! i)) [0..<length msgs]")
  case (Cons x xs)
  then have "last (x # xs) \<in> set (filter (\<lambda>i. has_role ''assistant'' (msgs ! i)) [0..<length msgs])" by simp
  then have "last (x # xs) < length msgs" by simp
  then show ?thesis using Cons by (simp add: latest_turn_def)
qed (simp add: latest_turn_def)

text \<open>C23: the fitting elides the oldest tool results and no more of them than it takes: it returns the
  conversation with the least number of leading messages elided at which the estimate is within the
  window less the room for the answer, the task and the latest exchange always whole; and it fails only
  when eliding every tool result before the latest exchange is not enough.\<close>

theorem fit_elides_least:
  "fit_messages E msgs =
     (if \<exists>k \<le> latest_turn msgs. estimate E (shrunk E msgs k) \<le> budget E
      then Inr (shrunk E msgs (LEAST k. estimate E (shrunk E msgs k) \<le> budget E))
      else Inl (Context_Window_Exceeded (estimate E (shrunk E msgs (latest_turn msgs)))))"
proof (cases "estimate E msgs \<le> budget E")
  case True
  then have "(LEAST k. estimate E (shrunk E msgs k) \<le> budget E) = 0"
    by (intro Least_equality) (simp_all add: shrunk_start)
  then show ?thesis using True by (auto simp: fit_messages_def shrunk_start intro!: exI [of _ 0])
next
  case False
  then have low: "\<forall>j \<le> 1. budget E < estimate E (shrunk E msgs j)" by (simp add: shrunk_start)
  show ?thesis
  proof (cases "1 \<le> latest_turn msgs")
    case True
    let ?P = "\<exists>k \<le> latest_turn msgs. estimate E (shrunk E msgs k) \<le> budget E"
    have "elide_loop E msgs [1..<latest_turn msgs] =
      (if ?P then (shrunk E msgs (LEAST j. estimate E (shrunk E msgs j) \<le> budget E), True)
       else (shrunk E msgs (latest_turn msgs), False))"
      using elide_loop_shrunk [OF _ True latest_turn_bound low] by (simp add: shrunk_start)
    moreover have "estimate E (shrunk E msgs (latest_turn msgs)) \<le> budget E \<Longrightarrow> ?P" by blast
    ultimately show ?thesis using False by (auto simp: fit_messages_def Let_def)
  next
    case no: False
    then have "latest_turn msgs = 0" by simp
    then show ?thesis using False by (simp add: fit_messages_def shrunk_start)
  qed
qed

end
