(* ===== verification/Model_Catalog.thy ===== *)
theory Model_Catalog
  imports Json "HOL-Library.List_Lexorder" "HOL-Library.Char_ord"
begin

text \<open>OpenRouter's live model list (\<open>src/embry0/agents/openrouter_catalog.py\<close>): what of an answer of its
  model endpoint is kept, and at which price. A price is a Python float, rounded as there; how Python
  prints a float, a list or a dict is the parameter \<open>show\<close>.

  The lemmas show that every entry is kept or counted under the reason it was left out for, and that the
  price kept is the highest of those the entry names.\<close>

section \<open>Numbers\<close>

fun fmul :: "pyfloat \<Rightarrow> rat \<Rightarrow> pyfloat" where
  "fmul (Fin a) k = float_of_rat (a * k)"
| "fmul NaN k = NaN"
| "fmul PInf k = (if k = 0 then NaN else if 0 < k then PInf else NInf)"
| "fmul NInf k = (if k = 0 then NaN else if 0 < k then NInf else PInf)"

text \<open>Python takes an underscore in a number between two digits.\<close>

fun without_underscores :: "bool \<Rightarrow> string \<Rightarrow> string option" where
  "without_underscores after_digit [] = Some []"
| "without_underscores after_digit (c # cs) =
     (if c = CHR ''_'' then
        (case cs of d # _ \<Rightarrow> if after_digit \<and> is_digit d then without_underscores False cs else None | [] \<Rightarrow> None)
      else map_option ((#) c) (without_underscores (is_digit c) cs))"

definition signed :: "string \<Rightarrow> bool \<times> string" where
  "signed s =
     (case s of
        c # r \<Rightarrow> if c = CHR ''-'' then (True, r) else if c = CHR ''+'' then (False, r) else (False, s)
      | [] \<Rightarrow> (False, []))"

text \<open>\<open>int(s)\<close> of a string; None is the \<open>ValueError\<close>.\<close>

definition int_of_text :: "string \<Rightarrow> int option" where
  "int_of_text s =
     (case signed (strip s) of (neg, body) \<Rightarrow>
        case without_underscores False body of
          None \<Rightarrow> None
        | Some ds \<Rightarrow> if ds = [] \<or> \<not> list_all is_digit ds then None
                   else Some (if neg then - int_of_str ds else int_of_str ds))"

text \<open>\<open>float(s)\<close> of a string; None is the \<open>ValueError\<close>.\<close>

definition float_of_decimal :: "string \<Rightarrow> pyfloat option" where
  "float_of_decimal s =
     (case signed s of (neg, body) \<Rightarrow>
        let sgn = (if neg then - 1 else 1) in
        if ascii_lower body \<in> {''inf'', ''infinity''} then Some (if neg then NInf else PInf)
        else if ascii_lower body = ''nan'' then Some NaN
        else (case digits body of (i, r) \<Rightarrow>
          (case (case r of c # r' \<Rightarrow> if c = CHR ''.'' then digits r' else ([], r) | [] \<Rightarrow> ([], [])) of (f, r1) \<Rightarrow>
             if i @ f = [] then None
             else (let m = sgn * of_int (int_of_str (i @ f)) / 10 ^ length f in
               if r1 = [] then Some (float_of_rat m)
               else if hd r1 \<notin> {CHR ''e'', CHR ''E''} then None
               else (case signed (tl r1) of (eneg, e) \<Rightarrow>
                 if e = [] \<or> \<not> list_all is_digit e then None
                 else (let p = 10 ^ nat (int_of_str e) in Some (float_of_rat (if eneg then m / p else m * p))))))))"

definition float_of_text :: "string \<Rightarrow> pyfloat option" where
  "float_of_text s = Option.bind (without_underscores False (strip s)) float_of_decimal"

section \<open>The catalog\<close>

definition ROUTING_PREFIX :: pystr where
  "ROUTING_PREFIX = ''openrouter/''"

definition EXCLUDED_VARIANTS :: "pystr list" where
  "EXCLUDED_VARIANTS = [''batch'', ''free'', ''online'']"

record catalog_model =
  cm_model :: pystr
  cm_name :: pystr
  cm_input :: pyfloat
  cm_output :: pyfloat
  cm_context :: "int option"
  cm_max_output :: "int option"

definition vendor :: "catalog_model \<Rightarrow> pystr" where
  "vendor m =
     (let s = cm_model m; upstream = (if starts_with s ROUTING_PREFIX then drop (length ROUTING_PREFIX) s else s)
      in fst (partition_at CHR ''/'' upstream))"

text \<open>What an answer raises: its \<open>ValueError\<close>, and the \<open>TypeError\<close> and \<open>OverflowError\<close> no code around it catches.\<close>

datatype catalog_error = No_Data_Array | Not_A_Container | Number_Overflow

text \<open>\<open>_positive_int\<close> and \<open>_rate\<close> catch the \<open>TypeError\<close> and the \<open>ValueError\<close>, not the \<open>OverflowError\<close> of
  an infinite float, or of an integer no float holds.\<close>

definition catalog_int :: "json \<Rightarrow> catalog_error + int option" where
  "catalog_int v =
     (let positive = (\<lambda>n :: int. Inr (if 0 < n then Some n else None)) in
      case v of
        JInt n \<Rightarrow> positive n
      | JBool b \<Rightarrow> positive (if b then 1 else 0)
      | JFloat (Fin q) \<Rightarrow> positive (if 0 \<le> q then \<lfloor>q\<rfloor> else \<lceil>q\<rceil>)
      | JFloat NaN \<Rightarrow> Inr None
      | JFloat f \<Rightarrow> Inl Number_Overflow
      | JStr s \<Rightarrow> (case int_of_text s of None \<Rightarrow> Inr None | Some n \<Rightarrow> positive n)
      | _ \<Rightarrow> Inr None)"

definition rate :: "json \<Rightarrow> catalog_error + pyfloat option" where
  "rate v =
     (let per_mtok = (\<lambda>f. Some (fmul f 1000000)) in
      case v of
        JInt n \<Rightarrow> (case float_of_int n of None \<Rightarrow> Inl Number_Overflow | Some f \<Rightarrow> Inr (per_mtok f))
      | JBool b \<Rightarrow> Inr (per_mtok (Fin (if b then 1 else 0)))
      | JFloat f \<Rightarrow> Inr (per_mtok f)
      | JStr s \<Rightarrow> Inr (if s = [] then None else Option.bind (float_of_text s) per_mtok)
      | _ \<Rightarrow> Inr None)"

text \<open>\<open>max\<close> keeps its first argument unless a later one is strictly larger.\<close>

definition highest :: "pyfloat option list \<Rightarrow> pyfloat option" where
  "highest rates = (case List.map_filter id rates of [] \<Rightarrow> None | r # rs \<Rightarrow> Some (fold (\<lambda>b a. fmax a b) rs r))"

fun traverse_sum :: "('a \<Rightarrow> 'e + 'b) \<Rightarrow> 'a list \<Rightarrow> 'e + 'b list" where
  "traverse_sum f [] = Inr []"
| "traverse_sum f (x # xs) =
     (case f x of Inl e \<Rightarrow> Inl e | Inr y \<Rightarrow> (case traverse_sum f xs of Inl e \<Rightarrow> Inl e | Inr ys \<Rightarrow> Inr (y # ys)))"

definition tiers :: "(pystr \<times> json) list \<Rightarrow> (pystr \<times> json) list list" where
  "tiers pricing =
     pricing # (case get pricing ''overrides'' of
                  JList os \<Rightarrow> List.map_filter (\<lambda>v. case v of JObj d \<Rightarrow> Some d | _ \<Rightarrow> None) os | _ \<Rightarrow> [])"

definition input_prices :: "(pystr \<times> json) list \<Rightarrow> json list" where
  "input_prices pricing = map (\<lambda>t. get t ''prompt'') (tiers pricing)"

definition output_prices :: "(pystr \<times> json) list \<Rightarrow> json list" where
  "output_prices pricing = map (\<lambda>t. get t ''completion'') (tiers pricing) @ [get pricing ''internal_reasoning'']"

definition rates_of :: "(pystr \<times> json) list \<Rightarrow> catalog_error + (pyfloat option \<times> pyfloat option)" where
  "rates_of pricing =
     (case traverse_sum rate (input_prices pricing) of
        Inl e \<Rightarrow> Inl e
      | Inr ins \<Rightarrow>
          (case traverse_sum rate (output_prices pricing) of
             Inl e \<Rightarrow> Inl e
           | Inr outs \<Rightarrow> Inr (highest ins, highest outs)))"

text \<open>\<open>"tools" in v\<close>; None is the \<open>TypeError\<close>.\<close>

definition names_tools :: "json \<Rightarrow> bool option" where
  "names_tools v =
     (if \<not> truthy v then Some False
      else (case v of
              JList xs \<Rightarrow> Some (JStr ''tools'' \<in> set xs)
            | JStr s \<Rightarrow> Some (contains s ''tools'')
            | JObj d \<Rightarrow> Some (''tools'' \<in> fst ` set d)
            | _ \<Rightarrow> None))"

definition variant_of :: "pystr \<Rightarrow> pystr" where
  "variant_of upstream = (case rpartition_at CHR '':'' upstream of (_, found, v) \<Rightarrow> if found then v else [])"

datatype entry_result = Skip pystr | Keep catalog_model

definition below_zero :: "pyfloat option \<Rightarrow> bool" where
  "below_zero r \<longleftrightarrow> (case r of None \<Rightarrow> False | Some f \<Rightarrow> flt f (Fin 0))"

definition is_free :: "pyfloat option \<Rightarrow> bool" where
  "is_free r \<longleftrightarrow> (case r of None \<Rightarrow> True | Some f \<Rightarrow> \<not> ftruthy f)"

text \<open>\<open>round(rate or 0.0, 6)\<close>.\<close>

definition kept_rate :: "pyfloat option \<Rightarrow> pyfloat" where
  "kept_rate r = (case r of None \<Rightarrow> Fin 0 | Some f \<Rightarrow> fround 6 f)"

definition priced_entry ::
  "(json \<Rightarrow> pystr) \<Rightarrow> (pystr \<times> json) list \<Rightarrow> pystr \<Rightarrow> pyfloat option \<Rightarrow> pyfloat option \<Rightarrow> catalog_error + entry_result"
where
  "priced_entry show entry upstream rate_in rate_out =
     (if below_zero rate_in \<or> below_zero rate_out then Inr (Skip ''variable_price'')
      else if is_free rate_in \<and> is_free rate_out then Inr (Skip ''unpriced'')
      else
        (let top = (case get entry ''top_provider'' of JObj d \<Rightarrow> d | _ \<Rightarrow> []); name = get entry ''name'' in
         case catalog_int (get entry ''context_length'') of
           Inl e \<Rightarrow> Inl e
         | Inr context \<Rightarrow>
             (case catalog_int (get top ''max_completion_tokens'') of
                Inl e \<Rightarrow> Inl e
              | Inr most \<Rightarrow>
                  Inr (Keep \<lparr>cm_model = ROUTING_PREFIX @ upstream,
                             cm_name = (if truthy name then str_of show name else upstream),
                             cm_input = kept_rate rate_in, cm_output = kept_rate rate_out,
                             cm_context = context, cm_max_output = most\<rparr>))))"

definition read_entry :: "(json \<Rightarrow> pystr) \<Rightarrow> json \<Rightarrow> catalog_error + entry_result" where
  "read_entry show v =
     (case v of
        JObj entry \<Rightarrow>
          (case get entry ''id'' of
             JStr upstream \<Rightarrow>
               if CHR ''/'' \<notin> set upstream then Inr (Skip ''malformed'')
               else
                 (case names_tools (get entry ''supported_parameters'') of
                    None \<Rightarrow> Inl Not_A_Container
                  | Some False \<Rightarrow> Inr (Skip ''no_tools'')
                  | Some True \<Rightarrow>
                      if variant_of upstream \<in> set EXCLUDED_VARIANTS then Inr (Skip (variant_of upstream))
                      else (case get entry ''pricing'' of
                              JObj pricing \<Rightarrow>
                                (case rates_of pricing of
                                   Inl e \<Rightarrow> Inl e
                                 | Inr (rate_in, rate_out) \<Rightarrow> priced_entry show entry upstream rate_in rate_out)
                            | _ \<Rightarrow> priced_entry show entry upstream None None))
           | _ \<Rightarrow> Inr (Skip ''malformed''))
      | _ \<Rightarrow> Inr (Skip ''malformed''))"

record parse_state =
  ps_skipped :: "(pystr \<times> nat) list"
  ps_kept :: "(pystr \<times> catalog_model) list"

definition count_skip :: "pystr \<Rightarrow> (pystr \<times> nat) list \<Rightarrow> (pystr \<times> nat) list" where
  "count_skip reason c = AList.update reason (Suc (case map_of c reason of None \<Rightarrow> 0 | Some n \<Rightarrow> n)) c"

fun parse_entries :: "(json \<Rightarrow> pystr) \<Rightarrow> json list \<Rightarrow> parse_state \<Rightarrow> catalog_error + parse_state" where
  "parse_entries show [] st = Inr st"
| "parse_entries show (v # vs) st =
     (case read_entry show v of
        Inl e \<Rightarrow> Inl e
      | Inr (Skip reason) \<Rightarrow> parse_entries show vs (st\<lparr>ps_skipped := count_skip reason (ps_skipped st)\<rparr>)
      | Inr (Keep m) \<Rightarrow> parse_entries show vs (st\<lparr>ps_kept := AList.update (cm_model m) m (ps_kept st)\<rparr>))"

definition parse_catalog :: "(json \<Rightarrow> pystr) \<Rightarrow> json \<Rightarrow> catalog_error + catalog_model list \<times> (pystr \<times> nat) list" where
  "parse_catalog show payload =
     (case (case payload of JObj d \<Rightarrow> get d ''data'' | _ \<Rightarrow> JNull) of
        JList entries \<Rightarrow>
          (case parse_entries show entries \<lparr>ps_skipped = [], ps_kept = []\<rparr> of
             Inl e \<Rightarrow> Inl e
           | Inr st \<Rightarrow> Inr (map (\<lambda>m. the (map_of (ps_kept st) m)) (sort (map fst (ps_kept st))), ps_skipped st))
      | _ \<Rightarrow> Inl No_Data_Array)"

text \<open>A catalog in force, by routed id; None when none was loaded.\<close>

type_synonym catalog = "(pystr \<times> catalog_model) list"

definition catalog_rates :: "catalog option \<Rightarrow> pystr \<Rightarrow> (pyfloat \<times> pyfloat) option" where
  "catalog_rates current model =
     Option.bind current (\<lambda>c. map_option (\<lambda>e. (cm_input e, cm_output e)) (map_of c model))"

definition catalog_model_ids :: "catalog option \<Rightarrow> pystr list option" where
  "catalog_model_ids current = map_option (\<lambda>c. sort (map fst c)) current"


text \<open>The stored form of an entry, and an entry read back: None when the row is not one.\<close>

definition json_opt_int :: "int option \<Rightarrow> json" where
  "json_opt_int v = (case v of None \<Rightarrow> JNull | Some n \<Rightarrow> JInt n)"

definition model_to_json :: "catalog_model \<Rightarrow> (pystr \<times> json) list" where
  "model_to_json m =
     [(''model'', JStr (cm_model m)), (''name'', JStr (cm_name m)),
      (''input_usd_per_mtok'', JFloat (cm_input m)), (''output_usd_per_mtok'', JFloat (cm_output m)),
      (''context_length'', json_opt_int (cm_context m)), (''max_output_tokens'', json_opt_int (cm_max_output m))]"

text \<open>\<open>float(v)\<close>; \<open>Inr None\<close> is the \<open>TypeError\<close> or the \<open>ValueError\<close> the code catches.\<close>

definition float_of_json :: "json \<Rightarrow> catalog_error + pyfloat option" where
  "float_of_json v =
     (case v of
        JInt n \<Rightarrow> (case float_of_int n of None \<Rightarrow> Inl Number_Overflow | Some f \<Rightarrow> Inr (Some f))
      | JBool b \<Rightarrow> Inr (Some (Fin (if b then 1 else 0)))
      | JFloat f \<Rightarrow> Inr (Some f)
      | JStr s \<Rightarrow> Inr (float_of_text s)
      | _ \<Rightarrow> Inr None)"

definition model_from_json :: "(json \<Rightarrow> pystr) \<Rightarrow> (pystr \<times> json) list \<Rightarrow> catalog_error + catalog_model option" where
  "model_from_json show row =
     (case (map_of row ''model'', map_of row ''input_usd_per_mtok'', map_of row ''output_usd_per_mtok'') of
        (Some v, Some a, Some b) \<Rightarrow>
          (let model = str_of show v in
           case float_of_json a of
             Inl e \<Rightarrow> Inl e
           | Inr None \<Rightarrow> Inr None
           | Inr (Some rate_in) \<Rightarrow>
               (case float_of_json b of
                  Inl e \<Rightarrow> Inl e
                | Inr None \<Rightarrow> Inr None
                | Inr (Some rate_out) \<Rightarrow>
                    if \<not> starts_with model ROUTING_PREFIX \<or> flt rate_in (Fin 0) \<or> flt rate_out (Fin 0) then Inr None
                    else
                      (case catalog_int (get row ''context_length'') of
                         Inl e \<Rightarrow> Inl e
                       | Inr context \<Rightarrow>
                           (case catalog_int (get row ''max_output_tokens'') of
                              Inl e \<Rightarrow> Inl e
                            | Inr most \<Rightarrow>
                                Inr (Some \<lparr>cm_model = model,
                                           cm_name = (if truthy (get row ''name'') then str_of show (get row ''name'') else model),
                                           cm_input = rate_in, cm_output = rate_out,
                                           cm_context = context, cm_max_output = most\<rparr>)))))
      | _ \<Rightarrow> Inr None)"

section \<open>Prices\<close>

lemma round_even_mono:
  assumes "x \<le> y" shows "round_even x \<le> round_even y"
proof (cases "floor x = floor y")
  case True
  then show ?thesis using assms by (auto simp: round_even_def Let_def)
next
  case False
  then have "floor x + 1 \<le> floor y" using floor_mono [OF assms] by linarith
  then show ?thesis by (auto simp: round_even_def Let_def)
qed

lemma fround_mono: "fle a b \<Longrightarrow> fle (fround n a) (fround n b)"
  by (cases a; cases b)
     (auto simp: round_to_def intro!: divide_right_mono of_int_le_iff [THEN iffD2] round_even_mono mult_right_mono)

lemma fle_trans: "fle a b \<Longrightarrow> fle b c \<Longrightarrow> fle a c"
  by (cases a; cases b; cases c) auto

lemma fle_refl: "a \<noteq> NaN \<Longrightarrow> fle a a"
  by (cases a) auto

lemma fmax_upper: "a \<noteq> NaN \<Longrightarrow> b \<noteq> NaN \<Longrightarrow> fle a (fmax a b) \<and> fle b (fmax a b) \<and> fmax a b \<noteq> NaN"
  by (cases a; cases b) (auto simp: fmax_def)

lemma fold_fmax_upper:
  assumes "a \<noteq> NaN" and "NaN \<notin> set rs" and "r \<in> insert a (set rs)"
  shows "fle r (fold (\<lambda>b a. fmax a b) rs a)"
  using assms
proof (induction rs arbitrary: a r)
  case Nil
  then show ?case by (simp add: fle_refl)
next
  case (Cons b rs)
  have m: "fle a (fmax a b) \<and> fle b (fmax a b) \<and> fmax a b \<noteq> NaN" using Cons.prems fmax_upper by auto
  have top: "fle (fmax a b) (fold (\<lambda>b a. fmax a b) rs (fmax a b))" using Cons.IH [of "fmax a b" "fmax a b"] Cons.prems m by auto
  show ?case
  proof (cases "r \<in> set rs")
    case True
    then show ?thesis using Cons.IH [of "fmax a b" r] Cons.prems m by auto
  next
    case False
    then have "fle r (fmax a b)" using Cons.prems(3) m by auto
    then show ?thesis using top by (simp add: fle_trans)
  qed
qed

lemma highest_upper:
  assumes "Some r \<in> set rates" and "Some NaN \<notin> set rates"
  shows "\<exists>h. highest rates = Some h \<and> fle r h"
proof -
  have mem: "x \<in> set (List.map_filter id rates) \<longleftrightarrow> Some x \<in> set rates" for x
    by (force simp: List.map_filter_def)
  then obtain a rs where rs: "List.map_filter id rates = a # rs" using assms(1) by (cases "List.map_filter id rates") force+
  then have "a \<noteq> NaN" "NaN \<notin> set rs" using mem [of NaN] assms(2) by auto
  moreover have "r \<in> insert a (set rs)" using mem [of r] assms(1) rs by auto
  ultimately have "fle r (fold (\<lambda>b a. fmax a b) rs a)" by (rule fold_fmax_upper)
  then show ?thesis using rs by (simp add: highest_def)
qed

lemma traverse_sum_Inr: "traverse_sum f xs = Inr ys \<Longrightarrow> map f xs = map Inr ys"
  by (induction xs arbitrary: ys) (auto split: sum.splits)

text \<open>A price that is not below the others: what is kept is at least every price named, to the six decimals kept.\<close>

definition prices_within :: "json list \<Rightarrow> pyfloat \<Rightarrow> bool" where
  "prices_within prices most \<longleftrightarrow>
     Inr (Some NaN) \<in> rate ` set prices \<or>
     (\<forall>v \<in> set prices. case rate v of Inr (Some f) \<Rightarrow> fle (fround 6 f) most | _ \<Rightarrow> True)"

lemma kept_rate_within:
  assumes "traverse_sum rate prices = Inr rs"
  shows "prices_within prices (kept_rate (highest rs))"
proof -
  have rs: "Inr r \<in> rate ` set prices \<longleftrightarrow> r \<in> set rs" for r
  proof -
    have "set (map rate prices) = set (map Inr rs)" using traverse_sum_Inr [OF assms] by simp
    then have "rate ` set prices = Inr ` set rs" by simp
    then show ?thesis by auto
  qed
  have "fle (fround 6 f) (kept_rate (highest rs))" if v: "v \<in> set prices" "rate v = Inr (Some f)" "Some NaN \<notin> set rs" for v f
  proof -
    have "Some f \<in> set rs" using rs [of "Some f"] v by (metis imageI)
    then obtain h where "highest rs = Some h" "fle f h" using highest_upper v(3) by blast
    then show ?thesis by (simp add: kept_rate_def fround_mono)
  qed
  then show ?thesis using rs [of "Some NaN"] by (fastforce simp: prices_within_def split: sum.splits option.splits)
qed


section \<open>What is kept\<close>

lemma read_entry_Keep:
  assumes "read_entry show v = Inr (Keep m)"
  obtains entry upstream pricing where
    "v = JObj entry" and "get entry ''id'' = JStr upstream" and "cm_model m = ROUTING_PREFIX @ upstream"
    and "CHR ''/'' \<in> set upstream" and "names_tools (get entry ''supported_parameters'') = Some True"
    and "variant_of upstream \<notin> set EXCLUDED_VARIANTS" and "get entry ''pricing'' = JObj pricing"
    and "prices_within (input_prices pricing) (cm_input m)" and "prices_within (output_prices pricing) (cm_output m)"
    and "\<not> flt (cm_input m) (Fin 0)" and "\<not> flt (cm_output m) (Fin 0)"
    and "\<forall>n. cm_context m = Some n \<longrightarrow> 0 < n" and "\<forall>n. cm_max_output m = Some n \<longrightarrow> 0 < n"
    and "cm_name m = upstream \<or> truthy (get entry ''name'') \<and> cm_name m = str_of show (get entry ''name'')"
proof -
  obtain entry where v: "v = JObj entry" using assms by (auto simp: read_entry_def split: json.splits)
  obtain upstream where id: "get entry ''id'' = JStr upstream"
    using assms v by (auto simp: read_entry_def split: json.splits)
  have slash: "CHR ''/'' \<in> set upstream" using assms v id by (auto simp: read_entry_def split: if_splits)
  have tools: "names_tools (get entry ''supported_parameters'') = Some True"
    using assms v id slash by (auto simp: read_entry_def split: option.splits bool.splits)
  have variant: "variant_of upstream \<notin> set EXCLUDED_VARIANTS"
    using assms v id slash tools by (auto simp: read_entry_def split: if_splits)
  have free: "priced_entry show entry upstream None None = Inr (Skip ''unpriced'')"
    by (simp add: priced_entry_def below_zero_def is_free_def)
  obtain pricing rate_in rate_out where pricing: "get entry ''pricing'' = JObj pricing"
    and rates: "rates_of pricing = Inr (rate_in, rate_out)"
    and p: "priced_entry show entry upstream rate_in rate_out = Inr (Keep m)"
    using assms v id slash tools variant
    by (auto simp: read_entry_def free split: json.splits sum.splits)
  have within: "prices_within (input_prices pricing) (kept_rate rate_in)" "prices_within (output_prices pricing) (kept_rate rate_out)"
    using rates kept_rate_within by (auto simp: rates_of_def split: sum.splits)
  have m: "cm_model m = ROUTING_PREFIX @ upstream" "cm_input m = kept_rate rate_in" "cm_output m = kept_rate rate_out"
    "cm_name m = upstream \<or> truthy (get entry ''name'') \<and> cm_name m = str_of show (get entry ''name'')"
    and low: "\<not> below_zero rate_in" "\<not> below_zero rate_out"
    using p by (auto simp: priced_entry_def Let_def split: if_splits sum.splits)
  have "\<not> flt (kept_rate r) (Fin 0)" if "\<not> below_zero r" for r
  proof (cases r)
    case (Some f)
    then have f: "\<not> flt f (Fin 0)" using that by (simp add: below_zero_def)
    have "\<not> flt (fround 6 f) (Fin 0)"
    proof (cases f)
      case (Fin q)
      then have "round_even 0 \<le> round_even (q * 10 ^ 6)" using f by (intro round_even_mono) simp
      then show ?thesis using Fin by (simp add: round_to_def round_even_def)
    qed (use f in simp_all)
    then show ?thesis using Some by (simp add: kept_rate_def)
  qed (simp add: kept_rate_def)
  then have pos: "\<not> flt (cm_input m) (Fin 0)" "\<not> flt (cm_output m) (Fin 0)" using low m by simp_all
  have ints: "\<forall>n. x = Some n \<longrightarrow> 0 < n" if "catalog_int w = Inr x" for w x
    using that by (cases w) (auto simp: catalog_int_def Let_def split: option.splits if_splits pyfloat.splits)
  have "\<forall>n. cm_context m = Some n \<longrightarrow> 0 < n" "\<forall>n. cm_max_output m = Some n \<longrightarrow> 0 < n"
    using p ints by (auto simp: priced_entry_def Let_def split: if_splits sum.splits)
  then show ?thesis using that v id m slash tools variant pricing within pos by simp
qed

definition keeps :: "(json \<Rightarrow> pystr) \<Rightarrow> pystr \<Rightarrow> json \<Rightarrow> bool" where
  "keeps show model v \<longleftrightarrow> (case read_entry show v of Inr (Keep m) \<Rightarrow> cm_model m = model | _ \<Rightarrow> False)"

definition skips :: "(json \<Rightarrow> pystr) \<Rightarrow> pystr \<Rightarrow> json \<Rightarrow> bool" where
  "skips show reason v \<longleftrightarrow> read_entry show v = Inr (Skip reason)"

lemma parse_entries_kept:
  assumes "parse_entries show vs st = Inr st'"
  shows "map_of (ps_kept st') model =
    (case filter (keeps show model) vs of
       [] \<Rightarrow> map_of (ps_kept st) model
     | ws \<Rightarrow> (case read_entry show (last ws) of Inr (Keep m) \<Rightarrow> Some m | _ \<Rightarrow> None))"
  using assms
proof (induction vs arbitrary: st)
  case (Cons v vs)
  show ?case
  proof (cases "read_entry show v")
    case Inl
    then show ?thesis using Cons.prems by simp
  next
    case (Inr r)
    then show ?thesis
    proof (cases r)
      case (Skip reason)
      then have "map_of (ps_kept st') model = (case filter (keeps show model) vs of
          [] \<Rightarrow> map_of (ps_kept (st\<lparr>ps_skipped := count_skip reason (ps_skipped st)\<rparr>)) model
        | ws \<Rightarrow> (case read_entry show (last ws) of Inr (Keep m) \<Rightarrow> Some m | _ \<Rightarrow> None))"
        using Cons.IH [of "st\<lparr>ps_skipped := count_skip reason (ps_skipped st)\<rparr>"] Cons.prems Inr by simp
      moreover have "\<not> keeps show model v" using Inr Skip by (simp add: keeps_def)
      ultimately show ?thesis by (simp cong: list.case_cong)
    next
      case (Keep m)
      then have rest: "map_of (ps_kept st') model = (case filter (keeps show model) vs of
          [] \<Rightarrow> map_of (ps_kept (st\<lparr>ps_kept := AList.update (cm_model m) m (ps_kept st)\<rparr>)) model
        | ws \<Rightarrow> (case read_entry show (last ws) of Inr (Keep m) \<Rightarrow> Some m | _ \<Rightarrow> None))"
        using Cons.IH [of "st\<lparr>ps_kept := AList.update (cm_model m) m (ps_kept st)\<rparr>"] Cons.prems Inr by simp
      have "keeps show model v \<longleftrightarrow> cm_model m = model" using Inr Keep by (simp add: keeps_def)
      then show ?thesis using rest Inr Keep by (cases "filter (keeps show model) vs") auto
    qed
  qed
qed simp

lemma count_skip_lookup:
  "(case map_of (count_skip r c) reason of None \<Rightarrow> 0 | Some n \<Rightarrow> n) =
   (case map_of c reason of None \<Rightarrow> 0 | Some n \<Rightarrow> n) + (if r = reason then 1 else 0)"
  by (auto simp: count_skip_def split: option.splits)

lemma parse_entries_skipped:
  assumes "parse_entries show vs st = Inr st'"
  shows "(case map_of (ps_skipped st') reason of None \<Rightarrow> 0 | Some n \<Rightarrow> n) =
    (case map_of (ps_skipped st) reason of None \<Rightarrow> 0 | Some n \<Rightarrow> n) + length (filter (skips show reason) vs)"
  using assms
proof (induction vs arbitrary: st)
  case (Cons v vs)
  show ?case
  proof (cases "read_entry show v")
    case Inl
    then show ?thesis using Cons.prems by simp
  next
    case (Inr r)
    then show ?thesis
    proof (cases r)
      case (Skip why)
      then show ?thesis using Cons.IH [of "st\<lparr>ps_skipped := count_skip why (ps_skipped st)\<rparr>"] Cons.prems Inr
        by (simp add: count_skip_lookup skips_def)
    next
      case (Keep m)
      then show ?thesis using Cons.IH [of "st\<lparr>ps_kept := AList.update (cm_model m) m (ps_kept st)\<rparr>"] Cons.prems Inr
        by (simp add: skips_def)
    qed
  qed
qed simp

definition kept_ok :: "parse_state \<Rightarrow> bool" where
  "kept_ok st \<longleftrightarrow> distinct (map fst (ps_kept st)) \<and> (\<forall>x \<in> set (ps_kept st). cm_model (snd x) = fst x)"

lemma kept_ok_update:
  assumes "kept_ok st" shows "kept_ok (st\<lparr>ps_kept := AList.update (cm_model e) e (ps_kept st)\<rparr>)"
proof -
  have "\<forall>x \<in> set (AList.update (cm_model e) e d). cm_model (snd x) = fst x"
    if "\<forall>x \<in> set d. cm_model (snd x) = fst x" for d
    using that by (induction d) auto
  from this [of "ps_kept st"] show ?thesis using assms by (simp add: kept_ok_def)
qed

lemma parse_entries_ok: "parse_entries show vs st = Inr st' \<Longrightarrow> kept_ok st \<Longrightarrow> kept_ok st'"
proof (induction vs arbitrary: st)
  case (Cons v vs)
  show ?case
  proof (cases "read_entry show v")
    case Inl
    then show ?thesis using Cons.prems by simp
  next
    case (Inr r)
    then show ?thesis
      using Cons.prems Cons.IH kept_ok_update [OF Cons.prems(2)] by (cases r) (simp_all add: kept_ok_def)
  qed
qed simp

lemma parse_catalog_Inr:
  assumes "parse_catalog show payload = Inr (models, left_out)"
  obtains d entries st where "payload = JObj d" and "get d ''data'' = JList entries"
    and "parse_entries show entries \<lparr>ps_skipped = [], ps_kept = []\<rparr> = Inr st" and "left_out = ps_skipped st"
    and "models = map (\<lambda>k. the (map_of (ps_kept st) k)) (sort (map fst (ps_kept st)))"
    and "set models = snd ` set (ps_kept st)" and "map cm_model models = sort (map fst (ps_kept st))"
    and "distinct (map fst (ps_kept st))"
proof -
  obtain d entries st where d: "payload = JObj d" "get d ''data'' = JList entries"
    "parse_entries show entries \<lparr>ps_skipped = [], ps_kept = []\<rparr> = Inr st" "left_out = ps_skipped st"
    "models = map (\<lambda>k. the (map_of (ps_kept st) k)) (sort (map fst (ps_kept st)))"
    using assms by (auto simp: parse_catalog_def split: json.splits sum.splits)
  have st: "distinct (map fst (ps_kept st)) \<and> (\<forall>x \<in> set (ps_kept st). cm_model (snd x) = fst x)"
    using parse_entries_ok [OF d(3)] by (simp add: kept_ok_def)
  have look: "map_of (ps_kept st) k = Some m" if "(k, m) \<in> set (ps_kept st)" for k m using st that by simp
  have "set models = snd ` set (ps_kept st)" using look d(5) by (force simp: image_image)
  moreover have "map cm_model models = map id (sort (map fst (ps_kept st)))"
    unfolding d(5) map_map by (rule map_cong) (use look st in \<open>fastforce+\<close>)
  ultimately show ?thesis using that d st by simp
qed


text \<open>An entry is kept, or counted under the reason it is left out for; of the entries of one id the last
  one kept counts.\<close>

lemma catalog_accounts:
  assumes "parse_catalog show payload = Inr (models, left_out)" and "payload = JObj d" and "get d ''data'' = JList entries"
  shows "m \<in> set models \<longleftrightarrow>
      (\<exists>v. filter (keeps show (cm_model m)) entries \<noteq> [] \<and> v = last (filter (keeps show (cm_model m)) entries) \<and>
           read_entry show v = Inr (Keep m))"
    and "(case map_of left_out reason of None \<Rightarrow> 0 | Some n \<Rightarrow> n) = length (filter (skips show reason) entries)"
proof -
  obtain d' entries' st where st: "payload = JObj d'" "get d' ''data'' = JList entries'"
    "parse_entries show entries' \<lparr>ps_skipped = [], ps_kept = []\<rparr> = Inr st" "left_out = ps_skipped st"
    "set models = snd ` set (ps_kept st)" "distinct (map fst (ps_kept st))"
    using parse_catalog_Inr [OF assms(1)] by metis
  then have e: "entries' = entries" using assms by simp
  show "(case map_of left_out reason of None \<Rightarrow> 0 | Some n \<Rightarrow> n) = length (filter (skips show reason) entries)"
    using parse_entries_skipped [OF st(3), of reason] st(4) e by simp
  have ok: "\<forall>x \<in> set (ps_kept st). cm_model (snd x) = fst x"
    using parse_entries_ok [OF st(3)] by (simp add: kept_ok_def)
  have "m \<in> set models \<longleftrightarrow> map_of (ps_kept st) (cm_model m) = Some m"
    using st(5,6) ok by (fastforce simp: image_iff dest: map_of_SomeD)
  also have "\<dots> \<longleftrightarrow> (\<exists>v. filter (keeps show (cm_model m)) entries \<noteq> [] \<and>
      v = last (filter (keeps show (cm_model m)) entries) \<and> read_entry show v = Inr (Keep m))"
    using parse_entries_kept [OF st(3), of "cm_model m"] e
    by (cases "filter (keeps show (cm_model m)) entries") (auto split: sum.splits entry_result.splits)
  finally show "m \<in> set models \<longleftrightarrow>
      (\<exists>v. filter (keeps show (cm_model m)) entries \<noteq> [] \<and> v = last (filter (keeps show (cm_model m)) entries) \<and>
           read_entry show v = Inr (Keep m))" .
qed

lemma catalog_sorted:
  assumes "parse_catalog show payload = Inr (models, left_out)"
  shows "sorted (map cm_model models) \<and> distinct (map cm_model models)"
  using parse_catalog_Inr [OF assms] by (metis distinct_sort sorted_sort)

text \<open>A model of the list runs an agent and is never under-priced: it comes from an entry of the answer,
  under the routed form of its id, that takes tools and is none of the variants left out, and its price is
  at least every price the entry names, tiers and reasoning included, to six decimals; no two models have
  one id.\<close>

lemma catalog_models_sound:
  assumes "parse_catalog show payload = Inr (models, left_out)" and "m \<in> set models"
  shows "\<exists>d entries entry upstream pricing.
      payload = JObj d \<and> get d ''data'' = JList entries \<and> JObj entry \<in> set entries \<and>
      get entry ''id'' = JStr upstream \<and> CHR ''/'' \<in> set upstream \<and> cm_model m = ROUTING_PREFIX @ upstream \<and>
      names_tools (get entry ''supported_parameters'') = Some True \<and> variant_of upstream \<notin> set EXCLUDED_VARIANTS \<and>
      get entry ''pricing'' = JObj pricing \<and>
      prices_within (input_prices pricing) (cm_input m) \<and> prices_within (output_prices pricing) (cm_output m) \<and>
      distinct (map cm_model models)"
proof -
  obtain d entries st where st: "payload = JObj d" "get d ''data'' = JList entries"
    "parse_entries show entries \<lparr>ps_skipped = [], ps_kept = []\<rparr> = Inr st"
    using parse_catalog_Inr [OF assms(1)] by metis
  define ws where "ws = filter (keeps show (cm_model m)) entries"
  have w: "ws \<noteq> []" "read_entry show (last ws) = Inr (Keep m)"
    using catalog_accounts(1) [OF assms(1) st(1,2)] assms(2) by (auto simp: ws_def)
  from w(1) have "last ws \<in> set ws" by simp
  then have "last ws \<in> set entries" by (simp add: ws_def)
  then show ?thesis
    using st(1,2) w(2) conjunct2 [OF catalog_sorted [OF assms(1)]] by (elim read_entry_Keep) metis
qed

text \<open>What is stored of the list reads back as it was, provided no value prints as the empty text.\<close>

lemma model_stored:
  assumes "starts_with (cm_model m) ROUTING_PREFIX" and "\<not> flt (cm_input m) (Fin 0)" and "\<not> flt (cm_output m) (Fin 0)"
    and "\<forall>n. cm_context m = Some n \<longrightarrow> 0 < n" and "\<forall>n. cm_max_output m = Some n \<longrightarrow> 0 < n" and "cm_name m \<noteq> []"
  shows "model_from_json show (model_to_json m) = Inr (Some m)"
proof -
  have "catalog_int (json_opt_int x) = Inr x" if "\<forall>n. x = Some n \<longrightarrow> 0 < n" for x
    using that by (cases x) (simp_all add: json_opt_int_def catalog_int_def)
  then show ?thesis
    using assms by (simp add: model_from_json_def model_to_json_def get_def get_or_def str_of_def float_of_json_def Let_def)
qed

lemma catalog_round_trip:
  assumes "parse_catalog show payload = Inr (models, left_out)" and "m \<in> set models" and "\<And>v. show v \<noteq> []"
  shows "model_from_json show (model_to_json m) = Inr (Some m)"
proof -
  obtain d entries where d: "payload = JObj d" "get d ''data'' = JList entries"
    using parse_catalog_Inr [OF assms(1)] by metis
  obtain v where v: "read_entry show v = Inr (Keep m)" using catalog_accounts(1) [OF assms(1) d] assms(2) by auto
  have name: "str_of show x \<noteq> []" if "truthy x" for x
    using that assms(3) by (cases x) (auto simp: str_of_def int_str_def)
  show ?thesis
    using v
  proof (rule read_entry_Keep, goal_cases)
    case (1 entry upstream pricing)
    then have "upstream \<noteq> []" by auto
    then show ?case using 1 name by (intro model_stored) auto
  qed
qed


definition demo_entry :: "(pystr \<times> json) list" where
  "demo_entry =
     [(''id'', JStr ''acme/fast''), (''supported_parameters'', JList [JStr ''tools'']),
      (''pricing'', JObj [(''prompt'', JFloat (Fin (1 / 1000000))), (''completion'', JFloat (Fin (2 / 1000000))),
                          (''overrides'', JList [JObj [(''prompt'', JFloat (Fin (3 / 1000000)))]])])]"

definition demo_answer :: json where
  "demo_answer = JObj [(''data'', JList [JObj demo_entry])]"

definition demo_model :: catalog_model where
  "demo_model = \<lparr>cm_model = ''openrouter/acme/fast'', cm_name = ''acme/fast'', cm_input = Fin 3, cm_output = Fin 2,
     cm_context = None, cm_max_output = None\<rparr>"

lemmas rate_eval = rates_of_def tiers_def input_prices_def output_prices_def get_def get_or_def rate_def
  List.map_filter_def highest_def float_of_rat_def float_of_int_def fmax_def kept_rate_def is_free_def below_zero_def
  round_to_def round_even_def

lemma demo_answer_parsed: "parse_catalog (\<lambda>_. ''?'') demo_answer = Inr ([demo_model], [])"
proof -
  have "rates_of [(''prompt'', JFloat (Fin (1 / 1000000))), (''completion'', JFloat (Fin (2 / 1000000))),
      (''overrides'', JList [JObj [(''prompt'', JFloat (Fin (3 / 1000000)))]])] = Inr (Some (Fin 3), Some (Fin 2))"
    by (simp add: rate_eval)
  moreover have "variant_of ''acme/fast'' \<notin> set EXCLUDED_VARIANTS" by code_simp
  ultimately have "read_entry (\<lambda>_. ''?'') (JObj demo_entry) = Inr (Keep demo_model)"
    by (simp add: read_entry_def demo_entry_def names_tools_def priced_entry_def catalog_int_def get_def get_or_def
        demo_model_def ROUTING_PREFIX_def is_free_def ftruthy_def below_zero_def kept_rate_def round_to_def round_even_def Let_def)
  then show ?thesis by (simp add: parse_catalog_def demo_answer_def demo_model_def get_def get_or_def)
qed

lemma catalog_models_sound_witness:
  "\<exists>d entries entry upstream pricing.
      demo_answer = JObj d \<and> get d ''data'' = JList entries \<and> JObj entry \<in> set entries \<and>
      get entry ''id'' = JStr upstream \<and> cm_model demo_model = ROUTING_PREFIX @ upstream \<and>
      get entry ''pricing'' = JObj pricing \<and> prices_within (input_prices pricing) (cm_input demo_model)"
  using catalog_models_sound [OF demo_answer_parsed, of demo_model] by fastforce

text \<open>An entry with a price on one side only is kept, and its other side bills nothing; a context length of
  infinity, which Python's decoder takes, raises.\<close>

lemma half_priced_kept:
  "read_entry show (JObj [(''id'', JStr ''a/b''), (''supported_parameters'', JList [JStr ''tools'']),
      (''pricing'', JObj [(''prompt'', JInt 1)])]) =
   Inr (Keep \<lparr>cm_model = ''openrouter/a/b'', cm_name = ''a/b'', cm_input = Fin 1000000, cm_output = Fin 0,
              cm_context = None, cm_max_output = None\<rparr>)"
proof -
  have "rates_of [(''prompt'', JInt 1)] = Inr (Some (Fin 1000000), None)" by (simp add: rate_eval)
  moreover have "variant_of ''a/b'' \<notin> set EXCLUDED_VARIANTS" by code_simp
  ultimately show ?thesis
    by (simp add: read_entry_def names_tools_def priced_entry_def catalog_int_def get_def get_or_def
        ROUTING_PREFIX_def is_free_def ftruthy_def below_zero_def kept_rate_def round_to_def round_even_def Let_def)
qed

lemma infinite_context_raises: "catalog_int (JFloat PInf) = Inl Number_Overflow"
  by (simp add: catalog_int_def)

end
