(* ===== verification/Model_Providers.thy ===== *)
theory Model_Providers
  imports Model_Catalog
begin

text \<open>Which provider serves a model, and at which price (\<open>src/embry0/agents/providers.py\<close>). The
  process environment is the setting that enables providers, the catalog is the one in force.

  The lemmas show that a model routes to at most one provider, and that a routed model the checks let
  through is metered.\<close>

record llm_provider =
  lp_name :: pystr
  lp_base_url :: pystr
  lp_api_key_env :: pystr
  lp_prefixes :: "pystr list"
  lp_models :: "pystr list"
  lp_pricing :: "(pystr \<times> rat \<times> rat) list"
  lp_turn_factor :: rat
  lp_timeout_factor :: rat
  lp_openai_base_url :: pystr
  lp_runtime :: pystr
  lp_sandbox_key_env :: pystr
  lp_base_url_env :: pystr
  lp_sandbox_base_url_env :: pystr
  lp_strip_prefix :: bool
  lp_chat_only :: "pystr list"
  lp_request_extras :: "(pystr \<times> (pystr \<times> json) list) list"
  lp_default_pricing :: "(rat \<times> rat) option"
  lp_probe_path :: pystr

definition plain_provider :: "pystr \<Rightarrow> pystr \<Rightarrow> pystr \<Rightarrow> pystr list \<Rightarrow> pystr list \<Rightarrow> (pystr \<times> rat \<times> rat) list \<Rightarrow> llm_provider" where
  "plain_provider name base_url key prefixes models pricing =
     \<lparr>lp_name = name, lp_base_url = base_url, lp_api_key_env = key, lp_prefixes = prefixes, lp_models = models,
      lp_pricing = pricing, lp_turn_factor = 1, lp_timeout_factor = 1, lp_openai_base_url = [], lp_runtime = ''sdk'',
      lp_sandbox_key_env = [], lp_base_url_env = [], lp_sandbox_base_url_env = [], lp_strip_prefix = False,
      lp_chat_only = [], lp_request_extras = [], lp_default_pricing = None, lp_probe_path = ''/models''\<rparr>"

definition XAI :: llm_provider where
  "XAI = (plain_provider ''xai'' ''https://api.x.ai'' ''XAI_API_KEY'' [''grok-''] [''grok-4.5'', ''grok-4.7'']
     [(''grok-4.5'', 2, 6), (''grok-4.7'', 2, 6)])
     \<lparr>lp_turn_factor := 2, lp_timeout_factor := 2, lp_openai_base_url := ''https://api.x.ai/v1''\<rparr>"

definition ANTHROPIC :: llm_provider where
  "ANTHROPIC = plain_provider ''anthropic'' ''https://api.anthropic.com'' ''ANTHROPIC_API_KEY'' [''claude-'']
     [''claude-opus-5'', ''claude-sonnet-5'', ''claude-haiku-4-5'']
     [(''claude-opus-5'', 5, 25), (''claude-sonnet-5'', 3, 15), (''claude-haiku-4-5'', 1, 5)]"

definition OPENAI :: llm_provider where
  "OPENAI = (plain_provider ''openai'' ''https://api.openai.com/v1'' ''OPENAI_API_KEY'' [''gpt-'']
     [''gpt-6.1-sol'', ''gpt-6-luna''] [(''gpt-6.1-sol'', 2, 10), (''gpt-6-luna'', 1 / 10, 1 / 2)])
     \<lparr>lp_openai_base_url := ''https://api.openai.com/v1'', lp_runtime := ''chat_completions'',
      lp_sandbox_key_env := ''EMBRY0_LLM_OPENAI_API_KEY'', lp_chat_only := [''gpt-6.1-sol''],
      lp_request_extras := [(''gpt-6-luna'', [(''reasoning_effort'', JStr ''none'')])]\<rparr>"

definition OPENROUTER :: llm_provider where
  "OPENROUTER = (plain_provider ''openrouter'' ''https://openrouter.ai/api/v1'' ''OPENROUTER_API_KEY'' [''openrouter/'']
     [''openrouter/openai/gpt-6.1-sol''] [(''openrouter/openai/gpt-6.1-sol'', 2, 10)])
     \<lparr>lp_openai_base_url := ''https://openrouter.ai/api/v1'', lp_runtime := ''chat_completions'',
      lp_sandbox_key_env := ''EMBRY0_LLM_OPENROUTER_API_KEY'', lp_strip_prefix := True, lp_probe_path := ''/key''\<rparr>"

definition GOOGLE :: llm_provider where
  "GOOGLE = (plain_provider ''google'' ''https://generativelanguage.googleapis.com/v1beta/openai'' ''GEMINI_API_KEY'' [''gemini-'']
     [''gemini-3.8-flash'', ''gemini-4-argon''] [(''gemini-3.8-flash'', 3 / 4, 15 / 4), (''gemini-4-argon'', 2, 10)])
     \<lparr>lp_openai_base_url := ''https://generativelanguage.googleapis.com/v1beta/openai'', lp_runtime := ''chat_completions'',
      lp_sandbox_key_env := ''EMBRY0_LLM_GOOGLE_API_KEY''\<rparr>"

definition GROQ :: llm_provider where
  "GROQ = (plain_provider ''groq'' ''https://api.groq.com/openai/v1'' ''GROQ_API_KEY'' [''groq/'']
     [''groq/openai/gpt-oss-120b'', ''groq/openai/gpt-oss-20b'']
     [(''groq/openai/gpt-oss-120b'', 3 / 20, 3 / 5), (''groq/openai/gpt-oss-20b'', 3 / 40, 3 / 10)])
     \<lparr>lp_openai_base_url := ''https://api.groq.com/openai/v1'', lp_runtime := ''chat_completions'',
      lp_sandbox_key_env := ''EMBRY0_LLM_GROQ_API_KEY'', lp_strip_prefix := True\<rparr>"

definition DEEPSEEK :: llm_provider where
  "DEEPSEEK = (plain_provider ''deepseek'' ''https://api.deepseek.com'' ''DEEPSEEK_API_KEY'' [''deepseek-'']
     [''deepseek-flash'', ''deepseek-v4-pro''] [(''deepseek-flash'', 3 / 10, 6 / 5), (''deepseek-v4-pro'', 33 / 25, 99 / 25)])
     \<lparr>lp_openai_base_url := ''https://api.deepseek.com'', lp_runtime := ''chat_completions'',
      lp_sandbox_key_env := ''EMBRY0_LLM_DEEPSEEK_API_KEY''\<rparr>"

definition CUSTOM :: llm_provider where
  "CUSTOM = (plain_provider ''custom'' [] ''CUSTOM_LLM_API_KEY'' [''custom/''] [] [])
     \<lparr>lp_runtime := ''chat_completions'', lp_sandbox_key_env := ''EMBRY0_LLM_CUSTOM_API_KEY'',
      lp_base_url_env := ''CUSTOM_LLM_BASE_URL'', lp_sandbox_base_url_env := ''EMBRY0_LLM_CUSTOM_BASE_URL'',
      lp_strip_prefix := True, lp_default_pricing := Some (0, 0), lp_turn_factor := 2, lp_timeout_factor := 2\<rparr>"

definition PROVIDERS :: "llm_provider list" where
  "PROVIDERS = [XAI]"

definition CATALOG_PROVIDERS :: "llm_provider list" where
  "CATALOG_PROVIDERS = ANTHROPIC # PROVIDERS"

definition OPENAI_COMPATIBLE :: "llm_provider list" where
  "OPENAI_COMPATIBLE = [OPENAI, OPENROUTER, GOOGLE, GROQ, DEEPSEEK, CUSTOM]"

definition ALL_PROVIDERS :: "llm_provider list" where
  "ALL_PROVIDERS = CATALOG_PROVIDERS @ OPENAI_COMPATIBLE"

record provider_env =
  pe_setting :: pystr
  pe_catalog :: "catalog option"

definition enabled_openai_compatible :: "provider_env \<Rightarrow> llm_provider list" where
  "enabled_openai_compatible E =
     (let names = map (\<lambda>part. str_lower (strip part)) (filter (\<lambda>part. strip part \<noteq> []) (split_on CHR '','' (pe_setting E)))
      in filter (\<lambda>p. lp_name p \<in> set names) OPENAI_COMPATIBLE)"

definition routed_providers :: "provider_env \<Rightarrow> llm_provider list" where
  "routed_providers E = PROVIDERS @ enabled_openai_compatible E"

definition catalog_providers :: "provider_env \<Rightarrow> llm_provider list" where
  "catalog_providers E = CATALOG_PROVIDERS @ enabled_openai_compatible E"

definition provider_named :: "pystr option \<Rightarrow> llm_provider option" where
  "provider_named name = find (\<lambda>p. Some (lp_name p) = name) ALL_PROVIDERS"

definition has_prefix :: "llm_provider \<Rightarrow> pystr \<Rightarrow> bool" where
  "has_prefix p model \<longleftrightarrow> list_ex (starts_with model) (lp_prefixes p)"

definition provider_for_model :: "provider_env \<Rightarrow> pystr \<Rightarrow> llm_provider option" where
  "provider_for_model E model = find (\<lambda>p. has_prefix p model) (routed_providers E)"

definition upstream_model :: "llm_provider \<Rightarrow> pystr \<Rightarrow> pystr" where
  "upstream_model p model =
     (let prefix = (case lp_prefixes p of x # _ \<Rightarrow> x | [] \<Rightarrow> [])
      in if lp_strip_prefix p \<and> prefix \<noteq> [] \<and> starts_with model prefix then drop (length prefix) model else model)"

definition provider_models :: "provider_env \<Rightarrow> llm_provider \<Rightarrow> pystr list" where
  "provider_models E p =
     (if lp_name p = lp_name OPENROUTER
      then (case catalog_model_ids (pe_catalog E) of Some live \<Rightarrow> live | None \<Rightarrow> lp_models p)
      else lp_models p)"

fun first_given :: "('a \<Rightarrow> 'b option) \<Rightarrow> 'a list \<Rightarrow> 'b option" where
  "first_given f [] = None"
| "first_given f (x # xs) = (case f x of None \<Rightarrow> first_given f xs | Some y \<Rightarrow> Some y)"

definition finite_rates :: "rat \<times> rat \<Rightarrow> pyfloat \<times> pyfloat" where
  "finite_rates r = (case r of (a, b) \<Rightarrow> (Fin a, Fin b))"

definition model_rates :: "provider_env \<Rightarrow> pystr \<Rightarrow> (pyfloat \<times> pyfloat) option" where
  "model_rates E model =
     (case catalog_rates (pe_catalog E) model of
        Some live \<Rightarrow> Some live
      | None \<Rightarrow>
          (case first_given (\<lambda>p. map_of (lp_pricing p) model) ALL_PROVIDERS of
             Some r \<Rightarrow> Some (finite_rates r)
           | None \<Rightarrow> map_option finite_rates
               (first_given (\<lambda>p. if has_prefix p model then lp_default_pricing p else None) ALL_PROVIDERS)))"

definition CACHE_READ_FACTOR :: rat where
  "CACHE_READ_FACTOR = 1 / 10"

definition CACHE_WRITE_FACTOR :: rat where
  "CACHE_WRITE_FACTOR = 5 / 4"

record token_usage =
  tu_input :: int
  tu_output :: int
  tu_cache_read :: int
  tu_cache_creation :: int

definition price_usage :: "provider_env \<Rightarrow> pystr \<Rightarrow> token_usage \<Rightarrow> (pyfloat \<times> pyfloat) option \<Rightarrow> pyfloat option" where
  "price_usage E model u given =
     (case (if given \<noteq> None then given else model_rates E model) of
        None \<Rightarrow> None
      | Some (rate_in, rate_out) \<Rightarrow>
          Some (fmul (fadd (fadd (fadd (fmul rate_in (of_int (tu_input u))) (fmul rate_out (of_int (tu_output u))))
                       (fmul (fmul rate_in (of_int (tu_cache_read u))) CACHE_READ_FACTOR))
                  (fmul (fmul rate_in (of_int (tu_cache_creation u))) CACHE_WRITE_FACTOR)) (1 / 1000000)))"

definition known_models :: "provider_env \<Rightarrow> pystr list" where
  "known_models E = concat (map (provider_models E) (catalog_providers E))"

text \<open>A sorted set of texts.\<close>

definition sorted_set :: "pystr list \<Rightarrow> pystr list" where
  "sorted_set xs = sort (remdups xs)"

definition unpriced_models :: "provider_env \<Rightarrow> pystr list \<Rightarrow> pystr list" where
  "unpriced_models E models =
     sorted_set (filter (\<lambda>m. m \<noteq> [] \<and> provider_for_model E m \<noteq> None \<and> model_rates E m = None) models)"

definition chat_only_models :: "provider_env \<Rightarrow> pystr list \<Rightarrow> pystr list" where
  "chat_only_models E models =
     sorted_set (filter (\<lambda>m. m \<noteq> [] \<and> (case provider_for_model E m of None \<Rightarrow> False | Some p \<Rightarrow> m \<in> set (lp_chat_only p))) models)"

definition is_custom_model :: "provider_env \<Rightarrow> pystr \<Rightarrow> bool" where
  "is_custom_model E model \<longleftrightarrow>
     model \<noteq> [] \<and>
     (case provider_for_model E model of
        None \<Rightarrow> False
      | Some p \<Rightarrow> lp_name p = lp_name CUSTOM \<and> length (hd (lp_prefixes CUSTOM)) < length model)"

section \<open>Routing\<close>

lemma set_sorted_set [simp]: "set (sorted_set xs) = set xs"
  by (simp add: sorted_set_def)

lemma find_Some_iff_unique:
  assumes "\<And>x y. x \<in> set xs \<Longrightarrow> y \<in> set xs \<Longrightarrow> P x \<Longrightarrow> P y \<Longrightarrow> x = y"
  shows "find P xs = Some x \<longleftrightarrow> x \<in> set xs \<and> P x"
  using assms
proof (induction xs)
  case (Cons a xs)
  then have "find P xs = Some x \<longleftrightarrow> x \<in> set xs \<and> P x" by simp
  then show ?case using Cons.prems [of a x] by auto
qed simp

lemma first_given_Some: "first_given f xs = Some y \<Longrightarrow> \<exists>x \<in> set xs. f x = Some y"
  by (induction xs) (auto split: option.splits)

lemma first_given_None: "first_given f xs = None \<longleftrightarrow> (\<forall>x \<in> set xs. f x = None)"
  by (induction xs) (auto split: option.splits)

definition apart :: "pystr \<Rightarrow> pystr \<Rightarrow> bool" where
  "apart p q \<longleftrightarrow> \<not> starts_with p q \<and> \<not> starts_with q p"

lemma apart_prefixes: "apart p q \<Longrightarrow> starts_with s p \<Longrightarrow> \<not> starts_with s q"
  by (auto simp: apart_def starts_with_iff append_eq_append_conv2)

definition prefixes_apart :: "llm_provider list \<Rightarrow> bool" where
  "prefixes_apart ps \<longleftrightarrow>
     sorted_wrt (\<lambda>p q. list_all (\<lambda>a. list_all (apart a) (lp_prefixes q)) (lp_prefixes p)) ps"

lemma all_prefixes_apart: "prefixes_apart ALL_PROVIDERS"
  by code_simp

lemma prefixes_apart_unique:
  assumes "prefixes_apart ps" and "p \<in> set ps" and "q \<in> set ps" and "has_prefix p model" and "has_prefix q model"
  shows "p = q"
proof -
  have "\<not> (has_prefix p model \<and> has_prefix q model)"
    if "list_all (\<lambda>a. list_all (apart a) (lp_prefixes q)) (lp_prefixes p)" for p q
    using that apart_prefixes by (fastforce simp: has_prefix_def list_all_iff list_ex_iff)
  then show ?thesis
    using assms by (induction ps) (auto simp: prefixes_apart_def)
qed

lemma routed_subset: "set (routed_providers E) \<subseteq> set ALL_PROVIDERS"
  by (auto simp: routed_providers_def enabled_openai_compatible_def ALL_PROVIDERS_def CATALOG_PROVIDERS_def Let_def)

text \<open>A model is served by the one provider whose prefix it has, if that is enabled: the order of the
  providers does not matter.\<close>

lemma provider_for_model_iff:
  "provider_for_model E model = Some p \<longleftrightarrow> p \<in> set (routed_providers E) \<and> has_prefix p model"
  unfolding provider_for_model_def
  by (rule find_Some_iff_unique) (use prefixes_apart_unique [OF all_prefixes_apart] routed_subset in blast)

section \<open>Metering\<close>

lemma not_unpriced_rates:
  assumes "model \<in> set models" and "model \<notin> set (unpriced_models E models)" and "model \<noteq> []"
    and "provider_for_model E model \<noteq> None"
  shows "\<exists>r. model_rates E model = Some r"
  using assms by (auto simp: unpriced_models_def)

lemma float_of_rat_nonneg: "0 \<le> q \<Longrightarrow> \<not> flt (float_of_rat q) (Fin 0)"
  by (auto simp: float_of_rat_def)

lemma fmul_nonneg: "\<not> flt a (Fin 0) \<Longrightarrow> 0 \<le> k \<Longrightarrow> \<not> flt (fmul a k) (Fin 0)"
  by (cases a) (auto simp: float_of_rat_nonneg not_less zero_le_mult_iff)

lemma fadd_nonneg: "\<not> flt a (Fin 0) \<Longrightarrow> \<not> flt b (Fin 0) \<Longrightarrow> \<not> flt (fadd a b) (Fin 0)"
  by (cases a; cases b) auto

definition static_nonneg :: "llm_provider \<Rightarrow> bool" where
  "static_nonneg p \<longleftrightarrow>
     list_all (\<lambda>(m, a, b). 0 \<le> a \<and> 0 \<le> b) (lp_pricing p) \<and>
     (case lp_default_pricing p of None \<Rightarrow> True | Some (a, b) \<Rightarrow> 0 \<le> a \<and> 0 \<le> b)"

lemma all_static_nonneg: "list_all static_nonneg ALL_PROVIDERS"
  by code_simp

end
