(* ===== verification/Fallback.thy ===== *)
theory Fallback
  imports Model_Providers
begin

text \<open>Provider fallback: the model an agent runs on when the account of its own model's provider is spent or
  rate-limited (\<open>src/embry0/agents/fallback.py\<close>, \<open>src/embry0/services/credentials/fallback.py\<close>, and
  \<open>_model_fallbacks_for_run\<close> of \<open>src/embry0/orchestration/nodes/agent.py\<close>).

  Times are microseconds; how a time prints and is read, and the answers of the credential resolver for
  the job (which providers a person pinned, which have no usable account), are parameters.

  The lemmas show that a stand-in always runs: its model is one the checks let through and its provider is
  ready and not paused; and that a paused provider without one has none in the order.\<close>

section \<open>The plan\<close>

definition ACCOUNT_PAUSE_REASONS :: "pystr dict" where
  "ACCOUNT_PAUSE_REASONS =
     [(''ERR_PROVIDER_QUOTA_EXHAUSTED'', ''quota_exhausted''), (''ERR_PROVIDER_RATE_LIMITED'', ''rate_limited'')]"

record pause =
  pa_provider :: pystr
  pa_reason :: pystr
  pa_until :: "int option"

record model_fallback =
  mf_paused_provider :: pystr
  mf_model :: pystr
  mf_provider :: pystr
  mf_reason :: pystr
  mf_until :: "pystr option"

record fallback_env =
  fb_providers :: provider_env
  fb_show :: "json \<Rightarrow> pystr"
  fb_isoformat :: "int \<Rightarrow> pystr"
  fb_aware_datetime :: "json \<Rightarrow> int option"
  fb_pinned :: "pystr \<Rightarrow> bool"
  fb_llm_pause :: "pystr \<Rightarrow> pause option"

definition provider_name :: "fallback_env \<Rightarrow> pystr \<Rightarrow> pystr" where
  "provider_name E model = (case provider_for_model (fb_providers E) model of Some p \<Rightarrow> lp_name p | None \<Rightarrow> ''anthropic'')"

definition to_config :: "model_fallback \<Rightarrow> (pystr \<times> json) list" where
  "to_config f =
     [(''model'', JStr (mf_model f)), (''provider'', JStr (mf_provider f)), (''reason'', JStr (mf_reason f)),
      (''until'', case mf_until f of None \<Rightarrow> JNull | Some t \<Rightarrow> JStr t)]"

definition from_config :: "fallback_env \<Rightarrow> pystr \<Rightarrow> json \<Rightarrow> model_fallback option" where
  "from_config E paused_provider raw =
     (case raw of
        JObj d \<Rightarrow>
          (case get d ''model'' of
             JStr model \<Rightarrow>
               if model = [] then None
               else Some \<lparr>mf_paused_provider = paused_provider, mf_model = model,
                          mf_provider = (if truthy (get d ''provider'') then str_of (fb_show E) (get d ''provider'')
                                         else provider_name E model),
                          mf_reason = (if truthy (get d ''reason'') then str_of (fb_show E) (get d ''reason'') else ''paused''),
                          mf_until = (if truthy (get d ''until'') then Some (str_of (fb_show E) (get d ''until'')) else None)\<rparr>
           | _ \<Rightarrow> None)
      | _ \<Rightarrow> None)"

definition for_pause :: "fallback_env \<Rightarrow> pause \<Rightarrow> pystr \<Rightarrow> model_fallback" where
  "for_pause E p model =
     \<lparr>mf_paused_provider = pa_provider p, mf_model = model, mf_provider = provider_name E model,
      mf_reason = pa_reason p, mf_until = map_option (fb_isoformat E) (pa_until p)\<rparr>"

definition trace_record :: "model_fallback \<Rightarrow> pystr \<Rightarrow> (pystr \<times> json) list" where
  "trace_record f instead_of =
     [(''instead_of'', JStr instead_of), (''provider'', JStr (mf_paused_provider f)), (''reason'', JStr (mf_reason f)),
      (''until'', case mf_until f of None \<Rightarrow> JNull | Some t \<Rightarrow> JStr t)]"

text \<open>The deployment's model policy: the fallback order as stored, and the disabled models.\<close>

record model_policy =
  mp_fallback_models :: json
  mp_disabled_models :: "pystr list"

definition add_model :: "json \<Rightarrow> pystr list \<Rightarrow> pystr list" where
  "add_model v order =
     (case v of JStr m \<Rightarrow> if strip m \<noteq> [] \<and> strip m \<notin> set order then order @ [strip m] else order | _ \<Rightarrow> order)"

definition fallback_order :: "model_policy \<Rightarrow> pystr list" where
  "fallback_order policy = (case mp_fallback_models policy of JList raw \<Rightarrow> fold add_model raw [] | _ \<Rightarrow> [])"

definition runnable_fallback_models :: "provider_env \<Rightarrow> pystr list \<Rightarrow> pystr list \<Rightarrow> pystr list" where
  "runnable_fallback_models E order disabled =
     (let models = filter (\<lambda>m. (m \<in> set (known_models E) \<or> is_custom_model E m) \<and> m \<notin> set disabled) order
      in filter (\<lambda>m. m \<notin> set (unpriced_models E models) \<and> m \<notin> set (chat_only_models E models)) models)"

definition candidates :: "fallback_env \<Rightarrow> pystr \<Rightarrow> pystr list \<Rightarrow> pystr list \<Rightarrow> (pystr \<times> pystr) list" where
  "candidates E paused_provider order skip =
     filter (\<lambda>(m, p). p \<noteq> paused_provider \<and> p \<notin> set skip) (map (\<lambda>m. (m, provider_name E m)) order)"

type_synonym fallback_plan = "(pystr \<times> model_fallback) list"

definition substitute :: "fallback_env \<Rightarrow> pystr \<Rightarrow> fallback_plan \<Rightarrow> model_fallback option" where
  "substitute E model fallbacks =
     (case map_of fallbacks (provider_name E model) of
        None \<Rightarrow> None
      | Some f \<Rightarrow> if mf_model f = model then None else Some f)"

definition fallbacks_from_config :: "fallback_env \<Rightarrow> json \<Rightarrow> fallback_plan" where
  "fallbacks_from_config E raw =
     (case raw of
        JObj d \<Rightarrow> List.map_filter (\<lambda>(p, entry). map_option (Pair p) (from_config E p entry)) d
      | _ \<Rightarrow> [])"

definition paused_by_output :: "fallback_env \<Rightarrow> json \<Rightarrow> pause dict \<Rightarrow> pause dict" where
  "paused_by_output E output paused =
     (case output of
        JObj d \<Rightarrow>
          (case get d ''provider'' of
             JStr p \<Rightarrow>
               if p = [] then paused
               else (case map_of ACCOUNT_PAUSE_REASONS (str_or_empty (fb_show E) (get d ''error_code'')) of
                       None \<Rightarrow> AList.delete p paused
                     | Some reason \<Rightarrow>
                         AList.update p \<lparr>pa_provider = p, pa_reason = reason,
                                         pa_until = fb_aware_datetime E (get d ''provider_resets_at'')\<rparr> paused)
           | _ \<Rightarrow> paused)
      | _ \<Rightarrow> paused)"

definition paused_by_outputs :: "fallback_env \<Rightarrow> json list \<Rightarrow> pause dict" where
  "paused_by_outputs E outputs = fold (paused_by_output E) outputs []"

definition ready_model :: "fallback_env \<Rightarrow> pystr \<Rightarrow> pystr list \<Rightarrow> pystr list \<Rightarrow> pystr list \<Rightarrow> (pystr \<times> pystr) option" where
  "ready_model E provider order paused ready =
     find (\<lambda>(m, other). other \<in> set ready) (candidates E provider order paused)"

definition planned_for ::
  "fallback_env \<Rightarrow> fallback_plan \<Rightarrow> pause dict \<Rightarrow> pystr list \<Rightarrow> pystr list \<Rightarrow> pystr list \<Rightarrow> pystr \<Rightarrow> model_fallback option"
where
  "planned_for E plan paused_now order ready paused provider =
     (case map_of plan provider of
        Some planned \<Rightarrow>
          if mf_provider planned \<in> set ready \<and> mf_provider planned \<notin> fst ` set paused_now then Some planned
          else map_option (\<lambda>(model, other). planned\<lparr>mf_model := model, mf_provider := other\<rparr>)
                 (ready_model E provider order paused ready)
      | None \<Rightarrow>
          map_option (\<lambda>(model, other). for_pause E (the (map_of paused_now provider)) model)
            (ready_model E provider order paused ready))"

definition replan :: "fallback_env \<Rightarrow> fallback_plan \<Rightarrow> pause dict \<Rightarrow> pystr list \<Rightarrow> pystr list \<Rightarrow> fallback_plan" where
  "replan E plan paused_now order ready =
     (let paused = sorted_set (map fst plan @ map fst paused_now) in
      List.map_filter (\<lambda>p. map_option (Pair p) (planned_for E plan paused_now order ready paused p)) paused)"

text \<open>The plan of an agent run: the stored one, and the providers a run of the job failed on since, but for
  those whose key a person chose.\<close>

definition model_fallbacks_for_run ::
  "fallback_env \<Rightarrow> json \<Rightarrow> json list \<Rightarrow> model_policy \<Rightarrow> pystr list \<Rightarrow> fallback_plan"
where
  "model_fallbacks_for_run E stored outputs policy sandbox_providers =
     (let order = runnable_fallback_models (fb_providers E) (fallback_order policy) (mp_disabled_models policy) in
      if order = [] then []
      else
        (let plan = fallbacks_from_config E stored;
             paused_now = filter (\<lambda>(p, _). \<not> fb_pinned E p) (paused_by_outputs E outputs)
         in if plan = [] \<and> paused_now = [] then [] else replan E plan paused_now order sandbox_providers))"

section \<open>The account pre-check\<close>

text \<open>A trace of the job: the model it ran on, how it ended and when it was made; newest first.\<close>

record trace_row =
  tr_model :: json
  tr_error_code :: json
  tr_created_at :: "int option"

definition job_account_failure ::
  "fallback_env \<Rightarrow> (pystr \<Rightarrow> int) \<Rightarrow> int \<Rightarrow> trace_row \<Rightarrow> pystr list \<times> pause dict \<Rightarrow> pystr list \<times> pause dict"
where
  "job_account_failure E window now row st =
     (case (tr_model row, st) of
        (JStr model, (seen, paused)) \<Rightarrow>
          (let provider = provider_name E model in
           if model = [] \<or> provider \<in> set seen then (seen, paused)
           else
             (provider # seen,
              case (map_of ACCOUNT_PAUSE_REASONS (str_or_empty (fb_show E) (tr_error_code row)), tr_created_at row) of
                (Some reason, Some made) \<Rightarrow>
                  (let until = made + window reason * 1000000
                   in if now < until
                      then AList.update provider \<lparr>pa_provider = provider, pa_reason = reason, pa_until = Some until\<rparr> paused
                      else paused)
              | _ \<Rightarrow> paused))
      | _ \<Rightarrow> st)"

definition job_account_failures :: "fallback_env \<Rightarrow> (pystr \<Rightarrow> int) \<Rightarrow> int \<Rightarrow> trace_row list \<Rightarrow> pause dict" where
  "job_account_failures E window now traces = snd (fold (job_account_failure E window now) traces ([], []))"

definition pause_of :: "fallback_env \<Rightarrow> pause dict \<Rightarrow> pystr \<Rightarrow> pause option" where
  "pause_of E failures provider =
     (if fb_pinned E provider then None
      else (case map_of failures provider of Some p \<Rightarrow> Some p | None \<Rightarrow> fb_llm_pause E provider))"

definition precheck_for ::
  "fallback_env \<Rightarrow> pause dict \<Rightarrow> pystr list \<Rightarrow> pause dict \<Rightarrow> pystr \<Rightarrow> pause \<Rightarrow> model_fallback option"
where
  "precheck_for E failures order paused provider p =
     map_option (\<lambda>(model, other). for_pause E p model)
       (find (\<lambda>(m, other). pause_of E failures other = None) (candidates E provider order (map fst paused)))"

definition plan_model_fallbacks ::
  "fallback_env \<Rightarrow> pystr list \<Rightarrow> model_policy \<Rightarrow> pause dict \<Rightarrow> fallback_plan"
where
  "plan_model_fallbacks E providers policy failures =
     (let order = runnable_fallback_models (fb_providers E) (fallback_order policy) (mp_disabled_models policy) in
      if order = [] then []
      else
        (let paused = List.map_filter (\<lambda>p. map_option (Pair p) (pause_of E failures p)) (rev (remdups (rev providers)))
         in List.map_filter (\<lambda>(provider, p). map_option (Pair provider) (precheck_for E failures order paused provider p)) paused))"

text \<open>The plan as the pre-check stores it.\<close>

definition stored_plan :: "fallback_plan \<Rightarrow> json" where
  "stored_plan plan = JObj (map (\<lambda>(p, f). (p, JObj (to_config f))) plan)"

section \<open>A stand-in runs\<close>

lemma in_map_filter: "y \<in> set (List.map_filter g xs) \<longleftrightarrow> (\<exists>x \<in> set xs. g x = Some y)"
  by (force simp: List.map_filter_def)

lemma provider_name_not_Nil [simp]: "provider_name E m \<noteq> []"
proof -
  have "list_all (\<lambda>p. lp_name p \<noteq> []) ALL_PROVIDERS" by code_simp
  then have "p \<in> set (routed_providers F) \<Longrightarrow> lp_name p \<noteq> []" for p F
    using routed_subset by (fastforce simp: list_all_iff)
  then show ?thesis by (auto simp: provider_name_def provider_for_model_iff split: option.splits)
qed

lemma from_config_to_config:
  assumes "mf_model f \<noteq> []" and "mf_provider f \<noteq> []"
  shows "\<exists>g. from_config E p (JObj (to_config f)) = Some g \<and> mf_model g = mf_model f \<and> mf_provider g = mf_provider f \<and>
    mf_paused_provider g = p"
  using assms by (simp add: from_config_def to_config_def get_def get_or_def str_of_def)

text \<open>A model an agent may run on: offered, not disabled, served with tool calling, and metered.\<close>

definition may_run :: "provider_env \<Rightarrow> model_policy \<Rightarrow> pystr \<Rightarrow> bool" where
  "may_run E policy m \<longleftrightarrow>
     m \<noteq> [] \<and> (m \<in> set (known_models E) \<or> is_custom_model E m) \<and> m \<notin> set (mp_disabled_models policy) \<and>
     (case provider_for_model E m of None \<Rightarrow> True | Some p \<Rightarrow> m \<notin> set (lp_chat_only p) \<and> model_rates E m \<noteq> None)"

definition model_order :: "provider_env \<Rightarrow> model_policy \<Rightarrow> pystr list" where
  "model_order E policy = runnable_fallback_models E (fallback_order policy) (mp_disabled_models policy)"

lemma fallback_order_not_Nil: "[] \<notin> set (fallback_order policy)"
proof -
  have "[] \<notin> set (fold add_model raw order)" if "[] \<notin> set order" for raw order
    using that
  proof (induction raw arbitrary: order)
    case (Cons v raw)
    have "[] \<notin> set (add_model v order)" using Cons.prems by (cases v) (simp_all add: add_model_def, metis)
    from Cons.IH [OF this] show ?case by simp
  qed simp
  from this [of "[]"] show ?thesis by (cases "mp_fallback_models policy") (simp_all add: fallback_order_def)
qed

lemma model_order_may_run: "m \<in> set (model_order E policy) \<longleftrightarrow> m \<in> set (fallback_order policy) \<and> may_run E policy m"
proof (cases "m \<in> set (fallback_order policy)")
  case True
  then have m: "m \<noteq> []" using fallback_order_not_Nil [of policy] by metis
  define ms where "ms = filter (\<lambda>m. (m \<in> set (known_models E) \<or> is_custom_model E m) \<and> m \<notin> set (mp_disabled_models policy))
    (fallback_order policy)"
  have "m \<in> set (model_order E policy) \<longleftrightarrow> m \<in> set ms \<and> m \<notin> set (unpriced_models E ms) \<and> m \<notin> set (chat_only_models E ms)"
    by (auto simp: model_order_def runnable_fallback_models_def Let_def ms_def)
  also have "\<dots> \<longleftrightarrow> m \<in> set ms \<and>
      (case provider_for_model E m of None \<Rightarrow> True | Some p \<Rightarrow> m \<notin> set (lp_chat_only p) \<and> model_rates E m \<noteq> None)"
    using m by (auto simp: unpriced_models_def chat_only_models_def split: option.splits)
  finally show ?thesis using True m by (simp add: ms_def may_run_def)
qed (simp add: model_order_def runnable_fallback_models_def Let_def)

lemma find_SomeD: "find P xs = Some x \<Longrightarrow> x \<in> set xs \<and> P x"
  by (induction xs) (auto split: if_splits)

lemma find_NoneD: "find P xs = None \<Longrightarrow> x \<in> set xs \<Longrightarrow> \<not> P x"
  by (induction xs) (auto split: if_splits)

lemma candidates_set:
  "(m, q) \<in> set (candidates E p order skip) \<longleftrightarrow> m \<in> set order \<and> q = provider_name E m \<and> q \<noteq> p \<and> q \<notin> set skip"
  by (auto simp: candidates_def)

lemma precheck_for_Some:
  assumes "precheck_for E failures order paused provider p = Some f"
  shows "mf_model f \<in> set order" and "mf_provider f = provider_name E (mf_model f)" and "mf_provider f \<noteq> provider"
    and "mf_provider f \<notin> keys paused" and "pause_of E failures (mf_provider f) = None"
proof -
  obtain m other where c: "(m, other) \<in> set (candidates E provider order (map fst paused))" "pause_of E failures other = None"
    "f = for_pause E p m"
    using assms by (auto simp: precheck_for_def dest!: find_SomeD)
  then show "mf_model f \<in> set order" "mf_provider f = provider_name E (mf_model f)" "mf_provider f \<noteq> provider"
    "mf_provider f \<notin> keys paused" "pause_of E failures (mf_provider f) = None"
    by (auto simp: candidates_set for_pause_def keys_def)
qed

lemma plan_model_fallbacks_sound:
  assumes "(p, f) \<in> set (plan_model_fallbacks E providers policy failures)"
  shows "mf_model f \<in> set (model_order (fb_providers E) policy)" and "mf_provider f = provider_name E (mf_model f)"
    and "mf_provider f \<notin> keys (plan_model_fallbacks E providers policy failures)"
    and "p \<in> set providers" and "pause_of E failures p \<noteq> None" and "pause_of E failures (mf_provider f) = None"
proof -
  define order where "order = model_order (fb_providers E) policy"
  define paused where "paused = List.map_filter (\<lambda>p. map_option (Pair p) (pause_of E failures p)) (rev (remdups (rev providers)))"
  have plan: "plan_model_fallbacks E providers policy failures = (if order = [] then [] else
      List.map_filter (\<lambda>(provider, p). map_option (Pair provider) (precheck_for E failures order paused provider p)) paused)"
    by (simp add: plan_model_fallbacks_def order_def model_order_def paused_def Let_def)
  have entry: "\<exists>pa. (q, pa) \<in> set paused \<and> precheck_for E failures order paused q pa = Some g"
    if "(q, g) \<in> set (plan_model_fallbacks E providers policy failures)" for q g
    using that unfolding plan by (auto simp: in_map_filter split: if_splits)
  obtain pa where e: "(p, pa) \<in> set paused" "precheck_for E failures order paused p pa = Some f"
    using entry [OF assms] by blast
  note f = precheck_for_Some [OF e(2)]
  show "mf_model f \<in> set (model_order (fb_providers E) policy)" "mf_provider f = provider_name E (mf_model f)"
    "pause_of E failures (mf_provider f) = None"
    using f by (simp_all add: order_def)
  have "keys (plan_model_fallbacks E providers policy failures) \<subseteq> keys paused"
    using entry by (force simp: keys_def)
  then show "mf_provider f \<notin> keys (plan_model_fallbacks E providers policy failures)" using f(4) by blast
  show "p \<in> set providers" "pause_of E failures p \<noteq> None" using e(1) by (auto simp: paused_def in_map_filter)
qed

text \<open>What a plan for a run gives a paused provider.\<close>

lemma ready_model_Some:
  assumes "ready_model E p order paused ready = Some (m, other)"
  shows "m \<in> set order \<and> other = provider_name E m \<and> other \<in> set ready \<and> other \<notin> set paused"
  using find_SomeD [OF assms [unfolded ready_model_def]] by (auto simp: candidates_set)

lemma planned_for_Some:
  assumes "planned_for E plan paused_now order ready paused p = Some f" and "set paused = keys plan \<union> keys paused_now"
  shows "mf_provider f \<in> set ready" and "mf_provider f \<notin> keys paused_now"
    and "map_of plan p = Some f \<or>
      mf_model f \<in> set order \<and> mf_provider f = provider_name E (mf_model f) \<and> mf_provider f \<notin> keys plan"
proof -
  have "map_of plan p = Some f \<and> mf_provider f \<in> set ready \<and> mf_provider f \<notin> keys paused_now \<or>
      (\<exists>m. ready_model E p order paused ready = Some (m, mf_provider f) \<and> mf_model f = m)"
  proof (cases "map_of plan p")
    case None
    then obtain m other where "ready_model E p order paused ready = Some (m, other)"
      "f = for_pause E (the (map_of paused_now p)) m" using assms(1) by (auto simp: planned_for_def)
    then show ?thesis using ready_model_Some [of E p order paused ready m other] by (simp add: for_pause_def)
  next
    case (Some g)
    then show ?thesis using assms(1) by (auto simp: planned_for_def keys_def split: if_splits)
  qed
  then show "mf_provider f \<in> set ready" "mf_provider f \<notin> keys paused_now"
    "map_of plan p = Some f \<or> mf_model f \<in> set order \<and> mf_provider f = provider_name E (mf_model f) \<and> mf_provider f \<notin> keys plan"
    using ready_model_Some [of E p order paused ready] assms(2) by blast+
qed

lemma replan_entry:
  assumes "(p, f) \<in> set (replan E plan paused_now order ready)"
  shows "p \<in> keys plan \<union> keys paused_now" and "mf_provider f \<in> set ready" and "mf_provider f \<notin> keys paused_now"
    and "map_of plan p = Some f \<or>
      mf_model f \<in> set order \<and> mf_provider f = provider_name E (mf_model f) \<and> mf_provider f \<notin> keys plan"
proof -
  define paused where "paused = sorted_set (map fst plan @ map fst paused_now)"
  have paused: "set paused = keys plan \<union> keys paused_now" by (simp add: paused_def keys_def)
  have e: "p \<in> set paused" "planned_for E plan paused_now order ready paused p = Some f"
    using assms by (auto simp: replan_def Let_def in_map_filter simp flip: paused_def)
  then show "p \<in> keys plan \<union> keys paused_now" using paused by simp
  show "mf_provider f \<in> set ready" "mf_provider f \<notin> keys paused_now"
    "map_of plan p = Some f \<or> mf_model f \<in> set order \<and> mf_provider f = provider_name E (mf_model f) \<and> mf_provider f \<notin> keys plan"
    by (rule planned_for_Some [OF e(2) paused])+
qed

lemma replan_missing:
  assumes "p \<in> keys plan \<union> keys paused_now" and "p \<notin> keys (replan E plan paused_now order ready)" and "m \<in> set order"
  shows "provider_name E m \<in> keys plan \<union> keys paused_now \<or> provider_name E m \<notin> set ready"
proof (rule ccontr)
  assume n: "\<not> ?thesis"
  define paused where "paused = sorted_set (map fst plan @ map fst paused_now)"
  have paused: "set paused = keys plan \<union> keys paused_now" by (simp add: paused_def keys_def)
  have "provider_name E m \<noteq> p" using n assms(1) by blast
  then have "(m, provider_name E m) \<in> set (candidates E p order paused)" using n assms(3) paused by (simp add: candidates_set)
  then have "ready_model E p order paused ready \<noteq> None" using n find_NoneD by (fastforce simp: ready_model_def)
  then have "\<exists>f. planned_for E plan paused_now order ready paused p = Some f"
    by (cases "map_of plan p") (auto simp: planned_for_def)
  then have "\<exists>f. (p, f) \<in> set (replan E plan paused_now order ready)"
    using assms(1) paused by (auto simp: replan_def Let_def in_map_filter simp flip: paused_def)
  then show False using assms(2) by (force simp: keys_def)
qed


text \<open>A stored plan reads back with its stand-ins.\<close>

lemma stored_plan_read:
  assumes "(p, g) \<in> set (fallbacks_from_config E (stored_plan plan))"
    and "\<And>q f. (q, f) \<in> set plan \<Longrightarrow> mf_model f \<noteq> [] \<and> mf_provider f \<noteq> []"
  shows "\<exists>f. (p, f) \<in> set plan \<and> mf_model g = mf_model f \<and> mf_provider g = mf_provider f"
proof -
  obtain f where f: "(p, f) \<in> set plan" "from_config E p (JObj (to_config f)) = Some g"
    using assms(1) by (auto simp: fallbacks_from_config_def stored_plan_def in_map_filter)
  then show ?thesis using from_config_to_config [of f E p] assms(2) by fastforce
qed

lemma stored_plan_keys:
  assumes "\<And>q f. (q, f) \<in> set plan \<Longrightarrow> mf_model f \<noteq> [] \<and> mf_provider f \<noteq> []"
  shows "keys (fallbacks_from_config E (stored_plan plan)) = keys plan"
proof -
  have "q \<in> keys (fallbacks_from_config E (stored_plan plan))" if q: "(q, f) \<in> set plan" for q f
  proof -
    obtain g where "from_config E q (JObj (to_config f)) = Some g" using from_config_to_config assms q by metis
    then have "(q, g) \<in> set (fallbacks_from_config E (stored_plan plan))"
      using q by (force simp: fallbacks_from_config_def stored_plan_def in_map_filter)
    then show ?thesis by (force simp: keys_def)
  qed
  then show ?thesis using stored_plan_read [OF _ assms] by (force simp: keys_def)
qed

definition account_failures :: "fallback_env \<Rightarrow> json list \<Rightarrow> pause dict" where
  "account_failures E outputs = filter (\<lambda>(p, _). \<not> fb_pinned E p) (paused_by_outputs E outputs)"

text \<open>The provider of an output and whether it ended on a spent account.\<close>

definition output_provider :: "json \<Rightarrow> pystr option" where
  "output_provider output = (case output of JObj d \<Rightarrow> nonempty_str (get d ''provider'') | _ \<Rightarrow> None)"

definition account_spent :: "fallback_env \<Rightarrow> json \<Rightarrow> bool" where
  "account_spent E output \<longleftrightarrow>
     (case output of JObj d \<Rightarrow> map_of ACCOUNT_PAUSE_REASONS (str_or_empty (fb_show E) (get d ''error_code'')) \<noteq> None | _ \<Rightarrow> False)"

lemma paused_by_output_keys:
  "keys (paused_by_output E output paused) =
     (case output_provider output of
        None \<Rightarrow> keys paused | Some p \<Rightarrow> if account_spent E output then insert p (keys paused) else keys paused - {p})"
  by (auto simp: paused_by_output_def output_provider_def account_spent_def nonempty_str_def split: json.splits option.splits)

lemma paused_by_outputs_keys:
  "p \<in> keys (paused_by_outputs E outputs) \<longleftrightarrow>
     (case filter (\<lambda>o'. output_provider o' = Some p) outputs of [] \<Rightarrow> False | os \<Rightarrow> account_spent E (last os))"
proof (induction outputs rule: rev_induct)
  case Nil
  then show ?case by (simp add: paused_by_outputs_def)
next
  case (snoc out outs)
  have "paused_by_outputs E (outs @ [out]) = paused_by_output E out (paused_by_outputs E outs)"
    by (simp add: paused_by_outputs_def)
  then show ?case
    using snoc by (auto simp: paused_by_output_keys split: option.splits list.splits)
qed


text \<open>A paused provider without a stand-in has no ready one in the order.\<close>

lemma stand_in_missing:
  assumes "p \<in> keys (fallbacks_from_config E stored) \<union> keys (account_failures E outputs)"
    and "p \<notin> keys (model_fallbacks_for_run E stored outputs policy held)" and "m \<in> set (model_order (fb_providers E) policy)"
  shows "provider_name E m \<in> keys (fallbacks_from_config E stored) \<union> keys (account_failures E outputs) \<or>
    provider_name E m \<notin> set held"
proof -
  have "model_fallbacks_for_run E stored outputs policy held =
      replan E (fallbacks_from_config E stored) (account_failures E outputs) (model_order (fb_providers E) policy) held"
    using assms(1,3) by (auto simp: model_fallbacks_for_run_def Let_def model_order_def account_failures_def)
  then show ?thesis using replan_missing [OF assms(1) _ assms(3)] assms(2) by simp
qed


definition demo_fallback_env :: fallback_env where
  "demo_fallback_env =
     \<lparr>fb_providers = \<lparr>pe_setting = [], pe_catalog = None\<rparr>, fb_show = (\<lambda>_. ''?''), fb_isoformat = (\<lambda>_. ''soon''),
      fb_aware_datetime = (\<lambda>_. None), fb_pinned = (\<lambda>_. False),
      fb_llm_pause = (\<lambda>p. if p = ''anthropic'' then Some \<lparr>pa_provider = p, pa_reason = ''quota_exhausted'', pa_until = None\<rparr> else None)\<rparr>"

definition demo_policy :: model_policy where
  "demo_policy = \<lparr>mp_fallback_models = JList [JStr ''grok-4.7'', JStr ''grok-4.5''], mp_disabled_models = [''grok-4.5'']\<rparr>"

definition demo_plan :: fallback_plan where
  "demo_plan = plan_model_fallbacks demo_fallback_env [''anthropic''] demo_policy []"

definition demo_stand_in :: model_fallback where
  "demo_stand_in = \<lparr>mf_paused_provider = ''anthropic'', mf_model = ''grok-4.7'', mf_provider = ''xai'',
     mf_reason = ''quota_exhausted'', mf_until = None\<rparr>"

lemma demo_order: "fallback_order demo_policy = [''grok-4.7'', ''grok-4.5'']"
proof -
  have "strip ''grok-4.7'' = ''grok-4.7''" "strip ''grok-4.5'' = ''grok-4.5''" by (rule strip_id; code_simp)+
  then show ?thesis by (simp add: fallback_order_def demo_policy_def add_model_def)
qed

lemma demo_runnable:
  "runnable_fallback_models (fb_providers demo_fallback_env) [''grok-4.7'', ''grok-4.5''] (mp_disabled_models demo_policy) = [''grok-4.7'']"
  by code_simp

lemma demo_planned: "demo_plan = [(''anthropic'', demo_stand_in)]"
proof -
  have "pause_of demo_fallback_env [] ''anthropic'' = Some \<lparr>pa_provider = ''anthropic'', pa_reason = ''quota_exhausted'', pa_until = None\<rparr>"
    "precheck_for demo_fallback_env [] [''grok-4.7''] [(''anthropic'', q)] ''anthropic''
       \<lparr>pa_provider = ''anthropic'', pa_reason = ''quota_exhausted'', pa_until = None\<rparr> = Some demo_stand_in" for q
    by code_simp+
  then show ?thesis by (simp add: demo_plan_def plan_model_fallbacks_def demo_order demo_runnable)
qed

lemma demo_run_plan:
  "model_fallbacks_for_run demo_fallback_env (stored_plan demo_plan) [] demo_policy [''xai''] = [(''anthropic'', demo_stand_in)]"
proof -
  have "replan demo_fallback_env (fallbacks_from_config demo_fallback_env (stored_plan [(''anthropic'', demo_stand_in)])) []
      [''grok-4.7''] [''xai''] = [(''anthropic'', demo_stand_in)]"
    "fallbacks_from_config demo_fallback_env (stored_plan [(''anthropic'', demo_stand_in)]) = [(''anthropic'', demo_stand_in)]"
    by code_simp+
  then show ?thesis
    by (simp add: model_fallbacks_for_run_def demo_planned demo_order demo_runnable paused_by_outputs_def)
qed


end
