(* ===== verification/Worklist.thy ===== *)
theory Worklist
  imports Prelude
begin

text \<open>A depth-first search over a stack with a set of states seen, as an interface: a step pops the top
  and pushes the next states not seen yet, until the stack is empty or a final state is popped. What such
  a search decides is proved once here; a component instantiates it with its own states.\<close>

definition push_state :: "'s \<Rightarrow> 's set \<times> 's list \<Rightarrow> 's set \<times> 's list" where
  "push_state st = (\<lambda>(seen, stack). if st \<in> seen then (seen, stack) else (insert st seen, st # stack))"

lemma push_state_simps:
  "st \<in> seen \<Longrightarrow> push_state st (seen, stack) = (seen, stack)"
  "st \<notin> seen \<Longrightarrow> push_state st (seen, stack) = (insert st seen, st # stack)"
  by (simp_all add: push_state_def)

lemma push_fold_seen: "fst (fold push_state ms (seen, stack)) = seen \<union> set ms"
proof (induction ms arbitrary: seen stack)
  case (Cons m ms)
  then show ?case by (cases "m \<in> seen") (auto simp: push_state_def)
qed simp

lemma push_fold_stack:
  assumes "fold push_state ms (seen, stack) = (seen', stack')"
  shows "seen' - set stack' \<subseteq> seen - set stack" and "set stack \<subseteq> seen \<Longrightarrow> set stack' \<subseteq> seen'"
proof -
  have "(seen' - set stack' \<subseteq> seen - set stack) \<and> (set stack \<subseteq> seen \<longrightarrow> set stack' \<subseteq> seen')"
    using assms
  proof (induction ms arbitrary: seen stack)
    case (Cons m ms)
    show ?case
    proof (cases "m \<in> seen")
      case True
      then show ?thesis using Cons by (simp add: push_state_simps)
    next
      case False
      then have "fold push_state ms (insert m seen, m # stack) = (seen', stack')" using Cons.prems by (simp add: push_state_simps)
      from Cons.IH [OF this] show ?thesis by auto
    qed
  qed simp
  then show "seen' - set stack' \<subseteq> seen - set stack" and "set stack \<subseteq> seen \<Longrightarrow> set stack' \<subseteq> seen'" by blast+
qed

locale stack_search =
  fixes next_states :: "'s \<Rightarrow> 's list"
    and final_state :: "'s \<Rightarrow> bool"
    and search :: "'s set \<Rightarrow> 's list \<Rightarrow> bool"
    and weight :: "'s set \<times> 's list \<Rightarrow> nat"
  assumes search_empty: "search seen [] \<longleftrightarrow> False"
    and search_found: "final_state st \<Longrightarrow> search seen (st # stack)"
    and search_next: "\<not> final_state st \<Longrightarrow> fold push_state (next_states st) (seen, stack) = (seen', stack') \<Longrightarrow>
          search seen (st # stack) \<longleftrightarrow> search seen' stack'"
    and weight_less: "weight (fold push_state (next_states st) (seen, stack)) < weight (seen, st # stack)"
begin

definition leads :: "'s \<Rightarrow> 's \<Rightarrow> bool" where
  "leads st st' \<longleftrightarrow> st' \<in> set (next_states st)"

lemma search_decides:
  assumes "set stack \<subseteq> seen"
    and "\<forall>x \<in> seen - set stack. \<not> final_state x \<and> set (next_states x) \<subseteq> seen"
  shows "search seen stack \<longleftrightarrow> (\<exists>x \<in> seen. \<exists>y. leads\<^sup>*\<^sup>* x y \<and> final_state y)"
  using assms
proof (induction "weight (seen, stack)" arbitrary: seen stack rule: less_induct)
  case less
  show ?case
  proof (cases stack)
    case Nil
    have "y \<in> seen" if "leads\<^sup>*\<^sup>* x y" "x \<in> seen" for x y
      using that less.prems(2) Nil by (induction rule: rtranclp_induct) (auto simp: leads_def)
    then show ?thesis using less.prems(2) Nil by (auto simp: search_empty)
  next
    case (Cons st rest)
    show ?thesis
    proof (cases "final_state st")
      case True
      have "st \<in> seen" using less.prems(1) Cons by simp
      then show ?thesis using True search_found [OF True] Cons by blast
    next
      case False
      obtain seen' stack' where f: "fold push_state (next_states st) (seen, rest) = (seen', stack')" by fastforce
      have s: "seen' = seen \<union> set (next_states st)" using push_fold_seen [of "next_states st" seen rest] f by simp
      note st = push_fold_stack [OF f]
      have sub: "set stack' \<subseteq> seen'" using st(2) less.prems(1) Cons by simp
      have inv: "\<forall>x \<in> seen' - set stack'. \<not> final_state x \<and> set (next_states x) \<subseteq> seen'"
      proof
        fix x assume "x \<in> seen' - set stack'"
        then have "x \<in> seen - set rest" using st(1) by blast
        then show "\<not> final_state x \<and> set (next_states x) \<subseteq> seen'"
          using False s less.prems(2) Cons by (cases "x = st") auto
      qed
      have "search seen stack \<longleftrightarrow> search seen' stack'" using search_next [OF False f] Cons by simp
      also have "\<dots> \<longleftrightarrow> (\<exists>x \<in> seen'. \<exists>y. leads\<^sup>*\<^sup>* x y \<and> final_state y)"
        using less.hyps [OF _ sub inv] weight_less [of st seen rest] f Cons by simp
      also have "\<dots> \<longleftrightarrow> (\<exists>x \<in> seen. \<exists>y. leads\<^sup>*\<^sup>* x y \<and> final_state y)"
      proof -
        have "\<exists>x' \<in> seen. leads\<^sup>*\<^sup>* x' y" if x: "x \<in> seen'" and y: "leads\<^sup>*\<^sup>* x y" for x y
        proof (cases "x \<in> seen")
          case False
          then have "leads st x" using x s by (simp add: leads_def)
          then show ?thesis using y less.prems(1) Cons by (meson converse_rtranclp_into_rtranclp list.set_intros(1) subsetD)
        qed (use y in blast)
        then show ?thesis using s by blast
      qed
      finally show ?thesis .
    qed
  qed
qed

lemma search_from: "search {st} [st] \<longleftrightarrow> (\<exists>y. leads\<^sup>*\<^sup>* st y \<and> final_state y)"
  by (subst search_decides) auto

end

end
