(* ===== verification/Path_Patterns.thy ===== *)
theory Path_Patterns
  imports Py_Str Worklist "HOL-Library.FSet"
begin

text \<open>The paths a shell word can name, and whether one of them can match a deny rule
  (\<open>src/embry0/safety/path_patterns.py\<close>): character sets, the parts of a path pattern, their tokens,
  the search that intersects two token sequences, and the rule globs as regular expressions
  (\<open>_glob_to_regex\<close> of \<open>src/embry0/safety/policy.py\<close>).

  A glob's \<open>?\<close> takes one character, so a string is a list of code points here; \<open>uni\<close> reads a literal.
  As in the code the alphabet is unbounded (code points are integers, which the kernel evaluates fast). The lemmas show that the search ends and finds exactly the
  strings both sequences take.\<close>

type_synonym ustr = "int list"

definition uni :: "string \<Rightarrow> ustr" where
  "uni s = map of_char s"

abbreviation SLASH :: int where "SLASH \<equiv> 47"
abbreviation DOT :: int where "DOT \<equiv> 46"
abbreviation STAR :: int where "STAR \<equiv> 42"
abbreviation NEWLINE :: int where "NEWLINE \<equiv> 10"

section \<open>Character sets\<close>

record char_set =
  cs_chars :: "int fset option"
  cs_excluded :: "int fset"

definition both_chars :: "char_set \<Rightarrow> char_set \<Rightarrow> char_set" where
  "both_chars a b =
     \<lparr>cs_chars = (case cs_chars a of
                  None \<Rightarrow> cs_chars b
                | Some xs \<Rightarrow> (case cs_chars b of None \<Rightarrow> Some xs | Some ys \<Rightarrow> Some (xs |\<inter>| ys))),
      cs_excluded = cs_excluded a |\<union>| cs_excluded b\<rparr>"

definition nonempty :: "char_set \<Rightarrow> bool" where
  "nonempty s \<longleftrightarrow> (case cs_chars s of None \<Rightarrow> True | Some xs \<Rightarrow> xs |-| cs_excluded s \<noteq> {||})"

definition ANY_CHAR :: char_set where
  "ANY_CHAR = \<lparr>cs_chars = None, cs_excluded = {||}\<rparr>"

definition NOT_SLASH :: char_set where
  "NOT_SLASH = \<lparr>cs_chars = None, cs_excluded = {|SLASH|}\<rparr>"

definition NO_DOT :: char_set where
  "NO_DOT = \<lparr>cs_chars = None, cs_excluded = {|DOT|}\<rparr>"

definition only_char :: "int \<Rightarrow> char_set" where
  "only_char c = \<lparr>cs_chars = Some {|c|}, cs_excluded = {||}\<rparr>"

text \<open>The characters a set stands for.\<close>

definition takes :: "char_set \<Rightarrow> int \<Rightarrow> bool" where
  "takes s c \<longleftrightarrow> (case cs_chars s of None \<Rightarrow> True | Some xs \<Rightarrow> c |\<in>| xs) \<and> c |\<notin>| cs_excluded s"

lemma takes_both [simp]: "takes (both_chars a b) c \<longleftrightarrow> takes a c \<and> takes b c"
  by (auto simp: takes_def both_chars_def split: option.splits)

lemma takes_constants [simp]:
  "takes ANY_CHAR c" "takes NOT_SLASH c \<longleftrightarrow> c \<noteq> SLASH" "takes NO_DOT c \<longleftrightarrow> c \<noteq> DOT"
  "takes (only_char d) c \<longleftrightarrow> c = d"
  by (auto simp: takes_def ANY_CHAR_def NOT_SLASH_def NO_DOT_def only_char_def)

lemma nonempty_takes: "nonempty s \<longleftrightarrow> (\<exists>c. takes s c)"
proof (cases "cs_chars s")
  case None
  obtain c where "c \<notin> fset (cs_excluded s)" using ex_new_if_finite [OF infinite_UNIV_int, of "fset (cs_excluded s)"] by auto
  then show ?thesis using None by (auto simp: nonempty_def takes_def)
next
  case (Some xs)
  then show ?thesis by (auto simp: nonempty_def takes_def)
qed

section \<open>Path patterns\<close>

datatype part =
    Lit ustr
  | Star bool
  | One char_set bool
  | Any_Name
  | Wild "part list option"

type_synonym path_ref = "part list"

definition exact_ref :: "ustr \<Rightarrow> path_ref" where
  "exact_ref path = [Lit path]"

definition is_lit :: "part \<Rightarrow> bool" where
  "is_lit p = (case p of Lit _ \<Rightarrow> True | _ \<Rightarrow> False)"

definition is_exact :: "path_ref \<Rightarrow> bool" where
  "is_exact ref = list_all is_lit ref"

text \<open>\<open>path\<close> of an exact reference; how a pattern is shown in a refusal is left out.\<close>

fun exact_path :: "path_ref \<Rightarrow> ustr" where
  "exact_path [] = []"
| "exact_path (Lit t # ps) = t @ exact_path ps"
| "exact_path (_ # ps) = exact_path ps"

fun literal_prefix :: "path_ref \<Rightarrow> ustr" where
  "literal_prefix [] = []"
| "literal_prefix (Lit t # ps) = t @ literal_prefix ps"
| "literal_prefix (_ # ps) = []"

definition below :: "path_ref \<Rightarrow> path_ref" where
  "below ref =
     (if ref = [] then ref @ [Lit [SLASH], Wild None]
      else case last ref of
        Lit t \<Rightarrow> if ends_with t [SLASH] then ref @ [Wild None]
                 else butlast ref @ [Lit (t @ [SLASH]), Wild None]
      | _ \<Rightarrow> ref @ [Lit [SLASH], Wild None])"

text \<open>What a pattern allows, part by part: a guarded glob part does not start with a dot.\<close>

definition undotted :: "ustr \<Rightarrow> bool" where
  "undotted s = (case s of [] \<Rightarrow> True | c # _ \<Rightarrow> c \<noteq> DOT)"

fun allows :: "path_ref \<Rightarrow> ustr \<Rightarrow> bool" where
  "allows [] s \<longleftrightarrow> s = []"
| "allows (Lit t # ps) s \<longleftrightarrow> (\<exists>r. s = t @ r \<and> allows ps r)"
| "allows (Star guard # ps) s \<longleftrightarrow>
     (guard \<longrightarrow> undotted s) \<and> (\<exists>u r. s = u @ r \<and> SLASH \<notin> set u \<and> allows ps r)"
| "allows (One chars guard # ps) s \<longleftrightarrow>
     (guard \<longrightarrow> undotted s) \<and> (\<exists>c r. s = c # r \<and> c \<noteq> SLASH \<and> takes chars c \<and> allows ps r)"
| "allows (Any_Name # ps) s \<longleftrightarrow> (\<exists>u r. s = u @ r \<and> SLASH \<notin> set u \<and> allows ps r)"
| "allows (Wild _ # ps) s \<longleftrightarrow> (\<exists>u r. s = u @ r \<and> allows ps r)"

section \<open>Tokens\<close>

text \<open>A token takes one character, or any number when it repeats; a guard keeps the next character
  taken from being a dot.\<close>

type_synonym token = "char_set \<times> bool \<times> bool"

definition GUARD :: token where
  "GUARD = (ANY_CHAR, False, True)"

definition lit_tokens :: "ustr \<Rightarrow> token list" where
  "lit_tokens t = map (\<lambda>c. (only_char c, False, False)) t"

fun ref_tokens :: "path_ref \<Rightarrow> token list" where
  "ref_tokens [] = []"
| "ref_tokens (Lit t # ps) = lit_tokens t @ ref_tokens ps"
| "ref_tokens (Star guard # ps) = (if guard then [GUARD] else []) @ (NOT_SLASH, True, False) # ref_tokens ps"
| "ref_tokens (One chars guard # ps) =
     (if guard then [GUARD] else []) @ (both_chars chars NOT_SLASH, False, False) # ref_tokens ps"
| "ref_tokens (Any_Name # ps) = (NOT_SLASH, True, False) # ref_tokens ps"
| "ref_tokens (Wild _ # ps) = (ANY_CHAR, True, False) # ref_tokens ps"

fun glob_tokens :: "ustr \<Rightarrow> token list" where
  "glob_tokens [] = []"
| "glob_tokens [c] = [if c = STAR then (NOT_SLASH, True, False) else (only_char c, False, False)]"
| "glob_tokens (c # d # g) =
     (if c = STAR \<and> d = STAR then (ANY_CHAR, True, False) # glob_tokens g
      else (if c = STAR then (NOT_SLASH, True, False) else (only_char c, False, False)) # glob_tokens (d # g))"

definition glob_ends_with_tree :: "ustr \<Rightarrow> bool" where
  "glob_ends_with_tree g = ends_with g [SLASH, STAR, STAR]"

definition tree_base :: "ustr \<Rightarrow> ustr" where
  "tree_base g = take (length g - 3) g"

definition rule_tokens :: "ustr \<Rightarrow> token list list" where
  "rule_tokens g =
     (let alternatives =
        (if glob_ends_with_tree g then
           (let base = glob_tokens (tree_base g)
            in [base, base @ [(only_char SLASH, False, False), (ANY_CHAR, True, False)]])
         else [glob_tokens g])
      in alternatives @ map (\<lambda>a. a @ [(only_char NEWLINE, False, False)]) alternatives)"

definition rule_literal_prefix :: "ustr \<Rightarrow> ustr" where
  "rule_literal_prefix g = takeWhile (\<lambda>c. c \<noteq> STAR) g"

section \<open>The search\<close>

type_synonym istate = "nat \<times> nat \<times> bool \<times> bool"

definition moves :: "token list \<Rightarrow> token list \<Rightarrow> istate \<Rightarrow> istate list" where
  "moves a b st =
     (case st of (i, j, ga, gb) \<Rightarrow>
       (if i < length a then
          (case a ! i of (_, repeats, guard) \<Rightarrow>
             if guard then [(i + 1, j, True, gb)] else if repeats then [(i + 1, j, ga, gb)] else [])
        else []) @
       (if j < length b then
          (case b ! j of (_, repeats, guard) \<Rightarrow>
             if guard then [(i, j + 1, ga, True)] else if repeats then [(i, j + 1, ga, gb)] else [])
        else []) @
       (if i < length a \<and> j < length b then
          (case a ! i of (acs, arep, aguard) \<Rightarrow> case b ! j of (bcs, brep, bguard) \<Rightarrow>
             if \<not> aguard \<and> \<not> bguard then
               (let chars = both_chars acs bcs;
                    chars' = (if ga \<or> gb then both_chars chars NO_DOT else chars)
                in if nonempty chars'
                   then [(if arep then i else i + 1, if brep then j else j + 1, False, False)] else [])
             else [])
        else []))"

text \<open>The head of the list is the top of the stack.\<close>

definition in_bounds :: "token list \<Rightarrow> token list \<Rightarrow> istate set" where
  "in_bounds a b = {0..length a} \<times> {0..length b} \<times> UNIV \<times> UNIV"

lemma finite_in_bounds [simp]: "finite (in_bounds a b)"
  by (simp add: in_bounds_def)

text \<open>The measure of the search: states not seen yet, and what is left of the stack; a state out of
  bounds (none is ever pushed) can only move towards the ends of the sequences.\<close>

definition state_weight :: "token list \<Rightarrow> token list \<Rightarrow> istate \<Rightarrow> nat" where
  "state_weight a b = (\<lambda>(i, j, _). 1 + (length a - i) + (length b - j))"

definition search_size :: "token list \<Rightarrow> token list \<Rightarrow> istate set \<times> istate list \<Rightarrow> nat" where
  "search_size a b = (\<lambda>(seen, stack).
     (length a + length b + 1) * card (in_bounds a b - seen) + sum_list (map (state_weight a b) stack))"

lemma push_in_bounds:
  assumes "st \<in> in_bounds a b"
  shows "search_size a b (push_state st p) \<le> search_size a b p"
proof (cases p)
  case (Pair seen stack)
  show ?thesis
  proof (cases "st \<in> seen")
    case False
    have "in_bounds a b - insert st seen = (in_bounds a b - seen) - {st}" by auto
    moreover have "st \<in> in_bounds a b - seen" using assms False by simp
    ultimately have c: "card (in_bounds a b - seen) = Suc (card (in_bounds a b - insert st seen))"
      by (metis card_Suc_Diff1 finite_Diff finite_in_bounds)
    have "state_weight a b st \<le> length a + length b + 1"
      by (auto simp: state_weight_def split: prod.split)
    then show ?thesis using False by (simp add: Pair push_state_def search_size_def c)
  qed (simp add: Pair push_state_def)
qed

lemma push_fold_in_bounds:
  assumes "set ms \<subseteq> in_bounds a b"
  shows "search_size a b (fold push_state ms p) \<le> search_size a b p"
  using assms
proof (induction ms arbitrary: p)
  case (Cons m ms)
  have "search_size a b (fold push_state ms (push_state m p)) \<le> search_size a b (push_state m p)"
    using Cons by simp
  also have "\<dots> \<le> search_size a b p" using Cons.prems push_in_bounds by simp
  finally show ?case by simp
qed simp

lemma push_weight: "search_size a b (push_state st (seen, stack)) \<le>
  search_size a b (seen, stack) + state_weight a b st"
proof -
  have "card (in_bounds a b - insert st seen) \<le> card (in_bounds a b - seen)"
    by (rule card_mono) auto
  then have "(length a + length b + 1) * card (in_bounds a b - insert st seen) \<le>
    (length a + length b + 1) * card (in_bounds a b - seen)" by (rule mult_le_mono2)
  then show ?thesis unfolding push_state_def search_size_def by simp
qed

text \<open>The moves, one by one.\<close>

lemma moves_cases:
  assumes "st' \<in> set (moves a b (i, j, ga, gb))"
  obtains (A) "i < length a" "snd (snd (a ! i))" "st' = (i + 1, j, True, gb)"
    | (A') "i < length a" "fst (snd (a ! i))" "\<not> snd (snd (a ! i))" "st' = (i + 1, j, ga, gb)"
    | (B) "j < length b" "snd (snd (b ! j))" "st' = (i, j + 1, ga, True)"
    | (B') "j < length b" "fst (snd (b ! j))" "\<not> snd (snd (b ! j))" "st' = (i, j + 1, ga, gb)"
    | (C) c where "i < length a" "j < length b" "\<not> snd (snd (a ! i))" "\<not> snd (snd (b ! j))"
        "takes (fst (a ! i)) c" "takes (fst (b ! j)) c" "ga \<or> gb \<longrightarrow> c \<noteq> DOT"
        "st' = (if fst (snd (a ! i)) then i else i + 1, if fst (snd (b ! j)) then j else j + 1, False, False)"
proof -
  obtain acs ar ag where ta: "a ! i = (acs, ar, ag)" by (metis prod_cases3)
  obtain bcs br bg where tb: "b ! j = (bcs, br, bg)" by (metis prod_cases3)
  let ?m1 = "if i < length a then if ag then [(i + 1, j, True, gb)] else if ar then [(i + 1, j, ga, gb)] else [] else []"
  let ?m2 = "if j < length b then if bg then [(i, j + 1, ga, True)] else if br then [(i, j + 1, ga, gb)] else [] else []"
  let ?cs = "if ga \<or> gb then both_chars (both_chars acs bcs) NO_DOT else both_chars acs bcs"
  let ?m3 = "if i < length a \<and> j < length b then if \<not> ag \<and> \<not> bg then
      if nonempty ?cs then [(if ar then i else i + 1, if br then j else j + 1, False, False)] else [] else [] else []"
  have "moves a b (i, j, ga, gb) = ?m1 @ ?m2 @ ?m3" by (simp add: moves_def ta tb Let_def)
  then consider "st' \<in> set ?m1" | "st' \<in> set ?m2" | "st' \<in> set ?m3" using assms by auto
  then show thesis
  proof cases
    case 1
    then show thesis using A A' ta by (auto split: if_splits)
  next
    case 2
    then show thesis using B B' tb by (auto split: if_splits)
  next
    case 3
    then obtain c where "takes ?cs c" using nonempty_takes by (auto split: if_splits)
    then show thesis using 3 C [of c] ta tb by (auto split: if_splits)
  qed
qed

lemma moves_in_bounds: "st \<in> in_bounds a b \<Longrightarrow> set (moves a b st) \<subseteq> in_bounds a b"
  by (cases st) (auto simp: in_bounds_def split: if_splits elim!: moves_cases)

lemma moves_outside:
  assumes "st \<notin> in_bounds a b"
  shows "moves a b st = [] \<or> (\<exists>st'. moves a b st = [st'] \<and> state_weight a b st' < state_weight a b st)"
  using assms by (cases st) (auto simp: moves_def in_bounds_def state_weight_def Let_def split: prod.splits if_splits)

lemma search_step:
  "search_size a b (fold push_state (moves a b st) (seen, stack)) < search_size a b (seen, st # stack)"
proof -
  have w: "search_size a b (seen, st # stack) = search_size a b (seen, stack) + state_weight a b st"
    by (simp add: search_size_def)
  have pos: "0 < state_weight a b st" by (auto simp: state_weight_def split: prod.split)
  show ?thesis
  proof (cases "st \<in> in_bounds a b")
    case True
    then show ?thesis using push_fold_in_bounds [OF moves_in_bounds [OF True], of "(seen, stack)"] w pos by linarith
  next
    case False
    from moves_outside [OF this] show ?thesis
    proof (elim disjE exE conjE)
      assume "moves a b st = []"
      then show ?thesis using w pos by simp
    next
      fix st' assume "moves a b st = [st']" and "state_weight a b st' < state_weight a b st"
      then show ?thesis using push_weight [of a b st' seen stack] w by simp
    qed
  qed
qed

function search_states :: "token list \<Rightarrow> token list \<Rightarrow> istate set \<Rightarrow> istate list \<Rightarrow> bool" where
  "search_states a b seen [] = False"
| "search_states a b seen (st # stack) =
     (if fst st = length a \<and> fst (snd st) = length b then True
      else (case fold push_state (moves a b st) (seen, stack) of
              (seen', stack') \<Rightarrow> search_states a b seen' stack'))"
  by pat_completeness auto
termination
proof (relation "measure (\<lambda>(a, b, seen, stack). search_size a b (seen, stack))")
  fix a b seen st stack x y xa xb
  assume "(xa, xb) = fold push_state (moves a b st) (seen, stack)"
  then show "((a, b, xa, xb), a, b, seen, st # stack) \<in> measure (\<lambda>(a, b, seen, stack). search_size a b (seen, stack))"
    using search_step [of a b st seen stack] by (auto dest!: sym [where t = "fold _ _ _"])
qed simp

definition intersects :: "token list \<Rightarrow> token list \<Rightarrow> bool" where
  "intersects a b = (let start = (0, 0, False, False) in search_states a b {start} [start])"

definition could_match :: "path_ref \<Rightarrow> ustr \<Rightarrow> bool" where
  "could_match ref g =
     (let prefix = literal_prefix ref; rule_prefix = rule_literal_prefix g
      in if \<not> (starts_with prefix rule_prefix \<or> starts_with rule_prefix prefix) then False
         else list_ex (intersects (ref_tokens ref)) (rule_tokens g))"

section \<open>What the search decides\<close>

text \<open>The strings a token sequence takes, with the flag a guard has left.\<close>

function token_match :: "token list \<Rightarrow> bool \<Rightarrow> ustr \<Rightarrow> bool" where
  "token_match [] g s \<longleftrightarrow> s = []"
| "token_match ((cs, repeats, guard) # ts) g s \<longleftrightarrow>
     (if guard then token_match ts True s
      else (repeats \<and> token_match ts g s) \<or>
        (case s of [] \<Rightarrow> False
         | c # r \<Rightarrow> takes cs c \<and> (g \<longrightarrow> c \<noteq> DOT) \<and>
             token_match (if repeats then (cs, repeats, guard) # ts else ts) False r))"
  by pat_completeness auto
termination by (relation "measures [\<lambda>(ts, g, s). length s + length ts, \<lambda>(ts, g, s). length ts]") auto

lemma token_match_ConsE:
  assumes "token_match ((cs, repeats, guard) # ts) g s"
  obtains "guard" "token_match ts True s" | "\<not> guard" "repeats" "token_match ts g s"
    | "\<not> guard" "\<exists>c r. s = c # r \<and> takes cs c \<and> (g \<longrightarrow> c \<noteq> DOT) \<and>
        token_match (if repeats then (cs, repeats, guard) # ts else ts) False r"
  using assms by (cases s; cases guard) (auto split: if_splits)

definition is_final :: "token list \<Rightarrow> token list \<Rightarrow> istate \<Rightarrow> bool" where
  "is_final a b st \<longleftrightarrow> fst st = length a \<and> fst (snd st) = length b"

interpretation dfs: stack_search "moves a b" "is_final a b" "search_states a b" "search_size a b"
  for a b :: "token list"
proof
  fix st :: istate and seen stack seen' stack'
  show "search_states a b seen [] \<longleftrightarrow> False" by simp
  show "search_states a b seen (st # stack)" if "is_final a b st" using that by (simp add: is_final_def)
  show "search_states a b seen (st # stack) \<longleftrightarrow> search_states a b seen' stack'"
    if "\<not> is_final a b st" "fold push_state (moves a b st) (seen, stack) = (seen', stack')"
    using that by (auto simp: is_final_def)
  show "search_size a b (fold push_state (moves a b st) (seen, stack)) < search_size a b (seen, st # stack)"
    by (rule search_step)
qed

abbreviation moves_to :: "token list \<Rightarrow> token list \<Rightarrow> istate \<Rightarrow> istate \<Rightarrow> bool" where
  "moves_to a b \<equiv> dfs.leads a b"

lemma intersects_reach:
  "intersects a b \<longleftrightarrow> (\<exists>y. (moves_to a b)\<^sup>*\<^sup>* (0, 0, False, False) y \<and> is_final a b y)"
  unfolding intersects_def Let_def by (rule dfs.search_from)

text \<open>A path of the search to its end reads a common string off, and each common string is a path.\<close>

abbreviation both_match :: "token list \<Rightarrow> token list \<Rightarrow> istate \<Rightarrow> ustr \<Rightarrow> bool" where
  "both_match a b \<equiv> (\<lambda>(i, j, ga, gb) s. token_match (drop i a) ga s \<and> token_match (drop j b) gb s)"

lemma moves_backward:
  assumes "st' \<in> set (moves a b st)" and "both_match a b st' s"
  shows "\<exists>s'. both_match a b st s'"
proof -
  obtain i j ga gb where st: "st = (i, j, ga, gb)" by (metis prod_cases4)
  have da: "drop i a = a ! i # drop (i + 1) a" if "i < length a" using that by (simp add: Cons_nth_drop_Suc)
  have db: "drop j b = b ! j # drop (j + 1) b" if "j < length b" using that by (simp add: Cons_nth_drop_Suc)
  have "st' \<in> set (moves a b (i, j, ga, gb))" using assms(1) st by simp
  then show ?thesis
  proof (cases rule: moves_cases)
    case A
    then show ?thesis using assms(2) da by (cases "a ! i") (auto simp: st)
  next
    case A'
    then show ?thesis using assms(2) da by (cases "a ! i") (auto simp: st)
  next
    case B
    then show ?thesis using assms(2) db by (cases "b ! j") (auto simp: st)
  next
    case B'
    then show ?thesis using assms(2) db by (cases "b ! j") (auto simp: st)
  next
    case (C c)
    obtain acs ar ag where ta: "a ! i = (acs, ar, ag)" by (metis prod_cases3)
    obtain bcs br bg where tb: "b ! j = (bcs, br, bg)" by (metis prod_cases3)
    have "token_match (drop i a) ga (c # s)" using C assms(2) da ta by (auto split: if_splits)
    moreover have "token_match (drop j b) gb (c # s)" using C assms(2) db tb by (auto split: if_splits)
    ultimately have "both_match a b st (c # s)" by (simp add: st)
    then show ?thesis by blast
  qed
qed

lemma reach_common:
  assumes "(moves_to a b)\<^sup>*\<^sup>* st y" and "is_final a b y"
  shows "\<exists>s. both_match a b st s"
  using assms(1)
proof (induction rule: converse_rtranclp_induct)
  case base
  then show ?case using assms(2) by (cases y) (auto simp: is_final_def)
next
  case (step st st')
  then have "st' \<in> set (moves a b st)" by (simp add: dfs.leads_def)
  then show ?case using moves_backward step.IH by blast
qed

lemma common_reach:
  assumes "token_match (drop i a) ga s" and "token_match (drop j b) gb s" and "i \<le> length a" and "j \<le> length b"
  shows "\<exists>y. (moves_to a b)\<^sup>*\<^sup>* (i, j, ga, gb) y \<and> is_final a b y"
  using assms
proof (induction "length s + (length a - i) + (length b - j)" arbitrary: i j ga gb s rule: less_induct)
  case less
  have da: "drop i a = a ! i # drop (i + 1) a" if "i < length a" using that by (simp add: Cons_nth_drop_Suc)
  have db: "drop j b = b ! j # drop (j + 1) b" if "j < length b" using that by (simp add: Cons_nth_drop_Suc)
  have go: ?case if "st' \<in> set (moves a b (i, j, ga, gb))" "\<exists>y. (moves_to a b)\<^sup>*\<^sup>* st' y \<and> is_final a b y" for st'
    using that by (meson converse_rtranclp_into_rtranclp dfs.leads_def [THEN iffD2])
  obtain acs ar ag where ta: "a ! i = (acs, ar, ag)" by (metis prod_cases3)
  obtain bcs br bg where tb: "b ! j = (bcs, br, bg)" by (metis prod_cases3)
  consider (fin) "i = length a" "j = length b"
    | (A) "i < length a" "ag" | (B) "j < length b" "bg"
    | (A') "i < length a" "\<not> ag" "ar" "token_match (drop (i + 1) a) ga s"
    | (B') "j < length b" "\<not> bg" "br" "token_match (drop (j + 1) b) gb s"
    | (C) c r where "i < length a" "j < length b" "\<not> ag" "\<not> bg" "s = c # r" "takes acs c" "takes bcs c"
        "ga \<or> gb \<longrightarrow> c \<noteq> DOT"
        "token_match (drop (if ar then i else i + 1) a) False r" "token_match (drop (if br then j else j + 1) b) False r"
  proof -
    assume fin: "i = length a \<Longrightarrow> j = length b \<Longrightarrow> thesis"
      and A: "i < length a \<Longrightarrow> ag \<Longrightarrow> thesis" and B: "j < length b \<Longrightarrow> bg \<Longrightarrow> thesis"
      and A': "i < length a \<Longrightarrow> \<not> ag \<Longrightarrow> ar \<Longrightarrow> token_match (drop (i + 1) a) ga s \<Longrightarrow> thesis"
      and B': "j < length b \<Longrightarrow> \<not> bg \<Longrightarrow> br \<Longrightarrow> token_match (drop (j + 1) b) gb s \<Longrightarrow> thesis"
      and C: "\<And>c r. i < length a \<Longrightarrow> j < length b \<Longrightarrow> \<not> ag \<Longrightarrow> \<not> bg \<Longrightarrow> s = c # r \<Longrightarrow> takes acs c \<Longrightarrow> takes bcs c \<Longrightarrow>
        ga \<or> gb \<longrightarrow> c \<noteq> DOT \<Longrightarrow> token_match (drop (if ar then i else i + 1) a) False r \<Longrightarrow>
        token_match (drop (if br then j else j + 1) b) False r \<Longrightarrow> thesis"
    show thesis
    proof (cases "i < length a")
      case ia: True
      show thesis
      proof (cases "j < length b")
        case jb: True
        show thesis
        proof (rule token_match_ConsE [OF less.prems(1) [unfolded da [OF ia] ta]])
          assume "\<not> ag" and a: "\<exists>c r. s = c # r \<and> takes acs c \<and> (ga \<longrightarrow> c \<noteq> DOT) \<and>
            token_match (if ar then (acs, ar, ag) # drop (i + 1) a else drop (i + 1) a) False r"
          show thesis
          proof (rule token_match_ConsE [OF less.prems(2) [unfolded db [OF jb] tb]])
            assume "\<not> bg" and "\<exists>c r. s = c # r \<and> takes bcs c \<and> (gb \<longrightarrow> c \<noteq> DOT) \<and>
              token_match (if br then (bcs, br, bg) # drop (j + 1) b else drop (j + 1) b) False r"
            then obtain c r where "s = c # r" "takes acs c" "takes bcs c" "ga \<or> gb \<longrightarrow> c \<noteq> DOT"
              "token_match (if ar then (acs, ar, ag) # drop (i + 1) a else drop (i + 1) a) False r"
              "token_match (if br then (bcs, br, bg) # drop (j + 1) b else drop (j + 1) b) False r"
              using a by blast
            moreover have "(if ar then (acs, ar, ag) # drop (i + 1) a else drop (i + 1) a) = drop (if ar then i else i + 1) a"
              using da [OF ia] ta by simp
            moreover have "(if br then (bcs, br, bg) # drop (j + 1) b else drop (j + 1) b) = drop (if br then j else j + 1) b"
              using db [OF jb] tb by simp
            ultimately show thesis using C [of c r] ia jb \<open>\<not> ag\<close> \<open>\<not> bg\<close> by simp
          qed (use B B' jb in blast)+
        qed (use A A' ia in blast)+
      next
        case False
        then have "s = []" using less.prems(2) by simp
        then show thesis using A A' ia less.prems(1) da ta by (auto split: if_splits)
      qed
    next
      case False
      then have s: "s = []" and i: "i = length a" using less.prems(1,3) by auto
      show thesis
      proof (cases "j < length b")
        case jb: True
        show thesis using B B' jb less.prems(2) db tb s by (auto split: if_splits)
      next
        case False
        then show thesis using fin i less.prems(4) by auto
      qed
    qed
  qed
  then show ?case
  proof cases
    case fin
    then show ?thesis by (auto simp: is_final_def)
  next
    case A
    have m: "(i + 1, j, True, gb) \<in> set (moves a b (i, j, ga, gb))" using A
      by (simp only: moves_def prod.case ta if_True set_append list.set Un_iff insert_iff simp_thms)
    show ?thesis by (rule go [OF m]) (rule less.hyps, use less.prems A da ta in auto)
  next
    case B
    have m: "(i, j + 1, ga, True) \<in> set (moves a b (i, j, ga, gb))" using B
      by (simp only: moves_def prod.case tb if_True if_False set_append list.set Un_iff insert_iff simp_thms)
    show ?thesis by (rule go [OF m]) (rule less.hyps, use less.prems B db tb in auto)
  next
    case A'
    have m: "(i + 1, j, ga, gb) \<in> set (moves a b (i, j, ga, gb))" using A'
      by (simp only: moves_def prod.case ta if_True if_False set_append list.set Un_iff insert_iff simp_thms)
    show ?thesis by (rule go [OF m]) (rule less.hyps, use less.prems A' da ta in auto)
  next
    case B'
    have m: "(i, j + 1, ga, gb) \<in> set (moves a b (i, j, ga, gb))" using B'
      by (simp only: moves_def prod.case tb if_True if_False set_append list.set Un_iff insert_iff simp_thms)
    show ?thesis by (rule go [OF m]) (rule less.hyps, use less.prems B' db tb in auto)
  next
    case C
    have m: "(if ar then i else i + 1, if br then j else j + 1, False, False) \<in> set (moves a b (i, j, ga, gb))"
      using C ta tb by (auto simp: moves_def Let_def nonempty_takes)
    show ?thesis
      by (rule go [OF m]) (rule less.hyps, use less.prems C in auto)
  qed
qed

lemma intersects_iff:
  "intersects a b \<longleftrightarrow> (\<exists>s. token_match a False s \<and> token_match b False s)"
proof
  assume "intersects a b"
  then show "\<exists>s. token_match a False s \<and> token_match b False s"
    using reach_common [of a b "(0, 0, False, False)"] by (auto simp: intersects_reach)
next
  assume "\<exists>s. token_match a False s \<and> token_match b False s"
  then show "intersects a b"
    using common_reach [of 0 a False _ 0 b False] by (auto simp: intersects_reach)
qed

section \<open>Patterns and their tokens\<close>

lemma token_match_guarded:
  "token_match ts True s \<longleftrightarrow> token_match ts False s \<and> undotted s"
proof (induction ts True s rule: token_match.induct)
  case (1 s)
  then show ?case by (auto simp: undotted_def)
next
  case (2 cs repeats guard ts s)
  then show ?case by (cases s) (auto simp: undotted_def)
qed

lemma token_match_lit:
  "token_match (lit_tokens t @ ts) False s \<longleftrightarrow> (\<exists>r. s = t @ r \<and> token_match ts False r)"
proof (induction t arbitrary: s)
  case (Cons c t)
  then show ?case by (cases s) (auto simp: lit_tokens_def)
qed (simp add: lit_tokens_def)

lemma token_match_repeat:
  "token_match ((cs, True, False) # ts) False s \<longleftrightarrow>
     (\<exists>u r. s = u @ r \<and> (\<forall>c \<in> set u. takes cs c) \<and> token_match ts False r)"
  (is "?L s = ?R s")
proof (induction s)
  case (Cons c s)
  have "?R (c # s)" if t: "takes cs c" and R: "?R s"
  proof -
    obtain u r where "s = u @ r" "\<forall>c \<in> set u. takes cs c" "token_match ts False r" using R by blast
    then show ?thesis using t by (intro exI [of _ "c # u"] exI [of _ r]) simp
  qed
  moreover have "?R (c # s)" if "token_match ts False (c # s)"
    using that by (intro exI [of _ "[]"] exI [of _ "c # s"]) simp
  moreover have "token_match ts False (c # s) \<or> takes cs c \<and> ?R s" if R: "?R (c # s)"
  proof -
    obtain u r where u: "c # s = u @ r" "\<forall>c \<in> set u. takes cs c" "token_match ts False r" using R by blast
    show ?thesis
    proof (cases u)
      case (Cons d v)
      then have "s = v @ r" "c = d" using u(1) by simp_all
      then show ?thesis using u(2,3) Cons by auto
    qed (use u in simp)
  qed
  ultimately show ?case using Cons by auto
qed simp

lemma ref_tokens_allows: "token_match (ref_tokens ref) False s \<longleftrightarrow> allows ref s"
proof (induction ref s rule: allows.induct)
  case (3 guard ps s)
  have g: "token_match (GUARD # ts) False s \<longleftrightarrow> token_match ts False s \<and> undotted s" for ts
    by (simp add: GUARD_def token_match_guarded)
  show ?case using 3 by (auto simp: g token_match_repeat simp del: token_match.simps(2))
next
  case (4 chars guard ps s)
  have g: "token_match (GUARD # ts) False s \<longleftrightarrow> token_match ts False s \<and> undotted s" for ts
    by (simp add: GUARD_def token_match_guarded)
  have "token_match ((both_chars chars NOT_SLASH, False, False) # ref_tokens ps) False s \<longleftrightarrow>
      (\<exists>c r. s = c # r \<and> c \<noteq> SLASH \<and> takes chars c \<and> allows ps r)"
    using 4 by (cases s) auto
  then show ?case by (simp add: g del: token_match.simps(2)) blast
qed (auto simp: token_match_lit token_match_repeat simp del: token_match.simps(2))

section \<open>Rule globs as regular expressions\<close>

text \<open>The pieces \<open>_glob_to_regex\<close> writes: an escaped character, \<open>[^/]*\<close>, \<open>.*\<close>, \<open>(?:/.*)?\<close>; and
  the optional newline the policy appends. A dot takes any character (\<open>re.DOTALL\<close>).\<close>

datatype regex_piece = Rx_Char int | Rx_Segment | Rx_Any | Rx_Tree | Rx_Newline

type_synonym regex = "regex_piece list"

fun glob_pieces :: "ustr \<Rightarrow> regex" where
  "glob_pieces [] = []"
| "glob_pieces [c] = [if c = STAR then Rx_Segment else Rx_Char c]"
| "glob_pieces (c # d # g) =
     (if c = STAR then (if d = STAR then Rx_Any # glob_pieces g else Rx_Segment # glob_pieces (d # g))
      else Rx_Char c # glob_pieces (d # g))"

function glob_to_regex :: "ustr \<Rightarrow> regex" where
  "glob_to_regex g =
     (if glob_ends_with_tree g then glob_to_regex (tree_base g) @ [Rx_Tree] else glob_pieces g)"
  by pat_completeness auto
termination
  by (relation "measure length")
    (auto simp: glob_ends_with_tree_def tree_base_def ends_with_iff)

declare glob_to_regex.simps [simp del]

function fullmatch :: "regex \<Rightarrow> ustr \<Rightarrow> bool" where
  "fullmatch [] s \<longleftrightarrow> s = []"
| "fullmatch (Rx_Char c # rx) s \<longleftrightarrow> (case s of [] \<Rightarrow> False | d # t \<Rightarrow> c = d \<and> fullmatch rx t)"
| "fullmatch (Rx_Segment # rx) s \<longleftrightarrow>
     fullmatch rx s \<or> (case s of [] \<Rightarrow> False | d # t \<Rightarrow> d \<noteq> SLASH \<and> fullmatch (Rx_Segment # rx) t)"
| "fullmatch (Rx_Any # rx) s \<longleftrightarrow>
     fullmatch rx s \<or> (case s of [] \<Rightarrow> False | d # t \<Rightarrow> fullmatch (Rx_Any # rx) t)"
| "fullmatch (Rx_Tree # rx) s \<longleftrightarrow>
     fullmatch rx s \<or> (case s of [] \<Rightarrow> False | d # t \<Rightarrow> d = SLASH \<and> fullmatch (Rx_Any # rx) t)"
| "fullmatch (Rx_Newline # rx) s \<longleftrightarrow>
     fullmatch rx s \<or> (case s of [] \<Rightarrow> False | d # t \<Rightarrow> d = NEWLINE \<and> fullmatch rx t)"
  by pat_completeness auto
termination by (relation "measures [\<lambda>(rx, s). length s, \<lambda>(rx, s). length rx]") auto

lemma fullmatch_steps [simp]:
  "fullmatch (p # rx) [] \<longleftrightarrow> (case p of Rx_Char _ \<Rightarrow> False | _ \<Rightarrow> fullmatch rx [])"
  "fullmatch (Rx_Char c # rx) (d # t) \<longleftrightarrow> c = d \<and> fullmatch rx t"
  "fullmatch (Rx_Segment # rx) (d # t) \<longleftrightarrow> fullmatch rx (d # t) \<or> d \<noteq> SLASH \<and> fullmatch (Rx_Segment # rx) t"
  "fullmatch (Rx_Any # rx) (d # t) \<longleftrightarrow> fullmatch rx (d # t) \<or> fullmatch (Rx_Any # rx) t"
  "fullmatch (Rx_Tree # rx) (d # t) \<longleftrightarrow> fullmatch rx (d # t) \<or> d = SLASH \<and> fullmatch (Rx_Any # rx) t"
  "fullmatch (Rx_Newline # rx) (d # t) \<longleftrightarrow> fullmatch rx (d # t) \<or> d = NEWLINE \<and> fullmatch rx t"
proof -
  show "fullmatch (p # rx) [] \<longleftrightarrow> (case p of Rx_Char _ \<Rightarrow> False | _ \<Rightarrow> fullmatch rx [])" by (cases p) simp_all
qed (subst fullmatch.simps, simp)+

declare fullmatch.simps(2-6) [simp del]

definition rule_regex :: "ustr \<Rightarrow> regex" where
  "rule_regex g = glob_to_regex g @ [Rx_Newline]"

text \<open>The strings each piece takes, and the matcher as concatenation.\<close>

fun piece_takes :: "regex_piece \<Rightarrow> ustr \<Rightarrow> bool" where
  "piece_takes (Rx_Char c) u \<longleftrightarrow> u = [c]"
| "piece_takes Rx_Segment u \<longleftrightarrow> (\<forall>c \<in> set u. c \<noteq> SLASH)"
| "piece_takes Rx_Any u \<longleftrightarrow> True"
| "piece_takes Rx_Tree u \<longleftrightarrow> u = [] \<or> hd u = SLASH"
| "piece_takes Rx_Newline u \<longleftrightarrow> u = [] \<or> u = [NEWLINE]"

definition piece_then :: "regex_piece \<Rightarrow> regex \<Rightarrow> ustr \<Rightarrow> bool" where
  "piece_then p rx s \<longleftrightarrow> (\<exists>u r. s = u @ r \<and> piece_takes p u \<and> fullmatch rx r)"

lemma piece_thenI: "piece_takes p u \<Longrightarrow> fullmatch rx r \<Longrightarrow> piece_then p rx (u @ r)"
  by (auto simp: piece_then_def)

lemma piece_then_Nil: "piece_then p rx [] \<longleftrightarrow> piece_takes p [] \<and> fullmatch rx []"
  by (auto simp: piece_then_def)

lemma piece_then_Cons:
  "piece_then p rx (d # t) \<longleftrightarrow>
     piece_takes p [] \<and> fullmatch rx (d # t) \<or> (\<exists>u r. t = u @ r \<and> piece_takes p (d # u) \<and> fullmatch rx r)"
proof
  assume "piece_then p rx (d # t)"
  then obtain u r where u: "d # t = u @ r" "piece_takes p u" "fullmatch rx r" by (auto simp: piece_then_def)
  then show "piece_takes p [] \<and> fullmatch rx (d # t) \<or> (\<exists>u r. t = u @ r \<and> piece_takes p (d # u) \<and> fullmatch rx r)"
    by (cases u) auto
next
  assume "piece_takes p [] \<and> fullmatch rx (d # t) \<or> (\<exists>u r. t = u @ r \<and> piece_takes p (d # u) \<and> fullmatch rx r)"
  then show "piece_then p rx (d # t)"
    using piece_thenI [of p "[]" rx "d # t"] piece_thenI [of p "d # u" rx r for u r] by fastforce
qed

lemma fullmatch_any: "fullmatch (Rx_Any # rx) s \<longleftrightarrow> piece_then Rx_Any rx s"
proof (induction s)
  case (Cons d t)
  then show ?case unfolding fullmatch_steps Cons.IH piece_then_Cons by (simp add: piece_then_def)
qed (simp add: piece_then_Nil)

lemma fullmatch_segment: "fullmatch (Rx_Segment # rx) s \<longleftrightarrow> piece_then Rx_Segment rx s"
proof (induction s)
  case (Cons d t)
  then show ?case unfolding fullmatch_steps Cons.IH piece_then_Cons by (simp add: piece_then_def) blast
qed (simp add: piece_then_Nil)

lemma fullmatch_Cons: "fullmatch (p # rx) s \<longleftrightarrow> piece_then p rx s"
proof (cases p)
  case (Rx_Char c)
  then show ?thesis by (cases s) (auto simp: piece_then_Nil piece_then_Cons)
next
  case Rx_Tree
  have "fullmatch (Rx_Any # rx) t \<longleftrightarrow> (\<exists>u r. t = u @ r \<and> fullmatch rx r)" for t
    unfolding fullmatch_any piece_then_def by simp
  then show ?thesis using Rx_Tree by (cases s) (auto simp: piece_then_Nil piece_then_Cons)
next
  case Rx_Newline
  then show ?thesis by (cases s) (auto simp: piece_then_Nil piece_then_Cons)
qed (simp_all add: fullmatch_any fullmatch_segment)

lemma fullmatch_append: "fullmatch (a @ b) s \<longleftrightarrow> (\<exists>u r. s = u @ r \<and> fullmatch a u \<and> fullmatch b r)"
proof (induction a arbitrary: s)
  case (Cons p a)
  show ?case unfolding append_Cons fullmatch_Cons piece_then_def Cons by (metis append_assoc)
qed simp

text \<open>A rule glob as tokens and as a regular expression.\<close>

fun piece_token :: "regex_piece \<Rightarrow> token" where
  "piece_token (Rx_Char c) = (only_char c, False, False)"
| "piece_token Rx_Segment = (NOT_SLASH, True, False)"
| "piece_token _ = (ANY_CHAR, True, False)"

definition plain_pieces :: "regex \<Rightarrow> bool" where
  "plain_pieces rx \<longleftrightarrow> Rx_Tree \<notin> set rx \<and> Rx_Newline \<notin> set rx"

lemma glob_pieces_tokens: "map piece_token (glob_pieces g) = glob_tokens g"
  by (induction g rule: glob_pieces.induct) auto

lemma glob_pieces_plain: "plain_pieces (glob_pieces g)"
  by (induction g rule: glob_pieces.induct) (auto simp: plain_pieces_def)

lemma token_match_pieces:
  assumes "plain_pieces rx"
  shows "token_match (map piece_token rx) False s \<longleftrightarrow> fullmatch rx s"
  using assms
proof (induction rx arbitrary: s)
  case (Cons p rx)
  have l: "token_match ((only_char c, False, False) # ts) False s \<longleftrightarrow> (\<exists>r. s = [c] @ r \<and> token_match ts False r)" for c ts
    by (cases s) auto
  have "plain_pieces rx" using Cons.prems by (simp add: plain_pieces_def)
  note IH = Cons.IH [OF this]
  show ?case
    using Cons.prems IH
    by (cases p) (auto simp: plain_pieces_def l token_match_repeat fullmatch_Cons piece_then_def
        simp del: token_match.simps(2))
qed simp

lemma glob_pieces_tree:
  "glob_pieces (g @ [SLASH, STAR, STAR]) = glob_pieces g @ [Rx_Char SLASH, Rx_Any]"
  by (induction g rule: glob_pieces.induct) auto

lemma tree_split: "glob_ends_with_tree g \<Longrightarrow> g = tree_base g @ [SLASH, STAR, STAR]"
  by (auto simp: glob_ends_with_tree_def ends_with_iff tree_base_def)

lemma fullmatch_tree: "fullmatch (rx @ [Rx_Tree]) s \<longleftrightarrow> fullmatch rx s \<or> fullmatch (rx @ [Rx_Char SLASH, Rx_Any]) s"
proof -
  have "fullmatch [Rx_Tree] r \<longleftrightarrow> r = [] \<or> fullmatch [Rx_Char SLASH, Rx_Any] r" for r
    by (cases r) (auto simp: fullmatch_Cons piece_then_def)
  then show ?thesis unfolding fullmatch_append by (metis append_Nil2)
qed

lemma fullmatch_newline:
  "fullmatch (rx @ [Rx_Newline]) s \<longleftrightarrow> fullmatch rx s \<or> fullmatch (rx @ [Rx_Char NEWLINE]) s"
proof -
  have "fullmatch [Rx_Newline] r \<longleftrightarrow> r = [] \<or> fullmatch [Rx_Char NEWLINE] r" for r
    by (cases r) (auto simp: fullmatch_Cons piece_then_def)
  then show ?thesis unfolding fullmatch_append by (metis append_Nil2)
qed

text \<open>How the tokens of a rule read it: the outermost trailing \<open>/**\<close> stands for the directory too.\<close>

definition token_regex :: "ustr \<Rightarrow> regex" where
  "token_regex g = (if glob_ends_with_tree g then glob_pieces (tree_base g) @ [Rx_Tree] else glob_pieces g)"

lemma rule_tokens_regex:
  "list_ex (\<lambda>t. token_match t False s) (rule_tokens g) \<longleftrightarrow> fullmatch (token_regex g @ [Rx_Newline]) s"
proof -
  have lit: "(only_char c, False, False) = piece_token (Rx_Char c)" and any: "(ANY_CHAR, True, False) = piece_token Rx_Any" for c
    by simp_all
  have t: "token_match (glob_tokens h @ map piece_token rx) False s \<longleftrightarrow> fullmatch (glob_pieces h @ rx) s"
    if "plain_pieces rx" for h rx
    using that glob_pieces_plain [of h] token_match_pieces [of "glob_pieces h @ rx"]
    by (simp add: plain_pieces_def glob_pieces_tokens)
  note forms = t [of "[]"] t [of "[Rx_Char NEWLINE]"] t [of "[Rx_Char SLASH, Rx_Any]"]
    t [of "[Rx_Char SLASH, Rx_Any, Rx_Char NEWLINE]"]
  show ?thesis
  proof (cases "glob_ends_with_tree g")
    case True
    have "fullmatch (token_regex g @ [Rx_Newline]) s \<longleftrightarrow>
      fullmatch (glob_pieces (tree_base g)) s \<or> fullmatch (glob_pieces (tree_base g) @ [Rx_Char SLASH, Rx_Any]) s \<or>
      fullmatch (glob_pieces (tree_base g) @ [Rx_Char NEWLINE]) s \<or>
      fullmatch (glob_pieces (tree_base g) @ [Rx_Char SLASH, Rx_Any, Rx_Char NEWLINE]) s"
    proof -
      have "fullmatch ((rx @ [Rx_Tree]) @ [Rx_Char NEWLINE]) s \<longleftrightarrow>
        fullmatch (rx @ [Rx_Char NEWLINE]) s \<or> fullmatch (rx @ [Rx_Char SLASH, Rx_Any, Rx_Char NEWLINE]) s" for rx
        using fullmatch_append [of "rx @ [Rx_Char SLASH, Rx_Any]" "[Rx_Char NEWLINE]" s, simplified]
        unfolding fullmatch_append [of "rx @ [Rx_Tree]"] fullmatch_append [of rx "[Rx_Char NEWLINE]"] fullmatch_tree
        by blast
      then show ?thesis
        using True unfolding token_regex_def by (simp add: fullmatch_newline fullmatch_tree del: append_assoc)
    qed
    then show ?thesis using True forms by (auto simp: rule_tokens_def plain_pieces_def Let_def)
  next
    case False
    then show ?thesis using forms by (auto simp: rule_tokens_def plain_pieces_def Let_def token_regex_def fullmatch_newline)
  qed
qed

lemma glob_pieces_regex: "fullmatch (glob_pieces g) s \<Longrightarrow> fullmatch (glob_to_regex g) s"
proof (induction g arbitrary: s rule: glob_to_regex.induct)
  case (1 g)
  show ?case
  proof (cases "glob_ends_with_tree g")
    case True
    have "fullmatch (glob_pieces (tree_base g) @ [Rx_Char SLASH, Rx_Any]) s"
      using 1(2) tree_split [OF True] glob_pieces_tree by metis
    then have "fullmatch (glob_to_regex (tree_base g) @ [Rx_Char SLASH, Rx_Any]) s"
      using 1(1) [OF True] unfolding fullmatch_append by blast
    then show ?thesis using True by (simp add: glob_to_regex.simps [of g] fullmatch_tree)
  qed (use 1 in \<open>simp add: glob_to_regex.simps [of g]\<close>)
qed

lemma token_regex_sound: "fullmatch (token_regex g) s \<Longrightarrow> fullmatch (glob_to_regex g) s"
  using glob_pieces_regex
  by (auto simp: token_regex_def glob_to_regex.simps [of g] fullmatch_append split: if_splits)

definition nested_tree :: "ustr \<Rightarrow> bool" where
  "nested_tree g \<longleftrightarrow> glob_ends_with_tree g \<and> glob_ends_with_tree (tree_base g)"

lemma token_regex_exact: "\<not> nested_tree g \<Longrightarrow> token_regex g = glob_to_regex g"
  by (auto simp: token_regex_def nested_tree_def glob_to_regex.simps [of g] glob_to_regex.simps [of "tree_base g"])

text \<open>The shortcut on the literal prefixes leaves nothing out.\<close>

lemma allows_prefix: "allows ref s \<Longrightarrow> starts_with s (literal_prefix ref)"
proof (induction ref arbitrary: s rule: literal_prefix.induct)
  case (2 t ps)
  then obtain r where "s = t @ r" "starts_with r (literal_prefix ps)" by auto
  then show ?case by (auto simp: starts_with_iff)
qed (auto simp: starts_with_iff)

lemma glob_pieces_prefix: "fullmatch (glob_pieces g @ rx) s \<Longrightarrow> starts_with s (rule_literal_prefix g)"
proof (induction g arbitrary: s rule: glob_pieces.induct)
  case (2 c)
  then show ?case by (auto simp: starts_with_iff rule_literal_prefix_def fullmatch_Cons piece_then_def)
next
  case (3 c d g)
  show ?case
  proof (cases "c = STAR")
    case False
    then obtain r where "s = c # r" "fullmatch (glob_pieces (d # g) @ rx) r"
      using "3.prems" by (auto simp: fullmatch_Cons piece_then_def)
    then show ?thesis using "3.IH"(3) [OF False, of r] False by (auto simp: starts_with_iff rule_literal_prefix_def)
  qed (simp add: starts_with_iff rule_literal_prefix_def)
qed (simp add: starts_with_iff rule_literal_prefix_def)

lemma glob_pieces_literal: "STAR \<notin> set g \<Longrightarrow> fullmatch (glob_pieces g) s \<longleftrightarrow> s = g"
proof (induction g arbitrary: s rule: glob_pieces.induct)
  case (3 c d g)
  then show ?case by (auto simp: fullmatch_Cons piece_then_def)
qed (auto simp: fullmatch_Cons piece_then_def)

lemma starts_with_comparable: "starts_with s p \<Longrightarrow> starts_with s q \<Longrightarrow> starts_with p q \<or> starts_with q p"
  unfolding starts_with_iff by (metis append_eq_append_conv2)

lemma starts_with_trans: "starts_with s p \<Longrightarrow> starts_with p q \<Longrightarrow> starts_with s q"
  unfolding starts_with_iff by auto

lemma token_regex_prefix:
  assumes "fullmatch (token_regex g) s"
  shows "starts_with s (rule_literal_prefix g) \<or> starts_with (rule_literal_prefix g) s"
proof (cases "glob_ends_with_tree g")
  case True
  have p: "rule_literal_prefix g =
      (if STAR \<in> set (tree_base g) then rule_literal_prefix (tree_base g) else tree_base g @ [SLASH])"
  proof -
    have "rule_literal_prefix (b @ [SLASH, STAR, STAR]) = (if STAR \<in> set b then rule_literal_prefix b else b @ [SLASH])" for b
      by (induction b) (auto simp: rule_literal_prefix_def)
    then show ?thesis using tree_split [OF True] by metis
  qed
  from assms consider "fullmatch (glob_pieces (tree_base g)) s" | "fullmatch (glob_pieces g) s"
    using True tree_split [OF True] glob_pieces_tree [of "tree_base g"] by (auto simp: token_regex_def fullmatch_tree)
  then show ?thesis
  proof cases
    case 1
    then show ?thesis
      using glob_pieces_prefix [of "tree_base g" "[]" s] glob_pieces_literal [of "tree_base g" s] p
      by (auto simp: starts_with_iff)
  next
    case 2
    then show ?thesis using glob_pieces_prefix [of g "[]" s] by simp
  qed
next
  case False
  then show ?thesis using assms glob_pieces_prefix [of g "[]" s] by (simp add: token_regex_def)
qed

lemma rule_regex_plain_end:
  assumes "fullmatch (rx @ [Rx_Newline]) s" and "s = [] \<or> last s \<noteq> NEWLINE"
  shows "fullmatch rx s"
  using assms by (auto simp: fullmatch_append fullmatch_Cons piece_then_def)

lemma could_match_sound:
  assumes "could_match ref g"
  shows "\<exists>s. allows ref s \<and> fullmatch (rule_regex g) s"
proof -
  obtain t where t: "t \<in> set (rule_tokens g)" "intersects (ref_tokens ref) t"
    using assms by (auto simp: could_match_def Let_def list_ex_iff split: if_splits)
  then obtain s where s: "allows ref s" "token_match t False s" by (auto simp: intersects_iff ref_tokens_allows)
  then have "fullmatch (token_regex g @ [Rx_Newline]) s" using t(1) rule_tokens_regex [of s g] by (auto simp: list_ex_iff)
  then have "fullmatch (rule_regex g) s"
    unfolding rule_regex_def fullmatch_append using token_regex_sound by blast
  then show ?thesis using s(1) by blast
qed

lemma could_match_complete:
  assumes "allows ref s" and "fullmatch (rule_regex g) s" and "\<not> nested_tree g" and "s = [] \<or> last s \<noteq> NEWLINE"
  shows "could_match ref g"
proof -
  have m: "fullmatch (token_regex g) s"
    using rule_regex_plain_end [OF assms(2) [unfolded rule_regex_def] assms(4)] token_regex_exact [OF assms(3)] by simp
  have "starts_with (literal_prefix ref) (rule_literal_prefix g) \<or> starts_with (rule_literal_prefix g) (literal_prefix ref)"
    using allows_prefix [OF assms(1)] token_regex_prefix [OF m] starts_with_comparable starts_with_trans by blast
  moreover have "list_ex (\<lambda>t. token_match t False s) (rule_tokens g)"
    unfolding rule_tokens_regex fullmatch_newline using m by blast
  then have "list_ex (intersects (ref_tokens ref)) (rule_tokens g)"
    using assms(1) by (auto simp: list_ex_iff intersects_iff ref_tokens_allows)
  ultimately show ?thesis by (simp add: could_match_def)
qed

lemma could_match_iff:
  "could_match ref g \<longleftrightarrow> (\<exists>s. allows ref s \<and> fullmatch (token_regex g @ [Rx_Newline]) s) \<and>
     (starts_with (literal_prefix ref) (rule_literal_prefix g) \<or> starts_with (rule_literal_prefix g) (literal_prefix ref))"
proof -
  have "list_ex (intersects (ref_tokens ref)) (rule_tokens g) \<longleftrightarrow>
      (\<exists>s. allows ref s \<and> list_ex (\<lambda>t. token_match t False s) (rule_tokens g))"
    by (auto simp: list_ex_iff intersects_iff ref_tokens_allows)
  then show ?thesis by (auto simp: could_match_def Let_def rule_tokens_regex)
qed



text \<open>The two readings of a rule that ends in \<open>/**/**\<close>: the regular expression takes the directory itself,
  the tokens do not, so a glob that can name it is let through.\<close>

lemma nested_tree_differs:
  "\<not> could_match [Lit (uni ''/etc''), Star False] (uni ''/etc/**/**'') \<and>
   allows [Lit (uni ''/etc''), Star False] (uni ''/etc'') \<and>
   fullmatch (rule_regex (uni ''/etc/**/**'')) (uni ''/etc'')"
proof -
  let ?g = "uni ''/etc/**/**''"
  have t: "glob_ends_with_tree ?g" "glob_ends_with_tree (tree_base ?g)" "\<not> glob_ends_with_tree (tree_base (tree_base ?g))"
    and b: "tree_base (tree_base ?g) = uni ''/etc''" "tree_base ?g = uni ''/etc/**''"
    by (simp_all add: uni_def glob_ends_with_tree_def ends_with_def starts_with_def tree_base_def)
  have "\<not> (allows [Lit (uni ''/etc''), Star False] s \<and> fullmatch (token_regex ?g @ [Rx_Newline]) s)" for s
  proof
    assume a: "allows [Lit (uni ''/etc''), Star False] s \<and> fullmatch (token_regex ?g @ [Rx_Newline]) s"
    then obtain u where "s = uni ''/etc'' @ u" "SLASH \<notin> set u" by auto
    with a show False
      using t(1) b by (cases u) (auto simp: token_regex_def uni_def)
  qed
  then have "\<not> could_match [Lit (uni ''/etc''), Star False] ?g" by (auto simp: could_match_iff)
  moreover have "fullmatch (rule_regex ?g) (uni ''/etc'')"
    unfolding rule_regex_def glob_to_regex.simps [of ?g] glob_to_regex.simps [of "tree_base ?g"]
      glob_to_regex.simps [of "tree_base (tree_base ?g)"]
    using t b by (simp add: uni_def)
  ultimately show ?thesis by simp
qed

end
