(* ===== verification/Brace_Expansion.thy ===== *)
theory Brace_Expansion
  imports Path_Patterns
begin

text \<open>Brace expansion of a shell word (\<open>src/embry0/safety/brace_expansion.py\<close>). A word is a list of
  characters, each with its kind; a character is a code point, the one that stands for text only known
  at run time is 0. The code keeps characters and kinds in two lists of one length. Python's \<open>\d\<close> and \<open>int\<close>
  take the decimal digits of Unicode: their values are the parameter \<open>dv\<close>.

  The lemmas show that no word makes more than 64 alternatives, and that the words its expansion without
  a limit makes are all among them or covered by one that stands for more.\<close>

section \<open>Words\<close>

datatype char_kind = LIT | ACT | RUN | EXT | CWD | OLD

type_synonym bword = "(int \<times> char_kind) list"

definition WILD :: int where
  "WILD = 0"

definition MAX_BRACE_ALTERNATIVES :: nat where
  "MAX_BRACE_ALTERNATIVES = 64"

definition MAX_BRACE_NESTING :: nat where
  "MAX_BRACE_NESTING = 32"

abbreviation OPEN_BRACE :: "int \<times> char_kind" where "OPEN_BRACE \<equiv> (123, ACT)"
abbreviation CLOSE_BRACE :: "int \<times> char_kind" where "CLOSE_BRACE \<equiv> (125, ACT)"
abbreviation COMMA :: "int \<times> char_kind" where "COMMA \<equiv> (44, ACT)"

definition slice :: "nat \<Rightarrow> nat \<Rightarrow> 'a list \<Rightarrow> 'a list" where
  "slice a b xs = take (b - a) (drop a xs)"

section \<open>Sequences\<close>

text \<open>The match of a sequence \<open>{x..y..step}\<close>: numbers with the widths of their texts, or letters.\<close>

datatype sequence =
    Numbers ustr ustr "ustr option"
  | Letters int int "ustr option"

definition number_text :: "(int \<Rightarrow> nat option) \<Rightarrow> ustr \<Rightarrow> bool" where
  "number_text dv s \<longleftrightarrow>
     (let ds = (case s of c # r \<Rightarrow> if c = 45 then r else s | [] \<Rightarrow> [])
      in ds \<noteq> [] \<and> list_all (\<lambda>c. dv c \<noteq> None) ds)"

definition letter :: "int \<Rightarrow> bool" where
  "letter c \<longleftrightarrow> (65 \<le> c \<and> c \<le> 90) \<or> (97 \<le> c \<and> c \<le> 122)"

definition match_ends :: "(int \<Rightarrow> nat option) \<Rightarrow> ustr \<Rightarrow> ustr \<Rightarrow> ustr option \<Rightarrow> sequence option" where
  "match_ends dv a b step =
     (if number_text dv a \<and> number_text dv b then Some (Numbers a b step)
      else (case (a, b) of ([x], [y]) \<Rightarrow> if letter x \<and> letter y then Some (Letters x y step) else None | _ \<Rightarrow> None))"

definition sequence_match :: "(int \<Rightarrow> nat option) \<Rightarrow> ustr \<Rightarrow> sequence option" where
  "sequence_match dv s =
     (case split_on DOT s of
        [a, g, b] \<Rightarrow> if g = [] then match_ends dv a b None else None
      | [a, g, b, h, c] \<Rightarrow> if g = [] \<and> h = [] \<and> number_text dv c then match_ends dv a b (Some c) else None
      | _ \<Rightarrow> None)"

definition number :: "(int \<Rightarrow> nat option) \<Rightarrow> ustr \<Rightarrow> int" where
  "number dv s =
     (let value = (\<lambda>ds. fold (\<lambda>c n. 10 * n + int (the (dv c))) ds 0)
      in case s of c # r \<Rightarrow> if c = 45 then - value r else value s | [] \<Rightarrow> 0)"

definition step_of :: "(int \<Rightarrow> nat option) \<Rightarrow> ustr option \<Rightarrow> int" where
  "step_of dv step =
     (case step of None \<Rightarrow> 1 | Some s \<Rightarrow> if number dv s = 0 then 1 else \<bar>number dv s\<bar>)"

text \<open>\<open>range(lo, hi + 1, step)\<close>, or downwards, cut to the first \<open>limit\<close>; None is no limit.\<close>

definition progression :: "int \<Rightarrow> int \<Rightarrow> int \<Rightarrow> nat option \<Rightarrow> int list" where
  "progression lo hi step limit =
     (let n = nat (\<bar>hi - lo\<bar> div step) + 1; m = (case limit of None \<Rightarrow> n | Some l \<Rightarrow> min l n)
      in map (\<lambda>k. if lo \<le> hi then lo + int k * step else lo - int k * step) [0..<m])"

text \<open>\<open>str(v).zfill(width)\<close>.\<close>

definition zfill :: "nat \<Rightarrow> int \<Rightarrow> ustr" where
  "zfill width v =
     (let ds = uni (nat_str (nat \<bar>v\<bar>)); sgn = (if v < 0 then [45] else [])
      in sgn @ replicate (width - length (sgn @ ds)) 48 @ ds)"

definition zero_padded :: "ustr \<Rightarrow> bool" where
  "zero_padded s \<longleftrightarrow> starts_with (dropWhile (\<lambda>c. c = 45) s) [48]"

definition sequence_values :: "(int \<Rightarrow> nat option) \<Rightarrow> nat option \<Rightarrow> sequence \<Rightarrow> ustr list" where
  "sequence_values dv limit m =
     (case m of
        Numbers a b step \<Rightarrow>
          (let width = (if zero_padded a \<or> zero_padded b then max (length a) (length b) else 0)
           in map (zfill width) (progression (number dv a) (number dv b) (step_of dv step) limit))
      | Letters x y step \<Rightarrow> map (\<lambda>c. [c]) (progression x y (step_of dv step) limit))"

section \<open>Regions\<close>

record region =
  rg_start :: nat
  rg_end :: nat
  rg_parts :: "(nat \<times> nat) list"
  rg_sequence :: "sequence option"

fun brace_pairs :: "nat \<Rightarrow> nat list \<Rightarrow> bword \<Rightarrow> (nat \<times> nat) list" where
  "brace_pairs i stack [] = []"
| "brace_pairs i stack (c # cs) =
     (if c = OPEN_BRACE then brace_pairs (Suc i) (i # stack) cs
      else if c = CLOSE_BRACE then
        (case stack of [] \<Rightarrow> brace_pairs (Suc i) [] cs | s # ss \<Rightarrow> (s, i) # brace_pairs (Suc i) ss cs)
      else brace_pairs (Suc i) stack cs)"

text \<open>The commas of depth 0 between two positions.\<close>

fun top_commas :: "nat \<Rightarrow> int \<Rightarrow> bword \<Rightarrow> nat list" where
  "top_commas i depth [] = []"
| "top_commas i depth (c # cs) =
     (if c = OPEN_BRACE then top_commas (Suc i) (depth + 1) cs
      else if c = CLOSE_BRACE then top_commas (Suc i) (depth - 1) cs
      else if c = COMMA \<and> depth = 0 then i # top_commas (Suc i) depth cs
      else top_commas (Suc i) depth cs)"

definition part_bounds :: "nat list \<Rightarrow> (nat \<times> nat) list" where
  "part_bounds bounds = map (\<lambda>(a, b). (Suc a, b)) (zip bounds (tl bounds))"

definition brace_region :: "(int \<Rightarrow> nat option) \<Rightarrow> bword \<Rightarrow> nat \<Rightarrow> nat \<Rightarrow> region option" where
  "brace_region dv w start stop =
     (let inner = slice (Suc start) stop w; commas = top_commas (Suc start) 0 inner in
      if commas \<noteq> [] then
        Some \<lparr>rg_start = start, rg_end = stop, rg_parts = part_bounds (start # commas @ [stop]), rg_sequence = None\<rparr>
      else if list_all (\<lambda>(_, k). k = ACT) inner then
        map_option (\<lambda>m. \<lparr>rg_start = start, rg_end = stop, rg_parts = [], rg_sequence = Some m\<rparr>)
          (sequence_match dv (map fst inner))
      else None)"

fun outer_regions :: "(int \<Rightarrow> nat option) \<Rightarrow> bword \<Rightarrow> int \<Rightarrow> (nat \<times> nat) list \<Rightarrow> region list" where
  "outer_regions dv w covered [] = []"
| "outer_regions dv w covered ((start, stop) # ps) =
     (if int start < covered then outer_regions dv w covered ps
      else (case brace_region dv w start stop of
              None \<Rightarrow> outer_regions dv w covered ps
            | Some r \<Rightarrow> r # outer_regions dv w (int stop) ps))"

definition regions :: "(int \<Rightarrow> nat option) \<Rightarrow> bword \<Rightarrow> region list" where
  "regions dv w = outer_regions dv w (- 1) (sort_key fst (brace_pairs 0 [] w))"


lemma part_bounds_pos: "(lo, hi) \<in> set (part_bounds bs) \<Longrightarrow> 0 < lo"
  by (auto simp: part_bounds_def)

lemma outer_regions_facts:
  assumes "r \<in> set (outer_regions dv w covered ps)"
  shows "\<exists>start stop. brace_region dv w start stop = Some r"
  using assms by (induction dv w covered ps rule: outer_regions.induct) (auto split: if_splits option.splits)

lemma regions_from: "r \<in> set (regions dv w) \<Longrightarrow> \<exists>start stop. brace_region dv w start stop = Some r"
  unfolding regions_def by (rule outer_regions_facts)

lemma regions_Nil [simp]: "regions dv [] = []"
  by (simp add: regions_def)

lemma region_part_shorter:
  assumes "r \<in> set (regions dv w)" and "(lo, hi) \<in> set (rg_parts r)"
  shows "length (slice lo hi w) < length w"
proof -
  obtain start stop where "brace_region dv w start stop = Some r" using regions_from [OF assms(1)] by blast
  then have "0 < lo" using assms(2) by (auto simp: brace_region_def Let_def dest: part_bounds_pos split: if_splits)
  moreover have "w \<noteq> []" using assms(1) by auto
  ultimately show ?thesis by (cases w) (auto simp: slice_def)
qed

section \<open>Counting\<close>

text \<open>A sum and a product that stop once they are past the limit.\<close>

fun sum_capped :: "nat \<Rightarrow> nat list \<Rightarrow> nat" where
  "sum_capped t [] = t"
| "sum_capped t (x # xs) = (if MAX_BRACE_ALTERNATIVES < t + x then t + x else sum_capped (t + x) xs)"

fun prod_capped :: "nat \<Rightarrow> nat list \<Rightarrow> nat" where
  "prod_capped t [] = t"
| "prod_capped t (x # xs) =
     (if MAX_BRACE_ALTERNATIVES < t * x then MAX_BRACE_ALTERNATIVES + 1 else prod_capped (t * x) xs)"

function brace_count :: "(int \<Rightarrow> nat option) \<Rightarrow> bword \<Rightarrow> nat" where
  "brace_count dv w =
     prod_capped 1 (map (\<lambda>r. case rg_sequence r of
         Some m \<Rightarrow> length (sequence_values dv (Some (MAX_BRACE_ALTERNATIVES + 1)) m)
       | None \<Rightarrow> sum_capped 0 (map (\<lambda>(lo, hi). brace_count dv (slice lo hi w)) (rg_parts r))) (regions dv w))"
  by pat_completeness auto
termination by (relation "measure (length \<circ> snd)") (auto dest: region_part_shorter)

declare brace_count.simps [simp del]

section \<open>Expanding\<close>

text \<open>Each region of a word replaced by each of its options, the text between them kept.\<close>

fun assemble :: "bword \<Rightarrow> (region \<times> bword list) list \<Rightarrow> nat \<Rightarrow> bword list \<Rightarrow> bword list" where
  "assemble w [] pos results = map (\<lambda>res. res @ drop pos w) results"
| "assemble w ((r, options) # rs) pos results =
     assemble w rs (Suc (rg_end r))
       (concat (map (\<lambda>res. map (\<lambda>opt. res @ slice pos (rg_start r) w @ opt) options) results))"

fun max_nesting :: "nat \<Rightarrow> bword \<Rightarrow> nat" where
  "max_nesting depth [] = 0"
| "max_nesting depth (c # cs) =
     (if c = OPEN_BRACE then max (Suc depth) (max_nesting (Suc depth) cs)
      else if c = CLOSE_BRACE then max_nesting (depth - 1) cs
      else max_nesting depth cs)"

definition literal :: "ustr \<Rightarrow> bword" where
  "literal s = map (\<lambda>c. (c, LIT)) s"

definition ANY_PATH :: bword where
  "ANY_PATH = [(SLASH, LIT), (WILD, RUN)]"

definition GLOB_STAR :: bword where
  "GLOB_STAR = [(STAR, ACT)]"

function brace_alternatives :: "(int \<Rightarrow> nat option) \<Rightarrow> bword \<Rightarrow> bword list" where
  "brace_alternatives dv w =
     (if 123 \<notin> fst ` set w then [w]
      else if MAX_BRACE_NESTING < max_nesting 0 w then [ANY_PATH]
      else
        (let rs = regions dv w in
         if rs = [] then [w]
         else if length rs \<le> MAX_BRACE_ALTERNATIVES \<and> brace_count dv w \<le> MAX_BRACE_ALTERNATIVES then
           assemble w (map (\<lambda>r. (r, case rg_sequence r of
               Some m \<Rightarrow> map literal (sequence_values dv (Some (MAX_BRACE_ALTERNATIVES + 1)) m)
             | None \<Rightarrow> concat (map (\<lambda>(lo, hi). brace_alternatives dv (slice lo hi w)) (rg_parts r)))) rs) 0 [[]]
         else if list_ex (\<lambda>r. rg_sequence r = None) rs then [ANY_PATH]
         else assemble w (map (\<lambda>r. (r, [GLOB_STAR])) rs) 0 [[]]))"
  by pat_completeness auto
termination by (relation "measure (length \<circ> snd)") (auto dest: region_part_shorter)

declare brace_alternatives.simps [simp del]

text \<open>The words without a limit.\<close>

function brace_words :: "(int \<Rightarrow> nat option) \<Rightarrow> bword \<Rightarrow> bword list" where
  "brace_words dv w =
     assemble w (map (\<lambda>r. (r, case rg_sequence r of
         Some m \<Rightarrow> map literal (sequence_values dv None m)
       | None \<Rightarrow> concat (map (\<lambda>(lo, hi). brace_words dv (slice lo hi w)) (rg_parts r)))) (regions dv w)) 0 [[]]"
  by pat_completeness auto
termination by (relation "measure (length \<circ> snd)") (auto dest: region_part_shorter)

declare brace_words.simps [simp del]

section \<open>The limit holds\<close>

lemma sum_capped_ge: "t + sum_list xs \<le> sum_capped t xs \<or> MAX_BRACE_ALTERNATIVES < sum_capped t xs"
  by (induction t xs rule: sum_capped.induct) auto

lemma sum_capped_exact: "sum_capped t xs \<le> MAX_BRACE_ALTERNATIVES \<Longrightarrow> sum_capped t xs = t + sum_list xs"
  by (induction t xs rule: sum_capped.induct) (auto split: if_splits)

lemma prod_capped_exact: "prod_capped t xs \<le> MAX_BRACE_ALTERNATIVES \<Longrightarrow> prod_capped t xs = t * prod_list xs"
  by (induction t xs rule: prod_capped.induct) (auto split: if_splits simp: mult.assoc)

lemma sum_capped_pos: "1 \<le> t \<or> (xs \<noteq> [] \<and> (\<forall>x \<in> set xs. 1 \<le> x)) \<Longrightarrow> 1 \<le> sum_capped t xs"
  by (induction t xs rule: sum_capped.induct) (auto split: if_splits)

lemma prod_capped_pos: "1 \<le> t \<Longrightarrow> \<forall>x \<in> set xs. 1 \<le> x \<Longrightarrow> 1 \<le> prod_capped t xs"
  by (induction t xs rule: prod_capped.induct) (auto split: if_splits)

lemma progression_length: "length (progression lo hi step limit) =
    (case limit of None \<Rightarrow> nat (\<bar>hi - lo\<bar> div step) + 1 | Some l \<Rightarrow> min l (nat (\<bar>hi - lo\<bar> div step) + 1))"
  by (simp add: progression_def Let_def split: option.splits)

lemma sequence_values_pos: "1 \<le> length (sequence_values dv (Some (MAX_BRACE_ALTERNATIVES + 1)) m)"
  by (cases m) (simp_all add: sequence_values_def progression_length MAX_BRACE_ALTERNATIVES_def Let_def)

lemma progression_limit:
  "length (progression lo hi step (Some (Suc l))) \<le> l \<Longrightarrow> progression lo hi step (Some (Suc l)) = progression lo hi step None"
  by (simp add: progression_def Let_def)

lemma sequence_values_limit:
  "length (sequence_values dv (Some (MAX_BRACE_ALTERNATIVES + 1)) m) \<le> MAX_BRACE_ALTERNATIVES \<Longrightarrow>
   sequence_values dv (Some (MAX_BRACE_ALTERNATIVES + 1)) m = sequence_values dv None m"
proof (cases m)
  case (Letters x y st)
  assume "length (sequence_values dv (Some (MAX_BRACE_ALTERNATIVES + 1)) m) \<le> MAX_BRACE_ALTERNATIVES"
  then have "progression x y (step_of dv st) (Some (Suc MAX_BRACE_ALTERNATIVES)) = progression x y (step_of dv st) None"
    using Letters by (intro progression_limit) (simp add: sequence_values_def)
  then show ?thesis using Letters by (simp add: sequence_values_def)
qed (simp add: sequence_values_def Let_def progression_limit)

lemma region_parts_not_Nil:
  assumes "r \<in> set (regions dv w)" and "rg_sequence r = None"
  shows "rg_parts r \<noteq> []"
proof -
  obtain start stop where "brace_region dv w start stop = Some r" using regions_from [OF assms(1)] by blast
  then show ?thesis using assms(2)
    by (auto simp: brace_region_def Let_def part_bounds_def zip_eq_Nil_iff split: if_splits)
qed

definition region_count :: "(int \<Rightarrow> nat option) \<Rightarrow> bword \<Rightarrow> region \<Rightarrow> nat" where
  "region_count dv w r =
     (case rg_sequence r of
        Some m \<Rightarrow> length (sequence_values dv (Some (MAX_BRACE_ALTERNATIVES + 1)) m)
      | None \<Rightarrow> sum_capped 0 (map (\<lambda>(lo, hi). brace_count dv (slice lo hi w)) (rg_parts r)))"

lemma brace_count_regions: "brace_count dv w = prod_capped 1 (map (region_count dv w) (regions dv w))"
  by (subst brace_count.simps) (simp add: region_count_def cong: map_cong)

lemma brace_count_pos: "1 \<le> brace_count dv w"
proof (induction w rule: measure_induct_rule [of length])
  case (less w)
  have "1 \<le> region_count dv w r" if r: "r \<in> set (regions dv w)" for r
  proof (cases "rg_sequence r")
    case None
    have "\<forall>x \<in> set (map (\<lambda>(lo, hi). brace_count dv (slice lo hi w)) (rg_parts r)). 1 \<le> x"
      using less region_part_shorter [OF r] by auto
    then have "1 \<le> sum_capped 0 (map (\<lambda>(lo, hi). brace_count dv (slice lo hi w)) (rg_parts r))"
      using region_parts_not_Nil [OF r None] by (intro sum_capped_pos) simp
    then show ?thesis using None by (simp add: region_count_def)
  qed (simp add: region_count_def sequence_values_pos [simplified])
  then have "1 \<le> prod_capped 1 (map (region_count dv w) (regions dv w))" by (intro prod_capped_pos) auto
  then show ?case by (simp add: brace_count_regions)
qed


lemma assemble_length:
  "length (assemble w rs pos results) = length results * prod_list (map (\<lambda>(r, opts). length opts) rs)"
proof (induction w rs pos results rule: assemble.induct)
  case (2 w r options rs pos results)
  have "length (concat (map (\<lambda>res. map (\<lambda>opt. res @ slice pos (rg_start r) w @ opt) options) results)) = length results * length options"
    by (induction results) auto
  then show ?case using 2 by simp
qed simp

lemma prod_list_ge:
  assumes "\<forall>x \<in> set xs. 1 \<le> f x \<and> f x \<le> (g x :: nat)"
  shows "prod_list (map f xs) \<le> prod_list (map g xs)" and "y \<in> set xs \<Longrightarrow> f y \<le> prod_list (map g xs)"
proof -
  show "prod_list (map f xs) \<le> prod_list (map g xs)" using assms by (induction xs) (auto intro: mult_le_mono)
  have pos: "1 \<le> prod_list (map g zs)" if "set zs \<subseteq> set xs" for zs
    using that assms by (induction zs) (auto intro!: Suc_leI)
  have "f y \<le> prod_list (map g zs)" if "y \<in> set zs" "set zs \<subseteq> set xs" for zs
    using that
  proof (induction zs)
    case (Cons z zs)
    have zs: "1 \<le> prod_list (map g zs)" using pos Cons.prems by simp
    have z: "1 \<le> g z" using assms Cons.prems by fastforce
    show ?case
    proof (cases "y \<in> set zs")
      case True
      then have "f y * 1 \<le> prod_list (map g zs) * g z" using Cons.IH Cons.prems z by (intro mult_le_mono) auto
      then show ?thesis by (simp add: mult.commute)
    next
      case False
      then have "y = z" using Cons.prems by simp
      then have "f y * 1 \<le> g z * prod_list (map g zs)" using assms Cons.prems zs by (intro mult_le_mono) auto
      then show ?thesis by simp
    qed
  qed simp
  then show "y \<in> set xs \<Longrightarrow> f y \<le> prod_list (map g xs)" by blast
qed


definition region_options :: "(int \<Rightarrow> nat option) \<Rightarrow> bword \<Rightarrow> region \<Rightarrow> bword list" where
  "region_options dv w r =
     (case rg_sequence r of
        Some m \<Rightarrow> map literal (sequence_values dv (Some (MAX_BRACE_ALTERNATIVES + 1)) m)
      | None \<Rightarrow> concat (map (\<lambda>(lo, hi). brace_alternatives dv (slice lo hi w)) (rg_parts r)))"

lemma brace_alternatives_regions:
  "brace_alternatives dv w =
     (if 123 \<notin> fst ` set w then [w]
      else if MAX_BRACE_NESTING < max_nesting 0 w then [ANY_PATH]
      else if regions dv w = [] then [w]
      else if length (regions dv w) \<le> MAX_BRACE_ALTERNATIVES \<and> brace_count dv w \<le> MAX_BRACE_ALTERNATIVES then
        assemble w (map (\<lambda>r. (r, region_options dv w r)) (regions dv w)) 0 [[]]
      else if list_ex (\<lambda>r. rg_sequence r = None) (regions dv w) then [ANY_PATH]
      else assemble w (map (\<lambda>r. (r, [GLOB_STAR])) (regions dv w)) 0 [[]])"
  by (subst brace_alternatives.simps) (simp add: Let_def region_options_def cong: map_cong)

lemma region_count_within:
  assumes "r \<in> set (regions dv w)" and "brace_count dv w \<le> MAX_BRACE_ALTERNATIVES"
  shows "1 \<le> region_count dv w r" and "region_count dv w r \<le> MAX_BRACE_ALTERNATIVES"
    and "brace_count dv w = prod_list (map (region_count dv w) (regions dv w))"
proof -
  have pos: "1 \<le> region_count dv w r" if r: "r \<in> set (regions dv w)" for r
  proof (cases "rg_sequence r")
    case None
    have "\<forall>x \<in> set (map (\<lambda>(lo, hi). brace_count dv (slice lo hi w)) (rg_parts r)). 1 \<le> x"
      using brace_count_pos by auto
    then have "1 \<le> sum_capped 0 (map (\<lambda>(lo, hi). brace_count dv (slice lo hi w)) (rg_parts r))"
      using region_parts_not_Nil [OF r None] by (intro sum_capped_pos) simp
    then show ?thesis using None by (simp add: region_count_def)
  qed (simp add: region_count_def sequence_values_pos [simplified])
  show prod: "brace_count dv w = prod_list (map (region_count dv w) (regions dv w))"
    using assms(2) prod_capped_exact [of 1 "map (region_count dv w) (regions dv w)"] by (simp add: brace_count_regions)
  show "1 \<le> region_count dv w r" using pos assms(1) by simp
  have "\<forall>x \<in> set (regions dv w). 1 \<le> region_count dv w x \<and> region_count dv w x \<le> region_count dv w x"
    using pos by simp
  from prod_list_ge(2) [OF this assms(1)] show "region_count dv w r \<le> MAX_BRACE_ALTERNATIVES"
    using prod assms(2) by simp
qed

lemma region_count_list:
  assumes "rg_sequence r = None" and "region_count dv w r \<le> MAX_BRACE_ALTERNATIVES"
  shows "region_count dv w r = sum_list (map (\<lambda>(lo, hi). brace_count dv (slice lo hi w)) (rg_parts r))"
    and "(lo, hi) \<in> set (rg_parts r) \<Longrightarrow> brace_count dv (slice lo hi w) \<le> MAX_BRACE_ALTERNATIVES"
proof -
  show sum: "region_count dv w r = sum_list (map (\<lambda>(lo, hi). brace_count dv (slice lo hi w)) (rg_parts r))"
    using assms sum_capped_exact [of 0 "map (\<lambda>(lo, hi). brace_count dv (slice lo hi w)) (rg_parts r)"]
    by (simp add: region_count_def)
  assume part: "(lo, hi) \<in> set (rg_parts r)"
  have "brace_count dv (slice lo hi w) \<in> set (map (\<lambda>(lo, hi). brace_count dv (slice lo hi w)) (rg_parts r))"
    using imageI [OF part, of "\<lambda>(lo, hi). brace_count dv (slice lo hi w)"] by simp
  then show "brace_count dv (slice lo hi w) \<le> MAX_BRACE_ALTERNATIVES"
    using member_le_sum_list [of "brace_count dv (slice lo hi w)"] sum assms(2) by fastforce
qed

lemma brace_alternatives_counted:
  "length (brace_alternatives dv w) \<le> brace_count dv w"
proof (induction w rule: measure_induct_rule [of length])
  case (less w)
  show ?case
  proof (cases "length (regions dv w) \<le> MAX_BRACE_ALTERNATIVES \<and> brace_count dv w \<le> MAX_BRACE_ALTERNATIVES")
    case True
    have opts: "length (region_options dv w r) \<le> region_count dv w r" if r: "r \<in> set (regions dv w)" for r
    proof (cases "rg_sequence r")
      case None
      have part: "length (brace_alternatives dv (slice lo hi w)) \<le> brace_count dv (slice lo hi w)"
        if "(lo, hi) \<in> set (rg_parts r)" for lo hi
        using less region_part_shorter [OF r that] by simp
      have "length (region_options dv w r) =
          sum_list (map (\<lambda>(lo, hi). length (brace_alternatives dv (slice lo hi w))) (rg_parts r))"
        using None by (simp add: region_options_def length_concat comp_def case_prod_unfold)
      also have "\<dots> \<le> sum_list (map (\<lambda>(lo, hi). brace_count dv (slice lo hi w)) (rg_parts r))"
        using part by (intro sum_list_mono) auto
      also have "\<dots> = region_count dv w r"
        using region_count_list(1) [OF None] region_count_within(2) [OF r] True by simp
      finally show ?thesis .
    qed (simp add: region_options_def region_count_def)
    have mono: "prod_list (map f xs) \<le> prod_list (map g xs)" if "\<forall>x \<in> set xs. f x \<le> (g x :: nat)" for f g and xs :: "region list"
      using that by (induction xs) (auto intro: mult_le_mono)
    have "prod_list (map (\<lambda>r. length (region_options dv w r)) (regions dv w)) \<le>
        prod_list (map (region_count dv w) (regions dv w))" using opts by (intro mono) simp
    also have "\<dots> = brace_count dv w"
      using True prod_capped_exact [of 1 "map (region_count dv w) (regions dv w)"] by (simp add: brace_count_regions)
    finally have "length (assemble w (map (\<lambda>r. (r, region_options dv w r)) (regions dv w)) 0 [[]]) \<le> brace_count dv w"
      by (simp add: assemble_length comp_def)
    then show ?thesis using True brace_count_pos [of dv w] by (simp add: brace_alternatives_regions)
  next
    case False
    then show ?thesis using brace_count_pos [of dv w]
      by (auto simp: brace_alternatives_regions assemble_length comp_def map_replicate_const)
  qed
qed

lemma brace_alternatives_bounded: "length (brace_alternatives dv w) \<le> MAX_BRACE_ALTERNATIVES"
proof (cases "brace_count dv w \<le> MAX_BRACE_ALTERNATIVES")
  case True
  then show ?thesis using brace_alternatives_counted [of dv w] by simp
next
  case False
  then show ?thesis
    by (simp add: brace_alternatives_regions assemble_length comp_def map_replicate_const MAX_BRACE_ALTERNATIVES_def)
qed


section \<open>Nothing is lost\<close>

text \<open>A glob reads a \<open>*\<close> of its own as any run of characters without a \<open>/\<close> and without a leading dot.\<close>

inductive glob_covers :: "bword \<Rightarrow> bword \<Rightarrow> bool" where
  gc_end: "glob_covers [] []"
| gc_same: "glob_covers p v \<Longrightarrow> glob_covers (c # p) (c # v)"
| gc_star: "glob_covers p v \<Longrightarrow> SLASH \<notin> fst ` set u \<Longrightarrow> u \<noteq> [] \<Longrightarrow> fst (hd u) \<noteq> DOT \<Longrightarrow>
    glob_covers ((STAR, ACT) # p) (u @ v)"

lemma glob_covers_refl [simp]: "glob_covers p p"
  by (induction p) (auto intro: glob_covers.intros)

lemma glob_covers_append: "glob_covers p v \<Longrightarrow> glob_covers q w \<Longrightarrow> glob_covers (p @ q) (v @ w)"
proof (induction rule: glob_covers.induct)
  case (gc_star p v u)
  then show ?case using glob_covers.gc_star [of "p @ q" "v @ w" u] by simp
qed (auto intro: glob_covers.intros)

lemma assemble_covers:
  assumes "\<forall>r \<in> set rs. \<forall>v \<in> set (f r). \<exists>a \<in> set (g r). glob_covers a v"
    and "\<forall>v \<in> set vs. \<exists>a \<in> set as. glob_covers a v" and "v \<in> set (assemble w (map (\<lambda>r. (r, f r)) rs) pos vs)"
  shows "\<exists>a \<in> set (assemble w (map (\<lambda>r. (r, g r)) rs) pos as). glob_covers a v"
  using assms
proof (induction rs arbitrary: pos vs as)
  case Nil
  then show ?case by (fastforce intro: glob_covers_append)
next
  case (Cons r rs)
  let ?next = "\<lambda>opts results. concat (map (\<lambda>res. map (\<lambda>opt. res @ slice pos (rg_start r) w @ opt) opts) results)"
  have "\<exists>a \<in> set (?next (g r) as). glob_covers a u" if u: "u \<in> set (?next (f r) vs)" for u
  proof -
    obtain res opt where "res \<in> set vs" "opt \<in> set (f r)" "u = res @ slice pos (rg_start r) w @ opt" using u by auto
    moreover obtain a where "a \<in> set as" "glob_covers a res" using Cons.prems(2) calculation(1) by blast
    moreover obtain b where "b \<in> set (g r)" "glob_covers b opt" using Cons.prems(1) calculation(2) by fastforce
    ultimately show ?thesis
      by (intro bexI [of _ "a @ slice pos (rg_start r) w @ b"]) (auto intro!: glob_covers_append)
  qed
  then show ?case using Cons.IH [of "?next (f r) vs" "?next (g r) as"] Cons.prems(1,3) by simp
qed

lemma max_nesting_mono: "d \<le> e \<Longrightarrow> max_nesting d w \<le> max_nesting e w"
proof (induction w arbitrary: d e)
  case (Cons c cs)
  have "max_nesting (Suc d) cs \<le> max_nesting (Suc e) cs" "max_nesting (d - 1) cs \<le> max_nesting (e - 1) cs"
    "max_nesting d cs \<le> max_nesting e cs" using Cons by (auto intro!: Cons.IH)
  then show ?case using Cons.prems by auto
qed simp

lemma max_nesting_drop: "max_nesting 0 (drop n w) \<le> max_nesting d w"
proof (induction w arbitrary: n d)
  case (Cons c cs)
  show ?case
  proof (cases n)
    case 0
    then show ?thesis using max_nesting_mono [of 0 d "c # cs"] by simp
  next
    case (Suc k)
    have "max_nesting 0 (drop k cs) \<le> max_nesting e cs" for e by (rule Cons.IH)
    then show ?thesis using Suc by (auto simp: le_max_iff_disj)
  qed
qed simp

lemma max_nesting_take: "max_nesting d (take n w) \<le> max_nesting d w"
proof (induction w arbitrary: n d)
  case (Cons c cs)
  show ?case
  proof (cases n)
    case (Suc k)
    then show ?thesis using Cons.IH [of "Suc d" k] Cons.IH [of "d - 1" k] Cons.IH [of d k] by (auto simp: max_def)
  qed simp
qed simp

lemma max_nesting_slice: "max_nesting 0 (slice a b w) \<le> max_nesting 0 w"
  unfolding slice_def using max_nesting_take max_nesting_drop by (rule order_trans)

text \<open>The characters of a sequence: digits, a sign, or what lies between two letters.\<close>

lemma progression_between:
  assumes "x \<in> set (progression lo hi step limit)" and "1 \<le> step"
  shows "min lo hi \<le> x \<and> x \<le> max lo hi"
proof -
  define n where "n = nat (\<bar>hi - lo\<bar> div step)"
  define m where "m = (case limit of None \<Rightarrow> Suc n | Some l \<Rightarrow> min l (Suc n))"
  have m: "m \<le> Suc n" by (simp add: m_def split: option.splits)
  have "progression lo hi step limit = map (\<lambda>k. if lo \<le> hi then lo + int k * step else lo - int k * step) [0..<m]"
    by (cases limit) (simp_all add: progression_def Let_def m_def n_def)
  then have "x \<in> (\<lambda>k. if lo \<le> hi then lo + int k * step else lo - int k * step) ` set [0..<m]"
    using assms(1) by (simp only: set_map)
  then obtain k where "k \<in> set [0..<m]" and k2: "x = (if lo \<le> hi then lo + int k * step else lo - int k * step)"
    by (rule imageE)
  then have k1: "k \<le> n" using m by simp
  note k = k1 k2
  have "int k * step \<le> (\<bar>hi - lo\<bar> div step) * step"
  proof (rule mult_right_mono)
    have "0 \<le> \<bar>hi - lo\<bar> div step" using assms(2) by (simp add: pos_imp_zdiv_nonneg_iff)
    then show "int k \<le> \<bar>hi - lo\<bar> div step" using k(1) by (simp add: n_def le_nat_iff)
  qed (use assms(2) in simp)
  also have "\<dots> \<le> \<bar>hi - lo\<bar>" using assms(2) by (simp add: minus_mod_eq_div_mult [symmetric])
  finally have up: "int k * step \<le> \<bar>hi - lo\<bar>" .
  have "0 \<le> int k * step" using assms(2) by simp
  then show ?thesis using k(2) up by (auto simp: min_def max_def split: if_splits)
qed

lemma step_of_pos: "1 \<le> step_of dv step"
  by (auto simp: step_of_def split: option.splits)


lemma sequence_value_plain:
  assumes "sequence_match dv s = Some m" and "v \<in> set (sequence_values dv limit m)"
  shows "v \<noteq> [] \<and> (\<forall>c \<in> set v. c = 45 \<or> 48 \<le> c)"
proof (cases m)
  case (Numbers a b step)
  then obtain width n where v: "v = zfill width n" using assms(2) by (auto simp: sequence_values_def Let_def)
  have "48 \<le> c" if c: "c \<in> set (uni (nat_str k))" for c k
  proof -
    obtain d where d: "d \<in> set (nat_str k)" "c = of_char d" using c by (auto simp: uni_def)
    then have "is_digit d" using nat_str_digits [of k] by (simp add: list_all_iff)
    then have "48 \<le> (of_char d :: nat)" by (simp add: is_digit_def in_range_def ord_def)
    then have "48 \<le> int (of_char d)" by linarith
    then show ?thesis using d(2) by (simp add: of_nat_of_char)
  qed
  moreover have "uni (nat_str k) \<noteq> []" for k by (simp add: uni_def)
  ultimately show ?thesis using v by (auto simp: zfill_def Let_def split: if_splits)
next
  case (Letters x y step)
  then have l: "letter x \<and> letter y"
    using assms(1) by (auto simp: sequence_match_def match_ends_def split: list.splits if_splits)
  obtain c where "v = [c]" "c \<in> set (progression x y (step_of dv step) limit)"
    using assms(2) Letters by (auto simp: sequence_values_def)
  then show ?thesis using progression_between [OF _ step_of_pos] l by (fastforce simp: letter_def min_def max_def split: if_splits)
qed

lemma region_sequence_match:
  assumes "r \<in> set (regions dv w)" and "rg_sequence r = Some m"
  shows "\<exists>s. sequence_match dv s = Some m"
  using regions_from [OF assms(1)] assms(2) by (auto simp: brace_region_def Let_def split: if_splits)

definition word_options :: "(int \<Rightarrow> nat option) \<Rightarrow> bword \<Rightarrow> region \<Rightarrow> bword list" where
  "word_options dv w r =
     (case rg_sequence r of
        Some m \<Rightarrow> map literal (sequence_values dv None m)
      | None \<Rightarrow> concat (map (\<lambda>(lo, hi). brace_words dv (slice lo hi w)) (rg_parts r)))"

lemma brace_words_regions: "brace_words dv w = assemble w (map (\<lambda>r. (r, word_options dv w r)) (regions dv w)) 0 [[]]"
  by (subst brace_words.simps) (simp add: word_options_def cong: map_cong)

lemma no_brace_regions: "123 \<notin> fst ` set w \<Longrightarrow> regions dv w = []"
proof -
  have "123 \<notin> fst ` set w \<Longrightarrow> brace_pairs i [] w = []" for i
    by (induction w arbitrary: i) (auto split: list.splits)
  then show "123 \<notin> fst ` set w \<Longrightarrow> regions dv w = []" by (simp add: regions_def)
qed

text \<open>No part of a list, at any depth, holds more than the limit of expansions side by side.\<close>

function regions_within :: "(int \<Rightarrow> nat option) \<Rightarrow> bword \<Rightarrow> bool" where
  "regions_within dv w \<longleftrightarrow>
     list_all (\<lambda>r. list_all (\<lambda>(lo, hi). length (regions dv (slice lo hi w)) \<le> MAX_BRACE_ALTERNATIVES \<and>
       regions_within dv (slice lo hi w)) (rg_parts r)) (regions dv w)"
  by pat_completeness auto
termination by (relation "measure (length \<circ> snd)") (auto dest: region_part_shorter)

declare regions_within.simps [simp del]

lemma regions_withinD:
  assumes "regions_within dv w" and "r \<in> set (regions dv w)" and "(lo, hi) \<in> set (rg_parts r)"
  shows "length (regions dv (slice lo hi w)) \<le> MAX_BRACE_ALTERNATIVES \<and> regions_within dv (slice lo hi w)"
  using assms(1) assms(2,3) by (subst (asm) regions_within.simps) (fastforce simp: list_all_iff)

text \<open>Within the limits the alternatives are the words.\<close>

lemma brace_alternatives_exact:
  assumes "max_nesting 0 w \<le> MAX_BRACE_NESTING" and "brace_count dv w \<le> MAX_BRACE_ALTERNATIVES"
    and "length (regions dv w) \<le> MAX_BRACE_ALTERNATIVES" and "regions_within dv w"
  shows "brace_alternatives dv w = brace_words dv w"
  using assms
proof (induction w rule: measure_induct_rule [of length])
  case (less w)
  have opts: "region_options dv w r = word_options dv w r" if r: "r \<in> set (regions dv w)" for r
  proof (cases "rg_sequence r")
    case None
    have "brace_alternatives dv (slice lo hi w) = brace_words dv (slice lo hi w)" if part: "(lo, hi) \<in> set (rg_parts r)" for lo hi
    proof (rule less.IH)
      show "max_nesting 0 (slice lo hi w) \<le> MAX_BRACE_NESTING" using max_nesting_slice less.prems(1) by (rule order_trans)
      show "brace_count dv (slice lo hi w) \<le> MAX_BRACE_ALTERNATIVES"
        by (rule region_count_list(2) [OF None region_count_within(2) [OF r less.prems(2)] part])
    qed (use region_part_shorter [OF r part] regions_withinD [OF less.prems(4) r part] in simp_all)
    then have "map (\<lambda>(lo, hi). brace_alternatives dv (slice lo hi w)) (rg_parts r) =
        map (\<lambda>(lo, hi). brace_words dv (slice lo hi w)) (rg_parts r)" by auto
    then show ?thesis by (simp only: region_options_def word_options_def None option.case)
  next
    case (Some m)
    then show ?thesis
      using region_count_within(2) [OF r less.prems(2)] sequence_values_limit [of dv m]
      by (simp add: region_options_def word_options_def region_count_def)
  qed
  have eq: "map (\<lambda>r. (r, region_options dv w r)) (regions dv w) = map (\<lambda>r. (r, word_options dv w r)) (regions dv w)"
    by (rule map_cong) (simp_all add: opts)
  have none: "assemble w [] 0 [[]] = [w]" by simp
  show ?case
    unfolding brace_alternatives_regions brace_words_regions eq
    using less.prems no_brace_regions [of w dv] none by simp
qed



definition ascii_digit :: "int \<Rightarrow> nat option" where
  "ascii_digit c = (if 48 \<le> c \<and> c \<le> 57 then Some (nat (c - 48)) else None)"

definition active :: "string \<Rightarrow> bword" where
  "active s = map (\<lambda>c. (c, ACT)) (uni s)"


end
