(* ===== verification/Posix_Path.thy ===== *)
theory Posix_Path
  imports Path_Patterns
begin

text \<open>What the safety policy uses of Python's \<open>os.path\<close> on a POSIX system and of \<open>str\<close>, over code
  points: \<open>normpath\<close>, \<open>join\<close>, \<open>basename\<close> and white space. No part of this models a file under \<open>src/\<close>.\<close>

definition norm_component :: "bool \<Rightarrow> ustr \<Rightarrow> ustr list \<Rightarrow> ustr list" where
  "norm_component absolute piece out =
     (if piece = [] \<or> piece = [DOT] then out
      else if piece \<noteq> [DOT, DOT] \<or> (\<not> absolute \<and> out = []) \<or> (out \<noteq> [] \<and> last out = [DOT, DOT]) then out @ [piece]
      else if out \<noteq> [] then butlast out else out)"

definition normpath :: "ustr \<Rightarrow> ustr" where
  "normpath path =
     (if path = [] then [DOT]
      else
        let slashes = (if \<not> starts_with path [SLASH] then 0
                       else if starts_with path [SLASH, SLASH] \<and> \<not> starts_with path [SLASH, SLASH, SLASH] then 2 else 1);
            out = replicate slashes SLASH @ join [SLASH] (fold (norm_component (slashes \<noteq> 0)) (split_on SLASH path) [])
        in if out = [] then [DOT] else out)"

definition path_join :: "ustr \<Rightarrow> ustr \<Rightarrow> ustr" where
  "path_join a b =
     (if starts_with b [SLASH] then b
      else if a = [] \<or> ends_with a [SLASH] then a @ b else a @ [SLASH] @ b)"

definition basename :: "ustr \<Rightarrow> ustr" where
  "basename p = last (split_on SLASH p)"

definition rstrip_char :: "int \<Rightarrow> ustr \<Rightarrow> ustr" where
  "rstrip_char c s = rev (dropWhile (\<lambda>x. x = c) (rev s))"

definition lstrip_char :: "int \<Rightarrow> ustr \<Rightarrow> ustr" where
  "lstrip_char c s = dropWhile (\<lambda>x. x = c) s"

text \<open>\<open>\s\<close> of a Python pattern over \<open>str\<close>.\<close>

definition uspace :: "int \<Rightarrow> bool" where
  "uspace c \<longleftrightarrow>
     (if c < 128 then 9 \<le> c \<and> c \<le> 13 \<or> 28 \<le> c \<and> c \<le> 32
      else c = 133 \<or> c = 160 \<or> c = 5760 \<or> 8192 \<le> c \<and> c \<le> 8202 \<or> c = 8232 \<or> c = 8233 \<or> c = 8239 \<or>
        c = 8287 \<or> c = 12288)"

text \<open>A component of a normalized absolute path.\<close>

definition clean_component :: "ustr \<Rightarrow> bool" where
  "clean_component c \<longleftrightarrow> c \<noteq> [] \<and> c \<noteq> [DOT] \<and> c \<noteq> [DOT, DOT] \<and> SLASH \<notin> set c"

lemma norm_component_clean:
  assumes "\<forall>c \<in> set out. clean_component c" and "SLASH \<notin> set piece"
  shows "\<forall>c \<in> set (norm_component True piece out). clean_component c"
proof -
  have "last out \<noteq> [DOT, DOT]" if "out \<noteq> []" using assms(1) that by (auto simp: clean_component_def)
  then show ?thesis
    using assms by (auto simp: norm_component_def clean_component_def dest: in_set_butlastD)
qed

lemma norm_components_clean:
  assumes "\<forall>c \<in> set out. clean_component c" and "\<forall>c \<in> set cs. SLASH \<notin> set c"
  shows "\<forall>c \<in> set (fold (norm_component True) cs out). clean_component c"
  using assms
proof (induction cs arbitrary: out)
  case (Cons c cs)
  then show ?case using norm_component_clean [of out c] by simp
qed simp

lemma normpath_absolute:
  assumes "starts_with p [SLASH]"
  obtains n cs where "normpath p = replicate n SLASH @ join [SLASH] cs" "n \<in> {1, 2}" "\<forall>c \<in> set cs. clean_component c"
proof -
  let ?n = "if starts_with p [SLASH, SLASH] \<and> \<not> starts_with p [SLASH, SLASH, SLASH] then 2 else (1::nat)"
  let ?cs = "fold (norm_component True) (split_on SLASH p) []"
  have "p \<noteq> []" using assms by (auto simp: starts_with_def)
  then have "normpath p = replicate ?n SLASH @ join [SLASH] ?cs"
    using assms by (simp add: normpath_def Let_def)
  moreover have "\<forall>c \<in> set ?cs. clean_component c"
    using split_on_parts [of _ SLASH p] by (intro norm_components_clean) auto
  ultimately show thesis using that [of ?n ?cs] by auto
qed

lemma join_clean_start:
  "\<forall>c \<in> set cs. clean_component c \<Longrightarrow> \<not> starts_with (join [SLASH] cs) [SLASH]"
proof -
  assume c: "\<forall>c \<in> set cs. clean_component c"
  have "join [SLASH] (p # ps) \<noteq> SLASH # t" if ok: "clean_component p" for p ps t
  proof -
    obtain a q where "p = a # q" "a \<noteq> SLASH" using ok by (cases p) (auto simp: clean_component_def)
    then show ?thesis by (cases ps) auto
  qed
  then show ?thesis using c by (cases cs) (auto simp: starts_with_iff)
qed

lemma contains_iff: "contains s v \<longleftrightarrow> (\<exists>a b. s = a @ v @ b)"
proof (induction s)
  case (Cons x s)
  have "(\<exists>a b. x # s = a @ v @ b) \<longleftrightarrow> (\<exists>b. x # s = v @ b) \<or> (\<exists>a b. s = a @ v @ b)"
  proof
    assume "\<exists>a b. x # s = a @ v @ b"
    then obtain a b where ab: "x # s = a @ v @ b" by blast
    then show "(\<exists>b. x # s = v @ b) \<or> (\<exists>a b. s = a @ v @ b)" by (cases a) auto
  next
    assume "(\<exists>b. x # s = v @ b) \<or> (\<exists>a b. s = a @ v @ b)"
    then show "\<exists>a b. x # s = a @ v @ b" by (metis append_Cons append_Nil)
  qed
  then show ?case using Cons by (simp add: starts_with_iff)
qed simp

end
