(* ===== verification/Py_Regex.thy ===== *)
theory Py_Regex
  imports Posix_Path
begin

text \<open>What the modelled code uses of Python's \<open>re\<close>: patterns over code points, matched by backtracking in
  the order Python tries, and \<open>sub\<close>. A class is a predicate on characters. A pattern is matched against the
  character before the position and the text from there on; its continuation decides whether a way to match
  is taken.\<close>

section \<open>Patterns\<close>

type_synonym ctx = "int option \<times> ustr"

datatype pattern =
    P_Many "int \<Rightarrow> bool" nat "nat option" bool   \<comment> \<open>class, least, most, greedy\<close>
  | P_Seq pattern pattern
  | P_Or pattern pattern
  | P_Not_After "int \<Rightarrow> bool"
  | P_Not_Before "int \<Rightarrow> bool"
  | P_Ahead pattern
  | P_Boundary "int \<Rightarrow> bool"
  | P_End
  | P_Empty

definition run_length :: "(int \<Rightarrow> bool) \<Rightarrow> nat option \<Rightarrow> ustr \<Rightarrow> nat" where
  "run_length P most s = length (takeWhile P (case most of None \<Rightarrow> s | Some n \<Rightarrow> take n s))"

definition forward_to :: "ctx \<Rightarrow> nat \<Rightarrow> ctx" where
  "forward_to c n = (if n = 0 then c else (Some (snd c ! (n - 1)), drop n (snd c)))"

fun first_match :: "(nat \<Rightarrow> 'r option) \<Rightarrow> nat list \<Rightarrow> 'r option" where
  "first_match f [] = None"
| "first_match f (n # ns) = (case f n of None \<Rightarrow> first_match f ns | Some r \<Rightarrow> Some r)"

definition counts :: "nat \<Rightarrow> bool \<Rightarrow> nat \<Rightarrow> nat list" where
  "counts least greedy n = (if greedy then rev [least..<Suc n] else [least..<Suc n])"

definition next_char :: "ctx \<Rightarrow> int option" where
  "next_char c = (case snd c of [] \<Rightarrow> None | x # _ \<Rightarrow> Some x)"

definition is_in :: "(int \<Rightarrow> bool) \<Rightarrow> int option \<Rightarrow> bool" where
  "is_in P x \<longleftrightarrow> (case x of None \<Rightarrow> False | Some y \<Rightarrow> P y)"

fun match_pat :: "pattern \<Rightarrow> (ctx \<Rightarrow> (ctx \<times> ctx) option) \<Rightarrow> ctx \<Rightarrow> (ctx \<times> ctx) option" where
  "match_pat (P_Many P least most greedy) k c =
     first_match (\<lambda>n. k (forward_to c n)) (counts least greedy (run_length P most (snd c)))"
| "match_pat (P_Seq a b) k c = match_pat a (match_pat b k) c"
| "match_pat (P_Or a b) k c = (case match_pat a k c of None \<Rightarrow> match_pat b k c | Some r \<Rightarrow> Some r)"
| "match_pat (P_Not_After P) k c = (if is_in P (fst c) then None else k c)"
| "match_pat (P_Not_Before P) k c = (if is_in P (next_char c) then None else k c)"
| "match_pat (P_Ahead a) k c = (case match_pat a (\<lambda>c'. Some (c', c')) c of None \<Rightarrow> None | Some _ \<Rightarrow> k c)"
| "match_pat (P_Boundary W) k c = (if is_in W (fst c) \<noteq> is_in W (next_char c) then k c else None)"
| "match_pat P_End k c = (if snd c = [] then k c else None)"
| "match_pat P_Empty k c = k c"

text \<open>A pattern whose first part is a group the replacement keeps: where the group and the match end.\<close>

definition match_parts :: "pattern \<Rightarrow> pattern \<Rightarrow> ctx \<Rightarrow> (ctx \<times> ctx) option" where
  "match_parts pre post c = match_pat pre (\<lambda>c1. match_pat post (\<lambda>c2. Some (c1, c2)) c1) c"

text \<open>\<open>pattern.search(s)\<close> finds a match.\<close>

fun searches :: "pattern \<Rightarrow> int option \<Rightarrow> ustr \<Rightarrow> bool" where
  "searches p prev [] \<longleftrightarrow> match_pat p (\<lambda>c. Some (c, c)) (prev, []) \<noteq> None"
| "searches p prev (x # s) \<longleftrightarrow> match_pat p (\<lambda>c. Some (c, c)) (prev, x # s) \<noteq> None \<or> searches p (Some x) s"

subsection \<open>Abbreviations of Python's notation\<close>

definition p_char :: "(int \<Rightarrow> bool) \<Rightarrow> pattern" where
  "p_char P = P_Many P 1 (Some 1) True"

definition p_seq :: "pattern list \<Rightarrow> pattern" where
  "p_seq ps = foldr P_Seq ps P_Empty"

fun p_alt :: "pattern list \<Rightarrow> pattern" where
  "p_alt [] = P_Not_Before (\<lambda>_. True)"
| "p_alt [p] = p"
| "p_alt (p # q # ps) = P_Or p (p_alt (q # ps))"

definition p_text :: "string \<Rightarrow> pattern" where
  "p_text s = p_seq (map (\<lambda>c. p_char (\<lambda>x. x = c)) (uni s))"

definition one_of :: "string \<Rightarrow> int \<Rightarrow> bool" where
  "one_of s c \<longleftrightarrow> c \<in> set (uni s)"

definition ascii_digit_char :: "int \<Rightarrow> bool" where
  "ascii_digit_char c \<longleftrightarrow> 48 \<le> c \<and> c \<le> 57"

definition ascii_upper_char :: "int \<Rightarrow> bool" where
  "ascii_upper_char c \<longleftrightarrow> 65 \<le> c \<and> c \<le> 90"

definition ascii_lower_char :: "int \<Rightarrow> bool" where
  "ascii_lower_char c \<longleftrightarrow> 97 \<le> c \<and> c \<le> 122"

definition ascii_alnum :: "int \<Rightarrow> bool" where
  "ascii_alnum c \<longleftrightarrow> ascii_digit_char c \<or> ascii_upper_char c \<or> ascii_lower_char c"

text \<open>Under \<open>(?i)\<close> a letter matches both its cases; \<open>i\<close>, \<open>k\<close> and \<open>s\<close> match a letter outside ASCII besides, and so
  do the classes of all letters.\<close>

definition any_case :: "int \<Rightarrow> int \<Rightarrow> bool" where
  "any_case l c \<longleftrightarrow>
     c = l \<or> (ascii_lower_char l \<and> c = l - 32) \<or>
     (l = 105 \<and> (c = 304 \<or> c = 305)) \<or> (l = 107 \<and> c = 8490) \<or> (l = 115 \<and> c = 383)"

definition ci_alnum :: "int \<Rightarrow> bool" where
  "ci_alnum c \<longleftrightarrow> ascii_alnum c \<or> c = 304 \<or> c = 305 \<or> c = 383 \<or> c = 8490"

definition ci_text :: "string \<Rightarrow> pattern" where
  "ci_text s = p_seq (map (\<lambda>c. p_char (any_case c)) (uni s))"

section \<open>Substitution\<close>

text \<open>\<open>p.sub(replacement, s)\<close>, for a pattern no match of which is empty: the replacement is made of the text
  of the group and the text of the rest of the match.\<close>

function sub_from :: "pattern \<Rightarrow> pattern \<Rightarrow> (ustr \<Rightarrow> ustr \<Rightarrow> ustr) \<Rightarrow> int option \<Rightarrow> ustr \<Rightarrow> ustr" where
  "sub_from pre post repl prev [] = []"
| "sub_from pre post repl prev (x # s) =
     (case match_parts pre post (prev, x # s) of
        None \<Rightarrow> x # sub_from pre post repl (Some x) s
      | Some (c1, c2) \<Rightarrow>
          if length (snd c2) \<le> length s then
            repl (take (Suc (length s) - length (snd c1)) (x # s))
                 (take (length (snd c1) - length (snd c2)) (snd c1)) @
            sub_from pre post repl (fst c2) (snd c2)
          else x # sub_from pre post repl (Some x) s)"
  by pat_completeness auto
termination by (relation "measure (length \<circ> snd \<circ> snd \<circ> snd \<circ> snd)") auto

declare sub_from.simps(2) [simp del]

section \<open>A match is a part of the text\<close>

text \<open>A position later in the same text.\<close>

definition later :: "ctx \<Rightarrow> ctx \<Rightarrow> bool" where
  "later c c' \<longleftrightarrow> (\<exists>n \<le> length (snd c). c' = forward_to c n)"

lemma advance_0 [simp]: "forward_to c 0 = c"
  by (simp add: forward_to_def)

lemma snd_advance [simp]: "snd (forward_to c n) = drop n (snd c)"
  by (simp add: forward_to_def)

lemma advance_advance: "m + n \<le> length (snd c) \<Longrightarrow> forward_to (forward_to c m) n = forward_to c (m + n)"
  by (auto simp: forward_to_def add.commute)

lemma later_refl [simp]: "later c c"
  by (auto simp: later_def intro: exI [of _ 0])

lemma later_trans:
  assumes "later c c'" and "later c' c''" shows "later c c''"
proof -
  obtain m n where "m \<le> length (snd c)" "c' = forward_to c m" "n \<le> length (snd c')" "c'' = forward_to c' n"
    using assms by (auto simp: later_def)
  then show ?thesis unfolding later_def by (intro exI [of _ "m + n"]) (auto simp: advance_advance)
qed

lemma later_length: "later c c' \<Longrightarrow> length (snd c') \<le> length (snd c)"
  by (auto simp: later_def)

lemma later_drop: "later c c' \<Longrightarrow> snd c' = drop (length (snd c) - length (snd c')) (snd c)"
  by (auto simp: later_def)

lemma first_match_Some: "first_match f ns = Some r \<Longrightarrow> \<exists>n \<in> set ns. f n = Some r"
  by (induction ns) (auto split: option.splits)

lemma run_length_le: "run_length P most s \<le> length s"
proof -
  have "length (takeWhile P (take n s)) \<le> length s" for n
    using length_takeWhile_le [of P "take n s"] by (auto dest: order_trans)
  then show ?thesis by (simp add: run_length_def length_takeWhile_le split: option.splits)
qed

lemma later_self: "k c = Some r \<Longrightarrow> \<exists>c'. later c c' \<and> k c' = Some r"
  by (rule exI [of _ c]) simp

lemma match_pat_later:
  "match_pat p k c = Some r \<Longrightarrow> \<exists>c'. later c c' \<and> k c' = Some r"
proof (induction p arbitrary: k c)
  case (P_Many P least most greedy)
  then obtain n where n: "n \<in> set (counts least greedy (run_length P most (snd c)))" "k (forward_to c n) = Some r"
    by (auto dest: first_match_Some)
  then have "n \<le> length (snd c)" using run_length_le [of P most "snd c"] by (auto simp: counts_def split: if_splits)
  then show ?case using n(2) by (intro exI [of _ "forward_to c n"]) (auto simp: later_def)
next
  case (P_Seq a b)
  have "match_pat a (match_pat b k) c = Some r" using P_Seq.prems by simp
  from P_Seq.IH(1) [OF this] obtain c1 where c1: "later c c1" "match_pat b k c1 = Some r" by blast
  from P_Seq.IH(2) [OF c1(2)] obtain c2 where "later c1 c2" "k c2 = Some r" by blast
  then show ?case using later_trans [OF c1(1)] by blast
next
  case (P_Or a b)
  then show ?case by (cases "match_pat a k c") auto
qed (rule later_self, simp split: if_splits option.splits)+

lemma match_parts_later:
  assumes "match_parts pre post c = Some (c1, c2)"
  shows "later c c1 \<and> later c1 c2"
proof -
  obtain c' where "later c c'" "match_pat post (\<lambda>c2. Some (c', c2)) c' = Some (c1, c2)"
    using match_pat_later [OF assms [unfolded match_parts_def]] by blast
  moreover obtain c'' where "later c' c''" "Some (c', c'') = Some (c1, c2)"
    using match_pat_later [OF calculation(2)] by blast
  ultimately show ?thesis by simp
qed

end
