(* ===== verification/Redaction.thy ===== *)
theory Redaction
  imports Py_Regex "HOL-Library.List_Lexorder" "HOL-Library.Product_Lexorder"
begin

text \<open>Free-text redaction (\<open>src/embry0/safety/redaction.py\<close>). Text is a list of code points; \<open>W\<close> is the
  Unicode table of word characters, which \<open>\b\<close> reads. The registry of known secrets and the configured
  fields are a state.

  The lemmas show that no known secret is left in a redacted text, and that no long opaque run with a digit
  leaves for a model provider or a tracker, whatever the text.\<close>

section \<open>The rules\<close>

definition REDACTED :: ustr where
  "REDACTED = uni ''***REDACTED***''"

definition EMAIL_PLACEHOLDER :: ustr where
  "EMAIL_PLACEHOLDER = uni ''<email>''"

definition STDERR_TAIL_MAX_BYTES :: nat where
  "STDERR_TAIL_MAX_BYTES = 8 * 1024"

text \<open>A rule: the part of its pattern the replacement keeps, the rest of the pattern, and the replacement.\<close>

datatype keeping = Mark | Keep_Mark | Keep_Space_Mark | Keep_Mark_At | Keep_Quotes | Placeholder

record rule =
  ru_pre :: pattern
  ru_post :: pattern
  ru_keeping :: keeping

definition keep_quotes :: "ustr \<Rightarrow> ustr \<Rightarrow> ustr" where
  "keep_quotes prefix value =
     (case value of
        q # _ \<Rightarrow> if one_of [CHR 0x22, CHR 0x27] q then prefix @ [q] @ REDACTED @ [q] else prefix @ REDACTED
      | [] \<Rightarrow> prefix @ REDACTED)"

definition replacement :: "keeping \<Rightarrow> ustr \<Rightarrow> ustr \<Rightarrow> ustr" where
  "replacement k prefix value =
     (case k of
        Mark \<Rightarrow> REDACTED
      | Keep_Mark \<Rightarrow> prefix @ REDACTED
      | Keep_Space_Mark \<Rightarrow> prefix @ [32] @ REDACTED
      | Keep_Mark_At \<Rightarrow> prefix @ REDACTED @ [64]
      | Keep_Quotes \<Rightarrow> keep_quotes prefix value
      | Placeholder \<Rightarrow> EMAIL_PLACEHOLDER)"

definition sub_rule :: "rule \<Rightarrow> ustr \<Rightarrow> ustr" where
  "sub_rule r s = sub_from (ru_pre r) (ru_post r) (replacement (ru_keeping r)) None s"

definition p_opt :: "(int \<Rightarrow> bool) \<Rightarrow> pattern" where
  "p_opt P = P_Many P 0 (Some 1) True"

definition at_least :: "nat \<Rightarrow> (int \<Rightarrow> bool) \<Rightarrow> pattern" where
  "at_least n P = P_Many P n None True"

definition between_counts :: "nat \<Rightarrow> nat \<Rightarrow> (int \<Rightarrow> bool) \<Rightarrow> pattern" where
  "between_counts m n P = P_Many P m (Some n) True"

definition PEM_RULE :: rule where
  "PEM_RULE = \<lparr>ru_pre = P_Empty,
     ru_post = p_seq [p_text ''-----BEGIN '', at_least 0 (\<lambda>c. ascii_upper_char c \<or> c = 32), p_text ''PRIVATE KEY-----'',
       P_Many (\<lambda>_. True) 0 None False,
       p_alt [p_seq [p_text ''-----END '', at_least 0 (\<lambda>c. ascii_upper_char c \<or> c = 32), p_text ''PRIVATE KEY-----''], P_End]],
     ru_keeping = Mark\<rparr>"

definition CONFIG_RULE :: rule where
  "CONFIG_RULE = \<lparr>ru_pre = p_seq [p_text ''--config'', p_alt [p_text ''-json'', P_Empty], at_least 1 (one_of ''= '')],
     ru_post = at_least 1 (\<lambda>c. c \<noteq> NEWLINE), ru_keeping = Keep_Mark\<rparr>"

definition HEADER_RULE :: "(int \<Rightarrow> bool) \<Rightarrow> rule" where
  "HEADER_RULE W = \<lparr>ru_pre = p_seq [P_Boundary W,
       p_alt [p_seq [p_alt [ci_text ''proxy-'', P_Empty], ci_text ''authorization''], ci_text ''x-api-key'', ci_text ''x-auth-token'',
              ci_text ''private-token'', ci_text ''cookie'', ci_text ''set-cookie''],
       at_least 0 uspace, p_char (one_of '':=''), at_least 0 uspace],
     ru_post = at_least 1 (\<lambda>c. c \<noteq> 13 \<and> c \<noteq> NEWLINE), ru_keeping = Keep_Mark\<rparr>"

definition BEARER_RULE :: "(int \<Rightarrow> bool) \<Rightarrow> rule" where
  "BEARER_RULE W = \<lparr>ru_pre = p_seq [P_Boundary W, p_alt [ci_text ''bearer'', ci_text ''basic'']],
     ru_post = p_seq [at_least 1 uspace, at_least 8 (\<lambda>c. ci_alnum c \<or> one_of ''._~+/=-'' c)], ru_keeping = Keep_Space_Mark\<rparr>"

definition URL_RULE :: rule where
  "URL_RULE = \<lparr>ru_pre = p_seq [p_char (\<lambda>c. ascii_upper_char c \<or> ascii_lower_char c),
       between_counts 0 31 (\<lambda>c. ascii_alnum c \<or> one_of ''+.-'' c), p_text ''://''],
     ru_post = p_seq [between_counts 1 256 (\<lambda>c. \<not> (one_of ''/:@'' c \<or> uspace c)), p_char (\<lambda>c. c = 58),
       between_counts 1 256 (\<lambda>c. \<not> (one_of ''/@'' c \<or> uspace c)), p_char (\<lambda>c. c = 64)],
     ru_keeping = Keep_Mark_At\<rparr>"

definition key_char :: "int \<Rightarrow> bool" where
  "key_char c \<longleftrightarrow> ci_alnum c \<or> one_of ''_.-'' c"

definition quote_char_of :: "int \<Rightarrow> bool" where
  "quote_char_of c \<longleftrightarrow> one_of [CHR 0x22, CHR 0x27] c"

definition SECRET_KEY_NAME :: pattern where
  "SECRET_KEY_NAME = p_seq [P_Not_After key_char, P_Many key_char 0 (Some 64) False,
     p_alt [ci_text ''token'', ci_text ''secret'', p_seq [ci_text ''passw'', p_alt [ci_text ''or'', P_Empty], ci_text ''d''], ci_text ''pwd'',
       p_seq [ci_text ''api'', p_opt (one_of ''_-''), ci_text ''key''], ci_text ''apikey'',
       p_seq [ci_text ''access'', p_opt (one_of ''_-''), ci_text ''key''], ci_text ''credential'',
       p_seq [ci_text ''private'', p_opt (one_of ''_-''), ci_text ''key''], ci_text ''authorization'', ci_text ''cookie'',
       p_seq [ci_text ''session'', p_opt (one_of ''_-''), p_alt [ci_text ''key'', ci_text ''id'']], ci_text ''signature''],
     between_counts 0 64 key_char]"

definition assigned :: pattern where
  "assigned = p_seq [p_opt quote_char_of, at_least 0 uspace, p_char (one_of '':=''), at_least 0 uspace]"

text \<open>A quoted value, or one up to a character of the class \<open>stop\<close>.\<close>

definition value_pattern :: "(int \<Rightarrow> bool) \<Rightarrow> pattern" where
  "value_pattern stop = p_alt
     [p_seq [p_char (\<lambda>c. c = 34), at_least 0 (\<lambda>c. c \<noteq> 34 \<and> c \<noteq> NEWLINE), p_char (\<lambda>c. c = 34)],
      p_seq [p_char (\<lambda>c. c = 39), at_least 0 (\<lambda>c. c \<noteq> 39 \<and> c \<noteq> NEWLINE), p_char (\<lambda>c. c = 39)],
      at_least 1 (\<lambda>c. \<not> (stop c \<or> quote_char_of c \<or> uspace c))]"

definition KEY_RULE :: rule where
  "KEY_RULE = \<lparr>ru_pre = p_seq [p_opt quote_char_of, SECRET_KEY_NAME, assigned], ru_post = value_pattern (one_of '',;&''),
     ru_keeping = Keep_Quotes\<rparr>"

definition token_rule :: "pattern \<Rightarrow> rule" where
  "token_rule p = \<lparr>ru_pre = P_Empty, ru_post = p, ru_keeping = Mark\<rparr>"

definition word_char :: "int \<Rightarrow> bool" where
  "word_char c \<longleftrightarrow> ascii_alnum c \<or> one_of ''_-'' c"

definition GITHUB_RULE :: "(int \<Rightarrow> bool) \<Rightarrow> rule" where
  "GITHUB_RULE W = token_rule (p_seq [P_Boundary W, p_alt
     [p_seq [p_text ''gh'', p_char (one_of ''pousr''), p_text ''_'', at_least 20 ascii_alnum],
      p_seq [p_text ''github_pat_'', at_least 20 (\<lambda>c. ascii_alnum c \<or> c = 95)]]])"

definition TOKEN_RULES :: "(int \<Rightarrow> bool) \<Rightarrow> rule list" where
  "TOKEN_RULES W =
     [GITHUB_RULE W,
      token_rule (p_seq [P_Boundary W, p_text ''glpat-'', at_least 16 word_char]),
      token_rule (p_seq [P_Boundary W, p_alt [p_text ''sk'', p_text ''xai'', p_text ''rk''], p_text ''-'', at_least 12 word_char]),
      token_rule (p_seq [P_Boundary W, p_text ''lin_'', p_alt [p_text ''api'', p_text ''oauth''], p_text ''_'', at_least 16 ascii_alnum]),
      token_rule (p_seq [P_Boundary W, p_text ''xox'', p_char (one_of ''abprs''), p_text ''-'',
        at_least 10 (\<lambda>c. ascii_alnum c \<or> c = 45)]),
      token_rule (p_seq [P_Boundary W, p_alt [p_text ''AKIA'', p_text ''ASIA''],
        between_counts 16 16 (\<lambda>c. ascii_digit_char c \<or> ascii_upper_char c), P_Boundary W]),
      token_rule (p_seq [P_Not_After ascii_digit_char, between_counts 6 12 ascii_digit_char, p_text '':'',
        between_counts 35 35 word_char, P_Not_Before word_char]),
      \<lparr>ru_pre = p_seq [p_text ''hooks.slack.com/'', p_alt [p_text ''services'', p_text ''workflows'', p_text ''triggers''], p_text ''/''],
       ru_post = between_counts 1 256 (\<lambda>c. ascii_alnum c \<or> one_of ''/_-'' c), ru_keeping = Keep_Mark\<rparr>,
      token_rule (p_seq [P_Boundary W, p_text ''eyJ'', at_least 8 word_char, p_text ''.'', at_least 8 word_char, p_text ''.'',
        at_least 8 word_char])]"

definition PATTERNS :: "(int \<Rightarrow> bool) \<Rightarrow> rule list" where
  "PATTERNS W = [PEM_RULE, CONFIG_RULE, HEADER_RULE W, BEARER_RULE W, URL_RULE, KEY_RULE] @ TOKEN_RULES W"

definition email_char :: "int \<Rightarrow> bool" where
  "email_char c \<longleftrightarrow> ascii_alnum c \<or> one_of ''._%+-'' c"

definition EMAIL_RULE :: rule where
  "EMAIL_RULE =
     (let label = between_counts 1 63 (\<lambda>c. ascii_alnum c \<or> c = 45); dot_label = p_seq [p_text ''.'', label];
          optional = (\<lambda>rest. p_alt [p_seq [dot_label, rest], P_Empty])
      in \<lparr>ru_pre = P_Empty,
          ru_post = p_seq [P_Not_After email_char, between_counts 1 256 email_char, p_text ''@'', label, dot_label,
            (optional ^^ 7) P_Empty],
          ru_keeping = Placeholder\<rparr>)"

definition opaque_char :: "int \<Rightarrow> bool" where
  "opaque_char c \<longleftrightarrow> ascii_alnum c \<or> one_of ''+/_-'' c"

definition OPAQUE_PATTERN :: pattern where
  "OPAQUE_PATTERN = p_seq [P_Not_After opaque_char, P_Ahead (p_seq [at_least 0 opaque_char, p_char ascii_digit_char]),
     at_least 32 opaque_char, between_counts 0 2 (\<lambda>c. c = 61)]"

definition PII_PATTERNS :: "rule list" where
  "PII_PATTERNS = [EMAIL_RULE, token_rule OPAQUE_PATTERN]"


section \<open>Known secrets\<close>

definition SECRET_ENV_NAME :: pattern where
  "SECRET_ENV_NAME = p_alt [ci_text ''token'', ci_text ''secret'', ci_text ''passw'',
     p_seq [ci_text ''api'', p_opt (one_of ''_''), ci_text ''key''], ci_text ''credential'',
     p_seq [ci_text ''private'', p_opt (one_of ''_''), ci_text ''key''], ci_text ''database_url'', ci_text ''dsn'']"

definition MIN_KNOWN_VALUE_LEN :: nat where
  "MIN_KNOWN_VALUE_LEN = 8"

text \<open>The registered secrets, a set; and the configured payload fields, none of which is no pattern.\<close>

record redactor =
  rd_known :: "ustr list"
  rd_fields :: "ustr list"

definition scrub_order :: "ustr \<Rightarrow> int \<times> ustr" where
  "scrub_order v = (- int (length v), v)"

definition long_enough :: "ustr \<Rightarrow> bool" where
  "long_enough v \<longleftrightarrow> MIN_KNOWN_VALUE_LEN \<le> length v"

definition register_known_secrets :: "ustr list \<Rightarrow> bool \<Rightarrow> redactor \<Rightarrow> redactor" where
  "register_known_secrets vs reset st =
     st\<lparr>rd_known := fold List.insert (filter long_enough vs) (if reset then [] else rd_known st)\<rparr>"

definition unregister_known_secrets :: "ustr list \<Rightarrow> redactor \<Rightarrow> redactor" where
  "unregister_known_secrets vs st = st\<lparr>rd_known := filter (\<lambda>v. v \<notin> set vs) (rd_known st)\<rparr>"

definition known_secret_values :: "redactor \<Rightarrow> ustr list" where
  "known_secret_values st = sort (rd_known st)"

definition secret_env_values :: "(ustr \<times> ustr) list \<Rightarrow> ustr list \<Rightarrow> redactor \<Rightarrow> ustr list" where
  "secret_env_values environ extra st =
     (let vs = map snd (filter (\<lambda>(k, v). searches SECRET_ENV_NAME None k \<and> long_enough v) environ) @ filter long_enough extra
      in fold (insort_key scrub_order) (filter (\<lambda>v. v \<notin> set (rd_known st)) (remdups vs))
           (sort_key scrub_order (rd_known st)))"

section \<open>Redacting\<close>

text \<open>\<open>text.replace(v, REDACTED)\<close>.\<close>

function str_replace :: "ustr \<Rightarrow> ustr \<Rightarrow> ustr" where
  "str_replace v [] = []"
| "str_replace v (x # s) =
     (if v \<noteq> [] \<and> starts_with (x # s) v then REDACTED @ str_replace v (drop (length v) (x # s)) else x # str_replace v s)"
  by pat_completeness auto
termination by (relation "measure (length \<circ> snd)") auto

declare str_replace.simps(2) [simp del]

definition redact_value :: "ustr \<Rightarrow> ustr \<Rightarrow> ustr" where
  "redact_value v s = (if v \<noteq> [] \<and> long_enough v then str_replace v s else s)"

definition redact_secrets :: "(int \<Rightarrow> bool) \<Rightarrow> ustr list \<Rightarrow> ustr \<Rightarrow> ustr" where
  "redact_secrets W known s = (if s = [] then [] else fold sub_rule (PATTERNS W) (fold redact_value known s))"

text \<open>The bytes of a character in UTF-8; a surrogate is written as a question mark.\<close>

definition encodable :: "int \<Rightarrow> int" where
  "encodable c = (if 55296 \<le> c \<and> c \<le> 57343 then 63 else c)"

definition utf8_size :: "int \<Rightarrow> nat" where
  "utf8_size c = (if encodable c < 128 then 1 else if encodable c < 2048 then 2 else if encodable c < 65536 then 3 else 4)"

fun fitting :: "nat \<Rightarrow> ustr \<Rightarrow> ustr" where
  "fitting n [] = []"
| "fitting n (c # cs) = (if utf8_size c \<le> n then encodable c # fitting (n - utf8_size c) cs else [])"

definition tail_bytes :: "ustr \<Rightarrow> nat \<Rightarrow> ustr" where
  "tail_bytes s n =
     (if sum_list (map utf8_size s) \<le> n then s
      else
        (let cut = rev (fitting n (rev s)); before = takeWhile (\<lambda>c. c \<noteq> NEWLINE) cut
         in if length before + 1 < length cut then drop (length before + 1) cut else cut))"

definition LOG_FIELD_MAX_CHARS :: nat where
  "LOG_FIELD_MAX_CHARS = 2000"

definition redacted_log_field :: "(int \<Rightarrow> bool) \<Rightarrow> ustr list \<Rightarrow> nat \<Rightarrow> ustr \<Rightarrow> ustr" where
  "redacted_log_field W known limit s = (if s = [] then [] else take limit (redact_secrets W known s))"

definition ustrip :: "ustr \<Rightarrow> ustr" where
  "ustrip s = rev (dropWhile uspace (rev (dropWhile uspace s)))"

definition redacted_stderr_tail :: "(int \<Rightarrow> bool) \<Rightarrow> ustr list \<Rightarrow> ustr \<Rightarrow> ustr" where
  "redacted_stderr_tail W known stderr =
     (if ustrip stderr = [] then []
      else
        (let generous = tail_bytes stderr (STDERR_TAIL_MAX_BYTES * 4);
             dropped = take (length stderr - length generous) stderr;
             whole = (if dropped \<noteq> [] \<and> last dropped \<noteq> NEWLINE then dropWhile (\<lambda>c. \<not> uspace c) generous else generous)
         in ustrip (tail_bytes (redact_secrets W known whole) STDERR_TAIL_MAX_BYTES)))"

definition field_name_ok :: "ustr \<Rightarrow> bool" where
  "field_name_ok n \<longleftrightarrow> n \<noteq> [] \<and> length n \<le> 64 \<and> list_all word_char (filter (\<lambda>c. c \<noteq> DOT) n)"

definition register_redacted_fields :: "ustr list \<Rightarrow> redactor \<Rightarrow> redactor \<times> ustr list" where
  "register_redacted_fields names st =
     (let clean = sort (remdups (filter field_name_ok (map ustrip names))) in (st\<lparr>rd_fields := clean\<rparr>, clean))"

text \<open>The comma-separated form of the environment variable.\<close>

definition register_redacted_fields_text :: "ustr \<Rightarrow> redactor \<Rightarrow> redactor \<times> ustr list" where
  "register_redacted_fields_text names = register_redacted_fields (split_on 44 names)"

definition ci_word :: "ustr \<Rightarrow> pattern" where
  "ci_word n = p_seq (map (\<lambda>c. p_char (any_case (if ascii_upper_char c then c + 32 else c))) n)"

definition field_rule :: "ustr list \<Rightarrow> rule" where
  "field_rule names =
     \<lparr>ru_pre = p_seq [p_opt quote_char_of, P_Not_After key_char, p_alt (map ci_word names), assigned],
      ru_post = value_pattern (one_of '',;&})]''), ru_keeping = Keep_Quotes\<rparr>"

definition redact_log_text :: "(int \<Rightarrow> bool) \<Rightarrow> redactor \<Rightarrow> ustr list \<Rightarrow> ustr \<Rightarrow> ustr" where
  "redact_log_text W st known s =
     (if s = [] then []
      else
        (let text = redact_secrets W known s;
             text = (if rd_fields st = [] then text else sub_rule (field_rule (rd_fields st)) text)
         in fold sub_rule PII_PATTERNS text))"

definition REDACT_OVERLAP_CHARS :: int where
  "REDACT_OVERLAP_CHARS = 256"

definition redact_bounded :: "(ustr \<Rightarrow> ustr) \<Rightarrow> ustr \<Rightarrow> int \<Rightarrow> ustr" where
  "redact_bounded redact s limit =
     (if limit \<le> 0 then [] else take (nat limit) (redact (take (nat (limit + REDACT_OVERLAP_CHARS)) s)))"

section \<open>Events\<close>

datatype event_value =
    Ev_Str ustr
  | Ev_Dict "(ustr \<times> event_value) list"
  | Ev_List "event_value list"
  | Ev_Other ustr

definition EVENT_KEYS_NOT_REDACTED :: "ustr list" where
  "EVENT_KEYS_NOT_REDACTED = map uni
     [''type'', ''timestamp'', ''job_id'', ''event_seq'', ''run_id'', ''node'', ''agent'', ''parent_tool_use_id'', ''tool_id'', ''tool_name'']"

fun walk_event :: "(ustr \<Rightarrow> ustr) \<Rightarrow> event_value \<Rightarrow> event_value" where
  "walk_event f (Ev_Str s) = Ev_Str (f s)"
| "walk_event f (Ev_Dict d) = Ev_Dict (map (\<lambda>(k, v). (k, walk_event f v)) d)"
| "walk_event f (Ev_List vs) = Ev_List (map (walk_event f) vs)"
| "walk_event f (Ev_Other x) = Ev_Other x"

definition redact_event :: "(int \<Rightarrow> bool) \<Rightarrow> ustr list \<Rightarrow> (ustr \<times> event_value) list \<Rightarrow> (ustr \<times> event_value) list" where
  "redact_event W known event =
     map (\<lambda>(k, v). (k, if k \<in> set EVENT_KEYS_NOT_REDACTED then v else walk_event (redact_secrets W known) v)) event"

section \<open>No known secret is left\<close>

text \<open>A secret the mark cannot make part of: no asterisk, no quote or \<open>@\<close> at its start, no space at its end,
  and not the word inside the mark.\<close>

definition plain_secret :: "ustr \<Rightarrow> bool" where
  "plain_secret v \<longleftrightarrow>
     long_enough v \<and> STAR \<notin> set v \<and> hd v \<notin> {34, 39, 64} \<and> last v \<noteq> 32 \<and> v \<noteq> uni ''REDACTED''"

lemma plain_not_Nil: "plain_secret v \<Longrightarrow> v \<noteq> []"
  by (auto simp: plain_secret_def long_enough_def MIN_KNOWN_VALUE_LEN_def)

lemma starts_with_longer:
  assumes "starts_with (p @ c # q) v" and "c \<notin> set v" shows "starts_with p v"
proof (cases "length v \<le> length p")
  case True
  then show ?thesis using assms(1) by (simp add: starts_with_def)
next
  case False
  then have "v = p @ take (length v - length p) (c # q)" using assms(1) by (simp add: starts_with_def)
  moreover have "c \<in> set (take (length v - length p) (c # q))" using False by (cases "length v - length p") auto
  ultimately have "c \<in> set v" by (metis Un_iff set_append)
  then show ?thesis using assms(2) by simp
qed

lemma contains_split: "contains (p @ c # q) v \<Longrightarrow> c \<notin> set v \<Longrightarrow> contains p v \<or> contains q v"
proof (induction p)
  case Nil
  then show ?case using starts_with_longer [of "[]" c q v] by (auto simp: starts_with_def)
next
  case (Cons x p)
  then show ?case using starts_with_longer [of "x # p" c q v] by auto
qed

lemma contains_length: "contains s v \<Longrightarrow> length v \<le> length s"
  by (auto simp: contains_iff)

lemma contains_part: "contains s v \<Longrightarrow> contains (p @ s @ q) v"
  unfolding contains_iff by (metis append.assoc)

abbreviation avoids :: "ustr \<Rightarrow> ustr \<Rightarrow> bool" where
  "avoids v s \<equiv> \<not> contains s v"

lemma avoids_part: "avoids v (p @ s @ q) \<Longrightarrow> avoids v s"
  using contains_part by blast

lemma avoids_prefix: "avoids v (s @ q) \<Longrightarrow> avoids v s"
  using avoids_part [of "[]"] by simp

lemma avoids_suffix: "avoids v (p @ s) \<Longrightarrow> avoids v s"
  using avoids_part [of p s "[]"] by simp

lemma avoids_Nil [simp]: "plain_secret v \<Longrightarrow> avoids v []"
  using plain_not_Nil by simp

lemma avoids_mark:
  assumes v: "plain_secret v" and a: "avoids v a" and b: "avoids v b"
  shows "avoids v (a @ REDACTED @ b)"
proof
  assume c: "contains (a @ REDACTED @ b) v"
  have star: "STAR \<notin> set v" using v by (simp add: plain_secret_def)
  have r: "REDACTED = STAR # STAR # STAR # uni ''REDACTED'' @ STAR # STAR # STAR # []" by code_simp
  have "a @ REDACTED @ b = a @ STAR # [] @ STAR # [] @ STAR # (uni ''REDACTED'' @ STAR # [] @ STAR # [] @ STAR # b)"
    unfolding r by simp
  then have "contains (a @ STAR # [] @ STAR # [] @ STAR # (uni ''REDACTED'' @ STAR # [] @ STAR # [] @ STAR # b)) v"
    using c by (simp only:)
  then have "contains a v \<or> contains [] v \<or> contains (uni ''REDACTED'') v \<or> contains b v"
    using contains_split [OF _ star] by metis
  then have r: "contains (uni ''REDACTED'') v" using a b avoids_Nil [OF v] by blast
  have "length v \<le> 8" using contains_length [OF r] by (simp add: uni_def)
  moreover have "8 \<le> length v" using v by (simp add: plain_secret_def long_enough_def MIN_KNOWN_VALUE_LEN_def)
  moreover obtain x y where "uni ''REDACTED'' = x @ v @ y" using r unfolding contains_iff by blast
  moreover have "length (uni ''REDACTED'') = 8" by (simp add: uni_def)
  ultimately have "v = uni ''REDACTED''" by auto
  then show False using v by (simp add: plain_secret_def)
qed

lemma avoids_start:
  assumes "plain_secret v" and "q \<in> {34, 39, 64}" and "avoids v s" shows "avoids v (q # s)"
proof -
  have "hd v \<noteq> q" using assms(1,2) by (auto simp: plain_secret_def)
  then show ?thesis using assms(3) plain_not_Nil [OF assms(1)] by (cases v) (auto simp: starts_with_def)
qed

lemma avoids_end:
  assumes "plain_secret v" and "avoids v s" shows "avoids v (s @ [32])"
proof
  assume "contains (s @ [32]) v"
  then obtain a b where ab: "s @ [32] = a @ v @ b" unfolding contains_iff by blast
  show False
  proof (cases b rule: rev_cases)
    case Nil
    then have "last v = 32" using ab plain_not_Nil [OF assms(1)] by (metis append_Nil2 last_appendR last_snoc)
    then show ?thesis using assms(1) by (simp add: plain_secret_def)
  next
    case (snoc b' c)
    then have "s = a @ v @ b'" using ab by simp
    then show ?thesis using assms(2) unfolding contains_iff by blast
  qed
qed

subsection \<open>Exact values\<close>

text \<open>No occurrence of a value begins within the first characters of a text.\<close>

definition none_before :: "ustr \<Rightarrow> nat \<Rightarrow> ustr \<Rightarrow> bool" where
  "none_before v n s \<longleftrightarrow> (\<forall>a b. s = a @ v @ b \<longrightarrow> n \<le> length a)"

lemma none_before_prefix: "none_before v (length p) (p @ s) \<Longrightarrow> v \<noteq> [] \<Longrightarrow> avoids v p"
  unfolding none_before_def contains_iff by (metis append.assoc length_append length_greater_0_conv less_add_same_cancel1
      linorder_not_less trans_less_add1)

lemma str_replace_removes:
  assumes v: "plain_secret v" and "none_before v (length p) (p @ s)"
  shows "avoids v (p @ str_replace v s)"
  using assms(2)
proof (induction "length s" arbitrary: s p rule: less_induct)
  case less
  note nb = less.prems
  show ?case
  proof (cases s)
    case Nil
    then show ?thesis using none_before_prefix [OF nb plain_not_Nil [OF v]] by simp
  next
    case (Cons x t)
    show ?thesis
    proof (cases "starts_with s v")
      case True
      have "none_before v (length []) ([] @ drop (length v) s)" by (simp add: none_before_def)
      moreover have "length (drop (length v) s) < length s" using Cons plain_not_Nil [OF v] by (cases v) auto
      ultimately have "avoids v ([] @ str_replace v (drop (length v) s))" by (intro less.hyps)
      then have "avoids v (p @ REDACTED @ str_replace v (drop (length v) s))"
        using none_before_prefix [OF nb plain_not_Nil [OF v]] by (intro avoids_mark v) auto
      then show ?thesis using True Cons plain_not_Nil [OF v] by (simp add: str_replace.simps(2))
    next
      case False
      have "none_before v (length (p @ [x])) ((p @ [x]) @ t)"
        unfolding none_before_def
      proof (intro allI impI)
        fix a b assume ab: "(p @ [x]) @ t = a @ v @ b"
        then have "length p \<le> length a" using nb Cons by (simp add: none_before_def)
        moreover have "length a \<noteq> length p"
        proof
          assume "length a = length p"
          then have "s = v @ b" using ab Cons by simp
          then show False using False by (simp add: starts_with_iff)
        qed
        ultimately show "length (p @ [x]) \<le> length a" by simp
      qed
      then have "avoids v ((p @ [x]) @ str_replace v t)" using Cons by (intro less.hyps) simp_all
      then show ?thesis using False Cons by (simp add: str_replace.simps(2))
    qed
  qed
qed

lemma str_replace_keeps:
  assumes v: "plain_secret v" and "avoids v (p @ s)"
  shows "avoids v (p @ str_replace w s)"
  using assms(2)
proof (induction w s arbitrary: p rule: str_replace.induct)
  case (2 w x s)
  show ?case
  proof (cases "w \<noteq> [] \<and> starts_with (x # s) w")
    case True
    have "avoids v ([] @ drop (length w) (x # s))"
      using avoids_suffix [of "p @ take (length w) (x # s)" "drop (length w) (x # s)" v] 2(3) by simp
    then have "avoids v (str_replace w (drop (length w) (x # s)))" using 2(1) [OF True, of "[]"] by simp
    then show ?thesis using True avoids_prefix [OF 2(3)] avoids_mark [OF v] by (simp add: str_replace.simps(2))
  next
    case False
    have "avoids v ((p @ [x]) @ str_replace w s)" using 2(2) [OF False, of "p @ [x]"] 2(3) by simp
    moreover have "str_replace w (x # s) = x # str_replace w s"
      unfolding str_replace.simps(2) if_not_P [OF False] by (rule refl)
    ultimately show ?thesis by simp
  qed
qed simp

lemma redact_values_remove:
  assumes v: "plain_secret v" and "v \<in> set known \<or> avoids v s"
  shows "avoids v (fold redact_value known s)"
  using assms(2)
proof (induction known arbitrary: s)
  case (Cons w known)
  have keep: "avoids v s \<Longrightarrow> avoids v (redact_value w s)"
    using str_replace_keeps [OF v, of "[]" s w] by (simp add: redact_value_def)
  have removes: "avoids v (redact_value v s)"
    using str_replace_removes [OF v, of "[]" s] v plain_not_Nil [OF v]
    by (simp add: redact_value_def none_before_def plain_secret_def)
  show ?case
  proof (cases "v = w")
    case True
    then show ?thesis using Cons.IH [of "redact_value w s"] removes by simp
  next
    case False
    then show ?thesis using Cons.IH [of "redact_value w s"] Cons.prems keep by auto
  qed
qed simp

subsection \<open>Rules\<close>

lemma take_drop_split: "n \<le> m \<Longrightarrow> take n s @ take (m - n) (drop n s) @ drop m s = s"
  by (metis append_assoc append_take_drop_id le_add_diff_inverse take_add)

text \<open>A match splits the text into the group, the rest of the match, and what follows.\<close>

lemma match_parts_split:
  assumes "match_parts pre post (prev, s) = Some (c1, c2)"
  shows "s = take (length s - length (snd c1)) s @ take (length (snd c1) - length (snd c2)) (snd c1) @ snd c2"
proof -
  have l: "later (prev, s) c1" "later c1 c2" using match_parts_later [OF assms] by simp_all
  have "snd c1 = drop (length s - length (snd c1)) s" "snd c2 = drop (length (snd c1) - length (snd c2)) (snd c1)"
    using later_drop [OF l(1)] later_drop [OF l(2)] by simp_all
  then show ?thesis by (metis append_take_drop_id)
qed

lemma replacement_avoids:
  assumes v: "plain_secret v" and "k \<noteq> Placeholder" and g: "avoids v (p @ g @ m)" and t: "avoids v t"
  shows "avoids v (p @ replacement k g m @ t)"
proof -
  have p: "avoids v p" by (rule avoids_prefix [OF g])
  have pg: "avoids v (p @ g)" using avoids_prefix [of "p @ g" m v] g by simp
  show ?thesis
  proof (cases k)
    case Mark
    then show ?thesis using avoids_mark [OF v p t] by (simp add: replacement_def)
  next
    case Keep_Mark
    then show ?thesis using avoids_mark [OF v pg t] by (simp add: replacement_def)
  next
    case Keep_Space_Mark
    then show ?thesis using avoids_mark [OF v avoids_end [OF v pg] t] by (simp add: replacement_def)
  next
    case Keep_Mark_At
    then show ?thesis using avoids_mark [OF v pg avoids_start [OF v _ t, of 64]] by (simp add: replacement_def)
  next
    case Keep_Quotes
    show ?thesis
    proof (cases m)
      case Nil
      then show ?thesis using avoids_mark [OF v pg t] Keep_Quotes by (simp add: replacement_def keep_quotes_def)
    next
      case (Cons q r)
      show ?thesis
      proof (cases "one_of [CHR 0x22, CHR 0x27] q")
        case True
        then have "q \<in> {34, 39}" by (auto simp: one_of_def uni_def)
        then have "avoids v (q # t)" by (intro avoids_start [OF v _ t]) auto
        moreover have "avoids v (p @ g @ [q])" using avoids_prefix [of "p @ g @ [q]" r v] g Cons by simp
        ultimately have "avoids v ((p @ g @ [q]) @ REDACTED @ q # t)" by (intro avoids_mark [OF v])
        then show ?thesis using True Keep_Quotes Cons by (simp add: replacement_def keep_quotes_def)
      next
        case False
        then show ?thesis using avoids_mark [OF v pg t] Keep_Quotes Cons by (simp add: replacement_def keep_quotes_def)
      qed
    qed
  qed (use assms(2) in simp)
qed

lemma sub_from_avoids:
  assumes v: "plain_secret v" and k: "k \<noteq> Placeholder" and "avoids v (p @ s)"
  shows "avoids v (p @ sub_from pre post (replacement k) prev s)"
  using assms(3)
proof (induction "length s" arbitrary: p prev s rule: less_induct)
  case less
  show ?case
  proof (cases s)
    case Nil
    then show ?thesis using less.prems by simp
  next
    case (Cons x t)
    have step: "avoids v (p @ x # sub_from pre post (replacement k) (Some x) t)"
      using less.hyps [of t "p @ [x]" "Some x"] less.prems Cons by simp
    show ?thesis
    proof (cases "match_parts pre post (prev, x # t)")
      case None
      then show ?thesis using step Cons by (simp add: sub_from.simps(2))
    next
      case (Some m)
      obtain c1 c2 where m: "m = (c1, c2)" by (cases m)
      define g where "g = take (Suc (length t) - length (snd c1)) (x # t)"
      define r where "r = take (length (snd c1) - length (snd c2)) (snd c1)"
      have split: "x # t = g @ r @ snd c2"
        using match_parts_split [of pre post prev "x # t" c1 c2] Some m by (simp add: g_def r_def)
      show ?thesis
      proof (cases "length (snd c2) \<le> length t")
        case True
        have "avoids v ([] @ snd c2)" using avoids_suffix [of "p @ g @ r" "snd c2" v] less.prems Cons split by simp
        then have t: "avoids v (sub_from pre post (replacement k) (fst c2) (snd c2))"
          using less.hyps [of "snd c2" "[]" "fst c2"] True Cons by simp
        have "avoids v (p @ g @ r)" using avoids_prefix [of "p @ g @ r" "snd c2" v] less.prems Cons split by simp
        from replacement_avoids [OF v k this t] show ?thesis
          using True Some m Cons by (simp add: sub_from.simps(2) g_def r_def)
      next
        case False
        then show ?thesis using step Some m Cons by (simp add: sub_from.simps(2))
      qed
    qed
  qed
qed

lemma sub_rule_avoids:
  "plain_secret v \<Longrightarrow> ru_keeping r \<noteq> Placeholder \<Longrightarrow> avoids v s \<Longrightarrow> avoids v (sub_rule r s)"
  using sub_from_avoids [of v "ru_keeping r" "[]" s] by (simp add: sub_rule_def)

lemma fold_rules_avoid:
  "plain_secret v \<Longrightarrow> \<forall>r \<in> set rs. ru_keeping r \<noteq> Placeholder \<Longrightarrow> avoids v s \<Longrightarrow> avoids v (fold sub_rule rs s)"
  by (induction rs arbitrary: s) (simp_all add: sub_rule_avoids)

lemma PATTERNS_mark: "\<forall>r \<in> set (PATTERNS W). ru_keeping r \<noteq> Placeholder"
  by (simp add: PATTERNS_def TOKEN_RULES_def token_rule_def PEM_RULE_def CONFIG_RULE_def HEADER_RULE_def BEARER_RULE_def
      URL_RULE_def KEY_RULE_def GITHUB_RULE_def)

lemma redact_secrets_avoids:
  assumes "plain_secret v" and "v \<in> set known"
  shows "avoids v (redact_secrets W known s)"
proof (cases "s = []")
  case True
  then show ?thesis using plain_not_Nil [OF assms(1)] by (simp add: redact_secrets_def)
next
  case False
  have "avoids v (fold redact_value known s)" using redact_values_remove [OF assms(1)] assms(2) by blast
  from fold_rules_avoid [OF assms(1) PATTERNS_mark this] show ?thesis using False by (simp add: redact_secrets_def)
qed

subsection \<open>Registered secrets in events\<close>

lemma set_insort_fold: "set (fold (insort_key f) xs ys) = set xs \<union> set ys"
  by (induction xs arbitrary: ys) (auto simp: set_insort_key)

lemma set_register: "set (rd_known (register_known_secrets vs reset st)) =
    {v \<in> set vs. long_enough v} \<union> (if reset then {} else set (rd_known st))"
proof -
  have "set (fold List.insert xs ys) = set xs \<union> set ys" for xs ys :: "ustr list"
    by (induction xs arbitrary: ys) auto
  then show ?thesis by (auto simp: register_known_secrets_def)
qed

lemma secret_env_values_set:
  "set (secret_env_values environ extra st) = set (rd_known st) \<union> {v. long_enough v \<and> (v \<in> set extra \<or>
     (\<exists>k. (k, v) \<in> set environ \<and> searches SECRET_ENV_NAME None k))}"
  by (force simp: secret_env_values_def Let_def set_insort_fold image_iff)

fun texts :: "event_value \<Rightarrow> ustr set" where
  "texts (Ev_Str s) = {s}"
| "texts (Ev_Dict d) = (\<Union>(k, v) \<in> set d. texts v)"
| "texts (Ev_List vs) = (\<Union>v \<in> set vs. texts v)"
| "texts (Ev_Other x) = {}"

lemma texts_walk_event: "texts (walk_event f v) = f ` texts v"
  by (induction v) (auto simp: image_UN)


section \<open>No long opaque run leaves\<close>

definition opaque_run :: "ustr \<Rightarrow> bool" where
  "opaque_run w \<longleftrightarrow> 32 \<le> length w \<and> list_all opaque_char w \<and> list_ex ascii_digit_char w"

lemma digit_is_opaque: "ascii_digit_char c \<Longrightarrow> opaque_char c"
  by (simp add: opaque_char_def ascii_alnum_def)

subsection \<open>Where the rule matches\<close>

lemma first_match_iff: "first_match f ns = None \<longleftrightarrow> (\<forall>n \<in> set ns. f n = None)"
  by (induction ns) (auto split: option.splits)

lemma run_length_None: "run_length P None s = length (takeWhile P s)"
  by (simp add: run_length_def)

lemma match_pat_Empty: "match_pat P_Empty k = k"
  by (rule ext) simp

lemma p_char_matches: "match_pat (p_char P) k c =
    (case snd c of [] \<Rightarrow> None | x # _ \<Rightarrow> if P x then k (forward_to c 1) else None)"
  by (cases "snd c") (simp_all add: p_char_def run_length_def counts_def split: option.splits)

lemma p_char_at: "match_pat (p_char P) (\<lambda>c'. Some (c', c')) (forward_to c n) = None \<longleftrightarrow> \<not> (n < length (snd c) \<and> P (snd c ! n))"
proof (cases "n < length (snd c)")
  case True
  then show ?thesis by (simp add: p_char_matches Cons_nth_drop_Suc [symmetric])
qed (simp add: p_char_matches)

text \<open>The lookahead succeeds when the run at the position has a digit.\<close>

lemma digit_ahead:
  "match_pat (p_seq [at_least 0 opaque_char, p_char ascii_digit_char]) (\<lambda>c'. Some (c', c')) (prev, s) = None \<longleftrightarrow>
     \<not> list_ex ascii_digit_char (takeWhile opaque_char s)" (is "?m = None \<longleftrightarrow> _")
proof -
  let ?r = "takeWhile opaque_char s"
  have "?m = None \<longleftrightarrow> (\<forall>n \<le> length ?r. \<not> (n < length s \<and> ascii_digit_char (s ! n)))"
    by (simp del: first_match.simps(2) upt_Suc add: p_seq_def at_least_def first_match_iff run_length_None counts_def
        match_pat_Empty p_char_at less_Suc_eq_le)
      auto
  also have "\<dots> \<longleftrightarrow> (\<forall>n < length ?r. \<not> ascii_digit_char (?r ! n))"
  proof
    assume l: "\<forall>n \<le> length ?r. \<not> (n < length s \<and> ascii_digit_char (s ! n))"
    show "\<forall>n < length ?r. \<not> ascii_digit_char (?r ! n)"
      using l length_takeWhile_le [of opaque_char s] by (auto simp: takeWhile_nth)
  next
    assume r: "\<forall>n < length ?r. \<not> ascii_digit_char (?r ! n)"
    show "\<forall>n \<le> length ?r. \<not> (n < length s \<and> ascii_digit_char (s ! n))"
    proof (intro allI impI)
      fix n assume "n \<le> length ?r"
      then consider "n < length ?r" | "n = length ?r" by linarith
      then show "\<not> (n < length s \<and> ascii_digit_char (s ! n))"
      proof cases
        case 1
        then show ?thesis using r by (simp add: takeWhile_nth)
      next
        case 2
        then show ?thesis using nth_length_takeWhile [of opaque_char s] digit_is_opaque by auto
      qed
    qed
  qed
  also have "\<dots> \<longleftrightarrow> \<not> list_ex ascii_digit_char ?r" by (simp add: list_ex_length)
  finally show ?thesis .
qed

text \<open>After the run come up to two equals signs.\<close>

lemma padding_matches:
  "match_pat (P_Seq (between_counts 0 2 P) P_Empty) k c = first_match (\<lambda>n. k (forward_to c n)) (rev [0..<Suc (run_length P (Some 2) (snd c))])"
  by (simp add: between_counts_def counts_def)

lemma opaque_matches:
  "match_parts P_Empty OPAQUE_PATTERN (prev, s) =
     (if is_in opaque_char prev \<or> \<not> opaque_run (takeWhile opaque_char s) then None
      else Some ((prev, s), forward_to (prev, s) (length (takeWhile opaque_char s) +
             run_length (\<lambda>c. c = 61) (Some 2) (dropWhile opaque_char s))))"
proof -
  let ?r = "takeWhile opaque_char s"
  let ?k = "\<lambda>c2. Some ((prev, s), c2)"
  let ?pad = "P_Seq (between_counts 0 2 (\<lambda>c. c = 61)) P_Empty"
  have all: "list_all opaque_char ?r" by (auto simp: list_all_iff dest: set_takeWhileD)
  have drop: "drop (length ?r) s = dropWhile opaque_char s" by (simp add: dropWhile_eq_drop)
  have "length s = length ?r + length (dropWhile opaque_char s)" by (metis length_append takeWhile_dropWhile_id)
  then have inside: "length ?r + run_length (\<lambda>c. c = 61) (Some 2) (dropWhile opaque_char s) \<le> length (snd (prev, s))"
    using run_length_le [of "\<lambda>c. c = 61" "Some 2" "dropWhile opaque_char s"] by simp
  have pad: "match_pat ?pad ?k (forward_to (prev, s) (length ?r)) =
      Some ((prev, s), forward_to (prev, s) (length ?r + run_length (\<lambda>c. c = 61) (Some 2) (dropWhile opaque_char s)))"
    using advance_advance [OF inside]
    by (simp add: padding_matches advance_advance drop del: match_pat.simps(2))
  have many: "match_pat (P_Seq (at_least 32 opaque_char) ?pad) ?k (prev, s) =
      (if length ?r < 32 then None
       else Some ((prev, s), forward_to (prev, s) (length ?r + run_length (\<lambda>c. c = 61) (Some 2) (dropWhile opaque_char s))))"
    by (simp add: at_least_def counts_def run_length_None pad del: match_pat.simps(2) add: match_pat.simps(2) [of "P_Many _ _ _ _"])
  show ?thesis
    using digit_ahead [of prev s] many all
    by (auto simp: match_parts_def OPAQUE_PATTERN_def p_seq_def opaque_run_def split: option.splits)
qed

subsection \<open>The texts it leaves\<close>

abbreviation run_free :: "ustr \<Rightarrow> bool" where
  "run_free t \<equiv> \<not> (\<exists>w. contains t w \<and> opaque_run w)"

lemma run_free_join:
  assumes "\<not> opaque_char c" and "run_free p" and "run_free q" shows "run_free (p @ c # q)"
proof
  assume "\<exists>w. contains (p @ c # q) w \<and> opaque_run w"
  then obtain w where w: "contains (p @ c # q) w" "opaque_run w" by blast
  then have "c \<notin> set w" using assms(1) by (auto simp: opaque_run_def list_all_iff)
  then show False using contains_split [OF w(1)] w(2) assms(2,3) by blast
qed

lemma run_free_one: "\<not> opaque_run t \<Longrightarrow> list_all opaque_char t \<Longrightarrow> run_free t"
  by (auto simp: contains_iff opaque_run_def list_ex_iff)

lemma run_free_short: "length t < 32 \<Longrightarrow> run_free t"
  using contains_length by (fastforce simp: opaque_run_def)

lemma run_free_Nil: "run_free []"
  by (rule run_free_short) simp

lemma run_free_mark:
  assumes "run_free r" shows "run_free (REDACTED @ r)"
proof -
  have "REDACTED = butlast REDACTED @ [STAR]" "length (butlast REDACTED) < 32" by code_simp+
  then have "REDACTED @ r = butlast REDACTED @ STAR # r" by (metis append.assoc append_Cons append_Nil)
  moreover have "\<not> opaque_char STAR" by code_simp
  ultimately show ?thesis using run_free_join [OF _ run_free_short assms] \<open>length (butlast REDACTED) < 32\<close> by metis
qed

abbreviation scrub_runs :: "int option \<Rightarrow> ustr \<Rightarrow> ustr" where
  "scrub_runs \<equiv> sub_from P_Empty OPAQUE_PATTERN (replacement Mark)"

lemma scrub_runs_Cons:
  "scrub_runs prev (x # s) =
     (if is_in opaque_char prev \<or> \<not> opaque_run (takeWhile opaque_char (x # s)) then x # scrub_runs (Some x) s
      else
        (let c = forward_to (prev, x # s) (length (takeWhile opaque_char (x # s)) +
                   run_length (\<lambda>c. c = 61) (Some 2) (dropWhile opaque_char (x # s)))
         in REDACTED @ scrub_runs (fst c) (snd c)))"
proof (cases "is_in opaque_char prev \<or> \<not> opaque_run (takeWhile opaque_char (x # s))")
  case True
  then show ?thesis unfolding sub_from.simps(2) opaque_matches by simp
next
  case False
  then have "1 \<le> length (takeWhile opaque_char (x # s))" by (simp add: opaque_run_def)
  then have "Suc (length s) - (length (takeWhile opaque_char (x # s)) + n) \<le> length s" for n by linarith
  then show ?thesis using False unfolding sub_from.simps(2) opaque_matches
    by (simp add: Let_def replacement_def del: takeWhile.simps dropWhile.simps)
qed

text \<open>Inside a run nothing matches.\<close>

lemma scrub_runs_inside:
  "is_in opaque_char prev \<Longrightarrow> \<exists>p. scrub_runs prev s = takeWhile opaque_char s @ scrub_runs p (dropWhile opaque_char s)"
proof (induction s arbitrary: prev)
  case (Cons x s)
  show ?case
  proof (cases "opaque_char x")
    case True
    then have "is_in opaque_char (Some x)" by (simp add: is_in_def)
    from Cons.IH [OF this] show ?thesis using Cons.prems True by (auto simp: scrub_runs_Cons)
  next
    case False
    then show ?thesis by auto
  qed
qed simp

lemma scrub_runs_free:
  "\<not> is_in opaque_char prev \<or> takeWhile opaque_char s = [] \<Longrightarrow> run_free (scrub_runs prev s)"
proof (induction "length s" arbitrary: prev s rule: less_induct)
  case less
  show ?case
  proof (cases s)
    case Nil
    then show ?thesis using run_free_Nil by simp
  next
    case (Cons x t)
    let ?r = "takeWhile opaque_char s"
    show ?thesis
    proof (cases "opaque_char x")
      case False
      then have "run_free (scrub_runs (Some x) t)" using less.hyps [of t "Some x"] Cons by (simp add: is_in_def)
      then have "run_free ([] @ x # scrub_runs (Some x) t)" using False by (intro run_free_join run_free_Nil)
      then show ?thesis using False Cons by (simp add: scrub_runs_Cons opaque_run_def)
    next
      case O: True
      then have prev: "\<not> is_in opaque_char prev" using less.prems Cons by simp
      show ?thesis
      proof (cases "opaque_run ?r")
        case True
        define m where "m = run_length (\<lambda>c. c = 61) (Some 2) (dropWhile opaque_char s)"
        define c where "c = forward_to (prev, s) (length ?r + m)"
        have snd: "snd c = drop m (dropWhile opaque_char s)" by (simp add: c_def dropWhile_eq_drop add.commute)
        have short: "length (snd c) < length s" using True Cons
          by (auto simp: c_def opaque_run_def simp del: takeWhile.simps)
        have "\<not> is_in opaque_char (fst c) \<or> takeWhile opaque_char (snd c) = []"
        proof (cases m)
          case 0
          have "takeWhile P (dropWhile P t) = []" for P and t :: ustr by (induction t) auto
          then show ?thesis using 0 by (simp add: snd)
        next
          case (Suc n)
          have le: "m \<le> length (dropWhile opaque_char s)" unfolding m_def by (rule run_length_le)
          have "fst c = Some (s ! (length ?r + n))" using Suc by (simp add: c_def forward_to_def)
          also have "s ! (length ?r + n) = dropWhile opaque_char s ! n"
            using le Suc by (simp add: dropWhile_eq_drop)
          also have "\<dots> = takeWhile (\<lambda>c. c = 61) (take 2 (dropWhile opaque_char s)) ! n"
          proof -
            have n: "n < length (takeWhile (\<lambda>c. c = 61) (take 2 (dropWhile opaque_char s)))"
              using Suc by (simp add: m_def run_length_def)
            then have "n < 2" using length_takeWhile_le [of "\<lambda>c. c = 61" "take 2 (dropWhile opaque_char s)"] by simp
            then show ?thesis using takeWhile_nth [OF n] by simp
          qed
          also have "\<dots> = 61"
            using Suc set_takeWhileD [OF nth_mem, of n "\<lambda>c. c = 61" "take 2 (dropWhile opaque_char s)"]
            by (simp add: m_def run_length_def)
          finally have "fst c = Some 61" .
          moreover have "\<not> opaque_char 61" by code_simp
          ultimately show ?thesis by (simp add: is_in_def)
        qed
        then have "run_free (scrub_runs (fst c) (snd c))" by (intro less.hyps short)
        then show ?thesis using run_free_mark prev True Cons by (simp add: scrub_runs_Cons c_def m_def Let_def)
      next
        case False
        have all: "list_all opaque_char ?r" by (auto simp: list_all_iff dest: set_takeWhileD)
        have free: "run_free ?r" by (rule run_free_one [OF False all])
        have "is_in opaque_char (Some x)" using O by (simp add: is_in_def)
        from scrub_runs_inside [OF this, of t] obtain p where
          out: "scrub_runs prev s = ?r @ scrub_runs p (dropWhile opaque_char s)"
          using False Cons O by (auto simp: scrub_runs_Cons)
        show ?thesis
        proof (cases "dropWhile opaque_char s")
          case Nil
          then have "scrub_runs prev s = ?r" using out by (simp only: sub_from.simps append_Nil2)
          then show ?thesis using free by (simp only: not_False_eq_True)
        next
          case (Cons y z)
          have y: "\<not> opaque_char y" using Cons hd_dropWhile [of opaque_char s] by simp
          have "length z < length s" using Cons length_dropWhile_le [of opaque_char s] by simp
          then have "run_free (scrub_runs (Some y) z)" using y by (intro less.hyps) (auto simp: is_in_def)
          then have "run_free (?r @ y # scrub_runs (Some y) z)" using free y by (intro run_free_join)
          then show ?thesis using out Cons y by (simp add: scrub_runs_Cons opaque_run_def)
        qed
      qed
    qed
  qed
qed

text \<open>C12: text redacted for a model provider or a tracker holds no run of 32 or more characters of base64, hex or
  an identifier that has a digit, whatever the text, the known secrets and the configured fields are.\<close>

theorem opaque_runs_removed: "\<not> (\<exists>w. contains (redact_log_text W st known s) w \<and> opaque_run w)"
proof (cases "s = []")
  case True
  then show ?thesis using run_free_Nil by (simp add: redact_log_text_def)
next
  case False
  have "\<exists>t. redact_log_text W st known s = scrub_runs None t"
    using False by (simp add: redact_log_text_def PII_PATTERNS_def Let_def sub_rule_def token_rule_def) blast
  then show ?thesis using scrub_runs_free [of None] by (auto simp: is_in_def)
qed

end
