(* ===== verification/Glob_Index.thy ===== *)
theory Glob_Index
  imports Posix_Path "HOL-Library.List_Lexorder" "HOL-Library.Product_Lexorder"
begin

text \<open>How the Slop-O-Meter's settings name files (\<open>src/embry0/services/slop_meter/globs.py\<close>): the check of a
  glob, what it matches, how specific it is, and the index that finds the most specific glob matching a path
  without trying them all. A path and a glob are lists of code points; \<open>str.lower\<close> is the parameter \<open>L\<close>.

  The lemmas show that the index answers what trying every glob in order would.\<close>

abbreviation wild :: "int \<Rightarrow> bool" where
  "wild c \<equiv> c = 42 \<or> c = 63"

abbreviation deep_segment :: ustr where
  "deep_segment \<equiv> [STAR, STAR]"

section \<open>Checks\<close>

definition MAX_GLOB_LENGTH :: nat where
  "MAX_GLOB_LENGTH = 200"

definition MAX_DIR_LENGTH :: nat where
  "MAX_DIR_LENGTH = 100"

definition MAX_MARK_LENGTH :: nat where
  "MAX_MARK_LENGTH = 50"

definition lower_alnum :: "int \<Rightarrow> bool" where
  "lower_alnum c \<longleftrightarrow> (97 \<le> c \<and> c \<le> 122) \<or> (48 \<le> c \<and> c \<le> 57)"

definition glob_char :: "int \<Rightarrow> bool" where
  "glob_char c \<longleftrightarrow> lower_alnum c \<or> c \<in> set (uni ''._+@~*?/-'')"

definition dir_char :: "int \<Rightarrow> bool" where
  "dir_char c \<longleftrightarrow> lower_alnum c \<or> c \<in> set (uni ''._+@~-'')"

definition mark_char :: "int \<Rightarrow> bool" where
  "mark_char c \<longleftrightarrow> lower_alnum c \<or> c \<in> set (uni ''_+~-'')"

datatype name_error =
    Nothing_Written
  | Too_Long
  | Bad_Characters
  | Empty_Segment
  | Dot_Segment
  | Deep_Not_Alone
  | Deep_Only
  | Deep_Twice

fun deep_twice :: "ustr list \<Rightarrow> bool" where
  "deep_twice (a # b # ss) \<longleftrightarrow> (a = deep_segment \<and> b = deep_segment) \<or> deep_twice (b # ss)"
| "deep_twice ss \<longleftrightarrow> False"

definition check_glob :: "ustr \<Rightarrow> name_error + ustr" where
  "check_glob glob =
     (let segments = split_on SLASH glob
      in if glob = [] then Inl Nothing_Written
         else if MAX_GLOB_LENGTH < length glob then Inl Too_Long
         else if \<not> list_all glob_char glob then Inl Bad_Characters
         else if [] \<in> set segments then Inl Empty_Segment
         else if list_ex (\<lambda>s. s = [DOT] \<or> s = [DOT, DOT]) segments then Inl Dot_Segment
         else if list_ex (\<lambda>s. contains s deep_segment \<and> s \<noteq> deep_segment) segments then Inl Deep_Not_Alone
         else if segments = [deep_segment] then Inl Deep_Only
         else if deep_twice segments then Inl Deep_Twice
         else Inr glob)"

definition check_dir_name :: "ustr \<Rightarrow> name_error + ustr" where
  "check_dir_name name =
     (if name = [] then Inl Nothing_Written
      else if MAX_DIR_LENGTH < length name then Inl Too_Long
      else if \<not> list_all dir_char name \<or> name = [DOT] \<or> name = [DOT, DOT] then Inl Bad_Characters
      else Inr name)"

definition check_mark :: "ustr \<Rightarrow> name_error + ustr" where
  "check_mark mark =
     (if mark = [] then Inl Nothing_Written
      else if MAX_MARK_LENGTH < length mark then Inl Too_Long
      else if \<not> list_all mark_char mark then Inl Bad_Characters
      else Inr mark)"

section \<open>What a glob matches\<close>

text \<open>The pieces of the regular expression: a character, \<open>[^/]\<close>, \<open>[^/]*\<close>, \<open>(?:[^/]+/)*\<close>, and \<open>.+\<close>, where the dot
  takes no line feed.\<close>

datatype gpart = G_Lit int | G_One | G_Name | G_Dirs | G_Below

definition segment_parts :: "ustr \<Rightarrow> gpart list" where
  "segment_parts s = map (\<lambda>c. if c = STAR then G_Name else if c = 63 then G_One else G_Lit c) s"

fun path_parts :: "ustr list \<Rightarrow> gpart list" where
  "path_parts [] = []"
| "path_parts (s # ss) =
     (if s = deep_segment then (if ss = [] then [G_Below] else G_Dirs # path_parts ss)
      else segment_parts s @ (if ss = [] then [] else G_Lit SLASH # path_parts ss))"

definition compile_glob :: "(ustr \<Rightarrow> ustr) \<Rightarrow> ustr \<Rightarrow> gpart list" where
  "compile_glob L glob =
     (if SLASH \<notin> set (L glob) then segment_parts (L glob) else path_parts (split_on SLASH (L glob)))"

lemma dropWhile_shorter:
  assumes "dropWhile P s = x # t" shows "length t < length s"
  using assms length_dropWhile_le [of P s] by (metis Suc_le_eq length_Cons)

text \<open>\<open>fullmatch\<close>.\<close>

function parts_match :: "gpart list \<Rightarrow> ustr \<Rightarrow> bool" where
  "parts_match [] s \<longleftrightarrow> s = []"
| "parts_match (G_Lit c # ps) s \<longleftrightarrow> (case s of [] \<Rightarrow> False | x # t \<Rightarrow> x = c \<and> parts_match ps t)"
| "parts_match (G_One # ps) s \<longleftrightarrow> (case s of [] \<Rightarrow> False | x # t \<Rightarrow> x \<noteq> SLASH \<and> parts_match ps t)"
| "parts_match (G_Name # ps) s \<longleftrightarrow>
     parts_match ps s \<or> (case s of [] \<Rightarrow> False | x # t \<Rightarrow> x \<noteq> SLASH \<and> parts_match (G_Name # ps) t)"
| "parts_match (G_Dirs # ps) s \<longleftrightarrow>
     parts_match ps s \<or>
     (case dropWhile (\<lambda>x. x \<noteq> SLASH) s of
        [] \<Rightarrow> False
      | x # t \<Rightarrow> takeWhile (\<lambda>x. x \<noteq> SLASH) s \<noteq> [] \<and> parts_match (G_Dirs # ps) t)"
| "parts_match (G_Below # ps) s \<longleftrightarrow>
     (case s of [] \<Rightarrow> False | x # t \<Rightarrow> x \<noteq> NEWLINE \<and> (parts_match ps t \<or> parts_match (G_Below # ps) t))"
  by pat_completeness auto
termination
  by (relation "measures [\<lambda>(ps, s). length s, \<lambda>(ps, s). length ps]") (auto dest: dropWhile_shorter)

definition matches :: "(ustr \<Rightarrow> ustr) \<Rightarrow> ustr \<Rightarrow> ustr \<Rightarrow> bool" where
  "matches L glob path =
     parts_match (compile_glob L glob) (if SLASH \<in> set glob then path else last (split_on SLASH path))"

definition after_dot :: "ustr \<Rightarrow> ustr" where
  "after_dot s = rev (takeWhile (\<lambda>c. c \<noteq> DOT) (rev s))"

definition before_dot :: "ustr \<Rightarrow> ustr" where
  "before_dot s = rev (tl (dropWhile (\<lambda>c. c \<noteq> DOT) (rev s)))"

definition marked :: "ustr \<Rightarrow> ustr list \<Rightarrow> bool" where
  "marked name marks \<longleftrightarrow>
     DOT \<in> set name \<and> after_dot name \<noteq> [] \<and>
     (let stem = before_dot name in stem \<noteq> [] \<and> DOT \<in> set stem \<and> after_dot stem \<in> set marks)"

section \<open>How specific a glob is\<close>

definition literal_glob :: "ustr \<Rightarrow> bool" where
  "literal_glob s \<longleftrightarrow> \<not> list_ex wild s"

definition specificity :: "(ustr \<Rightarrow> ustr) \<Rightarrow> ustr \<Rightarrow> int list" where
  "specificity L glob =
     (let lowered = L glob; literal = int (length (filter (\<lambda>c. \<not> wild c \<and> c \<noteq> SLASH) lowered))
      in if SLASH \<notin> set lowered then [0, literal, 0, 0, 0, 0]
         else (let segments = split_on SLASH lowered; plains = int (length (filter literal_glob segments));
                   deep = int (length (filter (\<lambda>s. s = deep_segment) segments));
                   others = int (length segments) - plains - deep
               in [1, plains, - deep, - others, int (length segments), literal]))"

type_synonym order = "int list \<times> ustr"

definition glob_order :: "(ustr \<Rightarrow> ustr) \<Rightarrow> ustr \<Rightarrow> order" where
  "glob_order L glob = (map uminus (specificity L glob), L glob)"

section \<open>Where the index files a glob\<close>

text \<open>\<open>_WILD.split\<close>.\<close>

lemma hd_dropWhile_wild:
  "dropWhile (\<lambda>c. \<not> wild c) s \<noteq> [] \<Longrightarrow> wild (hd (dropWhile (\<lambda>c. \<not> wild c) s))"
  using hd_dropWhile [of "\<lambda>c. \<not> wild c" s] by blast

function wild_split :: "ustr \<Rightarrow> ustr list" where
  "wild_split s =
     (let a = takeWhile (\<lambda>c. \<not> wild c) s; r = dropWhile (\<lambda>c. \<not> wild c) s
      in if r = [] then [a] else a # wild_split (dropWhile wild r))"
  by pat_completeness auto
termination
proof (relation "measure length")
  fix s :: ustr and a r
  assume r: "r = dropWhile (\<lambda>c. \<not> wild c) s" "r \<noteq> []"
  then obtain c t where ct: "r = c # t" by (metis neq_Nil_conv)
  have "wild (hd r)" unfolding r(1) by (rule hd_dropWhile_wild) (use r in simp)
  then have "length (dropWhile wild r) \<le> length t" using length_dropWhile_le [of wild t] ct by simp
  then show "(dropWhile wild r, s) \<in> measure length"
    using dropWhile_shorter [of "\<lambda>c. \<not> wild c" s c t] r(1) ct by (metis in_measure order.strict_trans1)
qed simp

declare wild_split.simps [simp del]

definition GRAM :: nat where
  "GRAM = 3"

definition MAX_BROAD_GLOBS :: nat where
  "MAX_BROAD_GLOBS = 16"

definition extension_of :: "ustr \<Rightarrow> ustr option" where
  "extension_of s = (let tail = last (wild_split s) in if DOT \<in> set tail then Some (after_dot tail) else None)"

definition literal_runs :: "ustr \<Rightarrow> ustr list" where
  "literal_runs s = filter (\<lambda>r. GRAM \<le> length r) (concat (map wild_split (split_on SLASH s)))"

definition longest_last :: "ustr list \<Rightarrow> ustr" where
  "longest_last ss =
     fold (\<lambda>s best. if length best < length s then s else best) (tl (rev ss)) (hd (rev ss))"

datatype bucket_kind = Exact | Extension | Name_Gram | Head | Segment | Path_Extension | Path_Gram | Broad

definition bucket :: "(ustr \<Rightarrow> ustr) \<Rightarrow> ustr \<Rightarrow> bucket_kind \<times> ustr" where
  "bucket L glob =
     (let lowered = L glob
      in if SLASH \<notin> set lowered then
           (if literal_glob lowered then (Exact, lowered)
            else case extension_of lowered of
                   Some e \<Rightarrow> (Extension, e)
                 | None \<Rightarrow> if literal_runs lowered \<noteq> [] then (Name_Gram, []) else (Broad, []))
         else
           (let segments = split_on SLASH lowered; literal = filter literal_glob segments
            in if literal_glob (hd segments) then (Head, hd segments)
               else if literal \<noteq> [] then (Segment, longest_last literal)
               else case (if last segments \<noteq> deep_segment then extension_of (last segments) else None) of
                      Some e \<Rightarrow> (Path_Extension, e)
                    | None \<Rightarrow> if literal_runs lowered \<noteq> [] then (Path_Gram, []) else (Broad, [])))"

definition broad :: "(ustr \<Rightarrow> ustr) \<Rightarrow> ustr \<Rightarrow> bool" where
  "broad L glob \<longleftrightarrow> fst (bucket L glob) = Broad"

section \<open>The index\<close>

type_synonym 'v entry = "order \<times> gpart list \<times> 'v"

record 'v glob_index =
  gx_exact :: "(ustr \<times> (order \<times> 'v)) list"
  gx_suffixes :: "(ustr \<times> (order \<times> ustr \<times> 'v) list) list"
  gx_extension :: "(ustr \<times> 'v entry list) list"
  gx_gram :: "(ustr \<times> 'v entry list) list"
  gx_head :: "(ustr \<times> 'v entry list) list"
  gx_segment :: "(ustr \<times> 'v entry list) list"
  gx_path_extension :: "(ustr \<times> 'v entry list) list"
  gx_path_gram :: "(ustr \<times> 'v entry list) list"
  gx_broad_names :: "'v entry list"
  gx_broad_paths :: "'v entry list"

definition empty_index :: "'v glob_index" where
  "empty_index = \<lparr>gx_exact = [], gx_suffixes = [], gx_extension = [], gx_gram = [], gx_head = [], gx_segment = [],
     gx_path_extension = [], gx_path_gram = [], gx_broad_names = [], gx_broad_paths = []\<rparr>"

definition filed :: "(ustr \<times> 'x list) list \<Rightarrow> ustr \<Rightarrow> 'x list" where
  "filed table key = (case map_of table key of None \<Rightarrow> [] | Some l \<Rightarrow> l)"

text \<open>\<open>table.setdefault(key, []).append(x)\<close>.\<close>

definition file_under :: "ustr \<Rightarrow> 'x \<Rightarrow> (ustr \<times> 'x list) list \<Rightarrow> (ustr \<times> 'x list) list" where
  "file_under key x table = AList.update key (filed table key @ [x]) table"

definition grams_of :: "ustr \<Rightarrow> ustr list" where
  "grams_of s = map (\<lambda>i. take GRAM (drop i s)) [0..<length s + 1 - GRAM]"

text \<open>The run's gram under which the fewest are filed so far, the first of them in order.\<close>

definition chosen_gram :: "(ustr \<times> 'x list) list \<Rightarrow> ustr \<Rightarrow> ustr" where
  "chosen_gram table glob =
     (let grams = sort (remdups (concat (map grams_of (literal_runs glob))))
      in fold (\<lambda>g best. if length (filed table g) < length (filed table best) then g else best) (tl grams) (hd grams))"

definition add_glob :: "(ustr \<Rightarrow> ustr) \<Rightarrow> ustr \<times> 'v \<Rightarrow> 'v glob_index \<Rightarrow> 'v glob_index" where
  "add_glob L e idx =
     (let lowered = L (fst e); od = glob_order L lowered; entry = (od, compile_glob L lowered, snd e)
      in case bucket L lowered of
           (Exact, key) \<Rightarrow>
             (if map_of (gx_exact idx) lowered = None
              then idx\<lparr>gx_exact := AList.update lowered (od, snd e) (gx_exact idx)\<rparr> else idx)
         | (Extension, key) \<Rightarrow>
             (if starts_with lowered [STAR] \<and> literal_glob (tl lowered)
              then idx\<lparr>gx_suffixes := file_under key (od, tl lowered, snd e) (gx_suffixes idx)\<rparr>
              else idx\<lparr>gx_extension := file_under key entry (gx_extension idx)\<rparr>)
         | (Name_Gram, key) \<Rightarrow> idx\<lparr>gx_gram := file_under (chosen_gram (gx_gram idx) lowered) entry (gx_gram idx)\<rparr>
         | (Path_Gram, key) \<Rightarrow>
             idx\<lparr>gx_path_gram := file_under (chosen_gram (gx_path_gram idx) lowered) entry (gx_path_gram idx)\<rparr>
         | (Broad, key) \<Rightarrow>
             (if SLASH \<in> set lowered then idx\<lparr>gx_broad_paths := gx_broad_paths idx @ [entry]\<rparr>
              else idx\<lparr>gx_broad_names := gx_broad_names idx @ [entry]\<rparr>)
         | (Head, key) \<Rightarrow> idx\<lparr>gx_head := file_under key entry (gx_head idx)\<rparr>
         | (Segment, key) \<Rightarrow> idx\<lparr>gx_segment := file_under key entry (gx_segment idx)\<rparr>
         | (Path_Extension, key) \<Rightarrow> idx\<lparr>gx_path_extension := file_under key entry (gx_path_extension idx)\<rparr>)"

definition build_index :: "(ustr \<Rightarrow> ustr) \<Rightarrow> (ustr \<times> 'v) list \<Rightarrow> 'v glob_index" where
  "build_index L entries = fold (add_glob L) (sort_key (\<lambda>e. glob_order L (fst e)) entries) empty_index"

section \<open>Looking a path up\<close>

text \<open>The first candidate that matches, and how many were checked.\<close>

fun first_of :: "('x \<Rightarrow> bool) \<Rightarrow> (order \<times> 'x) list \<Rightarrow> (order \<times> 'x) option \<times> nat" where
  "first_of ok [] = (None, 0)"
| "first_of ok ((od, x) # cs) =
     (if ok x then (Some (od, x), 1) else (let (r, n) = first_of ok cs in (r, Suc n)))"

text \<open>\<open>min(found, key=...)\<close>: the first of the least.\<close>

fun least_hit :: "(order \<times> 'v) list \<Rightarrow> (order \<times> 'v) option" where
  "least_hit [] = None"
| "least_hit (h # hs) =
     (case least_hit hs of None \<Rightarrow> Some h | Some h' \<Rightarrow> if fst h' < fst h then Some h' else Some h)"

definition hit_value :: "(order \<times> gpart list \<times> 'v) option \<Rightarrow> (order \<times> 'v) list" where
  "hit_value r = (case r of None \<Rightarrow> [] | Some (od, p, v) \<Rightarrow> [(od, v)])"

definition best_of :: "'v entry list list \<Rightarrow> ustr \<Rightarrow> (order \<times> 'v) option \<times> nat" where
  "best_of groups s =
     (let rs = map (first_of (\<lambda>(p, v). parts_match p s)) groups
      in (least_hit (concat (map (hit_value \<circ> fst) rs)), sum_list (map snd rs)))"

definition file_extension :: "ustr \<Rightarrow> ustr option" where
  "file_extension name = (if DOT \<in> set name then Some (after_dot name) else None)"

definition under_extension :: "(ustr \<times> 'x list) list \<Rightarrow> ustr option \<Rightarrow> 'x list list" where
  "under_extension table ext = (case ext of None \<Rightarrow> [] | Some e \<Rightarrow> [filed table e])"

definition best_path :: "'v glob_index \<Rightarrow> ustr \<Rightarrow> (order \<times> 'v) option \<times> nat" where
  "best_path idx path =
     (let segments = split_on SLASH path
      in best_of
           ([gx_broad_paths idx] @
            (if 1 < length segments then [filed (gx_head idx) (hd segments)] else []) @
            (if gx_segment idx \<noteq> [] then map (filed (gx_segment idx)) (remdups segments) else []) @
            under_extension (gx_path_extension idx) (file_extension (last segments)) @
            (if gx_path_gram idx \<noteq> [] then map (filed (gx_path_gram idx)) (remdups (grams_of path)) else []))
           path)"

definition best_name :: "'v glob_index \<Rightarrow> ustr \<Rightarrow> (order \<times> 'v) option \<times> nat" where
  "best_name idx name =
     (let ext = file_extension name;
          exact = (case map_of (gx_exact idx) name of None \<Rightarrow> ([], 0) | Some h \<Rightarrow> ([h], 1));
          suffix = (case ext of
                      None \<Rightarrow> (None, 0)
                    | Some e \<Rightarrow> first_of (\<lambda>(t, v). ends_with name t) (filed (gx_suffixes idx) e));
          suffixed = (case fst suffix of None \<Rightarrow> [] | Some (od, t, v) \<Rightarrow> [(od, v)]);
          (hit, n) = best_of
            ([gx_broad_names idx] @ under_extension (gx_extension idx) ext @
             (if gx_gram idx \<noteq> [] then map (filed (gx_gram idx)) (remdups (grams_of name)) else [])) name
      in (least_hit (fst exact @ suffixed @ (case hit of None \<Rightarrow> [] | Some h \<Rightarrow> [h])), snd exact + snd suffix + n))"

text \<open>\<open>GlobIndex.best\<close>: the value found, and the globs checked.\<close>

definition best :: "'v glob_index \<Rightarrow> ustr \<Rightarrow> 'v option \<times> nat" where
  "best idx path =
     (case best_path idx path of
        (Some h, n) \<Rightarrow> (Some (snd h), n)
      | (None, n) \<Rightarrow>
          (let (hit, m) = best_name idx (last (split_on SLASH path)) in (map_option snd hit, n + m)))"

text \<open>What it stands for: the first glob that matches, tried one by one, the most specific first.\<close>

definition first_matching :: "(ustr \<Rightarrow> ustr) \<Rightarrow> (ustr \<times> 'v) list \<Rightarrow> ustr \<Rightarrow> 'v option" where
  "first_matching L entries path =
     map_option snd (find (\<lambda>(glob, v). matches L glob path) (sort_key (\<lambda>e. glob_order L (fst e)) entries))"


section \<open>What a match takes\<close>

fun part_takes :: "gpart \<Rightarrow> ustr \<Rightarrow> bool" where
  "part_takes (G_Lit c) a \<longleftrightarrow> a = [c]"
| "part_takes G_One a \<longleftrightarrow> (\<exists>c. a = [c] \<and> c \<noteq> SLASH)"
| "part_takes G_Name a \<longleftrightarrow> SLASH \<notin> set a"
| "part_takes G_Dirs a \<longleftrightarrow> (\<exists>ds. (\<forall>d \<in> set ds. SLASH \<notin> set d) \<and> a = concat (map (\<lambda>d. d @ [SLASH]) ds))"
| "part_takes G_Below a \<longleftrightarrow> a \<noteq> []"

lemma parts_match_ConsE:
  "parts_match (p # ps) s \<Longrightarrow> \<exists>a b. s = a @ b \<and> part_takes p a \<and> parts_match ps b"
proof (induction "p # ps" s rule: parts_match.induct)
  case (4 s)
  then show ?case
  proof (cases "parts_match ps s")
    case True
    then show ?thesis using "4.hyps"(3) by (intro exI [of _ "[]"] exI [of _ s]) auto
  next
    case False
    then obtain x t where s: "s = x # t" "x \<noteq> SLASH" "parts_match (G_Name # ps) t"
      using "4.prems" "4.hyps"(3) by (auto split: list.splits)
    then obtain a b where "t = a @ b" "part_takes G_Name a" "parts_match ps b" using "4.hyps"(2) [OF s(1)] "4.hyps"(3) by auto
    then show ?thesis using s "4.hyps"(3) by (intro exI [of _ "x # a"] exI [of _ b]) auto
  qed
next
  case (5 s)
  show ?case
  proof (cases "parts_match ps s")
    case True
    then show ?thesis using 5 by (intro exI [of _ "[]"] exI [of _ s]) (auto intro: exI [of _ "[]"])
  next
    case False
    let ?d = "takeWhile (\<lambda>x. x \<noteq> SLASH) s"
    from False obtain x t where r: "dropWhile (\<lambda>x. x \<noteq> SLASH) s = x # t" "?d \<noteq> []" "parts_match (G_Dirs # ps) t"
      using "5.prems" "5.hyps"(3) by (auto split: list.splits)
    then obtain a b where ab: "t = a @ b" "part_takes G_Dirs a" "parts_match ps b"
      using "5.hyps"(2) [OF r(1)] "5.hyps"(3) by auto
    have "x = SLASH" using r(1) hd_dropWhile [of "\<lambda>x. x \<noteq> SLASH" s] by auto
    then have s: "s = (?d @ [SLASH]) @ t" using r(1) takeWhile_dropWhile_id [of "\<lambda>x. x \<noteq> SLASH" s] by (metis append.assoc append_Cons append_Nil)
    obtain ds where ds: "\<forall>d \<in> set ds. SLASH \<notin> set d" "a = concat (map (\<lambda>d. d @ [SLASH]) ds)" using ab(2) by auto
    have "SLASH \<notin> set ?d" by (auto dest: set_takeWhileD)
    then have "part_takes G_Dirs ((?d @ [SLASH]) @ a)" using ds by (auto intro!: exI [of _ "?d # ds"])
    then show ?thesis using s ab "5.hyps"(3) by (metis append.assoc)
  qed
next
  case (6 s)
  then obtain x t where s: "s = x # t" "parts_match ps t \<or> parts_match (G_Below # ps) t" by (auto split: list.splits)
  show ?case
  proof (cases "parts_match ps t")
    case True
    then show ?thesis using s "6.hyps"(3) by (intro exI [of _ "[x]"] exI [of _ t]) auto
  next
    case False
    then obtain a b where "t = a @ b" "part_takes G_Below a" "parts_match ps b"
      using s(2) "6.hyps"(2) [OF s(1)] "6.hyps"(3) by auto
    then show ?thesis using s "6.hyps"(3) by (intro exI [of _ "x # a"] exI [of _ b]) auto
  qed
qed (auto split: list.splits intro: exI [of _ "[_]"])

definition parts_take :: "gpart list \<Rightarrow> ustr \<Rightarrow> bool" where
  "parts_take ps s \<longleftrightarrow> (\<exists>as. list_all2 part_takes ps as \<and> s = concat as)"

lemma parts_match_take: "parts_match ps s \<Longrightarrow> parts_take ps s"
proof (induction ps arbitrary: s)
  case (Cons p ps)
  obtain a b where ab: "s = a @ b" "part_takes p a" "parts_match ps b" using parts_match_ConsE [OF Cons.prems] by blast
  obtain as where "list_all2 part_takes ps as" "b = concat as" using Cons.IH [OF ab(3)] by (auto simp: parts_take_def)
  then show ?case using ab unfolding parts_take_def by (intro exI [of _ "a # as"]) simp
qed (simp add: parts_take_def)

lemma parts_take_append: "parts_take (ps @ qs) s \<longleftrightarrow> (\<exists>a b. s = a @ b \<and> parts_take ps a \<and> parts_take qs b)"
proof
  assume "parts_take (ps @ qs) s"
  then obtain as bs where "list_all2 part_takes ps as" "list_all2 part_takes qs bs" "s = concat as @ concat bs"
    by (auto simp: parts_take_def list_all2_append1)
  then show "\<exists>a b. s = a @ b \<and> parts_take ps a \<and> parts_take qs b" unfolding parts_take_def by blast
next
  assume "\<exists>a b. s = a @ b \<and> parts_take ps a \<and> parts_take qs b"
  then obtain as bs where "list_all2 part_takes ps as" "list_all2 part_takes qs bs" "s = concat as @ concat bs"
    by (auto simp: parts_take_def)
  then have "list_all2 part_takes (ps @ qs) (as @ bs)" "s = concat (as @ bs)" by (auto intro: list_all2_appendI)
  then show "parts_take (ps @ qs) s" unfolding parts_take_def by blast
qed

lemma parts_take_Cons: "parts_take (p # ps) s \<longleftrightarrow> (\<exists>a b. s = a @ b \<and> part_takes p a \<and> parts_take ps b)"
proof
  assume "parts_take (p # ps) s"
  then obtain a as where "part_takes p a" "list_all2 part_takes ps as" "s = a @ concat as"
    by (auto simp: parts_take_def list_all2_Cons1)
  then show "\<exists>a b. s = a @ b \<and> part_takes p a \<and> parts_take ps b" unfolding parts_take_def by blast
next
  assume "\<exists>a b. s = a @ b \<and> part_takes p a \<and> parts_take ps b"
  then obtain a as where "part_takes p a" "list_all2 part_takes ps as" "s = a @ concat as" by (auto simp: parts_take_def)
  then have "list_all2 part_takes (p # ps) (a # as)" "s = concat (a # as)" by simp_all
  then show "parts_take (p # ps) s" unfolding parts_take_def by blast
qed

lemma parts_take_Nil [simp]: "parts_take [] s \<longleftrightarrow> s = []"
  by (simp add: parts_take_def)

abbreviation segment_takes :: "ustr \<Rightarrow> ustr \<Rightarrow> bool" where
  "segment_takes s \<equiv> parts_take (segment_parts s)"

lemma segment_takes_append:
  "segment_takes (x @ y) a \<longleftrightarrow> (\<exists>b c. a = b @ c \<and> segment_takes x b \<and> segment_takes y c)"
  by (simp add: segment_parts_def parts_take_append)

lemma segment_takes_no_slash: "segment_takes s a \<Longrightarrow> SLASH \<notin> set s \<Longrightarrow> SLASH \<notin> set a"
proof (induction s arbitrary: a)
  case (Cons c s)
  then obtain b d where "a = b @ d" "part_takes (if c = STAR then G_Name else if c = 63 then G_One else G_Lit c) b"
      "segment_takes s d"
    by (auto simp: segment_parts_def parts_take_Cons)
  then show ?case using Cons by (auto split: if_splits)
qed (simp add: segment_parts_def)

lemma segment_takes_plain: "literal_glob s \<Longrightarrow> segment_takes s a \<longleftrightarrow> a = s"
proof (induction s arbitrary: a)
  case (Cons c s)
  then have "literal_glob s" "c \<noteq> STAR" "c \<noteq> 63" by (auto simp: literal_glob_def)
  then show ?case using Cons.IH by (auto simp: segment_parts_def parts_take_Cons)
qed (simp add: segment_parts_def)

lemma wild_split_not_Nil: "wild_split s \<noteq> []"
  unfolding wild_split.simps [of s] Let_def by (rule if_split [THEN iffD2]) blast

lemma wild_split_takes:
  "segment_takes s a \<Longrightarrow> ends_with a (last (wild_split s)) \<and> (\<forall>r \<in> set (wild_split s). contains a r)"
proof (induction s arbitrary: a rule: wild_split.induct)
  case (1 s)
  let ?l = "takeWhile (\<lambda>c. \<not> wild c) s"
  let ?r = "dropWhile (\<lambda>c. \<not> wild c) s"
  have literal_glob: "literal_glob ?l" by (auto simp: literal_glob_def list_ex_iff dest: set_takeWhileD)
  have "segment_takes (?l @ ?r) a" using "1.prems" by (simp only: takeWhile_dropWhile_id)
  then obtain b c where bc: "a = ?l @ c" "segment_takes ?r c" unfolding segment_takes_append segment_takes_plain [OF literal_glob] by blast
  show ?case
  proof (cases "?r = []")
    case True
    have "c = []" using bc(2) unfolding True by (simp add: segment_parts_def)
    moreover have "wild_split s = [?l]" by (subst wild_split.simps) (simp add: Let_def True [simplified])
    ultimately have "wild_split s = [?l]" "a = ?l" using bc(1) by (simp_all only: append_Nil2)
    then show ?thesis unfolding contains_iff ends_with_iff by (metis append.right_neutral append_Nil empty_iff empty_set last_ConsL list.set_intros(1) set_ConsD)
  next
    case False
    let ?w = "takeWhile wild ?r"
    let ?t = "dropWhile wild ?r"
    have "segment_takes (?w @ ?t) c" using bc(2) by (simp only: takeWhile_dropWhile_id)
    then obtain d e where de: "c = d @ e" "segment_takes ?t e" unfolding segment_takes_append by blast
    have split: "wild_split s = ?l # wild_split ?t" by (subst wild_split.simps) (simp only: Let_def False if_False)
    note ih' = "1.IH" [OF refl refl False de(2)]
    have ih: "ends_with e (last (wild_split ?t))" "\<forall>r \<in> set (wild_split ?t). contains e r"
      by (rule ih' [THEN conjunct1], rule ih' [THEN conjunct2])
    have ne: "wild_split ?t \<noteq> []" by (rule wild_split_not_Nil)
    have "ends_with a (last (wild_split s))"
      using ih(1) ne bc(1) de(1) by (auto simp: split ends_with_iff)
    moreover have "contains a r" if "r \<in> set (wild_split s)" for r
    proof -
      have "r = ?l \<or> contains e r" using that ih(2) by (auto simp: split)
      then show ?thesis
      proof
        assume "r = ?l"
        then have "a = [] @ r @ c" using bc(1) by simp
        then show ?thesis unfolding contains_iff by blast
      next
        assume "contains e r"
        then obtain x y where "e = x @ r @ y" unfolding contains_iff by blast
        then have "a = (?l @ d @ x) @ r @ y" using bc(1) de(1) by simp
        then show ?thesis unfolding contains_iff by blast
      qed
    qed
    ultimately show ?thesis by blast
  qed
qed

lemma split_dirs:
  "\<forall>d \<in> set ds. SLASH \<notin> set d \<Longrightarrow>
   split_on SLASH (concat (map (\<lambda>d. d @ [SLASH]) ds) @ b) = ds @ split_on SLASH b"
  by (induction ds) (simp_all add: split_on_append)

text \<open>The segments of a path a glob with a slash matches: its own, in order, the first and the last in place.\<close>

lemma path_takes:
  assumes "parts_take (path_parts ss) t" and "ss \<noteq> []" and "\<forall>s \<in> set ss. SLASH \<notin> set s"
  shows "(\<forall>s \<in> set ss. s \<noteq> deep_segment \<longrightarrow> (\<exists>a \<in> set (split_on SLASH t). segment_takes s a)) \<and>
    (last ss \<noteq> deep_segment \<longrightarrow> segment_takes (last ss) (last (split_on SLASH t))) \<and>
    (hd ss \<noteq> deep_segment \<longrightarrow>
       segment_takes (hd ss) (hd (split_on SLASH t)) \<and> (1 < length ss \<longrightarrow> 1 < length (split_on SLASH t)))"
  using assms
proof (induction ss arbitrary: t)
  case (Cons s ss)
  show ?case
  proof (cases "ss = []")
    case True
    show ?thesis
    proof (cases "s = deep_segment")
      case False
      then have "segment_takes s t" using Cons.prems True by simp
      then show ?thesis using True False segment_takes_no_slash [of s t] Cons.prems(3) by (simp add: split_on_no_sep)
    qed (simp add: True)
  next
    case ss: False
    show ?thesis
    proof (cases "s = deep_segment")
      case True
      then obtain a b where ab: "t = a @ b" "part_takes G_Dirs a" "parts_take (path_parts ss) b"
        using Cons.prems(1) ss by (auto simp: parts_take_Cons)
      then obtain ds where "\<forall>d \<in> set ds. SLASH \<notin> set d" "a = concat (map (\<lambda>d. d @ [SLASH]) ds)" by auto
      then have "split_on SLASH t = ds @ split_on SLASH b" using ab(1) split_dirs by blast
      then show ?thesis using Cons.IH [OF ab(3) ss] Cons.prems(3) True ss by auto
    next
      case False
      then obtain a b where ab: "t = a @ SLASH # b" "segment_takes s a" "parts_take (path_parts ss) b"
        using Cons.prems(1) ss by (auto simp: parts_take_append parts_take_Cons)
      have "split_on SLASH t = a # split_on SLASH b"
        using ab(1) segment_takes_no_slash [OF ab(2)] Cons.prems(3) by (simp add: split_on_append)
      moreover have "split_on SLASH b \<noteq> []" by simp
      ultimately show ?thesis using Cons.IH [OF ab(3) ss] Cons.prems(3) False ss ab(2) by auto
    qed
  qed
qed simp

section \<open>Where the index files a glob it could match\<close>

text \<open>A list of the index.\<close>

datatype place =
    At_Exact ustr
  | At_Suffix ustr
  | At_Extension ustr
  | At_Gram ustr
  | At_Head ustr
  | At_Segment ustr
  | At_Path_Extension ustr
  | At_Path_Gram ustr
  | At_Broad_Names
  | At_Broad_Paths

text \<open>A glob may be filed there.\<close>

fun fits :: "ustr \<Rightarrow> place \<Rightarrow> bool" where
  "fits g (At_Exact k) \<longleftrightarrow> SLASH \<notin> set g \<and> literal_glob g \<and> k = g"
| "fits g (At_Suffix e) \<longleftrightarrow> SLASH \<notin> set g \<and> extension_of g = Some e \<and> g = STAR # tl g \<and> literal_glob (tl g)"
| "fits g (At_Extension e) \<longleftrightarrow> SLASH \<notin> set g \<and> extension_of g = Some e"
| "fits g (At_Gram r) \<longleftrightarrow> SLASH \<notin> set g \<and> (\<exists>s \<in> set (literal_runs g). r \<in> set (grams_of s))"
| "fits g (At_Head h) \<longleftrightarrow> SLASH \<in> set g \<and> h = hd (split_on SLASH g) \<and> literal_glob h"
| "fits g (At_Segment s) \<longleftrightarrow> SLASH \<in> set g \<and> s \<in> set (split_on SLASH g) \<and> literal_glob s"
| "fits g (At_Path_Extension e) \<longleftrightarrow>
     SLASH \<in> set g \<and> last (split_on SLASH g) \<noteq> deep_segment \<and> extension_of (last (split_on SLASH g)) = Some e"
| "fits g (At_Path_Gram r) \<longleftrightarrow> SLASH \<in> set g \<and> (\<exists>s \<in> set (literal_runs g). r \<in> set (grams_of s))"
| "fits g At_Broad_Names \<longleftrightarrow> SLASH \<notin> set g"
| "fits g At_Broad_Paths \<longleftrightarrow> SLASH \<in> set g"

text \<open>A list a path is looked up in; of one a name is looked up in, the name stands for the path.\<close>

fun looked_up :: "ustr \<Rightarrow> place \<Rightarrow> bool" where
  "looked_up s (At_Exact k) \<longleftrightarrow> s = k"
| "looked_up s (At_Suffix e) \<longleftrightarrow> file_extension s = Some e"
| "looked_up s (At_Extension e) \<longleftrightarrow> file_extension s = Some e"
| "looked_up s (At_Gram r) \<longleftrightarrow> r \<in> set (grams_of s)"
| "looked_up s (At_Head h) \<longleftrightarrow> h = hd (split_on SLASH s) \<and> 1 < length (split_on SLASH s)"
| "looked_up s (At_Segment k) \<longleftrightarrow> k \<in> set (split_on SLASH s)"
| "looked_up s (At_Path_Extension e) \<longleftrightarrow> file_extension (last (split_on SLASH s)) = Some e"
| "looked_up s (At_Path_Gram r) \<longleftrightarrow> r \<in> set (grams_of s)"
| "looked_up s At_Broad_Names \<longleftrightarrow> True"
| "looked_up s At_Broad_Paths \<longleftrightarrow> True"

lemma gram_in_grams: "r \<in> set (grams_of s) \<longleftrightarrow> length r = GRAM \<and> contains s r"
proof
  assume "r \<in> set (grams_of s)"
  then obtain i where i: "r = take GRAM (drop i s)" "i < length s + 1 - GRAM" by (auto simp: grams_of_def)
  have "s = take i s @ r @ drop GRAM (drop i s)" unfolding i(1) by (simp only: append_take_drop_id)
  then show "length r = GRAM \<and> contains s r" using i by (auto simp: contains_iff GRAM_def)
next
  assume r: "length r = GRAM \<and> contains s r"
  then obtain a b where s: "s = a @ r @ b" unfolding contains_iff by blast
  then have "r = take GRAM (drop (length a) s)" "length a < length s + 1 - GRAM" using r by (auto simp: GRAM_def)
  then show "r \<in> set (grams_of s)" by (auto simp: grams_of_def)
qed

lemma contains_trans: "contains a b \<Longrightarrow> contains b c \<Longrightarrow> contains a c"
  unfolding contains_iff by (metis append.assoc)

lemma grams_of_mono: "contains a b \<Longrightarrow> r \<in> set (grams_of b) \<Longrightarrow> r \<in> set (grams_of a)"
  using contains_trans by (auto simp: gram_in_grams)

lemma after_dot_append: "DOT \<in> set b \<Longrightarrow> after_dot (a @ b) = after_dot b"
  by (auto simp: after_dot_def takeWhile_append)

lemma extension_taken:
  assumes "segment_takes g a" and "extension_of g = Some e" shows "file_extension a = Some e"
proof -
  obtain b where "a = b @ last (wild_split g)" using wild_split_takes [OF assms(1)] by (auto simp: ends_with_iff)
  then show ?thesis
    using assms(2) after_dot_append by (auto simp: extension_of_def file_extension_def Let_def split: if_splits)
qed

lemma run_of_segment:
  assumes "r \<in> set (literal_runs g)"
  obtains s where "s \<in> set (split_on SLASH g)" "r \<in> set (wild_split s)" "r \<noteq> []"
proof -
  obtain s where "s \<in> set (split_on SLASH g)" "r \<in> set (wild_split s)" "3 \<le> length r"
    using assms by (auto simp: literal_runs_def GRAM_def)
  moreover have "r \<noteq> []" using calculation(3) by auto
  ultimately show thesis using that by blast
qed

lemma deep_segment_split: "set (wild_split deep_segment) = {[]}"
  by (simp add: wild_split.simps)

lemma split_contains: "a \<in> set (split_on c s) \<Longrightarrow> contains s a"
proof (induction s)
  case (Cons x s)
  show ?case
  proof (cases "x = c")
    case True
    then show ?thesis using Cons by (auto simp: starts_with_def)
  next
    case False
    obtain p ps where ps: "split_on c s = p # ps" by (cases "split_on c s") auto
    then obtain t where "s = p @ t" using join_split_on [of c s] by (cases ps) auto
    then have "starts_with (x # s) (x # p)" by (auto simp: starts_with_iff)
    then show ?thesis using Cons False ps by auto
  qed
qed simp

text \<open>A glob that matches is looked up, wherever it may have been filed.\<close>

lemma matching_looked_up:
  assumes "L g = g" and "matches L g path" and "fits g p"
  shows "looked_up (if SLASH \<in> set g then path else last (split_on SLASH path)) p"
proof (cases "SLASH \<in> set g")
  case False
  let ?name = "last (split_on SLASH path)"
  have t: "segment_takes g ?name" using assms(1,2) False by (simp add: matches_def compile_glob_def parts_match_take)
  have runs: "contains ?name r" if "r \<in> set (literal_runs g)" for r
    using that wild_split_takes [OF t] False by (auto simp: literal_runs_def split_on_no_sep)
  show ?thesis
    using assms(3) False t runs
    by (cases p) (auto simp: segment_takes_plain extension_taken intro: grams_of_mono)
next
  case True
  let ?ss = "split_on SLASH g"
  have parts: "parts_take (path_parts ?ss) path"
    using assms(1,2) True by (simp add: matches_def compile_glob_def parts_match_take)
  have "?ss \<noteq> []" "\<forall>s \<in> set ?ss. SLASH \<notin> set s" using split_on_parts [of _ SLASH g] by auto
  note taken = path_takes [OF parts this]
  have two: "1 < length ?ss"
  proof -
    obtain a b where "g = a @ SLASH # b" "SLASH \<notin> set a" using split_list_first [OF True] by blast
    then show ?thesis by (cases "split_on SLASH b") (auto simp: split_on_append)
  qed
  have runs: "contains path r" if run: "r \<in> set (literal_runs g)" for r
  proof -
    obtain s where s: "s \<in> set ?ss" "r \<in> set (wild_split s)" "r \<noteq> []" by (rule run_of_segment [OF run])
    then have "s \<noteq> deep_segment" using deep_segment_split by auto
    then obtain a where a: "a \<in> set (split_on SLASH path)" "segment_takes s a" using taken s(1) by blast
    have "contains a r" using wild_split_takes [OF a(2)] s(2) by blast
    then show ?thesis by (rule contains_trans [OF split_contains [OF a(1)]])
  qed
  have literal_glob: "\<not> literal_glob deep_segment" by (simp add: literal_glob_def)
  show ?thesis
  proof (cases p)
    case (At_Head h)
    then have "fits g (At_Head h)" using assms(3) by (simp only:)
    then have "h = hd ?ss \<and> literal_glob h" using fits.simps(5) [of g h] by blast
    then have h: "h = hd ?ss" "literal_glob h" by blast+
    then have "hd ?ss \<noteq> deep_segment" using literal_glob by auto
    then show ?thesis using taken two h segment_takes_plain [OF h(2)] At_Head True by auto
  next
    case (At_Segment s)
    then have "fits g (At_Segment s)" using assms(3) by (simp only:)
    then have s: "s \<in> set ?ss" "literal_glob s" by simp_all
    then have "s \<noteq> deep_segment" using literal_glob by blast
    then obtain a where a: "a \<in> set (split_on SLASH path)" "segment_takes s a" using taken s(1) by blast
    then have "a = s" by (simp only: segment_takes_plain [OF s(2)])
    then show ?thesis using a(1) At_Segment True by simp
  next
    case (At_Path_Extension e)
    then have "last ?ss \<noteq> deep_segment" "extension_of (last ?ss) = Some e" using assms(3) by simp_all
    then show ?thesis using taken extension_taken At_Path_Extension True by auto
  next
    case (At_Path_Gram r)
    then obtain s where s: "s \<in> set (literal_runs g)" "r \<in> set (grams_of s)" using assms(3) by auto
    have "r \<in> set (grams_of path)" by (rule grams_of_mono [OF runs [OF s(1)] s(2)])
    then show ?thesis using At_Path_Gram True by simp
  qed (use True assms(3) in auto)
qed

section \<open>What the index holds\<close>

definition place_list :: "'v glob_index \<Rightarrow> place \<Rightarrow> 'v entry list" where
  "place_list idx p =
     (case p of
        At_Exact k \<Rightarrow> (case map_of (gx_exact idx) k of None \<Rightarrow> [] | Some (od, v) \<Rightarrow> [(od, segment_parts k, v)])
      | At_Suffix e \<Rightarrow> map (\<lambda>(od, t, v). (od, G_Name # segment_parts t, v)) (filed (gx_suffixes idx) e)
      | At_Extension e \<Rightarrow> filed (gx_extension idx) e
      | At_Gram r \<Rightarrow> filed (gx_gram idx) r
      | At_Head h \<Rightarrow> filed (gx_head idx) h
      | At_Segment s \<Rightarrow> filed (gx_segment idx) s
      | At_Path_Extension e \<Rightarrow> filed (gx_path_extension idx) e
      | At_Path_Gram r \<Rightarrow> filed (gx_path_gram idx) r
      | At_Broad_Names \<Rightarrow> gx_broad_names idx
      | At_Broad_Paths \<Rightarrow> gx_broad_paths idx)"

definition entry_of :: "(ustr \<Rightarrow> ustr) \<Rightarrow> ustr \<times> 'v \<Rightarrow> 'v entry" where
  "entry_of L e = (glob_order L (fst e), compile_glob L (fst e), snd e)"

lemma filed_file_under: "filed (file_under k x t) k' = filed t k' @ (if k' = k then [x] else [])"
  by (auto simp: filed_def file_under_def map_of_update)

lemma fold_choice: "fold (\<lambda>g b. if P g b then g else b) gs x \<in> set (x # gs)"
proof (induction gs arbitrary: x)
  case (Cons g gs)
  then show ?case using Cons.IH [of g] Cons.IH [of x] by auto
qed simp

lemma longest_last_in: "ss \<noteq> [] \<Longrightarrow> longest_last ss \<in> set ss"
proof -
  assume "ss \<noteq> []"
  then have "rev ss = hd (rev ss) # tl (rev ss)" by simp
  then show ?thesis using fold_choice [of "\<lambda>s best. length best < length s" "tl (rev ss)" "hd (rev ss)"]
    unfolding longest_last_def by (metis set_rev)
qed

lemma chosen_gram_in:
  assumes "literal_runs g \<noteq> []"
  shows "\<exists>s \<in> set (literal_runs g). chosen_gram table g \<in> set (grams_of s)"
proof -
  let ?gs = "sort (remdups (concat (map grams_of (literal_runs g))))"
  obtain s where s: "s \<in> set (literal_runs g)" using assms by (cases "literal_runs g") auto
  then have "GRAM \<le> length s" by (simp add: literal_runs_def)
  moreover have "s = [] @ take GRAM s @ drop GRAM s" by simp
  then have "contains s (take GRAM s)" unfolding contains_iff by blast
  ultimately have "take GRAM s \<in> set (grams_of s)" by (simp add: gram_in_grams)
  then have "take GRAM s \<in> set ?gs" using s by auto
  then have "?gs \<noteq> []" by (metis empty_iff empty_set)
  then have "?gs = hd ?gs # tl ?gs" by simp
  then have "chosen_gram table g \<in> set ?gs"
    using fold_choice [of "\<lambda>g best. length (filed table g) < length (filed table best)" "tl ?gs" "hd ?gs"]
    unfolding chosen_gram_def Let_def by metis
  then show ?thesis by auto
qed

lemma add_glob_places:
  assumes L: "L g = g" and new: "place_list idx (At_Exact g) = []"
  shows "\<exists>p. fits g p \<and>
    (\<forall>q. place_list (add_glob L (g, v) idx) q = place_list idx q @ (if q = p then [entry_of L (g, v)] else []))"
proof -
  note defs = add_glob_def entry_of_def L Let_def
  show ?thesis
  proof (cases "SLASH \<in> set g")
    case False
    have compiled: "compile_glob L g = segment_parts g" using L False by (simp add: compile_glob_def)
    show ?thesis
    proof (cases "literal_glob g")
      case True
      have "map_of (gx_exact idx) g = None" using new by (auto simp: place_list_def split: option.splits)
      then have "place_list (add_glob L (g, v) idx) q =
          place_list idx q @ (if q = At_Exact g then [entry_of L (g, v)] else [])" for q
        using False True
        by (cases q) (auto simp: defs bucket_def compiled place_list_def map_of_update filed_def split: option.splits)
      then show ?thesis using False True by (intro exI [of _ "At_Exact g"]) simp
    next
      case np: False
      show ?thesis
      proof (cases "extension_of g")
        case (Some e)
        show ?thesis
        proof (cases "starts_with g [STAR] \<and> literal_glob (tl g)")
          case True
          then obtain t where g: "g = STAR # t" by (auto simp: starts_with_iff)
          have parts: "segment_parts g = G_Name # segment_parts t" unfolding g by (simp add: segment_parts_def)
          have "place_list (add_glob L (g, v) idx) q =
              place_list idx q @ (if q = At_Suffix e then [entry_of L (g, v)] else [])" for q
            using False np Some True
            by (cases q) (simp_all add: defs bucket_def compiled place_list_def filed_file_under parts,
                simp_all add: g)
          then show ?thesis using False Some True g by (intro exI [of _ "At_Suffix e"]) simp
        next
          case no: False
          have "place_list (add_glob L (g, v) idx) q =
              place_list idx q @ (if q = At_Extension e then [entry_of L (g, v)] else [])" for q
            using False np Some no by (cases q) (auto simp: defs bucket_def place_list_def filed_file_under)
          then show ?thesis using False Some by (intro exI [of _ "At_Extension e"]) simp
        qed
      next
        case None
        show ?thesis
        proof (cases "literal_runs g = []")
          case True
          have "place_list (add_glob L (g, v) idx) q =
              place_list idx q @ (if q = At_Broad_Names then [entry_of L (g, v)] else [])" for q
            using False np None True by (cases q) (simp_all add: defs bucket_def place_list_def)
          then show ?thesis using False by (intro exI [of _ At_Broad_Names]) simp
        next
          case runs: False
          let ?r = "chosen_gram (gx_gram idx) g"
          have "place_list (add_glob L (g, v) idx) q =
              place_list idx q @ (if q = At_Gram ?r then [entry_of L (g, v)] else [])" for q
            using False np None runs by (cases q) (simp_all add: defs bucket_def place_list_def filed_file_under)
          then show ?thesis using False chosen_gram_in [OF runs] by (intro exI [of _ "At_Gram ?r"]) simp
        qed
      qed
    qed
  next
    case True
    let ?ss = "split_on SLASH g"
    let ?ext = "if last ?ss \<noteq> deep_segment then extension_of (last ?ss) else None"
    show ?thesis
    proof (cases "literal_glob (hd ?ss)")
      case head: True
      have "place_list (add_glob L (g, v) idx) q =
          place_list idx q @ (if q = At_Head (hd ?ss) then [entry_of L (g, v)] else [])" for q
        using True head by (cases q) (simp_all add: defs bucket_def place_list_def filed_file_under)
      then show ?thesis using True head by (intro exI [of _ "At_Head (hd ?ss)"]) simp
    next
      case nohead: False
      show ?thesis
      proof (cases "filter literal_glob ?ss = []")
        case lit: False
        let ?s = "longest_last (filter literal_glob ?ss)"
        have "place_list (add_glob L (g, v) idx) q =
            place_list idx q @ (if q = At_Segment ?s then [entry_of L (g, v)] else [])" for q
          using True nohead lit by (cases q) (simp_all add: defs bucket_def place_list_def filed_file_under)
        moreover have "?s \<in> set (filter literal_glob ?ss)" by (rule longest_last_in [OF lit])
        ultimately show ?thesis using True by (intro exI [of _ "At_Segment ?s"]) simp
      next
        case nolit: True
        show ?thesis
        proof (cases ?ext)
          case (Some e)
          have "place_list (add_glob L (g, v) idx) q =
              place_list idx q @ (if q = At_Path_Extension e then [entry_of L (g, v)] else [])" for q
            using True nohead nolit Some
            by (cases q) (simp_all add: defs bucket_def place_list_def filed_file_under split: if_splits)
          then show ?thesis using True Some by (intro exI [of _ "At_Path_Extension e"]) (simp split: if_splits)
        next
          case None
          show ?thesis
          proof (cases "literal_runs g = []")
            case noruns: True
            have "place_list (add_glob L (g, v) idx) q =
                place_list idx q @ (if q = At_Broad_Paths then [entry_of L (g, v)] else [])" for q
              using True nohead nolit None noruns
              by (cases q) (simp_all add: defs bucket_def place_list_def split: if_splits)
            then show ?thesis using True by (intro exI [of _ At_Broad_Paths]) simp
          next
            case runs: False
            let ?r = "chosen_gram (gx_path_gram idx) g"
            have "place_list (add_glob L (g, v) idx) q =
                place_list idx q @ (if q = At_Path_Gram ?r then [entry_of L (g, v)] else [])" for q
              using True nohead nolit None runs
              by (cases q) (simp_all add: defs bucket_def place_list_def filed_file_under split: if_splits)
            then show ?thesis using True chosen_gram_in [OF runs] by (intro exI [of _ "At_Path_Gram ?r"]) simp
          qed
        qed
      qed
    qed
  qed
qed

text \<open>Each list holds, in order, the globs filed there; each glob is filed in one place that fits it.\<close>

lemma index_places:
  assumes "distinct (map fst es)" and "\<forall>e \<in> set es. L (fst e) = fst e"
  shows "\<exists>f. (\<forall>e \<in> set es. fits (fst e) (f (fst e))) \<and>
    (\<forall>q. place_list (fold (add_glob L) es empty_index) q = map (entry_of L) (filter (\<lambda>e. f (fst e) = q) es))"
  using assms
proof (induction es rule: rev_induct)
  case Nil
  show ?case by (auto simp: place_list_def empty_index_def filed_def split: place.splits)
next
  case (snoc e es)
  obtain g v where e: "e = (g, v)" by (cases e)
  let ?idx = "fold (add_glob L) es empty_index"
  obtain f where f: "\<forall>e \<in> set es. fits (fst e) (f (fst e))"
      "\<forall>q. place_list ?idx q = map (entry_of L) (filter (\<lambda>e. f (fst e) = q) es)"
    using snoc by auto
  have g: "g \<notin> set (map fst es)" using snoc.prems(1) e by simp
  have "f (fst e') \<noteq> At_Exact g" if "e' \<in> set es" for e'
  proof
    assume "f (fst e') = At_Exact g"
    then have "fits (fst e') (At_Exact g)" using f(1) that by metis
    then show False using g that by auto
  qed
  then have "place_list ?idx (At_Exact g) = []" using f(2) by (simp add: filter_empty_conv)
  from add_glob_places [of L g, OF _ this, of v] obtain p where p: "fits g p"
      "\<forall>q. place_list (add_glob L (g, v) ?idx) q = place_list ?idx q @ (if q = p then [entry_of L (g, v)] else [])"
    using snoc.prems(2) e by auto
  have same: "filter (\<lambda>e. (f(g := p)) (fst e) = q) es = filter (\<lambda>e. f (fst e) = q) es" for q
    using g by (intro filter_cong) auto
  show ?case
  proof (intro exI [of _ "f(g := p)"] conjI allI)
    show "\<forall>e \<in> set (es @ [e]). fits (fst e) ((f(g := p)) (fst e))" using f(1) p(1) g e by auto
    show "place_list (fold (add_glob L) (es @ [e]) empty_index) q =
        map (entry_of L) (filter (\<lambda>e. (f(g := p)) (fst e) = q) (es @ [e]))" for q
      using p(2) f(2) same [of q] by (simp add: e)
  qed
qed

section \<open>The index answers as trying every glob would\<close>

definition single_least :: "(order \<times> 'v) list \<Rightarrow> order \<times> 'v \<Rightarrow> bool" where
  "single_least hs h \<longleftrightarrow> h \<in> set hs \<and> (\<forall>h' \<in> set hs. fst h < fst h' \<or> h' = h)"

lemma least_hit_Nil: "least_hit hs = None \<longleftrightarrow> hs = []"
  by (cases hs) (auto split: option.splits)

lemma least_hit_in: "least_hit hs = Some h \<Longrightarrow> h \<in> set hs \<and> (\<forall>h' \<in> set hs. fst h \<le> fst h')"
proof (induction hs arbitrary: h)
  case (Cons x hs)
  show ?case
  proof (cases "least_hit hs")
    case None
    then show ?thesis using Cons.prems least_hit_Nil [of hs] by simp
  next
    case (Some y)
    note y = Cons.IH [OF Some]
    show ?thesis
    proof (cases "fst y < fst x")
      case True
      then show ?thesis using Cons.prems Some y by auto
    next
      case False
      then have "fst x \<le> fst h'" if "h' \<in> set hs" for h' using y that by (meson linorder_not_less order_trans)
      then show ?thesis using Cons.prems Some False by auto
    qed
  qed
qed simp

lemma single_least_hit:
  assumes "single_least hs h" shows "least_hit hs = Some h"
proof -
  have "hs \<noteq> []" using assms by (auto simp: single_least_def)
  then obtain x where x: "least_hit hs = Some x" using least_hit_Nil [of hs] by (cases "least_hit hs") auto
  then have "x \<in> set hs" "fst x \<le> fst h" using least_hit_in [OF x] assms by (auto simp: single_least_def)
  then have "x = h" using assms by (auto simp: single_least_def dest: leD)
  then show ?thesis using x by simp
qed

text \<open>The least of some, and of the least of others.\<close>

lemma single_least_nested:
  assumes "single_least (xs @ ys) h"
  shows "least_hit (xs @ (case least_hit ys of None \<Rightarrow> [] | Some y \<Rightarrow> [y])) = Some h"
proof (rule single_least_hit)
  show "single_least (xs @ (case least_hit ys of None \<Rightarrow> [] | Some y \<Rightarrow> [y])) h"
  proof (cases "h \<in> set ys")
    case True
    then have "single_least ys h" using assms by (auto simp: single_least_def)
    then have "least_hit ys = Some h" by (rule single_least_hit)
    then show ?thesis using assms by (auto simp: single_least_def)
  next
    case False
    then show ?thesis using assms least_hit_in [of ys] by (auto simp: single_least_def split: option.splits)
  qed
qed

text \<open>In a strictly sorted list the first to satisfy a predicate is the least that does.\<close>

lemma find_strict_iff:
  assumes "sorted_wrt (\<lambda>a b. k a < (k b :: order)) es"
  shows "find P es = Some e \<longleftrightarrow> e \<in> set es \<and> P e \<and> (\<forall>e' \<in> set es. P e' \<longrightarrow> k e < k e' \<or> e' = e)"
  using assms
proof (induction es)
  case (Cons x es)
  then show ?case by (cases "P x") (auto dest: order_less_asym)
qed simp

lemma find_filter:
  assumes "find P es = Some e" and "Q e" shows "find P (filter Q es) = Some e"
  using assms by (induction es) (auto split: if_splits)

lemma find_some: "find P es = Some e \<Longrightarrow> e \<in> set es \<and> P e"
  by (induction es) (auto split: if_splits)

lemma first_of_map:
  "fst (first_of ok (map (\<lambda>e. (k e, x e)) es)) = map_option (\<lambda>e. (k e, x e)) (find (\<lambda>e. ok (x e)) es)"
  by (induction es) (auto split: prod.splits)

text \<open>A sorted list of entries with where each is filed.\<close>

definition indexed :: "(ustr \<Rightarrow> ustr) \<Rightarrow> (ustr \<times> 'v) list \<Rightarrow> (ustr \<Rightarrow> place) \<Rightarrow> 'v glob_index \<Rightarrow> bool" where
  "indexed L es f idx \<longleftrightarrow>
     sorted_wrt (\<lambda>a b. glob_order L (fst a) < glob_order L (fst b)) es \<and> (\<forall>e \<in> set es. L (fst e) = fst e) \<and>
     (\<forall>e \<in> set es. fits (fst e) (f (fst e))) \<and>
     (\<forall>q. place_list idx q = map (entry_of L) (filter (\<lambda>e. f (fst e) = q) es))"

definition hits :: "ustr \<Rightarrow> 'v entry list list \<Rightarrow> (order \<times> 'v) list" where
  "hits s groups = concat (map (\<lambda>l. hit_value (fst (first_of (\<lambda>(p, v). parts_match p s) l))) groups)"

abbreviation hit :: "(ustr \<Rightarrow> ustr) \<Rightarrow> ustr \<times> 'v \<Rightarrow> order \<times> 'v" where
  "hit L e \<equiv> (glob_order L (fst e), snd e)"

lemma best_of_hits: "fst (best_of groups s) = least_hit (hits s groups)"
  by (simp add: best_of_def hits_def Let_def comp_def)

lemma hits_of_place:
  assumes "indexed L es f idx"
  shows "hit_value (fst (first_of (\<lambda>(p, v). parts_match p s) (place_list idx q))) =
    (case find (\<lambda>e. parts_match (compile_glob L (fst e)) s) (filter (\<lambda>e. f (fst e) = q) es) of
       None \<Rightarrow> [] | Some e \<Rightarrow> [hit L e])"
proof -
  have "place_list idx q = map (\<lambda>e. (glob_order L (fst e), (compile_glob L (fst e), snd e))) (filter (\<lambda>e. f (fst e) = q) es)"
    using assms by (simp add: indexed_def entry_of_def [abs_def])
  then show ?thesis by (simp add: first_of_map hit_value_def split: option.splits)
qed

definition slash_place :: "place \<Rightarrow> bool" where
  "slash_place p \<longleftrightarrow> (case p of At_Head _ \<Rightarrow> True | At_Segment _ \<Rightarrow> True | At_Path_Extension _ \<Rightarrow> True | At_Path_Gram _ \<Rightarrow> True
     | At_Broad_Paths \<Rightarrow> True | _ \<Rightarrow> False)"

lemma fits_slash: "fits g p \<Longrightarrow> slash_place p \<longleftrightarrow> SLASH \<in> set g"
  by (cases p) (auto simp: slash_place_def)

text \<open>Looked up in every list that fits, the least hit is the least glob that matches.\<close>

lemma hits_least:
  assumes i: "indexed L es f idx"
    and groups: "\<forall>l \<in> set groups. \<exists>q. l = place_list idx q \<and> slash_place q = b"
    and all: "\<forall>q. slash_place q = b \<longrightarrow> looked_up s q \<longrightarrow> place_list idx q = [] \<or> place_list idx q \<in> set groups"
    and s: "s = (if b then path else last (split_on SLASH path))"
  shows "case find (\<lambda>e. (SLASH \<in> set (fst e)) = b \<and> matches L (fst e) path) es of
      None \<Rightarrow> hits s groups = [] | Some e \<Rightarrow> single_least (hits s groups) (hit L e)"
proof -
  let ?P = "\<lambda>e. (SLASH \<in> set (fst e)) = b \<and> matches L (fst e) path"
  let ?M = "\<lambda>e. parts_match (compile_glob L (fst e)) s"
  have M: "matches L (fst e) path \<longleftrightarrow> ?M e" if "(SLASH \<in> set (fst e)) = b" for e :: "ustr \<times> 'v"
    using that s by (auto simp: matches_def)
  have sound: "\<exists>e \<in> set es. ?P e \<and> h = hit L e" if h: "h \<in> set (hits s groups)" for h
  proof -
    obtain l where "l \<in> set groups" "h \<in> set (hit_value (fst (first_of (\<lambda>(p, v). parts_match p s) l)))"
      using h by (auto simp: hits_def)
    then obtain q where q: "slash_place q = b"
        "h \<in> set (hit_value (fst (first_of (\<lambda>(p, v). parts_match p s) (place_list idx q))))"
      using groups by auto
    then obtain e where e: "find ?M (filter (\<lambda>e. f (fst e) = q) es) = Some e" "h = hit L e"
      unfolding hits_of_place [OF i] by (cases "find ?M (filter (\<lambda>e. f (fst e) = q) es)") auto
    have "e \<in> set es" "f (fst e) = q" "?M e" using find_some [OF e(1)] by auto
    then have "fits (fst e) q" using i by (auto simp: indexed_def)
    then have "(SLASH \<in> set (fst e)) = b" using fits_slash q(1) by blast
    then show ?thesis using M \<open>?M e\<close> \<open>e \<in> set es\<close> e(2) by blast
  qed
  show ?thesis
  proof (cases "find ?P es")
    case None
    then have "\<not> ?P e" if "e \<in> set es" for e using None that unfolding find_None_iff by blast
    then have "hits s groups = []" using sound by (metis last_in_set)
    then show ?thesis using None by simp
  next
    case (Some e)
    have sorted: "sorted_wrt (\<lambda>a b. glob_order L (fst a) < glob_order L (fst b)) es" using i by (simp add: indexed_def)
    note e = Some [unfolded find_strict_iff [OF sorted]]
    have fit: "fits (fst e) (f (fst e))" "L (fst e) = fst e" using i e by (auto simp: indexed_def)
    then have kind: "slash_place (f (fst e)) = b" using fits_slash e by blast
    have "looked_up s (f (fst e))" using matching_looked_up [of L "fst e" path "f (fst e)"] fit e s by auto
    moreover have "entry_of L e \<in> set (place_list idx (f (fst e)))" using i e by (auto simp: indexed_def)
    ultimately have l: "place_list idx (f (fst e)) \<in> set groups" using all kind by (metis empty_iff empty_set)
    have "find ?P (filter (\<lambda>e'. f (fst e') = f (fst e)) es) = Some e" by (rule find_filter [OF Some]) simp
    moreover have "find ?P (filter (\<lambda>e'. f (fst e') = f (fst e)) es) = find ?M (filter (\<lambda>e'. f (fst e') = f (fst e)) es)"
    proof (rule find_cong [OF refl])
      fix e' assume "e' \<in> set (filter (\<lambda>e'. f (fst e') = f (fst e)) es)"
      then have "fits (fst e') (f (fst e))" using i by (auto simp: indexed_def)
      then have "(SLASH \<in> set (fst e')) = b" using fits_slash kind by blast
      then show "?P e' = ?M e'" using M by blast
    qed
    ultimately have "hit_value (fst (first_of (\<lambda>(p, v). parts_match p s) (place_list idx (f (fst e))))) = [hit L e]"
      by (simp add: hits_of_place [OF i])
    then have "hit L e \<in> set (hits s groups)" using l by (force simp: hits_def)
    moreover have "fst (hit L e) < fst h \<or> h = hit L e" if hh: "h \<in> set (hits s groups)" for h
    proof -
      obtain e' where "e' \<in> set es" "?P e'" "h = hit L e'" using sound [OF hh] by blast
      then show ?thesis using e by auto
    qed
    ultimately show ?thesis using Some by (simp add: single_least_def)
  qed
qed

lemma filed_Nil [simp]: "filed [] k = []"
  by (simp add: filed_def)

lemma best_path_least:
  assumes i: "indexed L es f idx"
  shows "fst (best_path idx path) =
    map_option (hit L) (find (\<lambda>e. (SLASH \<in> set (fst e)) = True \<and> matches L (fst e) path) es)"
proof -
  let ?ss = "split_on SLASH path"
  let ?groups = "[gx_broad_paths idx] @
            (if 1 < length ?ss then [filed (gx_head idx) (hd ?ss)] else []) @
            (if gx_segment idx \<noteq> [] then map (filed (gx_segment idx)) (remdups ?ss) else []) @
            under_extension (gx_path_extension idx) (file_extension (last ?ss)) @
            (if gx_path_gram idx \<noteq> [] then map (filed (gx_path_gram idx)) (remdups (grams_of path)) else [])"
  have "\<exists>q. l = place_list idx q \<and> slash_place q = True" if l: "l \<in> set ?groups" for l
  proof -
    consider "l = gx_broad_paths idx" | "l = filed (gx_head idx) (hd ?ss)" | k where "l = filed (gx_segment idx) k"
      | k where "l = filed (gx_path_extension idx) k" | k where "l = filed (gx_path_gram idx) k"
      using l by (auto simp: under_extension_def split: if_splits option.splits)
    then show ?thesis
    proof cases
      case 1
      then show ?thesis by (intro exI [of _ At_Broad_Paths]) (simp add: place_list_def slash_place_def)
    next
      case 2
      then show ?thesis by (intro exI [of _ "At_Head (hd ?ss)"]) (simp add: place_list_def slash_place_def)
    next
      case (3 k)
      then show ?thesis by (intro exI [of _ "At_Segment k"]) (simp add: place_list_def slash_place_def)
    next
      case (4 k)
      then show ?thesis by (intro exI [of _ "At_Path_Extension k"]) (simp add: place_list_def slash_place_def)
    next
      case (5 k)
      then show ?thesis by (intro exI [of _ "At_Path_Gram k"]) (simp add: place_list_def slash_place_def)
    qed
  qed
  moreover have "place_list idx q = [] \<or> place_list idx q \<in> set ?groups" if "slash_place q" "looked_up path q" for q
    using that by (cases q) (auto simp: slash_place_def place_list_def under_extension_def)
  ultimately have "case find (\<lambda>e. (SLASH \<in> set (fst e)) = True \<and> matches L (fst e) path) es of
      None \<Rightarrow> hits path ?groups = [] | Some e \<Rightarrow> single_least (hits path ?groups) (hit L e)"
    by (intro hits_least [OF i]) auto
  moreover have "fst (best_path idx path) = least_hit (hits path ?groups)"
    by (simp only: best_path_def Let_def best_of_hits)
  ultimately show ?thesis by (auto simp: single_least_hit split: option.splits simp del: set_append)
qed


subsection \<open>Names\<close>

lemma plain_parts_match: "literal_glob k \<Longrightarrow> parts_match (segment_parts k) a \<longleftrightarrow> a = k"
proof (induction k arbitrary: a)
  case (Cons c k)
  then have "literal_glob k" "c \<noteq> STAR" "c \<noteq> 63" by (auto simp: literal_glob_def)
  then show ?case using Cons.IH by (auto simp: segment_parts_def split: list.splits)
qed (simp add: segment_parts_def)

lemma suffix_parts_match:
  "literal_glob t \<Longrightarrow> SLASH \<notin> set a \<Longrightarrow> parts_match (G_Name # segment_parts t) a \<longleftrightarrow> ends_with a t"
proof (induction a)
  case (Cons x a)
  have "ends_with (x # a) t \<longleftrightarrow> x # a = t \<or> ends_with a t"
    by (auto simp: ends_with_iff Cons_eq_append_conv)
  then show ?case using Cons by (auto simp: plain_parts_match)
qed (auto simp: plain_parts_match ends_with_iff)

lemma first_of_map_hits:
  assumes "\<forall>(od, x) \<in> set l. ok' (h x) = ok x"
  shows "fst (first_of ok' (map (\<lambda>(od, x). (od, h x)) l)) =
    map_option (\<lambda>(od, x). (od, h x)) (fst (first_of ok l))"
  using assms by (induction l) (auto split: prod.splits)

lemma exact_hits:
  assumes "indexed L es f idx"
  shows "hit_value (fst (first_of (\<lambda>(p, v). parts_match p name) (place_list idx (At_Exact name)))) =
    (case map_of (gx_exact idx) name of None \<Rightarrow> [] | Some h \<Rightarrow> [h])"
proof (cases "map_of (gx_exact idx) name")
  case None
  then show ?thesis by (simp add: place_list_def hit_value_def)
next
  case (Some h)
  obtain od v where h: "h = (od, v)" by (cases h)
  have "place_list idx (At_Exact name) \<noteq> []" using Some h by (simp add: place_list_def)
  then obtain e where "e \<in> set es" "f (fst e) = At_Exact name"
    using assms by (auto simp: indexed_def filter_empty_conv)
  then have "fits (fst e) (At_Exact name)" using assms by (auto simp: indexed_def)
  then have "literal_glob name" by simp
  then show ?thesis using Some h by (simp add: place_list_def hit_value_def plain_parts_match)
qed

lemma suffix_hits:
  assumes "indexed L es f idx" and "SLASH \<notin> set name"
  shows "hit_value (fst (first_of (\<lambda>(p, v). parts_match p name) (place_list idx (At_Suffix x)))) =
    (case fst (first_of (\<lambda>(t, v). ends_with name t) (filed (gx_suffixes idx) x)) of
       None \<Rightarrow> [] | Some (od, t, v) \<Rightarrow> [(od, v)])"
proof -
  let ?l = "filed (gx_suffixes idx) x"
  have l: "place_list idx (At_Suffix x) = map (\<lambda>(od, y). (od, (\<lambda>(t, v). (G_Name # segment_parts t, v)) y)) ?l"
    by (simp add: place_list_def case_prod_unfold)
  have "literal_glob t" if "(od, t, v) \<in> set ?l" for od t v
  proof -
    have "(od, G_Name # segment_parts t, v) \<in> set (place_list idx (At_Suffix x))"
      using that by (force simp: place_list_def)
    then obtain e where e: "e \<in> set es" "f (fst e) = At_Suffix x" "G_Name # segment_parts t = compile_glob L (fst e)"
      using assms(1) by (auto simp: indexed_def entry_of_def)
    have fit: "fits (fst e) (At_Suffix x)" and L: "L (fst e) = fst e"
      using assms(1) e(1) unfolding indexed_def e(2) [symmetric] by blast+
    then have "SLASH \<notin> set (fst e)" "fst e = STAR # tl (fst e)" "literal_glob (tl (fst e))"
      using fits.simps(2) [of "fst e" x] by blast+
    then obtain u where u: "fst e = STAR # u" "literal_glob u" "SLASH \<notin> set (STAR # u)" by metis
    then have same: "segment_parts t = segment_parts u" using e(3) L by (simp add: compile_glob_def segment_parts_def)
    have inj: "inj (\<lambda>c :: int. if c = STAR then G_Name else if c = 63 then G_One else G_Lit c)"
      by (rule injI) (auto split: if_splits)
    have "t = u" by (rule map_injective [OF same [unfolded segment_parts_def] inj])
    then show "literal_glob t" using u(2) by simp
  qed
  then have "\<forall>(od, y) \<in> set ?l. (\<lambda>(p, v). parts_match p name) ((\<lambda>(t, v). (G_Name # segment_parts t, v)) y) =
      (\<lambda>(t, v). ends_with name t) y"
    using suffix_parts_match assms(2) by auto
  from first_of_map_hits [where ok' = "\<lambda>(p, v). parts_match p name"
      and h = "\<lambda>(t, v). (G_Name # segment_parts t, v)" and ok = "\<lambda>(t, v). ends_with name t", OF this]
  show ?thesis
    unfolding l by (auto simp: hit_value_def split: option.splits)
qed

lemma hits_append: "hits s (a @ b) = hits s a @ hits s b"
  by (simp add: hits_def)

lemma best_name_least:
  assumes i: "indexed L es f idx" and name: "name = last (split_on SLASH path)"
  shows "fst (best_name idx name) =
    map_option (hit L) (find (\<lambda>e. (SLASH \<in> set (fst e)) = False \<and> matches L (fst e) path) es)"
proof -
  let ?ext = "file_extension name"
  let ?first = "[place_list idx (At_Exact name)] @
      (case ?ext of None \<Rightarrow> [] | Some x \<Rightarrow> [place_list idx (At_Suffix x)])"
  let ?rest = "[gx_broad_names idx] @ under_extension (gx_extension idx) ?ext @
             (if gx_gram idx \<noteq> [] then map (filed (gx_gram idx)) (remdups (grams_of name)) else [])"
  have slash: "SLASH \<notin> set name" using split_on_parts [of name SLASH path] name by simp
  have "\<exists>q. l = place_list idx q \<and> slash_place q = False" if l: "l \<in> set (?first @ ?rest)" for l
  proof -
    consider "l = gx_broad_names idx" | k where "l = place_list idx (At_Exact k)" | k where "l = place_list idx (At_Suffix k)"
      | k where "l = filed (gx_extension idx) k" | k where "l = filed (gx_gram idx) k"
      using l by (auto simp: under_extension_def split: if_splits option.splits)
    then show ?thesis
    proof cases
      case 1
      then show ?thesis by (intro exI [of _ At_Broad_Names]) (simp add: place_list_def slash_place_def)
    next
      case (2 k)
      then show ?thesis by (intro exI [of _ "At_Exact k"]) (simp add: slash_place_def)
    next
      case (3 k)
      then show ?thesis by (intro exI [of _ "At_Suffix k"]) (simp add: slash_place_def)
    next
      case (4 k)
      then show ?thesis by (intro exI [of _ "At_Extension k"]) (simp add: place_list_def slash_place_def)
    next
      case (5 k)
      then show ?thesis by (intro exI [of _ "At_Gram k"]) (simp add: place_list_def slash_place_def)
    qed
  qed
  moreover have "place_list idx q = [] \<or> place_list idx q \<in> set (?first @ ?rest)"
    if "\<not> slash_place q" "looked_up name q" for q
    using that by (cases q) (auto simp: slash_place_def place_list_def under_extension_def)
  ultimately have least: "case find (\<lambda>e. (SLASH \<in> set (fst e)) = False \<and> matches L (fst e) path) es of
      None \<Rightarrow> hits name (?first @ ?rest) = [] | Some e \<Rightarrow> single_least (hits name (?first @ ?rest)) (hit L e)"
    using name by (intro hits_least [OF i]) auto
  have first: "hits name ?first = (case map_of (gx_exact idx) name of None \<Rightarrow> [] | Some h \<Rightarrow> [h]) @
      (case fst (case ?ext of None \<Rightarrow> (None, 0)
                 | Some x \<Rightarrow> first_of (\<lambda>(t, v). ends_with name t) (filed (gx_suffixes idx) x)) of
         None \<Rightarrow> [] | Some (od, t, v) \<Rightarrow> [(od, v)])"
    using exact_hits [OF i, of name] suffix_hits [OF i slash]
    by (cases ?ext) (simp_all add: hits_def)
  define A where "A = hits name ?first"
  define B where "B = hits name ?rest"
  have found: "fst (best_name idx name) = least_hit (A @ (case least_hit B of None \<Rightarrow> [] | Some h \<Rightarrow> [h]))"
    unfolding A_def B_def best_of_hits [symmetric] first
    by (auto simp: best_name_def Let_def split: prod.splits option.splits)
  have least: "case find (\<lambda>e. (SLASH \<in> set (fst e)) = False \<and> matches L (fst e) path) es of
      None \<Rightarrow> A @ B = [] | Some e \<Rightarrow> single_least (A @ B) (hit L e)"
    using least unfolding hits_append A_def B_def .
  show ?thesis
  proof (cases "find (\<lambda>e. (SLASH \<in> set (fst e)) = False \<and> matches L (fst e) path) es")
    case None
    then have "A = []" "B = []" using least by simp_all
    then show ?thesis using found None by simp
  next
    case (Some e)
    then have "single_least (A @ B) (hit L e)" using least by simp
    from single_least_nested [OF this] show ?thesis using found Some by simp
  qed
qed

subsection \<open>The whole look-up\<close>

lemma slash_first:
  assumes "L g = g" and "L h = h" and "SLASH \<in> set g" and "SLASH \<notin> set h"
  shows "glob_order L g < glob_order L h"
  using assms by (simp add: glob_order_def specificity_def Let_def less_prod_def)

definition lowers :: "(ustr \<Rightarrow> ustr) \<Rightarrow> bool" where
  "lowers L \<longleftrightarrow> (\<forall>s. list_all glob_char s \<longrightarrow> L s = s)"

lemma checked_glob_lower: "lowers L \<Longrightarrow> check_glob g = Inr g \<Longrightarrow> L g = g"
  by (auto simp: lowers_def check_glob_def Let_def split: if_splits)

lemma glob_index_indexed:
  assumes "\<forall>e \<in> set entries. L (fst e) = fst e" and "distinct (map fst entries)"
  shows "\<exists>f. indexed L (sort_key (\<lambda>e. glob_order L (fst e)) entries) f (build_index L entries)"
proof -
  let ?es = "sort_key (\<lambda>e. glob_order L (fst e)) entries"
  have set: "set ?es = set entries" by simp
  have "distinct ?es" using assms(2) by (simp add: distinct_map)
  have keys: "distinct (map fst ?es)"
    using assms(2) \<open>distinct ?es\<close> by (simp add: distinct_map)
  have "distinct (map (\<lambda>e. glob_order L (fst e)) ?es)"
  proof (subst distinct_map, intro conjI \<open>distinct ?es\<close> inj_onI)
    fix a b assume ab: "a \<in> set ?es" "b \<in> set ?es" "glob_order L (fst a) = glob_order L (fst b)"
    then have "fst a = fst b" using assms(1) by (simp add: glob_order_def)
    then show "a = b" using ab(1,2) keys by (meson distinct_map inj_onD)
  qed
  moreover have "sorted (map (\<lambda>e. glob_order L (fst e)) ?es)" by (rule sorted_sort_key)
  ultimately have "sorted_wrt (<) (map (\<lambda>e. glob_order L (fst e)) ?es)" by (simp add: strict_sorted_iff)
  moreover obtain f where "\<forall>e \<in> set ?es. fits (fst e) (f (fst e))"
      "\<forall>q. place_list (fold (add_glob L) ?es empty_index) q = map (entry_of L) (filter (\<lambda>e. f (fst e) = q) ?es)"
    using index_places [OF keys, of L] assms(1) by auto
  ultimately show ?thesis using assms(1) by (auto simp: indexed_def build_index_def sorted_wrt_map)
qed

lemma index_finds:
  assumes "lowers L" and "\<forall>(g, v) \<in> set entries. check_glob g = Inr g" and "distinct (map fst entries)"
  shows "fst (best (build_index L entries) path) = first_matching L entries path"
proof -
  let ?es = "sort_key (\<lambda>e. glob_order L (fst e)) entries"
  have L: "\<forall>e \<in> set entries. L (fst e) = fst e" using assms(1,2) checked_glob_lower by auto
  obtain f where i: "indexed L ?es f (build_index L entries)" using glob_index_indexed [OF L assms(3)] by blast
  have sorted: "sorted_wrt (\<lambda>a b. glob_order L (fst a) < glob_order L (fst b)) ?es" using i by (simp add: indexed_def)
  let ?S = "\<lambda>e. (SLASH \<in> set (fst e)) = True \<and> matches L (fst e) path"
  let ?N = "\<lambda>e. (SLASH \<in> set (fst e)) = False \<and> matches L (fst e) path"
  let ?A = "\<lambda>e. matches L (fst e) path"
  have ref: "first_matching L entries path = map_option snd (find ?A ?es)"
    by (simp add: first_matching_def case_prod_unfold)
  show ?thesis
  proof (cases "find ?S ?es")
    case (Some e)
    note e = Some [unfolded find_strict_iff [OF sorted]]
    have "find ?A ?es = Some e"
      unfolding find_strict_iff [OF sorted]
    proof (intro conjI ballI impI)
      fix e' assume e': "e' \<in> set ?es" "matches L (fst e') path"
      show "glob_order L (fst e) < glob_order L (fst e') \<or> e' = e"
      proof (cases "SLASH \<in> set (fst e')")
        case True
        then show ?thesis using e e' by auto
      next
        case False
        then have "glob_order L (fst e) < glob_order L (fst e')" using e e' L by (intro slash_first) auto
        then show ?thesis ..
      qed
    qed (use e in auto)
    then show ?thesis using Some best_path_least [OF i, of path] ref
      by (auto simp: best_def split: prod.splits option.splits)
  next
    case None
    then have "find ?N ?es = find ?A ?es" by (intro find_cong refl) (auto simp: find_None_iff)
    then show ?thesis using None best_path_least [OF i, of path] best_name_least [OF i refl, of path] ref
      by (auto simp: best_def option.map_comp comp_def split: prod.splits)
  qed
qed

text \<open>C13: the index answers for every path the value of the most specific glob that matches, the one found by
  trying every glob in order, for globs the check lets through, each given once.\<close>

theorem index_finds_first:
  assumes "lowers L" and "\<forall>(g, v) \<in> set entries. check_glob g = Inr g" and "distinct (map fst entries)"
  shows "fst (best (build_index L entries) path) = first_matching L entries path"
  by (rule index_finds [OF assms])

lemma index_finds_first_witness:
  "fst (best (build_index id [(uni ''*.py'', 1 :: nat), (uni ''test_?*.py'', 2), (uni ''src/**/a.py'', 3)]) (uni ''src/b/a.py'')) =
   Some 3"
proof -
  let ?es = "[(uni ''*.py'', 1 :: nat), (uni ''test_?*.py'', 2), (uni ''src/**/a.py'', 3)]"
  have "lowers id" by (simp add: lowers_def)
  moreover have "list_all (\<lambda>(g, v). check_glob g = Inr g) ?es" by code_simp
  then have "\<forall>(g, v) \<in> set ?es. check_glob g = Inr g" by (simp only: list_all_iff)
  moreover have "distinct (map fst ?es)" by code_simp
  moreover have "first_matching id ?es (uni ''src/b/a.py'') = Some 3" by code_simp
  ultimately show ?thesis using index_finds_first [of id ?es "uni ''src/b/a.py''"] by simp
qed

end
