(* ===== verification/File_Weights.thy ===== *)
theory File_Weights
  imports Glob_Index
begin

text \<open>How much attention a changed line demands, by its file
  (\<open>src/embry0/services/slop_meter/weights.py\<close>): the rules of the settings, the gitignore-style patterns, the
  outlier files, and the weigher over them. Weights are exact rationals; both classes keep the weights they have
  worked out, so their calls return the object changed. Reading patterns out of a repository's configuration
  files is left out.

  The lemmas show that neither the kept weights nor the index of globs can be told from working each weight out
  by trying every glob, and that a pattern that matches a directory matches all below it.\<close>

section \<open>The rules of the settings\<close>

definition KEPT_MAX :: nat where
  "KEPT_MAX = 200000"

record file_rules =
  fr_weights :: "rat glob_index"
  fr_tests :: "bool glob_index"
  fr_excluded_dirs :: "ustr list"
  fr_test_dirs :: "ustr list"
  fr_test_marks :: "ustr list"
  fr_test_weight :: rat
  fr_kept :: "(ustr \<times> rat) list"

text \<open>The part of the \<open>slop_meter\<close> section the rules are built from.\<close>

record weight_settings =
  ws_weights :: "(ustr \<times> rat) list"
  ws_excluded_dirs :: "ustr list"
  ws_test_dirs :: "ustr list"
  ws_test_files :: "ustr list"
  ws_test_marks :: "ustr list"
  ws_test_weight :: rat

definition rules_of :: "(ustr \<Rightarrow> ustr) \<Rightarrow> weight_settings \<Rightarrow> file_rules" where
  "rules_of L s = \<lparr>fr_weights = build_index L (ws_weights s),
     fr_tests = build_index L (map (\<lambda>g. (g, True)) (ws_test_files s)),
     fr_excluded_dirs = map L (ws_excluded_dirs s), fr_test_dirs = map L (ws_test_dirs s),
     fr_test_marks = map L (ws_test_marks s), fr_test_weight = ws_test_weight s, fr_kept = []\<rparr>"

definition weigh :: "(ustr \<Rightarrow> ustr) \<Rightarrow> file_rules \<Rightarrow> ustr \<Rightarrow> rat" where
  "weigh L r path =
     (let lowered = L path; parts = split_on SLASH lowered
      in if list_ex (\<lambda>p. p \<in> set (fr_excluded_dirs r)) (butlast parts) then 0
         else (let weight = (case fst (best (fr_weights r) lowered) of None \<Rightarrow> 0 | Some w \<Rightarrow> w)
               in if weight \<noteq> 0 \<and>
                     (list_ex (\<lambda>p. p \<in> set (fr_test_dirs r)) (butlast parts) \<or>
                      marked (last parts) (fr_test_marks r) \<or> fst (best (fr_tests r) lowered) \<noteq> None)
                  then weight * fr_test_weight r else weight))"

definition weight_of :: "(ustr \<Rightarrow> ustr) \<Rightarrow> file_rules \<Rightarrow> ustr \<Rightarrow> rat \<times> file_rules" where
  "weight_of L r path =
     (case map_of (fr_kept r) path of
        Some w \<Rightarrow> (w, r)
      | None \<Rightarrow>
          (let left = (if KEPT_MAX \<le> length (fr_kept r) then [] else fr_kept r); w = weigh L r path
           in (w, r\<lparr>fr_kept := AList.update path w left\<rparr>)))"

section \<open>Ignore patterns\<close>

text \<open>The pieces: a character, \<open>[^/]\<close>, \<open>[^/]*\<close>, \<open>.*\<close>, \<open>(?:.*/)?\<close>, and the end, \<open>(?:/.*)?\<close> or, for a pattern of
  directories, \<open>/.*\<close>.\<close>

datatype ipart = I_Lit int | I_One | I_Name | I_Any | I_Dirs

function ignore_parts :: "ustr \<Rightarrow> ipart list" where
  "ignore_parts [] = []"
| "ignore_parts (c # s) =
     (if starts_with (c # s) [STAR, STAR, SLASH] then I_Dirs # ignore_parts (drop 2 s)
      else if starts_with (c # s) [STAR, STAR] then I_Any # ignore_parts (drop 1 s)
      else (if c = STAR then I_Name else if c = 63 then I_One else I_Lit c) # ignore_parts s)"
  by pat_completeness auto
termination by (relation "measure length") auto

definition compile_ignore :: "ustr \<Rightarrow> ipart list \<times> bool" where
  "compile_ignore pattern =
     (let directory = ends_with pattern [SLASH]; body = lstrip_char SLASH (rstrip_char SLASH pattern);
          anchored = starts_with pattern [SLASH] \<or> SLASH \<in> set body
      in ((if anchored then [] else [I_Dirs]) @ ignore_parts body, directory))"

definition covers_rest :: "bool \<Rightarrow> ustr \<Rightarrow> bool" where
  "covers_rest directory s \<longleftrightarrow>
     (case s of [] \<Rightarrow> \<not> directory | x # t \<Rightarrow> x = SLASH \<and> NEWLINE \<notin> set t)"

fun any_line :: "(ustr \<Rightarrow> bool) \<Rightarrow> ustr \<Rightarrow> bool" where
  "any_line k [] \<longleftrightarrow> k []"
| "any_line k (x # t) \<longleftrightarrow> k (x # t) \<or> (x \<noteq> NEWLINE \<and> any_line k t)"

fun any_name :: "(ustr \<Rightarrow> bool) \<Rightarrow> ustr \<Rightarrow> bool" where
  "any_name k [] \<longleftrightarrow> k []"
| "any_name k (x # t) \<longleftrightarrow> k (x # t) \<or> (x \<noteq> SLASH \<and> any_name k t)"

fun ignore_match :: "ipart list \<Rightarrow> bool \<Rightarrow> ustr \<Rightarrow> bool" where
  "ignore_match [] d s \<longleftrightarrow> covers_rest d s"
| "ignore_match (I_Lit c # ps) d s \<longleftrightarrow> (case s of [] \<Rightarrow> False | x # t \<Rightarrow> x = c \<and> ignore_match ps d t)"
| "ignore_match (I_One # ps) d s \<longleftrightarrow> (case s of [] \<Rightarrow> False | x # t \<Rightarrow> x \<noteq> SLASH \<and> ignore_match ps d t)"
| "ignore_match (I_Name # ps) d s \<longleftrightarrow> any_name (ignore_match ps d) s"
| "ignore_match (I_Any # ps) d s \<longleftrightarrow> any_line (ignore_match ps d) s"
| "ignore_match (I_Dirs # ps) d s \<longleftrightarrow>
     ignore_match ps d s \<or> any_line (\<lambda>r. case r of [] \<Rightarrow> False | x # t \<Rightarrow> x = SLASH \<and> ignore_match ps d t) s"

definition ignored :: "ustr \<Rightarrow> ustr list \<Rightarrow> bool" where
  "ignored path patterns \<longleftrightarrow>
     (let path = lstrip_char SLASH path
      in list_ex (\<lambda>p. case compile_ignore p of (parts, d) \<Rightarrow> ignore_match parts d path) patterns)"

section \<open>Outlier files\<close>

text \<open>\<open>statistics.quantiles(values, n=4)\<close>, of at least two values.\<close>

definition quartile :: "int list \<Rightarrow> nat \<Rightarrow> rat" where
  "quartile values i =
     (let data = sort values; ld = length data; m = ld + 1;
          j = max 1 (min (i * m div 4) (ld - 1)); delta = int (i * m) - int (j * 4)
      in rat_of_int (data ! (j - 1) * (4 - delta) + data ! j * delta) / 4)"

definition outlier_files :: "(ustr \<times> int) list \<Rightarrow> ustr list" where
  "outlier_files sizes =
     (let values = filter (\<lambda>v. 0 < v) (map snd sizes)
      in if length values < 4 then []
         else (let q1 = quartile values 1; q3 = quartile values 3; threshold = q3 + 3 / 2 * (q3 - q1);
                   fair_share = rat_of_int (sum_list values) / rat_of_nat (length values)
               in map fst (filter (\<lambda>(p, size). threshold < rat_of_int size \<and> rat_of_int size \<le> fair_share) sizes)))"

section \<open>The weigher\<close>

record weigher =
  wg_patterns :: "ustr list"
  wg_excluded :: "ustr list"
  wg_rules :: file_rules
  wg_cache :: "(ustr \<times> rat) list"

definition new_weigher :: "ustr list \<Rightarrow> ustr list \<Rightarrow> file_rules \<Rightarrow> weigher" where
  "new_weigher patterns excluded r = \<lparr>wg_patterns = patterns, wg_excluded = excluded, wg_rules = r, wg_cache = []\<rparr>"

definition weigher_call :: "(ustr \<Rightarrow> ustr) \<Rightarrow> weigher \<Rightarrow> ustr \<Rightarrow> rat \<times> weigher" where
  "weigher_call L g path =
     (case map_of (wg_cache g) path of
        Some w \<Rightarrow> (w, g)
      | None \<Rightarrow>
          (let (w, r) = (if path \<in> set (wg_excluded g) \<or> (wg_patterns g \<noteq> [] \<and> ignored path (wg_patterns g))
                         then (0, wg_rules g) else weight_of L (wg_rules g) path)
           in (w, g\<lparr>wg_rules := r, wg_cache := AList.update path w (wg_cache g)\<rparr>)))"

fun weigher_calls :: "(ustr \<Rightarrow> ustr) \<Rightarrow> weigher \<Rightarrow> ustr list \<Rightarrow> rat list" where
  "weigher_calls L g [] = []"
| "weigher_calls L g (p # ps) = (case weigher_call L g p of (w, g') \<Rightarrow> w # weigher_calls L g' ps)"

section \<open>What the weights are\<close>

text \<open>The weight the settings give a file, every glob tried in order and nothing kept.\<close>

definition specified_weight :: "(ustr \<Rightarrow> ustr) \<Rightarrow> weight_settings \<Rightarrow> ustr list \<Rightarrow> ustr list \<Rightarrow> ustr \<Rightarrow> rat" where
  "specified_weight L s patterns excluded path =
     (let lowered = L path; dirs = butlast (split_on SLASH lowered); name = last (split_on SLASH lowered);
          weight = (case first_matching L (ws_weights s) lowered of None \<Rightarrow> 0 | Some w \<Rightarrow> w);
          test = (\<exists>d \<in> set dirs. d \<in> set (map L (ws_test_dirs s))) \<or> marked name (map L (ws_test_marks s)) \<or>
                 (\<exists>g \<in> set (ws_test_files s). matches L g lowered)
      in if path \<in> set excluded \<or> ignored path patterns \<or> (\<exists>d \<in> set dirs. d \<in> set (map L (ws_excluded_dirs s))) then 0
         else if test then weight * ws_test_weight s else weight)"

definition settings_ok :: "weight_settings \<Rightarrow> bool" where
  "settings_ok s \<longleftrightarrow>
     (\<forall>(g, v) \<in> set (ws_weights s). check_glob g = Inr g) \<and> distinct (map fst (ws_weights s)) \<and>
     (\<forall>g \<in> set (ws_test_files s). check_glob g = Inr g) \<and> distinct (ws_test_files s)"

definition weights_kept :: "(ustr \<Rightarrow> ustr) \<Rightarrow> file_rules \<Rightarrow> bool" where
  "weights_kept L r \<longleftrightarrow> (\<forall>p w. map_of (fr_kept r) p = Some w \<longrightarrow> w = weigh L r p)"

lemma weigh_kept [simp]: "weigh L (r\<lparr>fr_kept := k\<rparr>) = weigh L r"
  by (rule ext) (simp add: weigh_def Let_def)

lemma weight_of_ok:
  assumes "weights_kept L r"
  shows "fst (weight_of L r p) = weigh L r p" and "weights_kept L (snd (weight_of L r p))"
    and "weigh L (snd (weight_of L r p)) = weigh L r"
  using assms by (auto simp: weight_of_def weights_kept_def Let_def map_of_update split: option.splits)

lemma first_matching_None:
  "first_matching L entries path = None \<longleftrightarrow> (\<forall>e \<in> set entries. \<not> matches L (fst e) path)"
  by (auto simp: first_matching_def find_None_iff)

lemma weigh_specified:
  assumes "lowers L" and "settings_ok s"
  shows "weigh L (rules_of L s) path = specified_weight L s [] [] path"
proof -
  have w: "fst (best (build_index L (ws_weights s)) p) = first_matching L (ws_weights s) p" for p
    using index_finds [OF assms(1), of "ws_weights s" p] assms(2) by (simp add: settings_ok_def)
  have "fst (best (build_index L (map (\<lambda>g. (g, True)) (ws_test_files s))) p) =
      first_matching L (map (\<lambda>g. (g, True)) (ws_test_files s)) p" for p
    using index_finds [OF assms(1), of "map (\<lambda>g. (g, True)) (ws_test_files s)" p] assms(2)
    by (auto simp: settings_ok_def comp_def)
  then have t: "fst (best (build_index L (map (\<lambda>g. (g, True)) (ws_test_files s))) p) = None \<longleftrightarrow>
      (\<forall>g \<in> set (ws_test_files s). \<not> matches L g p)" for p
    by (simp add: first_matching_None)
  show ?thesis
    by (auto simp: weigh_def specified_weight_def rules_of_def w t Let_def ignored_def list_ex_iff)
qed

definition weigher_ok :: "(ustr \<Rightarrow> ustr) \<Rightarrow> weight_settings \<Rightarrow> weigher \<Rightarrow> bool" where
  "weigher_ok L s g \<longleftrightarrow>
     weights_kept L (wg_rules g) \<and> weigh L (wg_rules g) = specified_weight L s [] [] \<and>
     (\<forall>p w. map_of (wg_cache g) p = Some w \<longrightarrow> w = specified_weight L s (wg_patterns g) (wg_excluded g) p)"

lemma weigher_call_ok:
  assumes "weigher_ok L s g"
  shows "fst (weigher_call L g p) = specified_weight L s (wg_patterns g) (wg_excluded g) p"
    and "weigher_ok L s (snd (weigher_call L g p))"
    and "wg_patterns (snd (weigher_call L g p)) = wg_patterns g" and "wg_excluded (snd (weigher_call L g p)) = wg_excluded g"
proof -
  note r = weight_of_ok [of L "wg_rules g" p]
  have none: "\<not> ignored p []" by (simp add: ignored_def)
  have out: "specified_weight L s (wg_patterns g) (wg_excluded g) p =
      (if p \<in> set (wg_excluded g) \<or> ignored p (wg_patterns g) then 0 else specified_weight L s [] [] p)"
    using none by (auto simp: specified_weight_def Let_def)
  have same: "(p \<in> set (wg_excluded g) \<or> (wg_patterns g \<noteq> [] \<and> ignored p (wg_patterns g))) \<longleftrightarrow>
      p \<in> set (wg_excluded g) \<or> ignored p (wg_patterns g)"
    using none by auto
  show "fst (weigher_call L g p) = specified_weight L s (wg_patterns g) (wg_excluded g) p"
    using assms r out same
    by (auto simp: weigher_call_def weigher_ok_def case_prod_unfold Let_def split: option.splits)
  then show "weigher_ok L s (snd (weigher_call L g p))"
    using assms r same
    by (auto simp: weigher_call_def weigher_ok_def case_prod_unfold Let_def map_of_update split: option.splits)
  show "wg_patterns (snd (weigher_call L g p)) = wg_patterns g" "wg_excluded (snd (weigher_call L g p)) = wg_excluded g"
    by (auto simp: weigher_call_def case_prod_unfold Let_def split: option.splits)
qed

text \<open>C14: whatever files a weigher is asked about, in whatever order and how often, each gets the weight the
  settings give it with every glob tried: the index and the two caches cannot be told.\<close>

theorem weigher_as_specified:
  assumes "lowers L" and "settings_ok s"
  shows "weigher_calls L (new_weigher patterns excluded (rules_of L s)) paths =
    map (specified_weight L s patterns excluded) paths"
proof -
  have "weigher_calls L g paths = map (specified_weight L s (wg_patterns g) (wg_excluded g)) paths"
    if "weigher_ok L s g" for g
    using that
  proof (induction paths arbitrary: g)
    case (Cons p ps)
    show ?case using Cons.IH [OF weigher_call_ok(2) [OF Cons.prems, of p]] weigher_call_ok [OF Cons.prems, of p]
      by (simp add: case_prod_unfold)
  qed simp
  moreover have "weigher_ok L s (new_weigher patterns excluded (rules_of L s))"
    using weigh_specified [OF assms] by (auto simp: weigher_ok_def weights_kept_def new_weigher_def rules_of_def)
  ultimately show ?thesis by (simp add: new_weigher_def)
qed

definition demo_settings :: weight_settings where
  "demo_settings = \<lparr>ws_weights = [(uni ''*.py'', 1), (uni ''docs/**'', 1 / 2)], ws_excluded_dirs = [uni ''vendor''],
     ws_test_dirs = [uni ''tests''], ws_test_files = [uni ''test_?*.py''], ws_test_marks = [uni ''spec''],
     ws_test_weight = 1 / 4\<rparr>"

definition demo_paths :: "ustr list" where
  "demo_paths = map uni [''a.py'', ''vendor/a.py'', ''test_a.py'', ''docs/a.py'', ''gen/a.py'', ''a.py'']"

lemma weigher_as_specified_witness:
  "weigher_calls id (new_weigher [uni ''gen/''] [] (rules_of id demo_settings)) demo_paths = [1, 0, 1 / 4, 1 / 2, 0, 1]"
proof -
  have "lowers id" by (simp add: lowers_def)
  moreover have "list_all (\<lambda>(g, v). check_glob g = Inr g) (ws_weights demo_settings)"
    "list_all (\<lambda>g. check_glob g = Inr g) (ws_test_files demo_settings)"
    "distinct (map fst (ws_weights demo_settings))" "distinct (ws_test_files demo_settings)" by code_simp+
  then have "settings_ok demo_settings" unfolding settings_ok_def list_all_iff by blast
  moreover have "map (specified_weight id demo_settings [uni ''gen/''] []) demo_paths = [1, 0, 1 / 4, 1 / 2, 0, 1]"
    by code_simp
  ultimately show ?thesis using weigher_as_specified [of id demo_settings "[uni ''gen/'']" "[]" demo_paths] by simp
qed

section \<open>A pattern covers what is below\<close>

lemma any_line_mono: "(\<And>u. k u \<Longrightarrow> k (u @ x)) \<Longrightarrow> any_line k s \<Longrightarrow> any_line k (s @ x)"
proof (induction s)
  case Nil
  then have "k x" by force
  then show ?case by (cases x) auto
next
  case (Cons a s)
  then show ?case using Cons.prems(1) [of "a # s"] by auto
qed

lemma any_name_mono: "(\<And>u. k u \<Longrightarrow> k (u @ x)) \<Longrightarrow> any_name k s \<Longrightarrow> any_name k (s @ x)"
proof (induction s)
  case Nil
  then have "k x" by force
  then show ?case by (cases x) auto
next
  case (Cons a s)
  then show ?case using Cons.prems(1) [of "a # s"] by auto
qed

lemma ignore_match_below:
  assumes "NEWLINE \<notin> set x"
  shows "ignore_match ps d s \<Longrightarrow> ignore_match ps d (s @ SLASH # x)"
proof (induction ps d s rule: ignore_match.induct)
  case (1 d s)
  then show ?case using assms by (cases s) (auto simp: covers_rest_def)
next
  case (4 ps d s)
  have "ignore_match ps d u \<Longrightarrow> ignore_match ps d (u @ SLASH # x)" for u using 4 by blast
  then show ?case using 4 any_name_mono [of "ignore_match ps d" "SLASH # x" s] by simp
next
  case (5 ps d s)
  then show ?case using any_line_mono [of "ignore_match ps d" "SLASH # x" s] by simp
next
  case (6 ps d s)
  have "case u @ SLASH # x of [] \<Rightarrow> False | y # t \<Rightarrow> y = SLASH \<and> ignore_match ps d t"
    if "case u of [] \<Rightarrow> False | y # t \<Rightarrow> y = SLASH \<and> ignore_match ps d t" for u
    using that 6 by (cases u) auto
  then show ?case using 6
      any_line_mono [of "\<lambda>r. case r of [] \<Rightarrow> False | x # t \<Rightarrow> x = SLASH \<and> ignore_match ps d t" "SLASH # x" s]
    by auto
qed (auto split: list.splits)

lemma ignored_below:
  assumes "ignored path patterns" and "lstrip_char SLASH path \<noteq> []" and "NEWLINE \<notin> set x"
  shows "ignored (path @ SLASH # x) patterns"
proof -
  have "lstrip_char SLASH (path @ SLASH # x) = lstrip_char SLASH path @ SLASH # x"
    using assms(2) by (auto simp: lstrip_char_def dropWhile_append)
  then show ?thesis using assms ignore_match_below [OF assms(3)]
    by (auto simp: ignored_def list_ex_iff Let_def case_prod_unfold)
qed

end
