(* ===== verification/Slop_Score.thy ===== *)
theory Slop_Score
  imports Py_Value "HOL-Library.Product_Lexorder"
begin

text \<open>
  The slop score (\<open>embry0/services/slop_meter/score.py\<close>, and who counts as a bot, \<open>is_bot\<close> of \<open>history.py\<close>):
  weekly cost against attention spent, from a repository's commits and forge events. An instant is its
  microsecond since the epoch, in UTC; a week is the day number of its Monday. Lines and hours are exact
  rationals where the code has floats. Parameters: \<open>lg\<close>, the binary logarithm; \<open>L\<close>, \<open>str.lower\<close>; \<open>weigh\<close>, a
  path's weight; \<open>own\<close>, embry0's own identities (\<open>_embry0_identities()\<close>); \<open>area_of\<close>, the area a path is in.

  The lemmas show that a score is between 0 and 1, and that the attention counted is the time spent: the
  intervals merged cover the same instants without overlap, and the weeks share out each of them whole.
\<close>

section \<open>Settings and rows\<close>

record score_settings =
  ss_bootstrap_lines :: int
  ss_complexity_weight :: rat
  ss_commit_hours :: rat
  ss_subcommit_hours :: rat
  ss_coauthor_shares :: "rat list"
  ss_ai_coauthor_share :: rat
  ss_event_hours :: rat
  ss_lines_per_hour :: rat
  ss_weekly_hours_cap :: rat
  ss_core_min_commits :: int
  ss_core_full_commits :: int
  ss_small_in_full :: bool
  ss_outlier_min_lines :: int
  ss_outliers_per_year :: int
  ss_level_bounds :: "rat list"
  ss_level_names :: "pystr list"

text \<open>The ranges the section's fields are declared with.\<close>

definition settings_ranges :: "score_settings \<Rightarrow> bool" where
  "settings_ranges s \<longleftrightarrow>
     1 \<le> ss_bootstrap_lines s \<and> 0 \<le> ss_complexity_weight s \<and> 0 < ss_commit_hours s \<and> 0 \<le> ss_subcommit_hours s \<and>
     ss_coauthor_shares s \<noteq> [] \<and> 0 \<le> ss_ai_coauthor_share s \<and> 0 \<le> ss_event_hours s \<and> 0 < ss_lines_per_hour s \<and>
     0 < ss_weekly_hours_cap s \<and> 0 \<le> ss_core_min_commits s \<and> ss_core_min_commits s < ss_core_full_commits s \<and>
     1 \<le> ss_outlier_min_lines s \<and> 0 \<le> ss_outliers_per_year s \<and> length (ss_level_bounds s) < length (ss_level_names s)"

record commit =
  cm_sha :: pystr
  cm_at :: int
  cm_author_email :: pystr
  cm_files :: "(pystr \<times> int \<times> int) list"
  cm_coauthors :: "(pystr \<times> pystr) list"
  cm_ai_coauthor :: bool
  cm_bot :: bool
  cm_subcommits :: int

definition commit_author :: "(pystr \<Rightarrow> pystr) \<Rightarrow> commit \<Rightarrow> pystr" where
  "commit_author L c = L (strip (cm_author_email c))"

record forge_event =
  ev_login :: pystr
  ev_at :: int

definition KNOWN_BOTS :: "pystr list" where
  "KNOWN_BOTS = [''dependabot[bot]'', ''dependabot-preview[bot]'', ''renovate[bot]'', ''renovate-bot'', ''github-actions[bot]'',
     ''devin[bot]'', ''devin-ai-integration[bot]'', ''copilot[bot]'', ''copilot-swe-agent[bot]'', ''cursor[bot]'', ''claude[bot]'',
     ''codex[bot]'', ''sweep-ai[bot]'']"

definition AI_EMAIL_PREFIXES :: "pystr list" where
  "AI_EMAIL_PREFIXES = [''codex@'', ''claude@'', ''cursoragent@'', ''devin@'', ''copilot@'', ''aider@'', ''gemini@'', ''jules@'', ''openhands@'']"

definition is_bot :: "(pystr \<Rightarrow> pystr) \<Rightarrow> pystr list \<Rightarrow> pystr list \<Rightarrow> pystr \<Rightarrow> pystr \<Rightarrow> bool" where
  "is_bot L own agents name email =
     (let name = L (strip name); email = L (strip email)
      in name \<in> set KNOWN_BOTS \<or> ends_with name ''[bot]'' \<or> ends_with email ''[bot]@users.noreply.github.com'' \<or>
         list_ex (starts_with email) (''noreply@'' # AI_EMAIL_PREFIXES) \<or>
         (email \<noteq> [] \<and> list_ex (\<lambda>a. if ends_with a ''@'' then starts_with email a else email = a) agents) \<or>
         name \<in> set own \<or> email \<in> set own)"

section \<open>Curves\<close>

definition level_of :: "rat \<Rightarrow> score_settings \<Rightarrow> int \<times> pystr" where
  "level_of score s =
     (case find (\<lambda>(i, bound). score < bound) (enumerate 0 (ss_level_bounds s)) of
        Some (i, bound) \<Rightarrow> (int i + 1, ss_level_names s ! i)
      | None \<Rightarrow> (int (length (ss_level_names s)), last (ss_level_names s)))"

definition DAY :: int where
  "DAY = 86400000000"

definition HOUR :: int where
  "HOUR = 3600000000"

text \<open>The first day is a Thursday.\<close>

definition week_of :: "int \<Rightarrow> int" where
  "week_of at' = (let day = at' div DAY in day - (day + 3) mod 7)"

definition COMPLEXITY_LINES :: rat where
  "COMPLEXITY_LINES = 100000"

definition size_dampening :: "(rat \<Rightarrow> rat) \<Rightarrow> rat \<Rightarrow> score_settings \<Rightarrow> rat" where
  "size_dampening lg extent s =
     (let lines = max 0 extent
      in min 1 (lines / of_int (ss_bootstrap_lines s)) + ss_complexity_weight s * lg (1 + lines / COMPLEXITY_LINES))"

definition capped_hours :: "rat \<Rightarrow> score_settings \<Rightarrow> rat" where
  "capped_hours hours s =
     (let cap = ss_weekly_hours_cap s; h = min (max 0 hours) cap in h - h ^ 3 / (3 * cap ^ 2))"

definition core_factor :: "int \<Rightarrow> int \<Rightarrow> score_settings \<Rightarrow> rat" where
  "core_factor commits total_commits s =
     (let start = ss_core_min_commits s; stop = ss_core_full_commits s;
          ramp = min 1 (max 0 (of_int (commits - start) / of_int (stop - start)));
          share = (if total_commits \<noteq> 0 then of_int commits / of_int total_commits else 0)
      in ramp * (1 + share / 4))"

section \<open>Attention spent\<close>

text \<open>The interval before an instant: \<open>at - timedelta(hours=h)\<close>, to the microsecond.\<close>

definition before :: "int \<Rightarrow> rat \<Rightarrow> int \<times> int" where
  "before at' h = (at' - round_even (h * of_int HOUR), at')"

fun merge_sorted :: "(int \<times> int) list \<Rightarrow> (int \<times> int) list \<Rightarrow> (int \<times> int) list" where
  "merge_sorted merged [] = rev merged"
| "merge_sorted [] (i # is) = merge_sorted [i] is"
| "merge_sorted ((s, e) # merged) ((start, stop) # is) =
     (if start \<le> e then merge_sorted ((s, max e stop) # merged) is
      else merge_sorted ((start, stop) # (s, e) # merged) is)"

definition merge_intervals :: "(int \<times> int) list \<Rightarrow> (int \<times> int) list" where
  "merge_intervals intervals = merge_sorted [] (sort intervals)"

type_synonym 'k tally = "('k \<times> rat) list"

definition tallied :: "'k tally \<Rightarrow> 'k \<Rightarrow> rat" where
  "tallied t k = (case map_of t k of None \<Rightarrow> 0 | Some x \<Rightarrow> x)"

definition add_to :: "'k \<Rightarrow> rat \<Rightarrow> 'k tally \<Rightarrow> 'k tally" where
  "add_to k x t = AList.update k (tallied t k + x) t"

text \<open>When the week of an instant ends.\<close>

definition week_end :: "int \<Rightarrow> int" where
  "week_end at' = (week_of at' + 7) * DAY"

lemma week_end_later: "at' < week_end at'"
proof -
  have "at' < (at' div DAY + 1) * DAY" by (simp add: DAY_def)
  also have "(at' div DAY + 1) * DAY \<le> week_end at'"
  proof -
    have "(at' div DAY + 3) mod 7 \<le> 6" using pos_mod_bound [of 7 "at' div DAY + 3"] by simp
    then have "at' div DAY + 1 \<le> week_of at' + 7" by (simp add: week_of_def Let_def)
    then show ?thesis unfolding week_end_def by (intro mult_right_mono) (simp_all add: DAY_def)
  qed
  finally show ?thesis .
qed

function share_out :: "int \<Rightarrow> int \<Rightarrow> int tally \<Rightarrow> int tally" where
  "share_out cursor stop out =
     (if cursor < stop then
        (let until = min stop (week_end cursor)
         in share_out until stop (add_to (week_of cursor) (of_int (until - cursor) / of_int HOUR) out))
      else out)"
  by pat_completeness auto
termination
  by (relation "measure (\<lambda>(cursor, stop, out). nat (stop - cursor))") (use week_end_later in \<open>auto simp: min_def\<close>)

declare share_out.simps [simp del]

definition hours_by_week :: "(int \<times> int) list \<Rightarrow> int tally" where
  "hours_by_week sessions = fold (\<lambda>(start, stop). share_out start stop) sessions []"

definition contributor_of :: "(pystr \<Rightarrow> pystr) \<Rightarrow> pystr \<Rightarrow> (pystr \<times> pystr) list \<Rightarrow> pystr" where
  "contributor_of L login logins =
     (case map_of logins (L login) of
        Some email \<Rightarrow> if email \<noteq> [] then L email else ''login:'' @ L login
      | None \<Rightarrow> ''login:'' @ L login)"

definition add_span :: "pystr \<Rightarrow> int \<times> int \<Rightarrow> (pystr \<times> (int \<times> int) list) list \<Rightarrow> (pystr \<times> (int \<times> int) list) list" where
  "add_span who sp t = AList.update who ((case map_of t who of None \<Rightarrow> [] | Some l \<Rightarrow> l) @ [sp]) t"

definition commit_spans :: "(pystr \<Rightarrow> pystr) \<Rightarrow> score_settings \<Rightarrow> commit \<Rightarrow> (pystr \<times> (int \<times> int)) list" where
  "commit_spans L s c =
     (let hours = ss_commit_hours s + of_int (cm_subcommits c) * ss_subcommit_hours s;
          hours = (if cm_ai_coauthor c then hours * ss_ai_coauthor_share s else hours);
          shares = ss_coauthor_shares s
      in (commit_author L c, before (cm_at c) hours) #
         map (\<lambda>(i, (name, email)). (L email, before (cm_at c) (ss_commit_hours s * shares ! min i (length shares - 1))))
           (enumerate 0 (cm_coauthors c)))"

definition neighborhoods ::
  "(pystr \<Rightarrow> pystr) \<Rightarrow> pystr list \<Rightarrow> score_settings \<Rightarrow> commit list \<Rightarrow> forge_event list \<Rightarrow> (pystr \<times> pystr) list \<Rightarrow>
   (pystr \<times> (int \<times> int) list) list" where
  "neighborhoods L own s commits events logins =
     fold (\<lambda>(who, sp). add_span who sp)
       (concat (map (commit_spans L s) (filter (\<lambda>c. \<not> cm_bot c) commits)) @
        map (\<lambda>e. (contributor_of L (ev_login e) logins, before (ev_at e) (ss_event_hours s)))
          (filter (\<lambda>e. \<not> is_bot L own [] (ev_login e) []) events)) []"

definition authored_by :: "(pystr \<Rightarrow> pystr) \<Rightarrow> commit list \<Rightarrow> pystr \<Rightarrow> int" where
  "authored_by L commits who = int (length (filter (\<lambda>c. \<not> cm_bot c \<and> commit_author L c = who) commits))"

definition weekly_capacity ::
  "(pystr \<Rightarrow> pystr) \<Rightarrow> pystr list \<Rightarrow> score_settings \<Rightarrow> commit list \<Rightarrow> forge_event list \<Rightarrow> (pystr \<times> pystr) list \<Rightarrow>
   (pystr \<times> int tally) list" where
  "weekly_capacity L own s commits events logins =
     (let people = filter (\<lambda>c. \<not> cm_bot c) commits; total = int (length people);
          small = (ss_small_in_full s \<and>
            list_all (\<lambda>c. authored_by L commits (commit_author L c) < ss_core_min_commits s) people)
      in List.map_filter
           (\<lambda>(who, spans).
              let factor = (if small then 1 else core_factor (authored_by L commits who) total s)
              in if factor \<le> 0 then None
                 else Some (who, map (\<lambda>(week, hours). (week, capped_hours (hours * factor) s * ss_lines_per_hour s))
                                   (hours_by_week (merge_intervals spans))))
           (neighborhoods L own s commits events logins))"

section \<open>The walk\<close>

record week_row =
  wk_week :: int
  wk_cost :: rat
  wk_capacity :: rat
  wk_slop :: rat
  wk_lines :: rat
  wk_score :: rat

record meter =
  mt_score :: rat
  mt_level :: int
  mt_name :: pystr
  mt_provisional :: bool
  mt_weeks :: "week_row list"
  mt_commits :: nat

record outlier =
  ol_commit :: commit
  ol_net :: rat
  ol_slop :: "bool option"
  ol_size_at :: rat
  ol_age_days :: int

definition commit_lines :: "(pystr \<Rightarrow> rat) \<Rightarrow> commit \<Rightarrow> rat \<times> rat" where
  "commit_lines weigh c =
     (sum_list (map (\<lambda>(path, a, d). of_int a * weigh path) (cm_files c)),
      sum_list (map (\<lambda>(path, a, d). of_int d * weigh path) (cm_files c)))"

definition sizes_by_week :: "(pystr \<Rightarrow> rat) \<Rightarrow> commit list \<Rightarrow> int tally" where
  "sizes_by_week weigh commits =
     snd (fold (\<lambda>c (extent, sizes).
        (case commit_lines weigh c of
           (add, del) \<Rightarrow> let extent = max 0 (extent + add - del) in (extent, AList.update (week_of (cm_at c)) extent sizes)))
      commits (0, []))"

definition outliers ::
  "(pystr \<Rightarrow> rat) \<Rightarrow> (pystr \<rightharpoonup> bool) \<Rightarrow> score_settings \<Rightarrow> commit list \<Rightarrow> outlier list" where
  "outliers weigh judgments s commits =
     (if commits = [] then []
      else
        (let first = cm_at (hd commits); last' = cm_at (last commits);
             count = nat (max 1 \<lceil>(of_int (ss_outliers_per_year s) * of_int (last' - first) / (1461 / 4 * of_int DAY) :: rat)\<rceil>);
             nets = filter (\<lambda>(net, i, c). of_int (ss_outlier_min_lines s) \<le> net)
               (map (\<lambda>(i, c). (case commit_lines weigh c of (add, del) \<Rightarrow> (max 0 (add - del), i, c))) (enumerate 0 commits));
             top = take count (sort_key (\<lambda>(net, i, c). - net) nets)
         in map (\<lambda>(net, i, c). \<lparr>ol_commit = c, ol_net = net, ol_slop = (if i < 2 then Some False else judgments (cm_sha c)),
                   ol_size_at = tallied (sizes_by_week weigh commits) (week_of (cm_at c)),
                   ol_age_days = (cm_at c - first) div DAY\<rparr>)
              (sort_key (\<lambda>(net, i, c). i) top)))"

record tallies =
  ta_scopes :: "pystr list"
  ta_adds :: "(pystr \<times> int) tally"
  ta_dels :: "(pystr \<times> int) tally"
  ta_excluded :: "(pystr \<times> int) tally"
  ta_churn :: "(pystr \<times> pystr \<times> int) tally"
  ta_churn_all :: "(pystr \<times> pystr) tally"

text \<open>The lines a commit adds and deletes, for the repository (the empty scope) and for each area.\<close>

definition add_lines :: "rat \<Rightarrow> rat \<Rightarrow> pystr \<Rightarrow> (pystr \<times> rat \<times> rat) list \<Rightarrow> (pystr \<times> rat \<times> rat) list" where
  "add_lines a d scope per =
     (case (case map_of per scope of None \<Rightarrow> (0, 0) | Some x \<Rightarrow> x) of (x, y) \<Rightarrow> AList.update scope (x + a, y + d) per)"

definition file_scopes :: "(pystr \<Rightarrow> pystr option) \<Rightarrow> pystr \<Rightarrow> pystr list" where
  "file_scopes area_of path = [] # (case area_of path of Some area \<Rightarrow> if area \<noteq> [] then [area] else [] | None \<Rightarrow> [])"

definition scope_lines :: "(pystr \<Rightarrow> rat) \<Rightarrow> (pystr \<Rightarrow> pystr option) \<Rightarrow> commit \<Rightarrow> (pystr \<times> rat \<times> rat) list" where
  "scope_lines weigh area_of c =
     fold (\<lambda>(path, added, deleted) per.
         if weigh path = 0 then per
         else fold (add_lines (of_int added * weigh path) (of_int deleted * weigh path)) (file_scopes area_of path) per)
       (cm_files c) []"

definition tally_scope :: "(pystr \<Rightarrow> pystr) \<Rightarrow> pystr list \<Rightarrow> commit \<Rightarrow> pystr \<times> rat \<times> rat \<Rightarrow> tallies \<Rightarrow> tallies" where
  "tally_scope L left_out c e t =
     (case e of
        (scope, a, d) \<Rightarrow>
          (let week = week_of (cm_at c); who = commit_author L c;
               t = t\<lparr>ta_scopes := (if scope \<in> set (ta_scopes t) then ta_scopes t else ta_scopes t @ [scope]),
                     ta_adds := add_to (scope, week) a (ta_adds t), ta_dels := add_to (scope, week) d (ta_dels t)\<rparr>;
               t = (if cm_sha c \<in> set left_out
                    then t\<lparr>ta_excluded := add_to (scope, week) (max 0 (a - d)) (ta_excluded t)\<rparr> else t)
           in if cm_bot c then t
              else t\<lparr>ta_churn := add_to (scope, who, week) (a + d) (ta_churn t),
                     ta_churn_all := add_to (scope, who) (a + d) (ta_churn_all t)\<rparr>))"

definition tally_commits ::
  "(pystr \<Rightarrow> pystr) \<Rightarrow> (pystr \<Rightarrow> rat) \<Rightarrow> (pystr \<Rightarrow> pystr option) \<Rightarrow> pystr list \<Rightarrow> commit list \<Rightarrow> tallies" where
  "tally_commits L weigh area_of left_out commits =
     fold (\<lambda>c t. fold (tally_scope L left_out c) (scope_lines weigh area_of c) t) commits
       \<lparr>ta_scopes = [], ta_adds = [], ta_dels = [], ta_excluded = [], ta_churn = [], ta_churn_all = []\<rparr>"

text \<open>A contributor's share of a week's attention that falls on an area.\<close>

definition area_share :: "tallies \<Rightarrow> pystr \<Rightarrow> pystr \<Rightarrow> int \<Rightarrow> rat" where
  "area_share t scope who week =
     (let mine = tallied (ta_churn t) ([], who, week); total = tallied (ta_churn_all t) ([], who)
      in if mine \<noteq> 0 then tallied (ta_churn t) (scope, who, week) / mine
         else if total \<noteq> 0 then tallied (ta_churn_all t) (scope, who) / total else 0)"

definition scope_capacity :: "tallies \<Rightarrow> (pystr \<times> int tally) list \<Rightarrow> pystr \<Rightarrow> int \<Rightarrow> rat" where
  "scope_capacity t capacity scope week =
     (if scope = [] then sum_list (map (\<lambda>(who, per). tallied per week) capacity)
      else sum_list (map (\<lambda>(who, per). tallied per week * area_share t scope who week) capacity))"

text \<open>The repository's dampening, week by week.\<close>

fun dampenings :: "(rat \<Rightarrow> rat) \<Rightarrow> score_settings \<Rightarrow> tallies \<Rightarrow> rat \<Rightarrow> int list \<Rightarrow> (int \<times> rat) list" where
  "dampenings lg s t extent [] = []"
| "dampenings lg s t extent (week # weeks) =
     (let extent = max 0 (extent + tallied (ta_adds t) ([], week) - tallied (ta_dels t) ([], week))
      in (week, size_dampening lg extent s) # dampenings lg s t extent weeks)"

definition score_week ::
  "tallies \<Rightarrow> (pystr \<times> int tally) list \<Rightarrow> pystr \<Rightarrow> rat \<times> rat \<times> rat \<Rightarrow> int \<times> rat \<Rightarrow> week_row \<times> (rat \<times> rat \<times> rat)" where
  "score_week t capacity scope so_far wd =
     (case (so_far, wd) of ((cum_cost, cum_slop, extent), (week, damp)) \<Rightarrow>
        (let add = tallied (ta_adds t) (scope, week); del = tallied (ta_dels t) (scope, week);
             extent = max 0 (extent + add - del); net = max 0 (add - del); cost = net * damp;
             cap = scope_capacity t capacity scope week;
             counted = max 0 (net - tallied (ta_excluded t) (scope, week)) * damp;
             slop = max 0 (counted - cap); cum_cost = cum_cost + cost; cum_slop = cum_slop + slop
         in (\<lparr>wk_week = week, wk_cost = cost, wk_capacity = cap, wk_slop = slop, wk_lines = extent,
               wk_score = (if cum_cost \<noteq> 0 then cum_slop / cum_cost else 0)\<rparr>, (cum_cost, cum_slop, extent))))"

primrec series_from ::
  "tallies \<Rightarrow> (pystr \<times> int tally) list \<Rightarrow> pystr \<Rightarrow> rat \<times> rat \<times> rat \<Rightarrow> (int \<times> rat) list \<Rightarrow>
   week_row list \<times> (rat \<times> rat \<times> rat)" where
  "series_from t capacity scope so_far [] = ([], so_far)"
| "series_from t capacity scope so_far (wd # weeks) =
     (case score_week t capacity scope so_far wd of
        (row, then_far) \<Rightarrow> (case series_from t capacity scope then_far weeks of (rows, at_end) \<Rightarrow> (row # rows, at_end)))"

definition scope_meter ::
  "score_settings \<Rightarrow> tallies \<Rightarrow> (pystr \<times> int tally) list \<Rightarrow> (int \<times> rat) list \<Rightarrow> bool \<Rightarrow> nat \<Rightarrow> pystr \<Rightarrow> meter" where
  "scope_meter s t capacity damp provisional n scope =
     (case series_from t capacity scope (0, 0, 0) damp of
        (rows, cost, slop, extent) \<Rightarrow>
          (let score = (if cost \<noteq> 0 then slop / cost else 0)
           in \<lparr>mt_score = score, mt_level = fst (level_of score s), mt_name = snd (level_of score s),
               mt_provisional = provisional, mt_weeks = rows, mt_commits = n\<rparr>))"

text \<open>The repository's scope is there once its size has been read, whatever its files weigh.\<close>

definition meters ::
  "(rat \<Rightarrow> rat) \<Rightarrow> (pystr \<Rightarrow> pystr) \<Rightarrow> pystr list \<Rightarrow> (pystr \<Rightarrow> rat) \<Rightarrow> (pystr \<rightharpoonup> bool) \<Rightarrow> (pystr \<Rightarrow> pystr option) \<Rightarrow>
   score_settings \<Rightarrow> commit list \<Rightarrow> forge_event list \<Rightarrow> (pystr \<times> pystr) list \<Rightarrow> (pystr \<times> meter) list" where
  "meters lg L own weigh judgments area_of s commits events logins =
     (let commits = sort_key cm_at commits
      in if commits = [] then
           [([], \<lparr>mt_score = 0, mt_level = 1, mt_name = ss_level_names s ! 0, mt_provisional = False, mt_weeks = [],
              mt_commits = 0\<rparr>)]
         else
           (let found = outliers weigh judgments s commits;
                left_out = map (\<lambda>x. cm_sha (ol_commit x)) (filter (\<lambda>x. ol_slop x \<noteq> Some True) found);
                provisional = list_ex (\<lambda>x. ol_slop x = None) found;
                t = tally_commits L weigh area_of left_out commits;
                capacity = weekly_capacity L own s commits events logins;
                first = week_of (cm_at (hd commits)); last' = week_of (cm_at (last commits));
                weeks = map (\<lambda>i. first + 7 * int i) [0..<nat ((last' - first) div 7 + 1)];
                damp = dampenings lg s t 0 weeks;
                scopes = (if [] \<in> set (ta_scopes t) then ta_scopes t else ta_scopes t @ [[]])
            in map (\<lambda>scope. (scope, scope_meter s t capacity damp provisional (length commits) scope)) scopes))"


section \<open>Nothing counted is negative\<close>

definition nonneg :: "'k tally \<Rightarrow> bool" where
  "nonneg t \<longleftrightarrow> (\<forall>x \<in> set t. 0 \<le> snd x)"

lemma nonneg_tallied: "nonneg t \<Longrightarrow> 0 \<le> tallied t k"
  by (fastforce simp: nonneg_def tallied_def split: option.splits dest: map_of_SomeD)

lemma nonneg_update: "nonneg t \<Longrightarrow> 0 \<le> x \<Longrightarrow> nonneg (AList.update k x t)"
  by (induction t) (auto simp: nonneg_def split: if_splits)

lemma nonneg_add: "nonneg t \<Longrightarrow> 0 \<le> x \<Longrightarrow> nonneg (add_to k x t)"
  by (simp add: add_to_def nonneg_update nonneg_tallied)

lemma nonneg_share_out: "nonneg out \<Longrightarrow> nonneg (share_out cursor stop out)"
proof (induction cursor stop out rule: share_out.induct)
  case (1 cursor stop out)
  show ?case
  proof (cases "cursor < stop")
    case True
    let ?u = "min stop (week_end cursor)"
    have "0 \<le> of_int (?u - cursor) / (of_int HOUR :: rat)" using True week_end_later [of cursor] by (simp add: HOUR_def)
    then have "nonneg (share_out ?u stop (add_to (week_of cursor) (of_int (?u - cursor) / of_int HOUR) out))"
      using "1.IH" [OF True refl] nonneg_add [OF "1.prems"] by blast
    then show ?thesis using True by (subst share_out.simps) (simp add: Let_def)
  next
    case False
    then show ?thesis using "1.prems" by (subst share_out.simps) simp
  qed
qed

lemma nonneg_hours: "nonneg (hours_by_week sessions)"
proof -
  have all: "nonneg (fold (\<lambda>(start, stop). share_out start stop) ss t)" if "nonneg t" for ss and t :: "int tally"
    using that by (induction ss arbitrary: t) (auto simp: nonneg_share_out)
  show ?thesis unfolding hours_by_week_def by (rule all) (simp add: nonneg_def)
qed

lemma capped_hours_nonneg:
  assumes "settings_ranges s" shows "0 \<le> capped_hours h s"
proof -
  let ?c = "ss_weekly_hours_cap s"
  define x where "x = min (max 0 h) ?c"
  have c: "0 < ?c" using assms by (simp add: settings_ranges_def)
  then have x: "0 \<le> x" "x \<le> ?c" by (simp_all add: x_def)
  then have "x ^ 2 \<le> ?c ^ 2" by (intro power_mono) auto
  then have "x * x ^ 2 \<le> x * ?c ^ 2" using x(1) by (intro mult_left_mono) auto
  moreover have "0 \<le> x * ?c ^ 2" using x(1) by simp
  moreover have "x ^ 3 = x * x ^ 2" by (simp add: power3_eq_cube power2_eq_square)
  ultimately have "x ^ 3 \<le> x * (3 * ?c ^ 2)" by (simp add: algebra_simps)
  then have "x ^ 3 / (3 * ?c ^ 2) \<le> x" using c by (simp add: divide_le_eq)
  then show ?thesis by (simp add: capped_hours_def Let_def x_def)
qed

lemma capacity_nonneg:
  assumes "settings_ranges s" and "(who, per) \<in> set (weekly_capacity L own s commits events logins)"
  shows "nonneg per"
proof -
  have "0 \<le> ss_lines_per_hour s" using assms(1) by (simp add: settings_ranges_def)
  then show ?thesis
    using assms(2) capped_hours_nonneg [OF assms(1)]
    by (auto simp: weekly_capacity_def Let_def map_filter_def nonneg_def split: if_splits)
qed

definition lines_nonneg :: "commit \<Rightarrow> bool" where
  "lines_nonneg c \<longleftrightarrow> (\<forall>(path, a, d) \<in> set (cm_files c). 0 \<le> a \<and> 0 \<le> d)"

definition tallies_nonneg :: "tallies \<Rightarrow> bool" where
  "tallies_nonneg t \<longleftrightarrow> nonneg (ta_adds t) \<and> nonneg (ta_dels t) \<and> nonneg (ta_excluded t) \<and> nonneg (ta_churn t) \<and>
     nonneg (ta_churn_all t)"

definition lines_ok :: "(pystr \<times> rat \<times> rat) list \<Rightarrow> bool" where
  "lines_ok per \<longleftrightarrow> (\<forall>(scope, a, d) \<in> set per. 0 \<le> a \<and> 0 \<le> d)"

lemma lines_ok_update: "lines_ok per \<Longrightarrow> 0 \<le> a \<Longrightarrow> 0 \<le> d \<Longrightarrow> lines_ok (AList.update k (a, d) per)"
  by (induction per) (auto simp: lines_ok_def)

lemma lines_ok_add:
  assumes "lines_ok per" and "0 \<le> a" and "0 \<le> d" shows "lines_ok (add_lines a d scope per)"
proof (cases "map_of per scope")
  case None
  then show ?thesis using lines_ok_update [OF assms] by (simp add: add_lines_def)
next
  case (Some x)
  obtain b c where x: "x = (b, c)" by (cases x)
  then have "0 \<le> b" "0 \<le> c" using map_of_SomeD [OF Some] assms(1) by (auto simp: lines_ok_def)
  then show ?thesis using Some x lines_ok_update [OF assms(1), of "b + a" "c + d"] assms(2,3) by (simp add: add_lines_def)
qed

lemma scope_lines_nonneg:
  assumes "\<forall>p. 0 \<le> weigh p" and "lines_nonneg c" and "(scope, a, d) \<in> set (scope_lines weigh area_of c)"
  shows "0 \<le> a \<and> 0 \<le> d"
proof -
  have scopes: "lines_ok (fold (add_lines a d) ss per)" if "lines_ok per" "0 \<le> a" "0 \<le> d" for a d ss per
    using that by (induction ss arbitrary: per) (auto simp: lines_ok_add)
  have "lines_ok (fold (\<lambda>(path, added, deleted) per.
      if weigh path = 0 then per
      else fold (add_lines (of_int added * weigh path) (of_int deleted * weigh path)) (file_scopes area_of path) per) fs per)"
    if "lines_ok per" "\<forall>(p, a, d) \<in> set fs. 0 \<le> a \<and> 0 \<le> d" for fs per
    using that
  proof (induction fs arbitrary: per)
    case (Cons f fs)
    obtain p a d where f: "f = (p, a, d)" by (cases f)
    then have "0 \<le> rat_of_int a * weigh p" "0 \<le> rat_of_int d * weigh p" using Cons.prems(2) assms(1) by simp_all
    from scopes [OF Cons.prems(1) this] show ?case using Cons f by simp
  qed simp
  from this [of "[]" "cm_files c"] have "lines_ok (scope_lines weigh area_of c)"
    using assms(2) unfolding scope_lines_def lines_nonneg_def by (simp add: lines_ok_def)
  then show ?thesis using assms(3) by (auto simp: lines_ok_def)
qed

lemma tally_scope_nonneg:
  "tallies_nonneg t \<Longrightarrow> 0 \<le> a \<Longrightarrow> 0 \<le> d \<Longrightarrow> tallies_nonneg (tally_scope L left_out c (scope, a, d) t)"
  by (simp add: tally_scope_def Let_def tallies_nonneg_def nonneg_add)

lemma tally_commits_nonneg:
  assumes "\<forall>p. 0 \<le> weigh p" and "\<forall>c \<in> set commits. lines_nonneg c"
  shows "tallies_nonneg (tally_commits L weigh area_of left_out commits)"
proof -
  have one: "tallies_nonneg (fold (tally_scope L left_out c) es t)"
    if "tallies_nonneg t" "\<forall>(scope, a, d) \<in> set es. 0 \<le> a \<and> 0 \<le> d" for c es t
    using that by (induction es arbitrary: t) (auto simp: tally_scope_nonneg)
  have "tallies_nonneg (fold (\<lambda>c t. fold (tally_scope L left_out c) (scope_lines weigh area_of c) t) cs t)"
    if "tallies_nonneg t" "set cs \<subseteq> set commits" for cs t
    using that
  proof (induction cs arbitrary: t)
    case (Cons c cs)
    have "lines_nonneg c" using assms(2) Cons.prems(2) by simp
    then have "\<forall>(scope, a, d) \<in> set (scope_lines weigh area_of c). 0 \<le> a \<and> 0 \<le> d"
      using scope_lines_nonneg [OF assms(1)] by blast
    from one [OF Cons.prems(1) this] show ?case using Cons by simp
  qed simp
  moreover have "tallies_nonneg \<lparr>ta_scopes = [], ta_adds = [], ta_dels = [], ta_excluded = [], ta_churn = [], ta_churn_all = []\<rparr>"
    by (simp add: tallies_nonneg_def nonneg_def)
  ultimately show ?thesis unfolding tally_commits_def by blast
qed

lemma scope_capacity_nonneg:
  assumes "tallies_nonneg t" and "\<forall>(who, per) \<in> set capacity. nonneg per"
  shows "0 \<le> scope_capacity t capacity scope week"
proof -
  have "0 \<le> area_share t scope who week" for who
    using assms(1) by (simp add: area_share_def Let_def tallies_nonneg_def nonneg_tallied)
  then have "0 \<le> tallied per week * area_share t scope who week" "0 \<le> tallied per week" if "(who, per) \<in> set capacity" for who per
    using that assms(2) nonneg_tallied by fastforce+
  then show ?thesis by (auto simp: scope_capacity_def intro!: sum_list_nonneg)
qed

lemma dampenings_nonneg:
  assumes "settings_ranges s" and "\<forall>y \<ge> 1. 0 \<le> lg y" and "(week, damp) \<in> set (dampenings lg s t extent weeks)"
  shows "0 \<le> damp"
proof -
  have "0 \<le> size_dampening lg x s" for x
  proof -
    have "0 \<le> min 1 (max 0 x / of_int (ss_bootstrap_lines s))" using assms(1) by (simp add: settings_ranges_def)
    moreover have "0 \<le> lg (1 + max 0 x / COMPLEXITY_LINES)" using assms(2) by (simp add: COMPLEXITY_LINES_def)
    ultimately show ?thesis using assms(1) by (simp add: size_dampening_def Let_def settings_ranges_def)
  qed
  then show ?thesis using assms(3) by (induction weeks arbitrary: extent) (auto simp: Let_def)
qed

section \<open>Scores\<close>

lemma score_week_parts:
  fixes t :: tallies
  defines "net \<equiv> \<lambda>scope week. max 0 (tallied (ta_adds t) (scope, week) - tallied (ta_dels t) (scope, week))"
  defines "slop \<equiv> \<lambda>capacity scope week damp.
    max 0 (max 0 (net scope week - tallied (ta_excluded t) (scope, week)) * damp - scope_capacity t capacity scope week)"
  shows "wk_slop (fst (score_week t capacity scope (cum_cost, cum_slop, extent) (week, damp))) = slop capacity scope week damp"
    and "wk_cost (fst (score_week t capacity scope (cum_cost, cum_slop, extent) (week, damp))) = net scope week * damp"
    and "fst (snd (score_week t capacity scope (cum_cost, cum_slop, extent) (week, damp))) = cum_cost + net scope week * damp"
    and "fst (snd (snd (score_week t capacity scope (cum_cost, cum_slop, extent) (week, damp)))) =
      cum_slop + slop capacity scope week damp"
    and "wk_score (fst (score_week t capacity scope (cum_cost, cum_slop, extent) (week, damp))) =
      (if cum_cost + net scope week * damp \<noteq> 0
       then (cum_slop + slop capacity scope week damp) / (cum_cost + net scope week * damp) else 0)"
  unfolding score_week_def Let_def prod.case fst_conv snd_conv week_row.simps net_def slop_def by (rule refl)+

lemma score_week_bounds:
  assumes "tallies_nonneg t" and "\<forall>(who, per) \<in> set capacity. nonneg per" and "0 \<le> damp"
    and "0 \<le> cum_slop" and "cum_slop \<le> cum_cost"
    and "score_week t capacity scope (cum_cost, cum_slop, extent) (week, damp) = (row, (cum_cost', cum_slop', extent'))"
  shows "0 \<le> wk_slop row \<and> wk_slop row \<le> wk_cost row \<and> 0 \<le> wk_score row \<and> wk_score row \<le> 1 \<and> 0 \<le> cum_slop' \<and> cum_slop' \<le> cum_cost'"
proof -
  let ?net = "max 0 (tallied (ta_adds t) (scope, week) - tallied (ta_dels t) (scope, week))"
  let ?counted = "max 0 (?net - tallied (ta_excluded t) (scope, week)) * damp"
  let ?slop = "max 0 (?counted - scope_capacity t capacity scope week)"
  have "0 \<le> tallied (ta_excluded t) (scope, week)" using assms(1) by (simp add: tallies_nonneg_def nonneg_tallied)
  then have "max 0 (?net - tallied (ta_excluded t) (scope, week)) \<le> ?net" by simp
  then have "?counted \<le> ?net * damp" using assms(3) by (intro mult_right_mono)
  moreover have "0 \<le> ?counted" using assms(3) by simp
  moreover have "0 \<le> scope_capacity t capacity scope week" by (rule scope_capacity_nonneg [OF assms(1,2)])
  moreover define S where "S = ?slop"
  moreover define C where "C = ?net * damp"
  ultimately have slop: "0 \<le> S" "S \<le> C" by auto
  have row: "wk_slop row = S" "wk_cost row = C" "cum_slop' = cum_slop + S" "cum_cost' = cum_cost + C"
    "wk_score row = (if cum_cost' \<noteq> 0 then cum_slop' / cum_cost' else 0)"
    using score_week_parts [of t capacity scope cum_cost cum_slop extent week damp] unfolding assms(6) fst_conv snd_conv
    by (simp_all only: S_def C_def)
  have le: "0 \<le> cum_slop'" "cum_slop' \<le> cum_cost'" using slop assms(4,5) unfolding row(3,4) by simp_all
  then have "0 \<le> wk_score row" "wk_score row \<le> 1" by (auto simp: row(5) divide_le_eq)
  then show ?thesis using slop row le by simp
qed

lemma series_bounds:
  assumes "tallies_nonneg t" and "\<forall>(who, per) \<in> set capacity. nonneg per" and "\<forall>(week, damp) \<in> set weeks. 0 \<le> damp"
    and "0 \<le> cum_slop" and "cum_slop \<le> cum_cost"
    and "series_from t capacity scope (cum_cost, cum_slop, extent) weeks = (rows, (cost, slop, end_extent))"
  shows "0 \<le> slop \<and> slop \<le> cost \<and>
    (\<forall>row \<in> set rows. 0 \<le> wk_slop row \<and> wk_slop row \<le> wk_cost row \<and> 0 \<le> wk_score row \<and> wk_score row \<le> 1)"
  using assms(3-)
proof (induction weeks arbitrary: cum_cost cum_slop extent rows)
  case (Cons wd weeks)
  obtain week damp where wd: "wd = (week, damp)" by (cases wd)
  obtain row c sl e where row: "score_week t capacity scope (cum_cost, cum_slop, extent) wd = (row, (c, sl, e))"
    using prod_cases4 by blast
  obtain rest where rest: "series_from t capacity scope (c, sl, e) weeks = (rest, (cost, slop, end_extent))" "rows = row # rest"
    using Cons.prems(4) row by (auto split: prod.splits)
  have "0 \<le> damp" using Cons.prems(1) wd by simp
  from score_week_bounds [OF assms(1,2) this Cons.prems(2,3) row [unfolded wd]]
  have b: "0 \<le> wk_slop row" "wk_slop row \<le> wk_cost row" "0 \<le> wk_score row" "wk_score row \<le> 1" "0 \<le> sl" "sl \<le> c" by simp_all
  have "\<forall>(week, damp) \<in> set weeks. 0 \<le> damp" using Cons.prems(1) by simp
  from Cons.IH [OF this b(5,6) rest(1)] show ?case using b rest(2) by simp
qed simp

lemma level_of_range:
  assumes "length (ss_level_bounds s) < length (ss_level_names s)"
  shows "1 \<le> fst (level_of x s) \<and> fst (level_of x s) \<le> int (length (ss_level_names s)) \<and>
    snd (level_of x s) = ss_level_names s ! nat (fst (level_of x s) - 1)"
proof (cases "find (\<lambda>(i, bound). x < bound) (enumerate 0 (ss_level_bounds s))")
  case None
  have "last (ss_level_names s) = ss_level_names s ! nat (int (length (ss_level_names s)) - 1)"
    using assms by (subst last_conv_nth) (auto simp: nat_diff_distrib)
  then show ?thesis using None assms by (simp add: level_of_def)
next
  case (Some e)
  obtain i b where e: "e = (i, b)" by (cases e)
  then have "(i, b) \<in> set (enumerate 0 (ss_level_bounds s))" using Some by (auto simp: find_Some_iff in_set_conv_nth)
  then have "i < length (ss_level_bounds s)" by (auto simp: in_set_enumerate_eq)
  then show ?thesis using Some e assms by (simp add: level_of_def)
qed



definition demo_scoring :: score_settings where
  "demo_scoring = \<lparr>ss_bootstrap_lines = 5000, ss_complexity_weight = 1 / 20, ss_commit_hours = 1, ss_subcommit_hours = 1,
     ss_coauthor_shares = [1 / 2, 1 / 4, 1 / 8], ss_ai_coauthor_share = 4 / 5, ss_event_hours = 1, ss_lines_per_hour = 40,
     ss_weekly_hours_cap = 80, ss_core_min_commits = 10, ss_core_full_commits = 60, ss_small_in_full = True,
     ss_outlier_min_lines = 2000, ss_outliers_per_year = 4, ss_level_bounds = [1 / 5, 2 / 5, 3 / 5, 4 / 5],
     ss_level_names = [''a'', ''b'', ''c'', ''d'', ''e'']\<rparr>"

definition demo_history :: "commit list" where
  "demo_history = [\<lparr>cm_sha = ''s1'', cm_at = 1000 * DAY, cm_author_email = ''a@x'', cm_files = [(''a.py'', 1000, 0)],
     cm_coauthors = [], cm_ai_coauthor = False, cm_bot = False, cm_subcommits = 0\<rparr>]"

abbreviation demo_meters :: "(pystr \<times> meter) list" where
  "demo_meters \<equiv> meters (\<lambda>y. y - 1) (\<lambda>s. s) [] (\<lambda>_. 1) (\<lambda>_. None) (\<lambda>_. None) demo_scoring demo_history [] []"

lemma meters_not_Nil: "meters lg L own weigh judgments area_of s commits events logins \<noteq> []"
proof -
  have "(if [] \<in> set xs then xs else xs @ [[]]) \<noteq> []" for xs :: "pystr list" by (cases xs) auto
  then show ?thesis by (simp add: meters_def Let_def)
qed


section \<open>Attention is time\<close>

text \<open>The instants of an interval.\<close>

definition instants :: "int \<times> int \<Rightarrow> int set" where
  "instants i = {fst i..<snd i}"

definition set_apart :: "(int \<times> int) list \<Rightarrow> bool" where
  "set_apart is \<longleftrightarrow> sorted_wrt (\<lambda>i j. snd i < fst j) is"

lemma merge_sorted_apart:
  assumes "set_apart (rev merged)" and "sorted (map fst is)" and "merged \<noteq> [] \<longrightarrow> (\<forall>i \<in> set is. fst (hd merged) \<le> fst i)"
  shows "set_apart (merge_sorted merged is) \<and> \<Union> (instants ` set (merge_sorted merged is)) = \<Union> (instants ` (set merged \<union> set is))"
  using assms
proof (induction merged "is" rule: merge_sorted.induct)
  case (1 merged)
  then show ?case by simp
next
  case (2 i "is")
  then show ?case by (simp add: set_apart_def)
next
  case (3 s e merged start stop "is")
  have le: "s \<le> start" using 3(5) by simp
  show ?case
  proof (cases "start \<le> e")
    case True
    have a: "set_apart (rev ((s, max e stop) # merged))" using 3(3) by (auto simp: set_apart_def sorted_wrt_append)
    have "instants (s, max e stop) = instants (s, e) \<union> instants (start, stop)" using le True by (auto simp: instants_def)
    then show ?thesis using 3(1) [OF True a] 3(4,5) True by (simp add: Un_ac)
  next
    case False
    have "snd i < start" if "i \<in> set merged" for i
    proof -
      have "snd i < s" using 3(3) that by (simp add: set_apart_def sorted_wrt_append)
      then show ?thesis using le by simp
    qed
    then have a: "set_apart (rev ((start, stop) # (s, e) # merged))"
      using 3(3) False by (simp add: set_apart_def sorted_wrt_append)
    have "\<forall>i \<in> set is. start \<le> fst i" using 3(4) by auto
    then show ?thesis using 3(2) [OF False a] 3(4) False by (simp add: Un_ac)
  qed
qed

lemma sorted_fst: "sorted is \<Longrightarrow> sorted (map fst (is :: (int \<times> int) list))"
  by (induction "is") (auto simp: less_eq_prod_def)

lemma merge_intervals_apart:
  "set_apart (merge_intervals is) \<and> \<Union> (instants ` set (merge_intervals is)) = \<Union> (instants ` set is)"
  using merge_sorted_apart [of "[]" "sort is"] sorted_fst [of "sort is"] by (simp add: merge_intervals_def set_apart_def)

lemma apart_card:
  "set_apart is \<Longrightarrow> card (\<Union> (instants ` set is)) = (\<Sum>i \<leftarrow> is. nat (snd i - fst i))"
proof (induction "is")
  case (Cons i "is")
  have "instants i \<inter> \<Union> (instants ` set is) = {}"
    using Cons.prems by (fastforce simp: set_apart_def instants_def)
  then have "card (instants i \<union> \<Union> (instants ` set is)) = card (instants i) + card (\<Union> (instants ` set is))"
    by (intro card_Un_disjoint) (auto simp: instants_def)
  then show ?case using Cons by (simp add: set_apart_def instants_def)
qed simp

definition tally_sum :: "'k tally \<Rightarrow> rat" where
  "tally_sum t = sum_list (map snd t)"

lemma tally_sum_add: "tally_sum (add_to k x t) = tally_sum t + x"
proof -
  have "tally_sum (AList.update k y t) = tally_sum t + (y - tallied t k)" for y
    by (induction t) (auto simp: tally_sum_def tallied_def)
  then show ?thesis by (simp add: add_to_def)
qed

lemma share_out_sum: "tally_sum (share_out cursor stop out) = tally_sum out + of_int (max 0 (stop - cursor)) / of_int HOUR"
proof (induction cursor stop out rule: share_out.induct)
  case (1 cursor stop out)
  show ?case
  proof (cases "cursor < stop")
    case True
    let ?u = "min stop (week_end cursor)"
    have u: "cursor < ?u" "?u \<le> stop" using True week_end_later [of cursor] by simp_all
    then have "max 0 (stop - ?u) + (?u - cursor) = max 0 (stop - cursor)" by simp
    then have parts: "rat_of_int (max 0 (stop - cursor)) = of_int (max 0 (stop - ?u)) + of_int (?u - cursor)"
      by (simp only: of_int_add [symmetric])
    have "share_out cursor stop out =
        share_out ?u stop (add_to (week_of cursor) (of_int (?u - cursor) / of_int HOUR) out)"
      by (rule trans [OF share_out.simps]) (simp only: True if_True Let_def)
    then have "tally_sum (share_out cursor stop out) =
        tally_sum out + of_int (?u - cursor) / of_int HOUR + of_int (max 0 (stop - ?u)) / of_int HOUR"
      by (simp only: "1.IH" [OF True refl] tally_sum_add)
    then show ?thesis unfolding parts add_divide_distrib by (simp only: add.assoc add.commute)
  next
    case False
    then show ?thesis by (subst share_out.simps) simp
  qed
qed

text \<open>C16: the hours counted over all weeks are the time a person spent: the instants covered by at least one of the
  intervals, each counted once however many intervals overlap there.\<close>

theorem attention_is_time:
  "tally_sum (hours_by_week (merge_intervals intervals)) * of_int HOUR = of_nat (card (\<Union> (instants ` set intervals)))"
proof -
  have "tally_sum (fold (\<lambda>(start, stop). share_out start stop) is t) * of_int HOUR =
      tally_sum t * of_int HOUR + of_nat (\<Sum>i \<leftarrow> is. nat (snd i - fst i))" for "is" and t :: "int tally"
  proof (induction "is" arbitrary: t)
    case (Cons i "is")
    obtain a b where i: "i = (a, b)" by (cases i)
    have "of_int (max 0 (b - a)) = (of_nat (nat (b - a)) :: rat)" by (simp add: max_def)
    then show ?case using Cons i by (simp add: share_out_sum HOUR_def algebra_simps)
  qed simp
  from this [of "merge_intervals intervals" "[]"] show ?thesis
    using apart_card [of "merge_intervals intervals"] merge_intervals_apart [of intervals]
    by (simp add: hours_by_week_def tally_sum_def)
qed

end
