(* ===== verification/Repo_Renames.thy ===== *)
theory Repo_Renames
  imports Json
begin

text \<open>
  Repositories renamed on the forge (\<open>embry0/storage/repo_renames.py\<close>). A mapping of old slugs to current ones is a
  list of pairs in the order of the dictionary. Strings are UTF-8, so a case-insensitive letter matches a list of
  byte strings: its two cases and, for \<open>i\<close>, \<open>k\<close> and \<open>s\<close>, the letters outside ASCII that \<open>re\<close> takes for them.
  \<open>L\<close> is \<open>str.lower\<close>; of it only the lower case of ASCII is assumed.

  The lemmas show that a mapping that was read holds no chain, so a slug and a URL brought to the current name
  stay as they are.
\<close>

section \<open>Reading the mapping\<close>

type_synonym renames = "(pystr \<times> pystr) list"

definition slug_char :: "char \<Rightarrow> bool" where
  "slug_char c \<longleftrightarrow> is_alnum c \<or> c \<in> {CHR ''_'', CHR ''.'', CHR ''-''}"

definition repo_slug :: "pystr \<Rightarrow> bool" where
  "repo_slug s \<longleftrightarrow>
     (case partition_at CHR ''/'' s of
        (owner, found, name) \<Rightarrow> found \<and> owner \<noteq> [] \<and> name \<noteq> [] \<and> list_all slug_char owner \<and> list_all slug_char name)"

text \<open>Why a part of the mapping was refused; the wording is left out.\<close>

datatype rename_problem =
    Not_JSON
  | Not_An_Object
  | Not_Slugs pystr json
  | Renamed_Too pystr pystr

definition read_rename :: "pystr \<times> json \<Rightarrow> rename_problem + pystr \<times> pystr" where
  "read_rename e =
     (case e of
        (old, JStr new) \<Rightarrow> if repo_slug old \<and> repo_slug new then Inr (old, new) else Inl (Not_Slugs old (JStr new))
      | (old, v) \<Rightarrow> Inl (Not_Slugs old v))"

definition chained :: "(pystr \<Rightarrow> pystr) \<Rightarrow> renames \<Rightarrow> pystr \<times> pystr \<Rightarrow> bool" where
  "chained L renames e \<longleftrightarrow> L (snd e) \<noteq> L (fst e) \<and> L (snd e) \<in> (\<lambda>e. L (fst e)) ` set renames"

definition parse_repo_renames :: "(pystr \<Rightarrow> pystr) \<Rightarrow> json \<Rightarrow> renames \<times> rename_problem list" where
  "parse_repo_renames L raw =
     (let text' = (case raw of JStr s \<Rightarrow> strip s | _ \<Rightarrow> [])
      in if text' = [] then ([], [])
         else case json_loads text' of
                None \<Rightarrow> ([], [Not_JSON])
              | Some (JObj parsed) \<Rightarrow>
                  (let renames = List.map_filter (\<lambda>e. case read_rename e of Inr r \<Rightarrow> Some r | Inl _ \<Rightarrow> None) parsed;
                       problems = List.map_filter (\<lambda>e. case read_rename e of Inl p \<Rightarrow> Some p | Inr _ \<Rightarrow> None) parsed
                   in (filter (\<lambda>e. \<not> chained L renames e) renames,
                       problems @ map (\<lambda>(old, new). Renamed_Too old new) (filter (chained L renames) renames)))
              | Some _ \<Rightarrow> ([], [Not_An_Object]))"

section \<open>Slugs\<close>

definition rename_of :: "(pystr \<Rightarrow> pystr) \<Rightarrow> renames \<Rightarrow> pystr \<Rightarrow> (pystr \<times> pystr) option" where
  "rename_of L renames slug = find (\<lambda>(old, new). L old = L slug) renames"

definition normalize_repo_slug :: "(pystr \<Rightarrow> pystr) \<Rightarrow> renames \<Rightarrow> pystr \<Rightarrow> pystr" where
  "normalize_repo_slug L renames slug =
     (case rename_of L renames slug of Some (old, new) \<Rightarrow> new | None \<Rightarrow> slug)"

definition repo_slug_variants :: "(pystr \<Rightarrow> pystr) \<Rightarrow> renames \<Rightarrow> pystr \<Rightarrow> pystr list" where
  "repo_slug_variants L renames slug =
     (let current = normalize_repo_slug L renames slug
      in current # map fst (filter (\<lambda>(old, new). L new = L current) renames))"

section \<open>URLs\<close>

text \<open>What a character of a pattern matches under \<open>IGNORECASE\<close>.\<close>

definition upper_char :: "char \<Rightarrow> char" where
  "upper_char c = (if in_range CHR ''a'' CHR ''z'' c then char_of (ord c - 32) else c)"

definition char_forms :: "char \<Rightarrow> pystr list" where
  "char_forms c =
     [[lower_char c], [upper_char (lower_char c)]] @
     (if lower_char c = CHR ''i'' then [[CHR 0xC4, CHR 0xB0], [CHR 0xC4, CHR 0xB1]]
      else if lower_char c = CHR ''k'' then [[CHR 0xE2, CHR 0x84, CHR 0xAA]]
      else if lower_char c = CHR ''s'' then [[CHR 0xC5, CHR 0xBF]] else [])"

text \<open>The text after a literal, when it starts there.\<close>

fun after_literal :: "pystr \<Rightarrow> pystr \<Rightarrow> pystr option" where
  "after_literal [] s = Some s"
| "after_literal (c # p) s =
     (case find (starts_with s) (char_forms c) of None \<Rightarrow> None | Some w \<Rightarrow> after_literal p (drop (length w) s))"

definition after_optional :: "pystr \<Rightarrow> pystr \<Rightarrow> pystr" where
  "after_optional p s = (case after_literal p s of None \<Rightarrow> s | Some r \<Rightarrow> r)"

text \<open>The text after \<open>_URL_PREFIX\<close>. What follows an optional part never starts as it does, so taking it when it is
  there is what the search does.\<close>

definition after_url_prefix :: "pystr \<Rightarrow> pystr option" where
  "after_url_prefix url =
     (case after_literal ''http'' url of None \<Rightarrow> None
      | Some r \<Rightarrow> (case after_literal ''://'' (after_optional ''s'' r) of None \<Rightarrow> None
          | Some r \<Rightarrow> after_literal ''github.com/'' (after_optional ''www.'' r)))"

definition path_boundary :: "pystr \<Rightarrow> bool" where
  "path_boundary r \<longleftrightarrow> r = [] \<or> r = [CHR 0x0A] \<or> hd r \<in> {CHR ''/'', CHR ''?'', CHR ''#''}"

text \<open>\<open>re.subn(_pattern(old), rf"\g<1>{new}\g<2>", url, count=1, flags=re.IGNORECASE)\<close>; None when it replaced
  nothing.\<close>

definition renamed_url :: "pystr \<Rightarrow> pystr \<Rightarrow> pystr \<Rightarrow> pystr option" where
  "renamed_url old new url =
     (case after_url_prefix url of None \<Rightarrow> None
      | Some r \<Rightarrow> (case after_literal old r of None \<Rightarrow> None
          | Some t \<Rightarrow> if path_boundary t then Some (take (length url - length r) url @ new @ t) else None))"

fun first_some :: "('a \<Rightarrow> 'b option) \<Rightarrow> 'a list \<Rightarrow> 'b option" where
  "first_some f [] = None"
| "first_some f (x # xs) = (case f x of None \<Rightarrow> first_some f xs | y \<Rightarrow> y)"

definition normalize_repo_url :: "renames \<Rightarrow> pystr \<Rightarrow> pystr" where
  "normalize_repo_url renames url =
     (case first_some (\<lambda>(old, new). renamed_url old new url) renames of Some u \<Rightarrow> u | None \<Rightarrow> url)"

definition repo_url_variants :: "renames \<Rightarrow> pystr \<Rightarrow> pystr list" where
  "repo_url_variants renames url =
     (let current = normalize_repo_url renames url
      in current # List.map_filter (\<lambda>(old, new). renamed_url new old current) renames)"

section \<open>A mapping that was read holds no chain\<close>

definition ascii_lowered :: "(pystr \<Rightarrow> pystr) \<Rightarrow> bool" where
  "ascii_lowered L \<longleftrightarrow> (\<forall>s. list_all (\<lambda>c. ord c < 128) s \<longrightarrow> L s = ascii_lower s)"

definition no_chain :: "(pystr \<Rightarrow> pystr) \<Rightarrow> renames \<Rightarrow> bool" where
  "no_chain L renames \<longleftrightarrow> (\<forall>e \<in> set renames. repo_slug (fst e) \<and> repo_slug (snd e) \<and> \<not> chained L renames e)"

lemma read_rename_slugs: "read_rename e = Inr (old, new) \<Longrightarrow> repo_slug old \<and> repo_slug new"
  by (auto simp: read_rename_def split: prod.splits json.splits if_splits)

lemma read_renames_slugs:
  "e \<in> set (List.map_filter (\<lambda>e. case read_rename e of Inr r \<Rightarrow> Some r | Inl _ \<Rightarrow> None) parsed) \<Longrightarrow>
   repo_slug (fst e) \<and> repo_slug (snd e)"
  using read_rename_slugs by (cases e) (auto simp: map_filter_def split: sum.splits)

lemma unchained_no_chain:
  "(\<And>e. e \<in> set rs \<Longrightarrow> repo_slug (fst e) \<and> repo_slug (snd e)) \<Longrightarrow> no_chain L (filter (\<lambda>e. \<not> chained L rs e) rs)"
  by (auto simp: no_chain_def chained_def)

lemma parsed_no_chain: "no_chain L (fst (parse_repo_renames L raw))"
proof -
  have "no_chain L []" by (simp add: no_chain_def)
  then show ?thesis
    using unchained_no_chain [OF read_renames_slugs, where L = L]
    by (simp add: parse_repo_renames_def Let_def split: json.splits option.splits)
qed

lemma slug_char_ascii: "slug_char c \<Longrightarrow> ord c < 128"
  by (auto simp: slug_char_def char_classes)

lemma repo_slug_parts:
  assumes "repo_slug s"
  obtains a b where "s = a @ CHR ''/'' # b" "a \<noteq> []" "b \<noteq> []" "list_all slug_char a" "list_all slug_char b"
  using assms partition_at_cases [of "CHR ''/''" s] by (auto simp: repo_slug_def split: prod.splits)

lemma repo_slug_ascii: "repo_slug s \<Longrightarrow> list_all (\<lambda>c. ord c < 128) s"
  using slug_char_ascii by (elim repo_slug_parts) (auto simp: list_all_iff, simp add: ord_def)

lemma repo_slug_lower: "ascii_lowered L \<Longrightarrow> repo_slug s \<Longrightarrow> L s = ascii_lower s"
  using repo_slug_ascii by (simp add: ascii_lowered_def)

lemma no_chain_target:
  "no_chain L rs \<Longrightarrow> (old, new) \<in> set rs \<Longrightarrow> e \<in> set rs \<Longrightarrow> L (fst e) = L new \<Longrightarrow> L new = L old"
  by (force simp: no_chain_def chained_def)

lemma rename_of_cong: "L a = L b \<Longrightarrow> rename_of L rs a = rename_of L rs b"
  by (simp add: rename_of_def)

lemma rename_of_Some: "rename_of L rs s = Some (old, new) \<Longrightarrow> (old, new) \<in> set rs \<and> L old = L s"
  by (auto simp: rename_of_def find_Some_iff in_set_conv_nth)

lemma rename_of_None: "rename_of L rs s = None \<longleftrightarrow> (\<forall>e \<in> set rs. L (fst e) \<noteq> L s)"
  by (auto simp: rename_of_def find_None_iff)

text \<open>The current name of a slug is renamed to itself, or not at all.\<close>

lemma normalize_settled:
  assumes "no_chain L rs"
  shows "normalize_repo_slug L rs (normalize_repo_slug L rs s) = normalize_repo_slug L rs s"
proof (cases "rename_of L rs s")
  case (Some e)
  obtain old new where e: "e = (old, new)" by (cases e)
  note r = rename_of_Some [OF Some [unfolded e]]
  show ?thesis
  proof (cases "rename_of L rs new")
    case (Some e')
    obtain o' n' where e': "e' = (o', n')" by (cases e')
    have "L new = L old" using no_chain_target [OF assms, of old new "(o', n')"] rename_of_Some [OF Some [unfolded e']] r by simp
    then have "rename_of L rs new = rename_of L rs s" using r by (simp add: rename_of_def)
    then show ?thesis using \<open>rename_of L rs s = Some e\<close> e by (simp add: normalize_repo_slug_def)
  qed (simp add: normalize_repo_slug_def Some e)
qed (simp add: normalize_repo_slug_def)

section \<open>Matching a literal\<close>

lemma upper_chars: "upper_char CHR ''i'' = CHR ''I''" "upper_char CHR ''k'' = CHR ''K''" "upper_char CHR ''s'' = CHR ''S''"
  by code_simp+

lemma ord_upper: "in_range CHR ''a'' CHR ''z'' c \<Longrightarrow> ord (upper_char c) = ord c - 32"
proof -
  assume r: "in_range CHR ''a'' CHR ''z'' c"
  have "ord c - 32 < 256" using ord_less [of c] by linarith
  then show ?thesis using r by (simp add: upper_char_def)
qed

lemma lower_upper: "lower_char (upper_char (lower_char c)) = lower_char c"
proof (cases "in_range CHR ''a'' CHR ''z'' (lower_char c)")
  case True
  let ?d = "lower_char c"
  have o: "97 \<le> ord ?d" "ord ?d \<le> 122" using True by (simp_all add: in_range_def ord_def)
  then have "65 \<le> ord (upper_char ?d) \<and> ord (upper_char ?d) \<le> 90" using ord_upper [OF True] by linarith
  then have "in_range CHR ''A'' CHR ''Z'' (upper_char ?d)" by (simp add: in_range_def ord_def)
  then have "lower_char (upper_char ?d) = char_of (ord ?d)" using ord_upper [OF True] o by (simp add: lower_char_def)
  then show ?thesis by (simp add: ord_def)
qed (simp add: upper_char_def)

lemma same_letter: "lower_char d = lower_char c \<longleftrightarrow> d = lower_char c \<or> d = upper_char (lower_char c)"
proof
  assume d: "lower_char d = lower_char c"
  show "d = lower_char c \<or> d = upper_char (lower_char c)"
  proof (cases "in_range CHR ''A'' CHR ''Z'' d")
    case True
    then have o: "65 \<le> ord d" "ord d \<le> 90" by (simp_all add: in_range_def ord_def)
    have l: "ord (lower_char d) = ord d + 32" using True o by (simp add: lower_char_def ord_def of_char_of take_bit_eq_mod)
    then have "in_range CHR ''a'' CHR ''z'' (lower_char d)" using o by (simp add: in_range_def ord_def)
    then have "upper_char (lower_char d) = char_of (ord d)" by (simp add: upper_char_def l)
    then show ?thesis using d by (simp add: ord_def)
  qed (use d in \<open>simp add: lower_char_def\<close>)
qed (auto simp: lower_upper)

lemma char_forms_apart:
  "w \<in> set (char_forms c) \<Longrightarrow> w' \<in> set (char_forms c) \<Longrightarrow> starts_with (w @ x) w' \<Longrightarrow> w' = w"
  by (auto simp: char_forms_def starts_with_def upper_chars split: if_splits)

lemma find_form:
  assumes "w \<in> set (char_forms c)"
  shows "find (starts_with (w @ x)) (char_forms c) = Some w"
proof -
  have "find (starts_with (w @ x)) (char_forms c) \<noteq> None" using assms by (auto simp: find_None_iff)
  then obtain w' where w': "find (starts_with (w @ x)) (char_forms c) = Some w'" by blast
  then have "w' \<in> set (char_forms c)" "starts_with (w @ x) w'" by (auto simp: find_Some_iff in_set_conv_nth)
  then show ?thesis using w' char_forms_apart [OF assms] by blast
qed

text \<open>What a literal matches does not depend on what follows.\<close>

lemma after_literal_split:
  assumes "after_literal p s = Some r"
  obtains w where "s = w @ r" "\<And>x. after_literal p (w @ x) = Some x"
  using assms
proof (induction p s arbitrary: thesis rule: after_literal.induct)
  case (1 s)
  then show ?case by (metis after_literal.simps(1) append_Nil option.inject)
next
  case (2 c p s)
  obtain w where w: "find (starts_with s) (char_forms c) = Some w" and r: "after_literal p (drop (length w) s) = Some r"
    using 2(3) by (auto split: option.splits)
  have f: "w \<in> set (char_forms c)" "starts_with s w" using w by (auto simp: find_Some_iff in_set_conv_nth)
  obtain v where v: "drop (length w) s = v @ r" "\<And>x. after_literal p (v @ x) = Some x" using 2(1) [OF w _ r] by blast
  have "s = (w @ v) @ r" using f(2) v(1) by (metis append.assoc append_take_drop_id starts_with_def)
  moreover have "after_literal (c # p) ((w @ v) @ x) = Some x" for x by (simp add: find_form [OF f(1)] v(2))
  ultimately show ?case using 2(2) by blast
qed

lemma char_forms_lower: "lower_char c = lower_char d \<Longrightarrow> char_forms c = char_forms d"
  by (simp add: char_forms_def)

lemma after_literal_lower: "ascii_lower p = ascii_lower q \<Longrightarrow> after_literal p s = after_literal q s"
proof (induction p arbitrary: q s)
  case Nil
  then show ?case by (simp add: ascii_lower_def)
next
  case (Cons c p)
  then obtain d q' where q: "q = d # q'" "lower_char c = lower_char d" "ascii_lower p = ascii_lower q'"
    by (cases q) (auto simp: ascii_lower_def)
  then show ?case using Cons.IH [OF q(3)] char_forms_lower [OF q(2)] by (simp split: option.splits)
qed

lemma after_literal_append:
  "after_literal (a @ b) s = (case after_literal a s of None \<Rightarrow> None | Some r \<Rightarrow> after_literal b r)"
  by (induction a s rule: after_literal.induct) (auto split: option.splits)

lemma form_of_ascii:
  assumes "ord d < 128"
  shows "find (starts_with (d # s)) (char_forms c) = (if lower_char d = lower_char c then Some [d] else None)"
proof (cases "lower_char d = lower_char c")
  case True
  then have "[d] \<in> set (char_forms c)" using same_letter [of d c] by (auto simp: char_forms_def)
  then show ?thesis using find_form [of "[d]" c s] True by simp
next
  case False
  then have "d \<noteq> lower_char c" "d \<noteq> upper_char (lower_char c)" using same_letter [of d c] by auto
  moreover have "d \<notin> {CHR 0xC4, CHR 0xE2, CHR 0xC5}" using assms by (auto simp: ord_def)
  ultimately have "\<forall>w \<in> set (char_forms c). \<not> starts_with (d # s) w" by (auto simp: char_forms_def starts_with_def)
  then show ?thesis using False by (simp add: find_None_iff)
qed

lemma no_form_of_Nil: "find (starts_with []) (char_forms c) = None"
  by (auto simp: find_None_iff char_forms_def starts_with_def)

lemma slug_char_lower: "slug_char (lower_char c) \<longleftrightarrow> slug_char c"
  by (auto simp: slug_char_def lower_char_eq_iff is_alpha_def in_range_def ord_def)

lemma slug_char_same: "lower_char d = lower_char c \<Longrightarrow> slug_char c \<Longrightarrow> slug_char d"
  using slug_char_lower by metis

lemma after_segment:
  assumes "list_all slug_char p" and "list_all slug_char n" and "t = [] \<or> ord (hd t) < 128 \<and> \<not> slug_char (hd t)"
    and "after_literal p (n @ t) = Some r"
  shows "\<exists>n1 n2. n = n1 @ n2 \<and> ascii_lower n1 = ascii_lower p \<and> r = n2 @ t"
  using assms
proof (induction p arbitrary: n)
  case Nil
  then show ?case by (auto simp: ascii_lower_def)
next
  case (Cons c p)
  show ?case
  proof (cases n)
    case Nil
    then show ?thesis
      using Cons.prems slug_char_same [of "hd t" c] no_form_of_Nil form_of_ascii
      by (cases t) (auto split: if_splits)
  next
    case (Cons d n')
    have d: "ord d < 128" "list_all slug_char n'" using Cons.prems(2) Cons slug_char_ascii by auto
    have "lower_char d = lower_char c \<and> after_literal p (n' @ t) = Some r"
      using Cons.prems(4) Cons form_of_ascii [OF d(1)] by (auto split: if_splits)
    moreover from this obtain n1 n2 where "n' = n1 @ n2" "ascii_lower n1 = ascii_lower p" "r = n2 @ t"
      using Cons.IH [OF _ d(2) Cons.prems(3)] Cons.prems(1) by auto
    ultimately have "n = (d # n1) @ n2 \<and> ascii_lower (d # n1) = ascii_lower (c # p) \<and> r = n2 @ t"
      using Cons by (simp add: ascii_lower_def)
    then show ?thesis by blast
  qed
qed

lemma after_itself: "list_all (\<lambda>c. ord c < 128) n \<Longrightarrow> after_literal n (n @ t) = Some t"
  by (induction n) (auto simp: form_of_ascii)

lemma boundary_stops: "path_boundary t \<Longrightarrow> t = [] \<or> ord (hd t) < 128 \<and> \<not> slug_char (hd t)"
  by (auto simp: path_boundary_def slug_char_def char_classes)

text \<open>A slug is found where a slug stands exactly when the two are equal but for case.\<close>

lemma after_slug:
  assumes "repo_slug p" and "repo_slug n" and "path_boundary t"
  shows "after_literal p (n @ t) = Some r \<and> path_boundary r \<longleftrightarrow> ascii_lower p = ascii_lower n \<and> r = t"
proof
  assume r: "after_literal p (n @ t) = Some r \<and> path_boundary r"
  obtain a b where p: "p = a @ CHR ''/'' # b" "list_all slug_char a" "list_all slug_char b" using assms(1) by (rule repo_slug_parts)
  obtain c d where n: "n = c @ CHR ''/'' # d" "list_all slug_char c" "list_all slug_char d" using assms(2) by (rule repo_slug_parts)
  have slash: "ord CHR ''/'' < 128" "\<not> slug_char CHR ''/''" by (simp_all add: slug_char_def char_classes)
  have lc: "lower_char CHR ''/'' = CHR ''/''" by code_simp
  obtain r1 where r1: "after_literal a (c @ CHR ''/'' # d @ t) = Some r1" "after_literal (CHR ''/'' # b) r1 = Some r"
    using r by (auto simp: p(1) n(1) after_literal_append split: option.splits)
  then obtain c1 c2 where c: "c = c1 @ c2" "ascii_lower c1 = ascii_lower a" "r1 = c2 @ CHR ''/'' # d @ t"
    using after_segment [OF p(2) n(2) _ r1(1)] slash by auto
  have "c2 = []"
  proof (rule ccontr)
    assume "c2 \<noteq> []"
    then obtain x c3 where x: "c2 = x # c3" by (cases c2) auto
    then have s: "slug_char x" using n(2) c(1) by simp
    have "lower_char x = CHR ''/''"
      using r1(2) form_of_ascii [OF slug_char_ascii [OF s]] by (auto simp: c(3) x lc split: if_splits)
    then show False using slug_char_lower [of x] s slash by simp
  qed
  then have "after_literal b (d @ t) = Some r" using r1(2) c(3) form_of_ascii [OF slash(1)] by simp
  then obtain d1 d2 where d: "d = d1 @ d2" "ascii_lower d1 = ascii_lower b" "r = d2 @ t"
    using after_segment [OF p(3) n(3) boundary_stops [OF assms(3)]] by blast
  have "d2 = []" using boundary_stops [of r] r d n(3) by (cases d2) auto
  then show "ascii_lower p = ascii_lower n \<and> r = t" using c d \<open>c2 = []\<close> by (simp add: p(1) n(1) ascii_lower_def)
next
  assume "ascii_lower p = ascii_lower n \<and> r = t"
  then show "after_literal p (n @ t) = Some r \<and> path_boundary r"
    using after_literal_lower [of p n] after_itself [OF repo_slug_ascii [OF assms(2)]] assms(3) by simp
qed

section \<open>The current URL stays as it is\<close>

declare after_literal.simps(2) [simp del]

lemma literals_exclude:
  assumes "\<forall>u \<in> set (char_forms c). \<forall>v \<in> set (char_forms d). hd u \<noteq> hd v" and "after_literal (c # q) s = Some r"
  shows "after_literal (d # p) s = None"
proof -
  obtain w where "find (starts_with s) (char_forms c) = Some w" using assms(2) by (auto simp: after_literal.simps(2) split: option.splits)
  then have w: "w \<in> set (char_forms c)" "starts_with s w" by (auto simp: find_Some_iff in_set_conv_nth)
  have hd_of: "hd s = hd v" if "v \<in> set (char_forms e)" "starts_with s v" for v e
    using that by (auto simp: char_forms_def starts_with_iff split: if_splits)
  then have "\<not> starts_with s v" if "v \<in> set (char_forms d)" for v using that assms(1) w by metis
  then have "find (starts_with s) (char_forms d) = None" by (simp add: find_None_iff)
  then show ?thesis by (simp add: after_literal.simps(2))
qed

lemma optional_then:
  assumes "\<forall>u \<in> set (char_forms c). \<forall>v \<in> set (char_forms d). hd u \<noteq> hd v"
    and "after_literal (c # q) (after_optional (d # p) s) = Some r"
  obtains w where "s = w @ r" "\<And>x. after_literal (c # q) (after_optional (d # p) (w @ x)) = Some x"
proof (cases "after_literal (d # p) s")
  case None
  then have "after_literal (c # q) s = Some r" using assms(2) by (simp add: after_optional_def)
  then obtain w where w: "s = w @ r" "\<And>x. after_literal (c # q) (w @ x) = Some x" by (rule after_literal_split) blast
  then have "after_optional (d # p) (w @ x) = w @ x" for x
    using literals_exclude [OF assms(1) w(2)] by (simp add: after_optional_def)
  then show ?thesis using that w by simp
next
  case (Some s')
  then obtain w1 where w1: "s = w1 @ s'" "\<And>x. after_literal (d # p) (w1 @ x) = Some x" by (rule after_literal_split) blast
  have "after_literal (c # q) s' = Some r" using assms(2) Some by (simp add: after_optional_def)
  then obtain w2 where w2: "s' = w2 @ r" "\<And>x. after_literal (c # q) (w2 @ x) = Some x" by (rule after_literal_split) blast
  have "after_optional (d # p) ((w1 @ w2) @ x) = w2 @ x" for x using w1(2) [of "w2 @ x"] by (simp add: after_optional_def)
  then show ?thesis using that [of "w1 @ w2"] w1 w2 by simp
qed

definition url_start :: "pystr \<Rightarrow> bool" where
  "url_start g \<longleftrightarrow> (\<forall>x. after_url_prefix (g @ x) = Some x)"

lemma after_url_prefix_split:
  assumes "after_url_prefix url = Some r"
  obtains g where "url = g @ r" "url_start g"
proof -
  have apart: "\<forall>u \<in> set (char_forms CHR '':''). \<forall>v \<in> set (char_forms CHR ''s''). hd u \<noteq> hd v"
    "\<forall>u \<in> set (char_forms CHR ''g''). \<forall>v \<in> set (char_forms CHR ''w''). hd u \<noteq> hd v"
    by code_simp+
  obtain r1 r2 where r: "after_literal ''http'' url = Some r1" "after_literal ''://'' (after_optional ''s'' r1) = Some r2"
      "after_literal ''github.com/'' (after_optional ''www.'' r2) = Some r"
    using assms by (auto simp: after_url_prefix_def split: option.splits)
  obtain w1 where w1: "url = w1 @ r1" "\<And>x. after_literal ''http'' (w1 @ x) = Some x" using r(1) by (rule after_literal_split) blast
  obtain w2 where w2: "r1 = w2 @ r2" "\<And>x. after_literal ''://'' (after_optional ''s'' (w2 @ x)) = Some x"
    using apart(1) r(2) by (rule optional_then) blast
  obtain w3 where w3: "r2 = w3 @ r" "\<And>x. after_literal ''github.com/'' (after_optional ''www.'' (w3 @ x)) = Some x"
    using apart(2) r(3) by (rule optional_then) blast
  have "url_start (w1 @ w2 @ w3)"
    by (simp only: url_start_def after_url_prefix_def append.assoc w1(2) w2(2) w3(2) option.case) simp
  then show ?thesis using that [of "w1 @ w2 @ w3"] w1(1) w2(1) w3(1) by simp
qed

lemma renamed_url_at:
  "url_start g \<Longrightarrow>
   renamed_url old new (g @ r) =
     (case after_literal old r of None \<Rightarrow> None | Some t \<Rightarrow> if path_boundary t then Some (g @ new @ t) else None)"
  by (auto simp: renamed_url_def url_start_def split: option.splits)

lemma renamed_urlE:
  assumes "renamed_url old new u = Some v"
  obtains g r t where "u = g @ r" "url_start g" "after_literal old r = Some t" "path_boundary t" "v = g @ new @ t"
proof -
  obtain r where "after_url_prefix u = Some r" using assms by (cases "after_url_prefix u") (auto simp: renamed_url_def)
  then obtain g where g: "u = g @ r" "url_start g" by (rule after_url_prefix_split)
  then show ?thesis using assms that renamed_url_at [of g old new r] by (auto split: option.splits if_splits)
qed

lemma first_some_split:
  "first_some f xs = Some y \<Longrightarrow> \<exists>ys x zs. xs = ys @ x # zs \<and> f x = Some y \<and> (\<forall>z \<in> set ys. f z = None)"
proof (induction xs)
  case (Cons x xs)
  show ?case
  proof (cases "f x")
    case None
    then obtain ys x' zs where "xs = ys @ x' # zs" "f x' = Some y" "\<forall>z \<in> set ys. f z = None" using Cons by auto
    then show ?thesis using None by (intro exI [of _ "x # ys"]) auto
  next
    case (Some y')
    then show ?thesis using Cons.prems by (intro exI [of _ "[]"]) auto
  qed
qed simp

lemma first_some_skip: "(\<forall>z \<in> set ys. f z = None) \<Longrightarrow> first_some f (ys @ zs) = first_some f zs"
  by (induction ys) simp_all

text \<open>C18: in a mapping read from the environment no rename leads to another, so a slug or a repository URL brought to
  its current name stays as it is when it is brought there again.\<close>

theorem current_names_settled:
  assumes "parse_repo_renames L raw = (rs, problems)" and "ascii_lowered L"
  shows "normalize_repo_slug L rs (normalize_repo_slug L rs slug) = normalize_repo_slug L rs slug \<and>
    normalize_repo_url rs (normalize_repo_url rs url) = normalize_repo_url rs url"
proof -
  have nc: "no_chain L rs" using parsed_no_chain [of L raw] assms(1) by simp
  define f where "f = (\<lambda>u (old, new). renamed_url old new u)"
  have norm: "normalize_repo_url rs u = (case first_some (f u) rs of Some v \<Rightarrow> v | None \<Rightarrow> u)" for u
    by (simp add: normalize_repo_url_def f_def)
  have "normalize_repo_url rs (normalize_repo_url rs url) = normalize_repo_url rs url"
  proof (cases "first_some (f url) rs")
    case (Some v)
    obtain ys e zs where rs: "rs = ys @ e # zs" "f url e = Some v" "\<forall>z \<in> set ys. f url z = None"
      using first_some_split [OF Some] by metis
    obtain old new where e: "e = (old, new)" by (cases e)
    have "renamed_url old new url = Some v" using rs(2) by (simp add: f_def e)
    then obtain g r t where u: "url = g @ r" "url_start g" "after_literal old r = Some t" "path_boundary t" "v = g @ new @ t"
      by (rule renamed_urlE)
    have slugs: "repo_slug old" "repo_slug new" using nc by (auto simp: rs(1) e no_chain_def)
    have again: "f url z = Some (g @ snd z @ t) \<and> f v (old, new) = Some v" if z: "z \<in> set rs" "f v z \<noteq> None" for z
    proof -
      obtain o' n' where z': "z = (o', n')" by (cases z)
      have o': "repo_slug o'" using nc z(1) by (auto simp: z' no_chain_def)
      have "ascii_lower o' = ascii_lower new"
      proof -
        have "renamed_url o' n' (g @ new @ t) \<noteq> None" using z(2) by (simp add: f_def z' u(5))
        then obtain t' where "after_literal o' (new @ t) = Some t'" "path_boundary t'"
          using renamed_url_at [OF u(2), of o' n' "new @ t"] by (auto split: option.splits if_splits)
        then show ?thesis using after_slug [OF o' slugs(2) u(4)] by blast
      qed
      moreover from this have "L new = L old"
        using no_chain_target [OF nc, of old new z] z(1) repo_slug_lower [OF assms(2)] o' slugs by (simp add: rs(1) e z')
      ultimately have lower: "ascii_lower o' = ascii_lower old" "ascii_lower old = ascii_lower new"
        using repo_slug_lower [OF assms(2)] slugs by simp_all
      have "f url z = Some (g @ n' @ t)"
        using renamed_url_at [OF u(2), of o' n' r] after_literal_lower [OF lower(1)] u(3,4) by (simp add: f_def z' u(1))
      moreover have "f v (old, new) = Some v"
        using renamed_url_at [OF u(2), of old new "new @ t"] after_slug [OF slugs u(4), of t] lower(2) u(4,5)
        by (simp add: f_def)
      ultimately show ?thesis by (simp add: z')
    qed
    have "first_some (f v) rs = None \<or> first_some (f v) rs = Some v"
    proof (cases "first_some (f v) rs")
      case (Some v')
      obtain us x vs where "rs = us @ x # vs" "f v x = Some v'" using first_some_split [OF Some] by metis
      then have ex: "\<exists>z \<in> set rs. f v z \<noteq> None" by (intro bexI [of _ x]) simp_all
      have "\<forall>z \<in> set ys. f v z = None" using again rs(1,3) by fastforce
      moreover have "f v (old, new) = Some v" using again ex by blast
      ultimately show ?thesis by (simp add: rs(1) e first_some_skip)
    qed simp
    then show ?thesis using Some by (auto simp: norm)
  qed (simp add: norm)
  then show ?thesis using normalize_settled [OF nc] by simp
qed

definition demo_renames :: json where
  "demo_renames = JStr ([CHR ''{'', CHR 0x22] @ ''acme/old'' @ [CHR 0x22, CHR '':'', CHR 0x22] @ ''Acme/new'' @ [CHR 0x22, CHR ''}''])"

lemma demo_renames_read: "parse_repo_renames ascii_lower demo_renames = ([(''acme/old'', ''Acme/new'')], [])"
  by code_simp

lemma ascii_lowered_ascii: "ascii_lowered ascii_lower"
  by (simp add: ascii_lowered_def)

lemma current_names_settled_witness:
  "normalize_repo_url [(''acme/old'', ''Acme/new'')] ''HTTPS://github.com/acme/OLD/pull/1'' = ''HTTPS://github.com/Acme/new/pull/1'' \<and>
   normalize_repo_url [(''acme/old'', ''Acme/new'')] (normalize_repo_url [(''acme/old'', ''Acme/new'')] ''HTTPS://github.com/acme/OLD/pull/1'') =
     normalize_repo_url [(''acme/old'', ''Acme/new'')] ''HTTPS://github.com/acme/OLD/pull/1''"
proof -
  have "normalize_repo_url [(''acme/old'', ''Acme/new'')] ''HTTPS://github.com/acme/OLD/pull/1'' = ''HTTPS://github.com/Acme/new/pull/1''"
    by code_simp
  then show ?thesis
    using current_names_settled [OF demo_renames_read ascii_lowered_ascii, of "[]" "''HTTPS://github.com/acme/OLD/pull/1''"] by blast
qed

end
