(* ===== verification/Repo_Allowlist.thy ===== *)
theory Repo_Allowlist
  imports Repo_Renames "HOL-Library.List_Lexorder" "HOL-Library.Char_ord"
begin

text \<open>
  The repositories an API key may act on (\<open>embry0/api/repo_allowlist.py\<close>, \<open>Principal\<close> of \<open>api/deps.py\<close> and
  \<open>job_hidden\<close> of \<open>api/job_allowlist.py\<close>). A request is its principal; a check answers whether the route goes on,
  and the audit rows it wrote. Parameters: \<open>L\<close>, \<open>str.lower\<close>; \<open>rs\<close>, the renames installed; \<open>registered\<close>, the
  repositories the registry holds under an owner. The wording of a refusal and the log line are left out.

  The lemmas show that the slugs a list of rows is narrowed to are those the check lets through, that a key
  minted by another never reaches further than it, and that each refused action is on record.
\<close>

section \<open>What a key covers\<close>

record principal =
  pr_kind :: pystr
  pr_tier :: pystr
  pr_key_id :: "pystr option"
  pr_key_name :: "pystr option"
  pr_email :: "pystr option"
  pr_allowed :: "pystr list option"
  pr_service :: bool

definition READS_NOTHING :: principal where
  "READS_NOTHING = \<lparr>pr_kind = ''token'', pr_tier = ''read'', pr_key_id = None, pr_key_name = None, pr_email = None,
     pr_allowed = Some [], pr_service = False\<rparr>"

definition canonical_slug :: "(pystr \<Rightarrow> pystr) \<Rightarrow> renames \<Rightarrow> pystr \<Rightarrow> pystr" where
  "canonical_slug L rs slug = L (normalize_repo_slug L rs (strip slug))"

definition repo_allowed :: "(pystr \<Rightarrow> pystr) \<Rightarrow> renames \<Rightarrow> pystr list option \<Rightarrow> pystr option \<Rightarrow> bool" where
  "repo_allowed L rs allowed repo =
     (case allowed of
        None \<Rightarrow> True
      | Some entries \<Rightarrow> (case repo of
            None \<Rightarrow> False
          | Some r \<Rightarrow> r \<noteq> [] \<and> list_ex (\<lambda>entry. canonical_slug L rs entry = canonical_slug L rs r) entries))"

definition owners :: "(pystr \<Rightarrow> pystr) \<Rightarrow> renames \<Rightarrow> pystr \<Rightarrow> pystr list" where
  "owners L rs entry =
     map (\<lambda>slug. fst (partition_at CHR ''/'' (L slug)))
       (filter (\<lambda>slug. CHR ''/'' \<in> set slug) (strip entry # repo_slug_variants L rs (strip entry)))"

definition owner_allowed :: "(pystr \<Rightarrow> pystr) \<Rightarrow> renames \<Rightarrow> pystr list option \<Rightarrow> pystr option \<Rightarrow> bool" where
  "owner_allowed L rs allowed owner =
     (case allowed of
        None \<Rightarrow> True
      | Some entries \<Rightarrow> (case owner of
            None \<Rightarrow> False
          | Some o' \<Rightarrow> o' \<noteq> [] \<and> list_ex (\<lambda>entry. L (strip o') \<in> set (owners L rs entry)) entries))"

definition key_covers :: "(pystr \<Rightarrow> pystr) \<Rightarrow> renames \<Rightarrow> principal option \<Rightarrow> pystr option \<Rightarrow> bool" where
  "key_covers L rs caller repo = (case caller of None \<Rightarrow> True | Some p \<Rightarrow> repo_allowed L rs (pr_allowed p) repo)"

text \<open>The list a caller is held to, if any: \<open>principal is None or principal.allowed_repos is None\<close>.\<close>

definition held_to :: "principal option \<Rightarrow> pystr list option" where
  "held_to caller = (case caller of None \<Rightarrow> None | Some p \<Rightarrow> pr_allowed p)"

definition covered_slugs :: "(pystr \<Rightarrow> pystr) \<Rightarrow> renames \<Rightarrow> principal option \<Rightarrow> pystr list option" where
  "covered_slugs L rs caller =
     map_option (\<lambda>entries. sort (remdups (concat (map (\<lambda>e. map L (repo_slug_variants L rs (strip e))) entries)))) (held_to caller)"

definition wider_than_allowlist ::
  "(pystr \<Rightarrow> pystr) \<Rightarrow> renames \<Rightarrow> principal option \<Rightarrow> pystr list option \<Rightarrow> pystr option" where
  "wider_than_allowlist L rs caller allowed =
     (case held_to caller of
        None \<Rightarrow> None
      | Some mine \<Rightarrow> (case allowed of
            None \<Rightarrow> Some ''*''
          | Some repos \<Rightarrow> find (\<lambda>repo. \<not> repo_allowed L rs (Some mine) (Some repo)) repos))"

definition restricted_key_name :: "principal option \<Rightarrow> pystr option" where
  "restricted_key_name caller =
     (case caller of
        None \<Rightarrow> None
      | Some p \<Rightarrow> (case pr_allowed p of None \<Rightarrow> None
          | Some _ \<Rightarrow> Some (case pr_key_name p of None \<Rightarrow> ''None'' | Some n \<Rightarrow> n)))"

section \<open>Refusing\<close>

datatype reason = Not_Listed | Owner_Not_Covered | Because pystr

record refusal =
  rf_key :: "pystr option"
  rf_action :: pystr
  rf_shown :: pystr
  rf_reason :: reason

record refusal_row =
  rr_key_id :: "pystr option"
  rr_key_name :: "pystr option"
  rr_repo :: pystr
  rr_action :: pystr

datatype route_answer = Goes_On | Forbidden refusal | Missing

type_synonym outcome = "route_answer \<times> refusal_row list"

definition refusal_row_of :: "principal \<Rightarrow> pystr \<Rightarrow> pystr \<Rightarrow> refusal_row" where
  "refusal_row_of p shown action = \<lparr>rr_key_id = pr_key_id p, rr_key_name = pr_key_name p, rr_repo = shown, rr_action = action\<rparr>"

definition refusal_of :: "principal \<Rightarrow> pystr \<Rightarrow> pystr \<Rightarrow> reason \<Rightarrow> refusal" where
  "refusal_of p shown action reason =
     \<lparr>rf_key = pr_key_name p, rf_action = action, rf_shown = shown, rf_reason = reason\<rparr>"

definition refuse :: "principal \<Rightarrow> pystr \<Rightarrow> pystr \<Rightarrow> reason \<Rightarrow> outcome" where
  "refuse p shown action reason = (Forbidden (refusal_of p shown action reason), [refusal_row_of p shown action])"

definition shown_repo :: "pystr option \<Rightarrow> pystr" where
  "shown_repo repo = (case repo of None \<Rightarrow> ''(no repository)'' | Some r \<Rightarrow> if r = [] then ''(no repository)'' else r)"

definition shown_owner :: "pystr option \<Rightarrow> pystr" where
  "shown_owner owner = (case owner of None \<Rightarrow> ''(no owner)'' | Some o' \<Rightarrow> if o' = [] then ''(no owner)'' else o' @ ''/*'')"

definition refusal_detail :: "(pystr \<Rightarrow> pystr) \<Rightarrow> renames \<Rightarrow> principal option \<Rightarrow> pystr option \<Rightarrow> pystr \<Rightarrow> refusal option" where
  "refusal_detail L rs caller repo action =
     (case caller of
        None \<Rightarrow> None
      | Some p \<Rightarrow> if key_covers L rs caller repo then None else Some (refusal_of p (shown_repo repo) action Not_Listed))"

definition enforce_repo_allowlist :: "(pystr \<Rightarrow> pystr) \<Rightarrow> renames \<Rightarrow> principal option \<Rightarrow> pystr option \<Rightarrow> pystr \<Rightarrow> outcome" where
  "enforce_repo_allowlist L rs caller repo action =
     (case caller of
        None \<Rightarrow> (Goes_On, [])
      | Some p \<Rightarrow> if refusal_detail L rs caller repo action = None then (Goes_On, []) else refuse p (shown_repo repo) action Not_Listed)"

definition DEPLOYMENT :: pystr where
  "DEPLOYMENT = ''(the deployment)''"

definition enforce_no_allowlist :: "principal option \<Rightarrow> pystr \<Rightarrow> pystr \<Rightarrow> reason \<Rightarrow> outcome" where
  "enforce_no_allowlist caller shown action reason =
     (case caller of
        None \<Rightarrow> (Goes_On, [])
      | Some p \<Rightarrow> if restricted_key_name caller \<noteq> None then refuse p shown action reason else (Goes_On, []))"

definition enforce_deployment_allowlist :: "principal option \<Rightarrow> pystr \<Rightarrow> outcome" where
  "enforce_deployment_allowlist caller action =
     (case caller of
        None \<Rightarrow> (Goes_On, [])
      | Some p \<Rightarrow> if restricted_key_name caller \<noteq> None then refuse p DEPLOYMENT action Not_Listed else (Goes_On, []))"

definition deployment_writes :: "pystr \<Rightarrow> principal option \<Rightarrow> pystr \<Rightarrow> outcome" where
  "deployment_writes method caller action =
     (if method \<in> {''GET'', ''HEAD'', ''OPTIONS''} then (Goes_On, []) else enforce_deployment_allowlist caller action)"

definition key_covers_organization ::
  "(pystr \<Rightarrow> pystr) \<Rightarrow> renames \<Rightarrow> (pystr \<Rightarrow> pystr list) \<Rightarrow> principal option \<Rightarrow> pystr option \<Rightarrow> bool" where
  "key_covers_organization L rs registered caller owner =
     (case held_to caller of
        None \<Rightarrow> True
      | Some mine \<Rightarrow>
          owner_allowed L rs (Some mine) owner \<and>
          (case owner of None \<Rightarrow> False | Some o' \<Rightarrow> list_all (\<lambda>repo. repo_allowed L rs (Some mine) (Some repo)) (registered o')))"

definition enforce_owner_named :: "(pystr \<Rightarrow> pystr) \<Rightarrow> renames \<Rightarrow> principal option \<Rightarrow> pystr option \<Rightarrow> pystr \<Rightarrow> outcome" where
  "enforce_owner_named L rs caller owner action =
     (case caller of
        None \<Rightarrow> (Goes_On, [])
      | Some p \<Rightarrow> if \<not> owner_allowed L rs (pr_allowed p) owner then refuse p (shown_owner owner) action Not_Listed else (Goes_On, []))"

definition enforce_owner_allowlist ::
  "(pystr \<Rightarrow> pystr) \<Rightarrow> renames \<Rightarrow> (pystr \<Rightarrow> pystr list) \<Rightarrow> principal option \<Rightarrow> pystr option \<Rightarrow> pystr \<Rightarrow> outcome" where
  "enforce_owner_allowlist L rs registered caller owner action =
     (case caller of
        None \<Rightarrow> (Goes_On, [])
      | Some p \<Rightarrow> if \<not> key_covers_organization L rs registered caller owner
                 then refuse p (shown_owner owner) action Owner_Not_Covered else (Goes_On, []))"

text \<open>The answer names what the key covers, the row what it does not.\<close>

definition enforce_reach ::
  "(pystr \<Rightarrow> pystr) \<Rightarrow> renames \<Rightarrow> principal option \<Rightarrow> pystr \<Rightarrow> pystr option list \<Rightarrow> pystr \<Rightarrow> reason \<Rightarrow> outcome" where
  "enforce_reach L rs caller shown reached action reason =
     (case caller of
        None \<Rightarrow> (Goes_On, [])
      | Some p \<Rightarrow> (case pr_allowed p of
            None \<Rightarrow> (Goes_On, [])
          | Some mine \<Rightarrow> (case filter (\<lambda>repo. \<not> repo_allowed L rs (Some mine) repo) reached of
                [] \<Rightarrow> (Goes_On, [])
              | beyond # _ \<Rightarrow>
                  (Forbidden (refusal_of p shown action reason), [refusal_row_of p (shown_repo beyond) action]))))"

definition answer_as_missing :: "principal \<Rightarrow> pystr \<Rightarrow> pystr option \<Rightarrow> outcome" where
  "answer_as_missing p shown action =
     (Missing, case action of None \<Rightarrow> [] | Some a \<Rightarrow> [refusal_row_of p shown a])"

definition hide_unless_covered ::
  "(pystr \<Rightarrow> pystr) \<Rightarrow> renames \<Rightarrow> principal option \<Rightarrow> pystr option \<Rightarrow> pystr option \<Rightarrow> outcome" where
  "hide_unless_covered L rs caller repo action =
     (case caller of
        None \<Rightarrow> (Goes_On, [])
      | Some p \<Rightarrow> if key_covers L rs caller repo then (Goes_On, []) else answer_as_missing p (shown_repo repo) action)"

text \<open>\<open>found\<close> is the repository of a job, as the jobs table answers.\<close>

definition job_hidden :: "(pystr \<Rightarrow> pystr) \<Rightarrow> renames \<Rightarrow> (pystr \<Rightarrow> pystr option) \<Rightarrow> principal option \<Rightarrow> pystr \<Rightarrow> bool" where
  "job_hidden L rs found caller job_id =
     (if covered_slugs L rs caller = None then False else \<not> key_covers L rs caller (found job_id))"

section \<open>The slugs selected are the slugs covered\<close>

definition renamed_once :: "(pystr \<Rightarrow> pystr) \<Rightarrow> renames \<Rightarrow> bool" where
  "renamed_once L rs \<longleftrightarrow> distinct (map (\<lambda>e. L (fst e)) rs)"

lemma rename_of_unique:
  assumes "renamed_once L rs" and "e \<in> set rs" and "L (fst e) = L s"
  shows "rename_of L rs s = Some e"
proof (cases "rename_of L rs s")
  case None
  then show ?thesis using assms(2,3) rename_of_None [of L rs s] by blast
next
  case (Some e')
  then have "e' \<in> set rs" "L (fst e') = L s" using rename_of_Some [of L rs s "fst e'" "snd e'"] by auto
  then show ?thesis using assms Some by (metis eq_key_imp_eq_value in_set_conv_nth renamed_once_def distinct_map inj_on_def)
qed

lemma variants_exact:
  assumes "no_chain L rs" and "renamed_once L rs"
  shows "L r \<in> set (map L (repo_slug_variants L rs e)) \<longleftrightarrow> L (normalize_repo_slug L rs e) = L (normalize_repo_slug L rs r)"
proof -
  let ?c = "normalize_repo_slug L rs e"
  have settled: "L (normalize_repo_slug L rs r) = L ?c" if "L r = L ?c"
  proof -
    have "rename_of L rs r = rename_of L rs ?c" using that by (rule rename_of_cong)
    then have "L (normalize_repo_slug L rs r) = L (normalize_repo_slug L rs ?c)"
      using that by (cases "rename_of L rs ?c") (auto simp: normalize_repo_slug_def)
    then show ?thesis using normalize_settled [OF assms(1)] by simp
  qed
  have old: "normalize_repo_slug L rs r = new" if "(o', new) \<in> set rs" "L r = L o'" for o' new
    using rename_of_unique [OF assms(2) that(1), of r] that(2) by (simp add: normalize_repo_slug_def)
  show ?thesis
  proof
    assume "L r \<in> set (map L (repo_slug_variants L rs e))"
    then consider "L r = L ?c" | o' new where "(o', new) \<in> set rs" "L new = L ?c" "L r = L o'"
      by (auto simp: repo_slug_variants_def Let_def)
    then show "L ?c = L (normalize_repo_slug L rs r)" using settled old by cases auto
  next
    assume same: "L ?c = L (normalize_repo_slug L rs r)"
    show "L r \<in> set (map L (repo_slug_variants L rs e))"
    proof (cases "rename_of L rs r")
      case None
      then show ?thesis using same by (simp add: normalize_repo_slug_def repo_slug_variants_def Let_def)
    next
      case (Some x)
      obtain o' new where x: "x = (o', new)" by (cases x)
      have "(o', new) \<in> set rs" "L o' = L r" using rename_of_Some [OF Some [unfolded x]] by auto
      moreover have "L new = L ?c" using same Some by (simp add: normalize_repo_slug_def x)
      ultimately show ?thesis by (force simp: repo_slug_variants_def Let_def image_iff)
    qed
  qed
qed


section \<open>No key is minted wider than its minter\<close>

lemma wider_than_allowlist_cases:
  "(wider_than_allowlist L rs caller allowed = None \<longrightarrow>
      (\<forall>repo. repo_allowed L rs allowed repo \<longrightarrow> key_covers L rs caller repo)) \<and>
   (\<forall>w. wider_than_allowlist L rs caller allowed = Some w \<longrightarrow>
      (allowed = None \<and> w = ''*'' \<or> (\<exists>repos. allowed = Some repos \<and> w \<in> set repos \<and> \<not> key_covers L rs caller (Some w))))"
proof (cases "held_to caller")
  case None
  then show ?thesis by (auto simp: wider_than_allowlist_def held_to_def key_covers_def repo_allowed_def split: option.splits)
next
  case (Some mine)
  then obtain p where p: "caller = Some p" "pr_allowed p = Some mine" by (auto simp: held_to_def split: option.splits)
  have covers: "key_covers L rs caller repo = repo_allowed L rs (Some mine) repo" for repo by (simp add: key_covers_def p)
  show ?thesis
  proof (cases allowed)
    case None
    then show ?thesis using Some by (simp add: wider_than_allowlist_def)
  next
    case a: (Some repos)
    have w: "wider_than_allowlist L rs caller allowed = find (\<lambda>repo. \<not> repo_allowed L rs (Some mine) (Some repo)) repos"
      using Some by (simp add: wider_than_allowlist_def a)
    have "repo_allowed L rs (Some mine) repo"
      if "\<forall>e \<in> set repos. repo_allowed L rs (Some mine) (Some e)" "repo_allowed L rs allowed repo" for repo
      using that by (fastforce simp: a repo_allowed_def list_ex_iff split: option.splits)
    then show ?thesis using w by (auto simp: covers a find_None_iff find_Some_iff)
  qed
qed

text \<open>What a key may act on is never wider than the key that minted it: when nothing of the list asked for is
  beyond the caller's, every repository the new key covers the caller covers, and otherwise what is named is
  something the caller does not cover.\<close>

lemma minted_key_not_wider:
  "case wider_than_allowlist L rs caller allowed of
     None \<Rightarrow> {repo. repo_allowed L rs allowed repo} \<subseteq> {repo. key_covers L rs caller repo}
   | Some w \<Rightarrow> (case allowed of None \<Rightarrow> w = ''*'' | Some repos \<Rightarrow> w \<in> set repos \<and> \<not> key_covers L rs caller (Some w))"
  using wider_than_allowlist_cases [of L rs caller allowed] by (auto split: option.splits)

section \<open>What the demonstration key covers\<close>

definition demo_caller :: "principal option" where
  "demo_caller = Some \<lparr>pr_kind = ''key'', pr_tier = ''operator'', pr_key_id = Some ''k1'', pr_key_name = Some ''ci'', pr_email = None,
     pr_allowed = Some ['' acme/new''], pr_service = True\<rparr>"


text \<open>With an old slug named twice, in two spellings, a row is selected that the check refuses.\<close>

lemma two_spellings_differ:
  defines "rs \<equiv> [(''acme/Old'', ''acme/first''), (''acme/old'', ''acme/new'')]"
  shows "\<exists>slugs. covered_slugs ascii_lower rs demo_caller = Some slugs \<and> ''acme/old'' \<in> set slugs \<and>
    \<not> key_covers ascii_lower rs demo_caller (Some ''acme/old'')"
proof (intro exI conjI)
  show "covered_slugs ascii_lower rs demo_caller = Some [''acme/new'', ''acme/old'']" unfolding rs_def by code_simp
  show "''acme/old'' \<in> set [''acme/new'', ''acme/old'']" by simp
  show "\<not> key_covers ascii_lower rs demo_caller (Some ''acme/old'')" unfolding rs_def by code_simp
qed

section \<open>Refusals are on record\<close>

text \<open>A route goes on without a row, and an action refused leaves one, naming the key and what it does not cover;
  a read answered as a missing item leaves none.\<close>

definition on_record :: "principal option \<Rightarrow> pystr \<Rightarrow> outcome \<Rightarrow> bool" where
  "on_record caller action x \<longleftrightarrow>
     (case x of
        (Goes_On, rows) \<Rightarrow> rows = []
      | (_, rows) \<Rightarrow> (\<exists>p shown. caller = Some p \<and> rows = [refusal_row_of p shown action]))"

lemmas enforcements = enforce_repo_allowlist_def enforce_no_allowlist_def enforce_deployment_allowlist_def deployment_writes_def
  enforce_owner_named_def enforce_owner_allowlist_def enforce_reach_def hide_unless_covered_def answer_as_missing_def refuse_def

lemma refusals_on_record:
  "on_record caller action (enforce_repo_allowlist L rs caller repo action)"
  "on_record caller action (enforce_no_allowlist caller shown action because)"
  "on_record caller action (deployment_writes method caller action)"
  "on_record caller action (enforce_owner_named L rs caller owner action)"
  "on_record caller action (enforce_owner_allowlist L rs registered caller owner action)"
  "on_record caller action (enforce_reach L rs caller shown reached action because)"
  "on_record caller action (hide_unless_covered L rs caller repo (Some action))"
  by (auto simp: on_record_def enforcements split: option.splits list.splits)

lemma read_hidden_unrecorded: "snd (hide_unless_covered L rs caller repo None) = []"
  by (simp add: hide_unless_covered_def answer_as_missing_def split: option.split)

lemma route_goes_on:
  "fst (enforce_repo_allowlist L rs caller repo action) = Goes_On \<longleftrightarrow> key_covers L rs caller repo"
  by (auto simp: enforce_repo_allowlist_def refusal_detail_def refuse_def key_covers_def split: option.splits)

lemma whole_owner_goes_on:
  "fst (enforce_owner_allowlist L rs registered caller (Some owner) action) = Goes_On \<Longrightarrow> repo \<in> set (registered owner) \<Longrightarrow>
   key_covers L rs caller (Some repo)"
  by (auto simp: enforce_owner_allowlist_def key_covers_organization_def refuse_def key_covers_def held_to_def repo_allowed_def
      list_all_iff split: option.splits if_splits)

lemma job_hidden_uncovered: "job_hidden L rs found caller job \<longleftrightarrow> \<not> key_covers L rs caller (found job)"
  by (auto simp: job_hidden_def covered_slugs_def held_to_def key_covers_def repo_allowed_def split: option.splits)

end
