(* ===== verification/Settings_Scope.thy ===== *)
theory Settings_Scope
  imports Repo_Renames "HOL-Library.List_Lexorder" "HOL-Library.Char_ord"
begin

text \<open>
  Which settings document a value is read from (\<open>embry0/settings/scope.py\<close>). A name that cannot be an organization
  or a repository is None; the wording of the refusal is left out. \<open>L\<close> is \<open>str.lower\<close>, \<open>rs\<close> the renames installed.

  The lemmas show that the scope a slug leads to is the one its stored string is read back as, that a repository's
  scope does not change when it is brought to its current name again, and which stored row each repository reads.
\<close>

section \<open>Scopes\<close>

datatype layer = Deployment | Organization | Repository

record scope =
  sc_layer :: layer
  sc_name :: pystr

definition DEPLOYMENT_SCOPE :: pystr where "DEPLOYMENT_SCOPE = ''deployment''"
definition ORGANIZATION_PREFIX :: pystr where "ORGANIZATION_PREFIX = ''organization:''"
definition REPOSITORY_PREFIX :: pystr where "REPOSITORY_PREFIX = ''repository:''"

definition lower_alnum :: "char \<Rightarrow> bool" where
  "lower_alnum c \<longleftrightarrow> is_digit c \<or> in_range CHR ''a'' CHR ''z'' c"

definition segment_char :: "char \<Rightarrow> bool" where
  "segment_char c \<longleftrightarrow> lower_alnum c \<or> c \<in> {CHR ''.'', CHR ''_'', CHR ''-''}"

definition forge_owner :: "pystr \<Rightarrow> bool" where
  "forge_owner s \<longleftrightarrow> (case s of [] \<Rightarrow> False | c # cs \<Rightarrow> (lower_alnum c \<or> c = CHR ''_'') \<and> list_all segment_char cs)"

definition slug_segment :: "pystr \<Rightarrow> bool" where
  "slug_segment s \<longleftrightarrow> s \<noteq> [] \<and> list_all segment_char s"

definition owner_of :: "(pystr \<Rightarrow> pystr) \<Rightarrow> pystr \<Rightarrow> pystr" where
  "owner_of L repo = L (fst (partition_at CHR ''/'' (strip repo)))"

definition checked_owner :: "(pystr \<Rightarrow> pystr) \<Rightarrow> pystr \<Rightarrow> pystr option" where
  "checked_owner L raw = (let owner = L (strip raw) in if forge_owner owner then Some owner else None)"

definition repo_parts_ok :: "pystr list \<Rightarrow> bool" where
  "repo_parts_ok parts \<longleftrightarrow>
     2 \<le> length parts \<and> forge_owner (hd parts) \<and>
     list_all (\<lambda>part. slug_segment part \<and> part \<notin> {''.'', ''..''}) (tl parts)"

definition checked_repo :: "(pystr \<Rightarrow> pystr) \<Rightarrow> pystr \<Rightarrow> pystr option" where
  "checked_repo L raw =
     (let repo = L (strip raw) in if repo_parts_ok (split_on CHR ''/'' repo) then Some repo else None)"

definition organization_scope :: "(pystr \<Rightarrow> pystr) \<Rightarrow> pystr \<Rightarrow> scope option" where
  "organization_scope L owner = map_option (\<lambda>o'. \<lparr>sc_layer = Organization, sc_name = o'\<rparr>) (checked_owner L owner)"

definition repository_scope :: "(pystr \<Rightarrow> pystr) \<Rightarrow> renames \<Rightarrow> pystr \<Rightarrow> scope option" where
  "repository_scope L rs repo =
     (case checked_repo L repo of
        None \<Rightarrow> None
      | Some r \<Rightarrow> map_option (\<lambda>n. \<lparr>sc_layer = Repository, sc_name = n\<rparr>) (checked_repo L (normalize_repo_slug L rs r)))"

definition scope_parse :: "(pystr \<Rightarrow> pystr) \<Rightarrow> pystr \<Rightarrow> scope option" where
  "scope_parse L stored =
     (if stored = DEPLOYMENT_SCOPE then Some \<lparr>sc_layer = Deployment, sc_name = []\<rparr>
      else if starts_with stored ORGANIZATION_PREFIX
      then map_option (\<lambda>n. \<lparr>sc_layer = Organization, sc_name = n\<rparr>) (checked_owner L (drop (length ORGANIZATION_PREFIX) stored))
      else if starts_with stored REPOSITORY_PREFIX
      then map_option (\<lambda>n. \<lparr>sc_layer = Repository, sc_name = n\<rparr>) (checked_repo L (drop (length REPOSITORY_PREFIX) stored))
      else None)"

definition scope_str :: "scope \<Rightarrow> pystr" where
  "scope_str sc =
     (case sc_layer sc of
        Organization \<Rightarrow> ORGANIZATION_PREFIX @ sc_name sc
      | Repository \<Rightarrow> REPOSITORY_PREFIX @ sc_name sc
      | Deployment \<Rightarrow> DEPLOYMENT_SCOPE)"

definition scope_owner :: "(pystr \<Rightarrow> pystr) \<Rightarrow> scope \<Rightarrow> pystr option" where
  "scope_owner L sc =
     (case sc_layer sc of Organization \<Rightarrow> Some (sc_name sc) | Repository \<Rightarrow> Some (owner_of L (sc_name sc)) | Deployment \<Rightarrow> None)"

definition scope_parent :: "(pystr \<Rightarrow> pystr) \<Rightarrow> scope \<Rightarrow> scope option" where
  "scope_parent L sc =
     (case sc_layer sc of
        Repository \<Rightarrow> Some \<lparr>sc_layer = Organization, sc_name = owner_of L (sc_name sc)\<rparr>
      | Organization \<Rightarrow> Some \<lparr>sc_layer = Deployment, sc_name = []\<rparr>
      | Deployment \<Rightarrow> None)"

definition organization_of :: "(pystr \<Rightarrow> pystr) \<Rightarrow> renames \<Rightarrow> pystr \<Rightarrow> pystr" where
  "organization_of L rs repo =
     (case repository_scope L rs repo of Some sc \<Rightarrow> owner_of L (sc_name sc) | None \<Rightarrow> owner_of L repo)"

definition current_scope :: "(pystr \<Rightarrow> pystr) \<Rightarrow> renames \<Rightarrow> scope \<Rightarrow> scope" where
  "current_scope L rs sc =
     (if sc_layer sc \<noteq> Repository then sc
      else case repository_scope L rs (sc_name sc) of Some sc' \<Rightarrow> sc' | None \<Rightarrow> sc)"

section \<open>Stored rows\<close>

text \<open>The current scope string of a stored repository layer.\<close>

definition current_row :: "(pystr \<Rightarrow> pystr) \<Rightarrow> renames \<Rightarrow> pystr \<Rightarrow> pystr option" where
  "current_row L rs key =
     (case scope_parse L key of
        None \<Rightarrow> None
      | Some sc \<Rightarrow> if sc_layer sc = Repository then Some (scope_str (current_scope L rs sc)) else None)"

definition parsed_rows :: "(pystr \<Rightarrow> pystr) \<Rightarrow> renames \<Rightarrow> pystr list \<Rightarrow> (pystr \<times> pystr) list" where
  "parsed_rows L rs ks = List.map_filter (\<lambda>key. map_option (Pair key) (current_row L rs key)) (sort ks)"

definition own_rows :: "(pystr \<times> pystr) list \<Rightarrow> pystr dict" where
  "own_rows parsed = fold (\<lambda>(key, now) index. if key = now then AList.update now key index else index) parsed []"

definition index_row :: "pystr \<times> pystr \<Rightarrow> pystr dict \<times> (pystr \<times> pystr) list \<Rightarrow> pystr dict \<times> (pystr \<times> pystr) list" where
  "index_row row so_far =
     (case (row, so_far) of
        ((key, now), (index, shadowed)) \<Rightarrow>
          if key = now then so_far
          else case map_of index now of
                 Some k \<Rightarrow> (index, shadowed @ [(key, k)])
               | None \<Rightarrow> (AList.update now key index, shadowed))"

definition stored_rows :: "(pystr \<Rightarrow> pystr) \<Rightarrow> renames \<Rightarrow> pystr list \<Rightarrow> pystr dict \<times> (pystr \<times> pystr) list" where
  "stored_rows L rs ks =
     (let parsed = parsed_rows L rs ks in fold index_row parsed (own_rows parsed, []))"

lemma index_row_at:
  "index_row (key, now) (index, shadowed) =
     (if key = now then (index, shadowed)
      else case map_of index now of
             Some k \<Rightarrow> (index, shadowed @ [(key, k)])
           | None \<Rightarrow> (AList.update now key index, shadowed))"
  by (simp add: index_row_def)

lemma own_rows_read: "map_of (own_rows parsed) now = (if (now, now) \<in> set parsed then Some now else None)"
proof -
  have "map_of (fold (\<lambda>(key, now) index. if key = now then AList.update now key index else index) ps ix) now =
      (if (now, now) \<in> set ps then Some now else map_of ix now)" for ps ix
    by (induction ps arbitrary: ix) (auto split: prod.splits)
  then show ?thesis by (simp add: own_rows_def)
qed

text \<open>What is filed stays filed; the first row not filed yet is.\<close>

lemma index_rows_read:
  "map_of (fst (fold index_row ps (ix, sh))) now =
   (case map_of ix now of Some k \<Rightarrow> Some k | None \<Rightarrow> map_option fst (find (\<lambda>(key, n). n = now \<and> key \<noteq> n) ps))"
proof (induction ps arbitrary: ix sh)
  case Nil
  then show ?case by (simp split: option.split)
next
  case (Cons p ps)
  obtain key n where p: "p = (key, n)" by (cases p)
  show ?case using Cons by (cases "map_of ix n") (auto simp: p index_row_at split: option.splits)
qed

lemma index_rows_shadowed: "set sh \<subseteq> set (snd (fold index_row ps (ix, sh)))"
proof (induction ps arbitrary: ix sh)
  case (Cons p ps)
  obtain key n where p: "p = (key, n)" by (cases p)
  have "\<exists>ix' sh'. index_row p (ix, sh) = (ix', sh') \<and> set sh \<subseteq> set sh'"
    by (auto simp: p index_row_at split: option.splits)
  then obtain ix' sh' where "index_row p (ix, sh) = (ix', sh')" "set sh \<subseteq> set sh'" by blast
  then show ?case using Cons.IH [of sh' ix'] by auto
qed simp

lemma index_rows_complete:
  assumes "(key, now) \<in> set ps" and "key \<noteq> now"
  shows "\<exists>k. map_of (fst (fold index_row ps (ix, sh))) now = Some k \<and> (k = key \<or> (key, k) \<in> set (snd (fold index_row ps (ix, sh))))"
  using assms(1)
proof (induction ps arbitrary: ix sh)
  case (Cons p ps)
  show ?case
  proof (cases "p = (key, now)")
    case True
    show ?thesis
    proof (cases "map_of ix now")
      case None
      then show ?thesis using assms(2) by (simp add: True index_row_at index_rows_read)
    next
      case (Some k)
      have "(key, k) \<in> set (snd (fold index_row ps (ix, sh @ [(key, k)])))"
        using index_rows_shadowed [of "sh @ [(key, k)]" ps ix] by auto
      then show ?thesis using Some assms(2) by (simp add: True index_row_at index_rows_read)
    qed
  next
    case False
    then have "(key, now) \<in> set ps" using Cons.prems by simp
    then show ?thesis using Cons.IH by (cases "index_row p (ix, sh)") simp
  qed
qed simp

lemma find_map_filter:
  "map_option fst (find (\<lambda>(key, n). n = now \<and> key \<noteq> n) (List.map_filter (\<lambda>key. map_option (Pair key) (f key)) ks)) =
   find (\<lambda>key. f key = Some now \<and> key \<noteq> now) ks"
  by (induction ks) (auto simp: List.map_filter_simps split: option.splits)

lemma find_hd_filter: "find P xs = (case filter P xs of [] \<Rightarrow> None | x # _ \<Rightarrow> Some x)"
  by (induction xs) auto

lemma parsed_rows_iff: "(key, now) \<in> set (parsed_rows L rs ks) \<longleftrightarrow> key \<in> set ks \<and> current_row L rs key = Some now"
  by (force simp: parsed_rows_def map_filter_def image_iff)

text \<open>A repository reads the settings row stored under its current slug when there is one, else the first, by
  name, of the rows stored under a slug that was renamed to it; every other row of it is named with the one read
  instead.\<close>

lemma repository_reads_row:
  "case stored_rows L rs ks of
     (index, shadowed) \<Rightarrow>
       map_of index now =
         (if now \<in> set ks \<and> current_row L rs now = Some now then Some now
          else case filter (\<lambda>key. current_row L rs key = Some now) (sort ks) of [] \<Rightarrow> None | key # _ \<Rightarrow> Some key) \<and>
       {key \<in> set ks. current_row L rs key = Some now \<and> map_of index now \<noteq> Some key} \<subseteq>
         {key. (key, the (map_of index now)) \<in> set shadowed}"
proof -
  define ps where "ps = parsed_rows L rs ks"
  define res where "res = fold index_row ps (own_rows ps, [])"
  have own: "map_of (own_rows ps) now = (if now \<in> set ks \<and> current_row L rs now = Some now then Some now else None)"
    by (simp add: own_rows_read ps_def parsed_rows_iff)
  have read: "map_of (fst res) now =
      (if now \<in> set ks \<and> current_row L rs now = Some now then Some now
       else case filter (\<lambda>key. current_row L rs key = Some now) (sort ks) of [] \<Rightarrow> None | key # _ \<Rightarrow> Some key)"
  proof (cases "now \<in> set ks \<and> current_row L rs now = Some now")
    case True
    then show ?thesis using own by (simp add: res_def index_rows_read)
  next
    case False
    then have "filter (\<lambda>key. current_row L rs key = Some now \<and> key \<noteq> now) (sort ks) = filter (\<lambda>key. current_row L rs key = Some now) (sort ks)"
      by (intro filter_cong) auto
    then have "find (\<lambda>key. current_row L rs key = Some now \<and> key \<noteq> now) (sort ks) =
        (case filter (\<lambda>key. current_row L rs key = Some now) (sort ks) of [] \<Rightarrow> None | key # _ \<Rightarrow> Some key)"
      by (simp only: find_hd_filter)
    then show ?thesis using False own by (simp only: res_def index_rows_read ps_def parsed_rows_def find_map_filter if_False option.case)
  qed
  have "(key, the (map_of (fst res) now)) \<in> set (snd res)"
    if "key \<in> set ks" "current_row L rs key = Some now" "map_of (fst res) now \<noteq> Some key" for key
  proof -
    have "key \<noteq> now" using that read by (cases "key = now") auto
    then show ?thesis
      using index_rows_complete [of key now ps "own_rows ps" "[]"] that by (auto simp: res_def ps_def parsed_rows_iff)
  qed
  then show ?thesis using read by (auto simp: stored_rows_def Let_def ps_def [symmetric] res_def [symmetric] split: prod.split)
qed

section \<open>A stored string is read back as the scope\<close>

lemma segment_char_plain: "segment_char c \<Longrightarrow> ord c < 128 \<and> printable c \<and> lower_char c = c"
  by (auto simp: segment_char_def lower_alnum_def char_classes printable_def lower_char_def)

definition plain :: "pystr \<Rightarrow> bool" where
  "plain s \<longleftrightarrow> s \<noteq> [] \<and> list_all (\<lambda>c. segment_char c \<or> c = CHR ''/'') s"

lemma plain_char:
  assumes "plain s" and "c \<in> set s"
  shows "ord c < 128" "printable c" "lower_char c = c"
proof -
  have "ord CHR ''/'' < 128 \<and> printable CHR ''/'' \<and> lower_char CHR ''/'' = CHR ''/''"
    by (simp add: printable_def lower_char_def char_classes)
  moreover have "segment_char c \<or> c = CHR ''/''" using assms by (simp add: plain_def list_all_iff)
  ultimately have "ord c < 128 \<and> printable c \<and> lower_char c = c" using segment_char_plain [of c] by blast
  then show "ord c < 128" "printable c" "lower_char c = c" by simp_all
qed

lemma plain_stays:
  assumes "ascii_lowered L" and "plain s"
  shows "L (strip s) = s"
proof -
  have "s \<noteq> []" using assms(2) by (simp add: plain_def)
  then have "strip s = s" using plain_char(2) [OF assms(2)] by (intro strip_id) simp
  moreover have "list_all (\<lambda>c. ord c < 128) s" using plain_char(1) [OF assms(2)] by (simp add: list_all_iff)
  then have "L s = ascii_lower s" using assms(1) by (simp add: ascii_lowered_def)
  moreover have "ascii_lower s = s" using plain_char(3) [OF assms(2)] by (simp add: ascii_lower_def map_idI)
  ultimately show ?thesis by simp
qed

lemma forge_owner_chars: "forge_owner s \<Longrightarrow> s \<noteq> [] \<and> list_all segment_char s"
  by (cases s) (auto simp: forge_owner_def segment_char_def)

lemma forge_owner_plain: "forge_owner s \<Longrightarrow> plain s"
  using forge_owner_chars by (auto simp: plain_def list_all_iff)

lemma repo_parts_plain:
  assumes "repo_parts_ok (split_on CHR ''/'' s)"
  shows "plain s"
proof -
  obtain q qs where q: "split_on CHR ''/'' s = q # qs" by (cases "split_on CHR ''/'' s") auto
  then have "list_all segment_char q" "list_all slug_segment qs"
    using assms forge_owner_chars [of q] by (auto simp: repo_parts_ok_def list_all_iff)
  then have parts: "segment_char c" if "p \<in> set (split_on CHR ''/'' s)" "c \<in> set p" for p c
    using that by (auto simp: q slug_segment_def list_all_iff)
  have s: "join [CHR ''/''] (split_on CHR ''/'' s) = s" by (rule join_split_on)
  have "segment_char c \<or> c = CHR ''/''" if "c \<in> set s" for c
    using that parts set_join [of "[CHR ''/'']" "split_on CHR ''/'' s"] by (auto simp: s)
  moreover have "s \<noteq> []" using assms by (auto simp: repo_parts_ok_def)
  ultimately show ?thesis by (simp add: plain_def list_all_iff)
qed

lemma checked_repo_again: "ascii_lowered L \<Longrightarrow> checked_repo L raw = Some r \<Longrightarrow> checked_repo L r = Some r"
  using plain_stays [OF _ repo_parts_plain, of L r] by (simp add: checked_repo_def Let_def split: if_splits)

lemma checked_owner_again: "ascii_lowered L \<Longrightarrow> checked_owner L raw = Some r \<Longrightarrow> checked_owner L r = Some r"
  using plain_stays [OF _ forge_owner_plain, of L r] by (simp add: checked_owner_def Let_def split: if_splits)

lemma prefixes:
  "starts_with (ORGANIZATION_PREFIX @ n) ORGANIZATION_PREFIX" "starts_with (REPOSITORY_PREFIX @ n) REPOSITORY_PREFIX"
  "\<not> starts_with (REPOSITORY_PREFIX @ n) ORGANIZATION_PREFIX" "ORGANIZATION_PREFIX @ n \<noteq> DEPLOYMENT_SCOPE"
  "REPOSITORY_PREFIX @ n \<noteq> DEPLOYMENT_SCOPE"
  by (simp_all add: ORGANIZATION_PREFIX_def REPOSITORY_PREFIX_def DEPLOYMENT_SCOPE_def starts_with_def)

lemma slug_char_printable: "slug_char c \<Longrightarrow> printable c"
  by (auto simp: slug_char_def printable_def char_classes)

lemma repository_scope_settled:
  assumes "ascii_lowered L" and "no_chain L rs" and "repository_scope L rs repo = Some sc"
  shows "repository_scope L rs (sc_name sc) = Some sc"
proof -
  obtain r n where r: "checked_repo L repo = Some r" "checked_repo L (normalize_repo_slug L rs r) = Some n"
      "sc = \<lparr>sc_layer = Repository, sc_name = n\<rparr>"
    using assms(3) by (auto simp: repository_scope_def split: option.splits)
  have n: "checked_repo L n = Some n" using checked_repo_again [OF assms(1) r(2)] .
  have "checked_repo L (normalize_repo_slug L rs n) = Some n"
  proof (cases "rename_of L rs r")
    case None
    then have "n = r" using r checked_repo_again [OF assms(1) r(1)] by (simp add: normalize_repo_slug_def)
    then show ?thesis using r(2) by simp
  next
    case (Some e)
    obtain old new where e: "e = (old, new)" by (cases e)
    have new: "normalize_repo_slug L rs r = new" using Some by (simp add: normalize_repo_slug_def e)
    have "repo_slug new" using rename_of_Some [OF Some [unfolded e]] assms(2) by (auto simp: no_chain_def)
    then have ascii: "list_all (\<lambda>c. ord c < 128) new" by (rule repo_slug_ascii)
    obtain a b where ab: "new = a @ CHR ''/'' # b" "a \<noteq> []" "b \<noteq> []" "list_all slug_char a" "list_all slug_char b"
      using \<open>repo_slug new\<close> by (rule repo_slug_parts)
    have "strip new = new" using ab slug_char_printable by (intro strip_id) (cases a; cases b rule: rev_cases; auto)
    then have "n = ascii_lower new"
      using r(2) new assms(1) ascii by (simp add: checked_repo_def Let_def ascii_lowered_def split: if_splits)
    moreover have "plain n" using r(2) repo_parts_plain [of n] by (auto simp: checked_repo_def Let_def split: if_splits)
    then have "list_all (\<lambda>c. ord c < 128) n" using plain_char(1) by (simp add: list_all_iff)
    ultimately have "L n = L new" using assms(1) ascii by (simp add: ascii_lowered_def)
    then have "rename_of L rs n = rename_of L rs new" by (rule rename_of_cong)
    moreover have "normalize_repo_slug L rs new = new" using normalize_settled [OF assms(2), of r] by (simp add: new)
    ultimately have "normalize_repo_slug L rs n \<in> {n, new}" by (auto simp: normalize_repo_slug_def split: option.splits)
    then show ?thesis using n r(2) new by auto
  qed
  then show ?thesis using n by (simp add: r(3) repository_scope_def)
qed

text \<open>C19: the string a scope is stored under is read back as that scope, and a repository's scope, found through the
  renames, is the one its current name has.\<close>

theorem scope_round_trip:
  assumes "ascii_lowered L" and "parse_repo_renames L raw = (rs, problems)"
    and "organization_scope L name = Some sc \<or> repository_scope L rs name = Some sc"
  shows "scope_parse L (scope_str sc) = Some sc \<and> current_scope L rs sc = sc"
proof -
  have nc: "no_chain L rs" using parsed_no_chain [of L raw] assms(2) by simp
  show ?thesis
    using assms(3)
  proof
    assume "organization_scope L name = Some sc"
    then obtain n where "checked_owner L name = Some n" "sc = \<lparr>sc_layer = Organization, sc_name = n\<rparr>"
      by (auto simp: organization_scope_def)
    then show ?thesis
      using checked_owner_again [OF assms(1)] prefixes(1,4) by (simp add: scope_parse_def scope_str_def current_scope_def)
  next
    assume sc: "repository_scope L rs name = Some sc"
    then obtain r n where "checked_repo L (normalize_repo_slug L rs r) = Some n" "sc = \<lparr>sc_layer = Repository, sc_name = n\<rparr>"
      by (auto simp: repository_scope_def split: option.splits)
    moreover have "checked_repo L n = Some n" using checked_repo_again [OF assms(1) calculation(1)] .
    ultimately show ?thesis
      using prefixes repository_scope_settled [OF assms(1) nc sc] by (simp add: scope_parse_def scope_str_def current_scope_def)
  qed
qed

lemma scope_round_trip_witness:
  "\<exists>sc. repository_scope ascii_lower [(''acme/old'', ''Acme/new'')] '' ACME/Old '' = Some sc \<and> scope_str sc = ''repository:acme/new'' \<and>
    scope_parse ascii_lower (scope_str sc) = Some sc"
proof (intro exI conjI)
  let ?sc = "\<lparr>sc_layer = Repository, sc_name = ''acme/new''\<rparr>"
  show r: "repository_scope ascii_lower [(''acme/old'', ''Acme/new'')] '' ACME/Old '' = Some ?sc" by code_simp
  show "scope_str ?sc = ''repository:acme/new''" by code_simp
  show "scope_parse ascii_lower (scope_str ?sc) = Some ?sc"
    using scope_round_trip [OF ascii_lowered_ascii demo_renames_read disjI2 [OF r]] by blast
qed

end
