(* ===== verification/Settings_Layers.thy ===== *)
theory Settings_Layers
  imports Py_Value "HOL-Library.List_Lexorder" "HOL-Library.Char_ord"
begin

text \<open>
  A section of the settings read through its layers (\<open>embry0/settings/layers.py\<close>, and \<open>Section.settable\<close> of
  \<open>settings/registry.py\<close>). Values are JSON. The model of a section is pydantic's: its fields, bounds, defaults and
  check are data of the section here. Parameters: \<open>L\<close>, \<open>str.lower\<close>; \<open>D\<close>, \<open>json.dumps\<close> with sorted keys. Logging is
  left out.

  The lemmas show that a section is read as its layers over the document below, each value of a layer applied or
  refused by name, and that of a value past its bound the most specific entries are kept.
\<close>

section \<open>Sections\<close>

record section_error =
  er_loc :: "pystr list"
  er_msg :: pystr

record 'm settings_section =
  se_name :: pystr
  se_fields :: "pystr list"
  se_org_keys :: "pystr list"
  se_repo_keys :: "pystr list"
  se_merged :: "pystr list"
  se_added :: "pystr list"
  se_cap :: "pystr \<Rightarrow> nat option"
  se_defaults :: "json dict"
  se_default_model :: 'm
  se_validate :: "json dict \<Rightarrow> section_error list + 'm"

definition settable :: "'m settings_section \<Rightarrow> pystr \<Rightarrow> pystr list" where
  "settable s layer =
     (if layer = ''organization'' then se_org_keys s
      else if layer = ''repository'' then se_repo_keys s else se_fields s)"

definition settable_values :: "'m settings_section \<Rightarrow> pystr \<Rightarrow> json dict \<Rightarrow> json dict" where
  "settable_values s layer data =
     (case get data (se_name s) of
        JObj raw \<Rightarrow> filter (\<lambda>(key, value). key \<in> set (settable s layer) \<and> key \<in> set (se_fields s)) raw
      | _ \<Rightarrow> [])"

record layer_refusal =
  lr_scope :: pystr
  lr_section :: pystr
  lr_key :: pystr
  lr_reason :: pystr

record 'm resolved =
  rs_model :: 'm
  rs_applied :: "json dict dict"
  rs_refused :: "layer_refusal list"

definition message_of :: "pystr \<Rightarrow> pystr" where
  "message_of msg =
     (let msg = (if msg = [] then ''refused'' else msg)
      in if starts_with msg ''Value error, '' then drop (length ''Value error, '') msg else msg)"

definition reason_for :: "section_error list \<Rightarrow> pystr option \<Rightarrow> pystr" where
  "reason_for errors key =
     (case find (\<lambda>e. case key of None \<Rightarrow> True | Some k \<Rightarrow> er_loc e \<noteq> [] \<and> hd (er_loc e) = k) errors of
        Some e \<Rightarrow> message_of (er_msg e)
      | None \<Rightarrow> (case errors of [] \<Rightarrow> ''refused'' | e # _ \<Rightarrow> message_of (er_msg e)))"

section \<open>Merging\<close>

definition same_item :: "(pystr \<Rightarrow> pystr) \<Rightarrow> (json \<Rightarrow> pystr) \<Rightarrow> json \<Rightarrow> pystr" where
  "same_item L D item = (case item of JStr x \<Rightarrow> L x | _ \<Rightarrow> D item)"

text \<open>What the entries of a value are compared by: the names of a mapping, the items of a list.\<close>

definition entries :: "(pystr \<Rightarrow> pystr) \<Rightarrow> (json \<Rightarrow> pystr) \<Rightarrow> bool \<Rightarrow> json \<Rightarrow> pystr list" where
  "entries L D mapping_key value =
     (if mapping_key then (case value of JObj d \<Rightarrow> map fst d | _ \<Rightarrow> [])
      else (case value of JList items \<Rightarrow> map (same_item L D) items | _ \<Rightarrow> []))"

definition beyond_default :: "(pystr \<Rightarrow> pystr) \<Rightarrow> (json \<Rightarrow> pystr) \<Rightarrow> 'm settings_section \<Rightarrow> pystr \<Rightarrow> json \<Rightarrow> json" where
  "beyond_default L D s key value =
     (let default = get (se_defaults s) key
      in case value of
           JObj d \<Rightarrow> (let base = (case default of JObj b \<Rightarrow> b | _ \<Rightarrow> [])
                     in JObj (filter (\<lambda>(name, entry). map_of base name \<noteq> Some entry) d))
         | JList items \<Rightarrow> JList (filter (\<lambda>item. same_item L D item \<notin> set (entries L D False default)) items)
         | _ \<Rightarrow> value)"

definition overlay :: "json dict \<Rightarrow> json dict \<Rightarrow> json dict" where
  "overlay old new = fold (\<lambda>(key, value). AList.update key value) new old"

definition union_of_mappings :: "json list \<Rightarrow> json dict" where
  "union_of_mappings layers = fold (\<lambda>layer u. case layer of JObj d \<Rightarrow> overlay u d | _ \<Rightarrow> u) layers []"

definition add_item :: "(pystr \<Rightarrow> pystr) \<Rightarrow> (json \<Rightarrow> pystr) \<Rightarrow> json \<Rightarrow> json list \<Rightarrow> json list" where
  "add_item L D item u = (if same_item L D item \<in> same_item L D ` set u then u else u @ [item])"

definition union_of_lists :: "(pystr \<Rightarrow> pystr) \<Rightarrow> (json \<Rightarrow> pystr) \<Rightarrow> json list \<Rightarrow> json list" where
  "union_of_lists L D layers = fold (\<lambda>layer u. case layer of JList items \<Rightarrow> fold (add_item L D) items u | _ \<Rightarrow> u) layers []"

text \<open>The entries kept, the most specific first, until there are \<open>cap\<close>.\<close>

definition keep_more :: "nat \<Rightarrow> pystr list \<Rightarrow> pystr list \<Rightarrow> pystr list" where
  "keep_more cap names keep = fold (\<lambda>n keep. if cap \<le> length keep \<or> n \<in> set keep then keep else keep @ [n]) names keep"

definition first_each :: "'a list \<Rightarrow> 'a list" where
  "first_each xs = rev (remdups (rev xs))"

definition kept_entries :: "nat \<Rightarrow> pystr list \<Rightarrow> pystr list list \<Rightarrow> pystr list" where
  "kept_entries cap own below = fold (keep_more cap) below (first_each own)"

definition merged_value ::
  "(pystr \<Rightarrow> pystr) \<Rightarrow> (json \<Rightarrow> pystr) \<Rightarrow> 'm settings_section \<Rightarrow> json dict \<Rightarrow> bool \<Rightarrow> json list dict option \<Rightarrow> pystr \<Rightarrow> json \<Rightarrow> json" where
  "merged_value L D s inherited fit tiers key own =
     (let mapping_key = key \<in> set (se_merged s);
          below = [get (se_defaults s) key, get inherited key];
          order = (case tiers of None \<Rightarrow> [get inherited key, get (se_defaults s) key]
                   | Some t \<Rightarrow> (case map_of t key of None \<Rightarrow> [] | Some l \<Rightarrow> l));
          keep = (\<lambda>cap. kept_entries cap (entries L D mapping_key own) (map (entries L D mapping_key) order))
      in case own of
           JObj d \<Rightarrow> if \<not> mapping_key then own
             else (let u = union_of_mappings (below @ [own])
                   in case se_cap s key of
                        Some cap \<Rightarrow> if fit \<and> cap < length u then JObj (filter (\<lambda>(name, entry). name \<in> set (keep cap)) u) else JObj u
                      | None \<Rightarrow> JObj u)
         | JList items \<Rightarrow> if mapping_key then own
             else (let u = union_of_lists L D (below @ [own])
                   in case se_cap s key of
                        Some cap \<Rightarrow> if fit \<and> cap < length u then JList (filter (\<lambda>item. same_item L D item \<in> set (keep cap)) u) else JList u
                      | None \<Rightarrow> JList u)
         | _ \<Rightarrow> own)"

definition merged ::
  "(pystr \<Rightarrow> pystr) \<Rightarrow> (json \<Rightarrow> pystr) \<Rightarrow> 'm settings_section \<Rightarrow> json dict \<Rightarrow> bool \<Rightarrow> json list dict option \<Rightarrow> json dict \<Rightarrow> json dict" where
  "merged L D s inherited fit tiers values =
     map (\<lambda>(key, own). (key, if key \<in> set (se_merged s) \<union> set (se_added s) then merged_value L D s inherited fit tiers key own else own))
       values"

definition over_default :: "(pystr \<Rightarrow> pystr) \<Rightarrow> (json \<Rightarrow> pystr) \<Rightarrow> 'm settings_section \<Rightarrow> bool \<Rightarrow> json dict \<Rightarrow> json dict" where
  "over_default L D s fit values = merged L D s [] fit None values"

section \<open>Resolving\<close>

definition named_keys :: "section_error list \<Rightarrow> json dict \<Rightarrow> pystr list" where
  "named_keys errors accepted =
     remdups (filter (\<lambda>k. k \<in> keys accepted) (map (hd \<circ> er_loc) (filter (\<lambda>e. er_loc e \<noteq> []) errors)))"

definition blamed_keys :: "section_error list \<Rightarrow> json dict \<Rightarrow> pystr list" where
  "blamed_keys errors accepted =
     (if named_keys errors accepted \<noteq> [] then named_keys errors accepted else remdups (map fst accepted))"

definition refusals_of :: "'m settings_section \<Rightarrow> pystr \<Rightarrow> section_error list \<Rightarrow> json dict \<Rightarrow> layer_refusal list" where
  "refusals_of s scope errors accepted =
     map (\<lambda>key. \<lparr>lr_scope = scope, lr_section = se_name s, lr_key = key,
                  lr_reason = reason_for errors (if named_keys errors accepted \<noteq> [] then Some key else None)\<rparr>)
       (sort (blamed_keys errors accepted))"

lemma blamed_keys_in: "set (blamed_keys errors accepted) \<subseteq> keys accepted"
  by (auto simp: blamed_keys_def named_keys_def keys_def)

lemma blamed_keys_some: "accepted \<noteq> [] \<Longrightarrow> blamed_keys errors accepted \<noteq> []"
  by (cases accepted) (auto simp: blamed_keys_def)

text \<open>Keys refused are dropped until what is left is accepted.\<close>

function settle :: "'m settings_section \<Rightarrow> pystr \<Rightarrow> json dict \<Rightarrow> json dict \<Rightarrow> json dict \<times> layer_refusal list" where
  "settle s scope current accepted =
     (if accepted = [] then ([], [])
      else case se_validate s (overlay current accepted) of
        Inr m \<Rightarrow> (accepted, [])
      | Inl errors \<Rightarrow>
          (case settle s scope current (filter (\<lambda>(key, value). key \<notin> set (blamed_keys errors accepted)) accepted) of
             (acc, later) \<Rightarrow> (acc, refusals_of s scope errors accepted @ later)))"
  by pat_completeness auto
termination
proof (relation "measure (\<lambda>(s, scope, current, accepted). length accepted)", goal_cases)
  case (2 s scope current accepted errors)
  obtain k where k: "k \<in> set (blamed_keys errors accepted)" using blamed_keys_some [OF 2(1)] by (cases "blamed_keys errors accepted") auto
  then obtain v where "(k, v) \<in> set accepted" using blamed_keys_in by (fastforce simp: keys_def)
  then have "length (filter (\<lambda>(key, value). key \<notin> set (blamed_keys errors accepted)) accepted) < length accepted"
    using k by (intro length_filter_less [of "(k, v)"]) auto
  then show ?case by simp
qed simp

declare settle.simps [simp del]

type_synonym resolving = "json dict \<times> json dict dict \<times> layer_refusal list \<times> json list dict"

definition spread :: "'m settings_section \<Rightarrow> pystr list" where
  "spread s = filter (\<lambda>key. key \<in> set (se_merged s) \<union> set (se_added s)) (se_fields s)"

definition first_tiers :: "(pystr \<Rightarrow> pystr) \<Rightarrow> (json \<Rightarrow> pystr) \<Rightarrow> 'm settings_section \<Rightarrow> json dict \<Rightarrow> json list dict" where
  "first_tiers L D s base =
     map (\<lambda>key. (key, [beyond_default L D s key (get base key), get (se_defaults s) key])) (spread s)"

definition resolve_layer ::
  "(pystr \<Rightarrow> pystr) \<Rightarrow> (json \<Rightarrow> pystr) \<Rightarrow> 'm settings_section \<Rightarrow> pystr \<times> json dict \<Rightarrow> resolving \<Rightarrow> resolving" where
  "resolve_layer L D s layer so_far =
     (case (layer, so_far) of
        ((scope, values), (current, applied, refused, tiers)) \<Rightarrow>
          (case settle s scope current (merged L D s current True (Some tiers) values) of
             (accepted, dropped) \<Rightarrow>
               if accepted = [] then (current, applied, refused @ dropped, tiers)
               else (overlay current accepted, AList.update scope accepted applied, refused @ dropped,
                     map (\<lambda>(key, t). if key \<in> keys accepted then (key, get values key # t) else (key, t)) tiers)))"

definition resolve ::
  "(pystr \<Rightarrow> pystr) \<Rightarrow> (json \<Rightarrow> pystr) \<Rightarrow> 'm settings_section \<Rightarrow> json dict \<Rightarrow> (pystr \<times> json dict) list \<Rightarrow> 'm option \<Rightarrow> 'm resolved" where
  "resolve L D s base layers base_model =
     (case fold (resolve_layer L D s) layers (base, [], [], first_tiers L D s base) of
        (current, applied, refused, tiers) \<Rightarrow>
          (case (applied, base_model) of
             ([], Some m) \<Rightarrow> \<lparr>rs_model = m, rs_applied = [], rs_refused = refused\<rparr>
           | _ \<Rightarrow> (case se_validate s current of
                 Inr m \<Rightarrow> \<lparr>rs_model = m, rs_applied = applied, rs_refused = refused\<rparr>
               | Inl _ \<Rightarrow> \<lparr>rs_model = (case base_model of Some m \<Rightarrow> m | None \<Rightarrow> se_default_model s),
                          rs_applied = [], rs_refused = refused\<rparr>)))"

section \<open>Every value of a layer is applied or refused\<close>

lemma overlay_Nil [simp]: "overlay old [] = old"
  by (simp add: overlay_def)

lemma keys_merged [simp]: "keys (merged L D s inherited fit tiers values) = keys values"
  by (force simp: merged_def keys_def)

lemma keys_filter: "keys (filter (\<lambda>(key, value). key \<notin> B) acc) = keys acc - B"
  by (force simp: keys_def)

lemma settle_spec:
  assumes "settle s scope current accepted = (acc, refused)"
  shows "(acc \<noteq> [] \<longrightarrow> (\<exists>m. se_validate s (overlay current acc) = Inr m)) \<and> keys acc \<union> lr_key ` set refused = keys accepted \<and>
    keys acc \<inter> lr_key ` set refused = {} \<and> lr_scope ` set refused \<subseteq> {scope}"
  using assms
proof (induction s scope current accepted arbitrary: acc refused rule: settle.induct)
  case (1 s scope current accepted)
  show ?case
  proof (cases "accepted = []")
    case True
    then show ?thesis using 1(2) by (simp add: settle.simps)
  next
    case False
    show ?thesis
    proof (cases "se_validate s (overlay current accepted)")
      case (Inr m)
      then show ?thesis using 1(2) False by (simp add: settle.simps [of s scope current accepted])
    next
      case (Inl errors)
      define left where "left = filter (\<lambda>(key, value). key \<notin> set (blamed_keys errors accepted)) accepted"
      define now where "now = refusals_of s scope errors accepted"
      have e: "settle s scope current accepted = (case settle s scope current left of (acc, later) \<Rightarrow> (acc, now @ later))"
        using False Inl by (subst settle.simps) (simp add: left_def now_def)
      obtain acc' later where l': "settle s scope current left = (acc', later)" by (cases "settle s scope current left")
      have l: "settle s scope current left = (acc, later)" and r: "refused = now @ later" using e l' 1(2) by simp_all
      have b: "lr_key ` set now = set (blamed_keys errors accepted)" "lr_scope ` set now \<subseteq> {scope}"
        by (auto simp: now_def refusals_of_def image_image)
      have "keys left = keys accepted - set (blamed_keys errors accepted)" by (simp add: left_def keys_filter)
      moreover have "(acc \<noteq> [] \<longrightarrow> (\<exists>m. se_validate s (overlay current acc) = Inr m)) \<and> keys acc \<union> lr_key ` set later = keys left \<and>
          keys acc \<inter> lr_key ` set later = {} \<and> lr_scope ` set later \<subseteq> {scope}"
        using 1(1) [OF False Inl, of acc later] l by (simp add: left_def)
      moreover have "A \<union> (B \<union> R) = K \<and> A \<inter> (B \<union> R) = {}" if "A \<union> R = K - B" "A \<inter> R = {}" "B \<subseteq> K" for A B R K :: "pystr set"
        using that by auto
      ultimately show ?thesis
        using b blamed_keys_in [of errors accepted] by (simp only: r set_append image_Un) simp
    qed
  qed
qed

definition applied_keys :: "json dict dict \<Rightarrow> pystr \<Rightarrow> pystr set" where
  "applied_keys applied scope = (case map_of applied scope of None \<Rightarrow> {} | Some a \<Rightarrow> keys a)"

definition refused_keys :: "layer_refusal list \<Rightarrow> pystr \<Rightarrow> pystr set" where
  "refused_keys refused scope = lr_key ` {r \<in> set refused. lr_scope r = scope}"

definition layers_over :: "json dict \<Rightarrow> json dict dict \<Rightarrow> json dict" where
  "layers_over base applied = fold (\<lambda>(scope, values) current. overlay current values) applied base"

definition accounted :: "(pystr \<times> json dict) list \<Rightarrow> json dict dict \<Rightarrow> layer_refusal list \<Rightarrow> bool" where
  "accounted layers applied refused \<longleftrightarrow>
     (\<forall>(scope, values) \<in> set layers. applied_keys applied scope \<union> refused_keys refused scope = keys values \<and>
        applied_keys applied scope \<inter> refused_keys refused scope = {})"

lemma update_fresh: "k \<notin> keys d \<Longrightarrow> AList.update k v d = d @ [(k, v)]"
  by (induction d) (auto simp: keys_def)

definition resolving_ok :: "'m settings_section \<Rightarrow> json dict \<Rightarrow> (pystr \<times> json dict) list \<Rightarrow> resolving \<Rightarrow> bool" where
  "resolving_ok s base layers st \<longleftrightarrow>
     (case st of (current, applied, refused, tiers) \<Rightarrow>
        (\<exists>m. se_validate s current = Inr m) \<and> current = layers_over base applied \<and> keys applied \<subseteq> fst ` set layers \<and>
        lr_scope ` set refused \<subseteq> fst ` set layers \<and> accounted layers applied refused)"

lemma resolve_layer_ok:
  assumes "resolving_ok s base layers st" and "scope \<notin> fst ` set layers"
  shows "resolving_ok s base (layers @ [(scope, values)]) (resolve_layer L D s (scope, values) st)"
proof -
  obtain current applied refused tiers where st: "st = (current, applied, refused, tiers)" by (cases st)
  have ok: "\<exists>m. se_validate s current = Inr m" "current = layers_over base applied" "keys applied \<subseteq> fst ` set layers"
      "lr_scope ` set refused \<subseteq> fst ` set layers" "accounted layers applied refused"
    using assms(1) by (auto simp: resolving_ok_def st)
  obtain acc dropped where a: "settle s scope current (merged L D s current True (Some tiers) values) = (acc, dropped)" by fastforce
  note spec = settle_spec [OF a, unfolded keys_merged]
  have fresh: "scope \<notin> keys applied" "\<forall>r \<in> set refused. lr_scope r \<noteq> scope" using ok(3,4) assms(2) by auto
  define applied' where "applied' = (if acc = [] then applied else applied @ [(scope, acc)])"
  have none: "map_of applied scope = None" using fresh(1) by (simp add: map_of_None_keys)
  have map_of': "map_of applied' x = (if x = scope \<and> acc \<noteq> [] then Some acc else map_of applied x)" for x
    using none by (cases "map_of applied x") (auto simp: applied'_def map_add_def)
  have old: "applied_keys applied' x = applied_keys applied x \<and> refused_keys (refused @ dropped) x = refused_keys refused x"
    if "x \<noteq> scope" for x
    using that spec map_of' [of x] by (auto simp: applied_keys_def refused_keys_def)
  have new: "applied_keys applied' scope = keys acc \<and> refused_keys (refused @ dropped) scope = lr_key ` set dropped"
    using spec map_of' [of scope] fresh(2) none by (auto simp: applied_keys_def refused_keys_def keys_def)
  have "accounted (layers @ [(scope, values)]) applied' (refused @ dropped)"
  proof -
    have "sc \<noteq> scope" if "(sc, vals) \<in> set layers" for sc vals using that assms(2) by force
    then have "applied_keys applied' sc \<union> refused_keys (refused @ dropped) sc = keys vals \<and>
        applied_keys applied' sc \<inter> refused_keys (refused @ dropped) sc = {}" if "(sc, vals) \<in> set layers" for sc vals
      using that ok(5) old [of sc] by (auto simp: accounted_def)
    then show ?thesis using new spec by (auto simp: accounted_def)
  qed
  moreover obtain t where t: "resolve_layer L D s (scope, values) st =
      (if acc = [] then current else overlay current acc, applied', refused @ dropped, t)"
    by (cases "acc = []") (auto simp: resolve_layer_def st a applied'_def update_fresh [OF fresh(1)])
  moreover have "\<exists>m. se_validate s (if acc = [] then current else overlay current acc) = Inr m"
    using ok(1) spec by auto
  moreover have "(if acc = [] then current else overlay current acc) = layers_over base applied'"
    using ok(2) by (simp add: applied'_def layers_over_def)
  moreover have "keys applied' \<subseteq> fst ` set (layers @ [(scope, values)])" using ok(3) by (auto simp: applied'_def keys_def)
  moreover have "lr_scope ` set (refused @ dropped) \<subseteq> fst ` set (layers @ [(scope, values)])" using ok(4) spec by auto
  ultimately show ?thesis by (simp only: resolving_ok_def t prod.case)
qed

lemma resolving_all_ok:
  assumes "\<exists>m. se_validate s base = Inr m" and "distinct (map fst layers)"
  shows "resolving_ok s base layers (fold (resolve_layer L D s) layers (base, [], [], tiers))"
  using assms(2)
proof (induction layers rule: rev_induct)
  case Nil
  then show ?case using assms(1) by (auto simp: resolving_ok_def layers_over_def accounted_def keys_def)
next
  case (snoc layer layers)
  obtain scope vals where l: "layer = (scope, vals)" by (cases layer)
  show ?case using snoc resolve_layer_ok [of s base layers _ scope vals L D] by (simp add: l)
qed


definition demo_section :: "json dict settings_section" where
  "demo_section = \<lparr>se_name = ''demo'', se_fields = [''limit'', ''names''], se_org_keys = [''limit'', ''names''], se_repo_keys = [],
     se_merged = [], se_added = [''names''], se_cap = (\<lambda>key. if key = ''names'' then Some 2 else None), se_defaults = [],
     se_default_model = [],
     se_validate = (\<lambda>d. case get d ''limit'' of JInt n \<Rightarrow> if n \<le> 5 then Inr d else Inl [\<lparr>er_loc = [''limit''], er_msg = ''too many''\<rparr>]
                          | _ \<Rightarrow> Inl [\<lparr>er_loc = [''limit''], er_msg = ''missing''\<rparr>])\<rparr>"


section \<open>Past the bound the most specific entries are kept\<close>

lemma first_each_append: "first_each (xs @ ys) = first_each xs @ filter (\<lambda>y. y \<notin> set xs) (first_each ys)"
proof -
  have "remdups (as @ bs) = filter (\<lambda>a. a \<notin> set bs) (remdups as) @ remdups bs" for as bs :: "'a list"
    by (induction as) auto
  then show ?thesis by (simp add: first_each_def rev_filter)
qed

lemma first_each_distinct: "distinct xs \<Longrightarrow> first_each xs = xs"
  by (simp add: first_each_def distinct_remdups_id)

lemma distinct_first_each [simp]: "distinct (first_each xs)" "set (first_each xs) = set xs"
  by (simp_all add: first_each_def)

lemma first_each_skip: "n \<in> set keep \<Longrightarrow> first_each (keep @ n # names) = first_each (keep @ names)"
proof -
  assume n: "n \<in> set keep"
  have "first_each (n # names) = n # filter (\<lambda>y. y \<noteq> n) (first_each names)"
    using first_each_append [of "[n]" names] by (simp add: first_each_def)
  moreover have "filter (\<lambda>y. y \<noteq> n \<and> y \<notin> set keep) (first_each names) = filter (\<lambda>y. y \<notin> set keep) (first_each names)"
    using n by (intro filter_cong) auto
  ultimately show ?thesis using n by (simp add: first_each_append [of keep] conj_commute)
qed

lemma keep_more_take:
  "distinct keep \<Longrightarrow> keep_more cap names keep = take (max cap (length keep)) (first_each (keep @ names))"
proof (induction names arbitrary: keep)
  case Nil
  then show ?case by (simp add: keep_more_def first_each_distinct)
next
  case (Cons n names)
  consider "n \<in> set keep" | "n \<notin> set keep" "cap \<le> length keep" | "n \<notin> set keep" "length keep < cap" by fastforce
  then show ?case
  proof cases
    case 1
    then show ?thesis using Cons by (simp add: keep_more_def first_each_skip)
  next
    case 2
    then show ?thesis using Cons by (simp add: keep_more_def first_each_append [of keep] first_each_distinct max_absorb2)
  next
    case 3
    then have "keep_more cap (n # names) keep = keep_more cap names (keep @ [n])" by (simp add: keep_more_def)
    also have "\<dots> = take (max cap (length (keep @ [n]))) (first_each ((keep @ [n]) @ names))" using Cons.prems 3 by (intro Cons.IH) simp
    also have "max cap (length (keep @ [n])) = max cap (length keep)" using 3 by simp
    finally show ?thesis by simp
  qed
qed

lemma kept_entries_take:
  "kept_entries cap own below = take (max cap (length (first_each own))) (first_each (own @ concat below))"
proof -
  have "fold (keep_more cap) below keep = keep_more cap (concat below) keep" for keep
    by (induction below arbitrary: keep) (simp_all add: keep_more_def)
  moreover have "first_each (first_each own @ concat below) = first_each (own @ concat below)"
    by (simp add: first_each_append first_each_distinct)
  ultimately show ?thesis by (simp add: kept_entries_def keep_more_take)
qed

lemma names_overlay:
  "distinct (map fst u) \<Longrightarrow> distinct (map fst (overlay u d)) \<and> set (map fst (overlay u d)) = set (map fst u) \<union> set (map fst d)"
proof (induction d arbitrary: u)
  case (Cons p d)
  obtain k v where p: "p = (k, v)" by (cases p)
  have "distinct (map fst (AList.update k v u))" using Cons.prems by (simp add: distinct_update)
  moreover have "set (map fst (AList.update k v u)) = insert k (set (map fst u))" using keys_update [of k v u] by (simp add: keys_def)
  ultimately show ?case using Cons.IH [of "AList.update k v u"] by (auto simp: overlay_def p)
qed simp

lemma names_union:
  "distinct (map fst (union_of_mappings layers)) \<and> set (map fst (union_of_mappings layers)) = (\<Union>v \<in> set layers. set (entries L D True v))"
proof -
  have "distinct (map fst (fold (\<lambda>layer u. case layer of JObj d \<Rightarrow> overlay u d | _ \<Rightarrow> u) layers u)) \<and>
      set (map fst (fold (\<lambda>layer u. case layer of JObj d \<Rightarrow> overlay u d | _ \<Rightarrow> u) layers u)) =
        set (map fst u) \<union> (\<Union>v \<in> set layers. set (entries L D True v))" if "distinct (map fst u)" for u
    using that
  proof (induction layers arbitrary: u)
    case (Cons v layers)
    show ?case
      using Cons.IH [of u] Cons.prems Cons.IH [OF conjunct1 [OF names_overlay [OF Cons.prems]]] names_overlay [OF Cons.prems]
      by (cases v) (auto simp: entries_def)
  qed simp
  from this [of "[]"] show ?thesis by (simp add: union_of_mappings_def)
qed

lemma items_added:
  "distinct (map (same_item L D) u) \<Longrightarrow>
   distinct (map (same_item L D) (fold (add_item L D) items u)) \<and>
   set (map (same_item L D) (fold (add_item L D) items u)) = set (map (same_item L D) u) \<union> set (map (same_item L D) items)"
proof (induction items arbitrary: u)
  case (Cons x items)
  have "distinct (map (same_item L D) (add_item L D x u))" using Cons.prems by (auto simp: add_item_def)
  moreover have "set (map (same_item L D) (add_item L D x u)) = insert (same_item L D x) (set (map (same_item L D) u))"
    by (auto simp: add_item_def)
  ultimately show ?case using Cons.IH [of "add_item L D x u"] by auto
qed simp

lemma items_union:
  "distinct (map (same_item L D) (union_of_lists L D layers)) \<and>
   set (map (same_item L D) (union_of_lists L D layers)) = (\<Union>v \<in> set layers. set (entries L D False v))"
proof -
  have "distinct (map (same_item L D) (fold (\<lambda>layer u. case layer of JList items \<Rightarrow> fold (add_item L D) items u | _ \<Rightarrow> u) layers u)) \<and>
      set (map (same_item L D) (fold (\<lambda>layer u. case layer of JList items \<Rightarrow> fold (add_item L D) items u | _ \<Rightarrow> u) layers u)) =
        set (map (same_item L D) u) \<union> (\<Union>v \<in> set layers. set (entries L D False v))" if "distinct (map (same_item L D) u)" for u
    using that
  proof (induction layers arbitrary: u)
    case (Cons v layers)
    show ?case
      using Cons.IH [of u] Cons.prems Cons.IH [OF conjunct1 [OF items_added [OF Cons.prems]]] items_added [OF Cons.prems]
      by (cases v) (auto simp: entries_def)
  qed simp
  from this [of "[]"] show ?thesis by (simp add: union_of_lists_def)
qed

definition entry_set :: "(pystr \<Rightarrow> pystr) \<Rightarrow> (json \<Rightarrow> pystr) \<Rightarrow> 'm settings_section \<Rightarrow> pystr \<Rightarrow> json \<Rightarrow> pystr set" where
  "entry_set L D s key v = set (entries L D (key \<in> set (se_merged s)) v)"

definition combined :: "(pystr \<Rightarrow> pystr) \<Rightarrow> (json \<Rightarrow> pystr) \<Rightarrow> 'm settings_section \<Rightarrow> json dict \<Rightarrow> pystr \<Rightarrow> json \<Rightarrow> pystr set" where
  "combined L D s inherited key own =
     entry_set L D s key (get (se_defaults s) key) \<union> entry_set L D s key (get inherited key) \<union> entry_set L D s key own"

definition by_nearness :: "(pystr \<Rightarrow> pystr) \<Rightarrow> (json \<Rightarrow> pystr) \<Rightarrow> 'm settings_section \<Rightarrow> json list dict \<Rightarrow> pystr \<Rightarrow> json \<Rightarrow> pystr list" where
  "by_nearness L D s tiers key own =
     first_each (concat (map (entries L D (key \<in> set (se_merged s))) (own # (case map_of tiers key of None \<Rightarrow> [] | Some l \<Rightarrow> l))))"

text \<open>The entries of a mapping or list that adds to what it inherits are all of the default's, the inherited and
  its own while they fit the bound; past it they are the first of them, the document's own before those of the
  documents below it, nearest first, and its own are never left out.\<close>

lemma most_specific_kept:
  assumes "se_cap s key = Some cap" and "if key \<in> set (se_merged s) then \<exists>d. own = JObj d else \<exists>items. own = JList items"
  shows "entry_set L D s key (merged_value L D s inherited True (Some tiers) key own) =
      (if card (combined L D s inherited key own) \<le> cap then combined L D s inherited key own
       else combined L D s inherited key own \<inter>
         set (take (max cap (card (entry_set L D s key own))) (by_nearness L D s tiers key own))) \<and>
    entry_set L D s key own \<subseteq> entry_set L D s key (merged_value L D s inherited True (Some tiers) key own)"
proof -
  define mk where "mk = (key \<in> set (se_merged s))"
  define order where "order = (case map_of tiers key of None \<Rightarrow> [] | Some l \<Rightarrow> l)"
  define U where "U = combined L D s inherited key own"
  define keep where "keep = kept_entries cap (entries L D mk own) (map (entries L D mk) order)"
  have own: "entry_set L D s key own = set (entries L D mk own)" by (simp add: entry_set_def mk_def)
  have fe: "length (first_each (entries L D mk own)) = card (set (entries L D mk own))"
    using distinct_card [of "first_each (entries L D mk own)"] by simp
  have keep: "set keep = set (take (max cap (card (entry_set L D s key own))) (by_nearness L D s tiers key own))"
    by (simp add: keep_def kept_entries_take fe own by_nearness_def mk_def [symmetric] order_def [symmetric])
  have "set (first_each (entries L D mk own)) \<subseteq> set keep"
    by (simp only: keep_def kept_entries_take first_each_append take_append set_append) simp
  then have own_kept: "entry_set L D s key own \<subseteq> set keep" by (simp add: own)
  let ?layers = "[get (se_defaults s) key, get inherited key, own]"
  have U: "(\<Union>v \<in> set ?layers. set (entries L D mk v)) = U" by (auto simp: U_def combined_def entry_set_def mk_def)
  have "entry_set L D s key (merged_value L D s inherited True (Some tiers) key own) = (if card U \<le> cap then U else U \<inter> set keep)"
  proof (cases mk)
    case True
    then obtain d where d: "own = JObj d" using assms(2) by (auto simp: mk_def)
    define u where "u = union_of_mappings ?layers"
    have u: "distinct (map fst u)" "set (map fst u) = U" using names_union [of ?layers L D] U True by (simp_all add: u_def)
    then have len: "length u = card U" using distinct_card [of "map fst u"] by simp
    have "merged_value L D s inherited True (Some tiers) key own =
        (if cap < length u then JObj (filter (\<lambda>(name, entry). name \<in> set keep) u) else JObj u)"
      using True assms(1) by (simp add: merged_value_def Let_def d u_def keep_def order_def mk_def)
    moreover have "fst ` {x \<in> set u. case x of (name, entry) \<Rightarrow> name \<in> set keep} = U \<inter> set keep" using u(2) by force
    ultimately show ?thesis using True u(2) len by (auto simp: entry_set_def mk_def entries_def)
  next
    case False
    then obtain items where d: "own = JList items" using assms(2) by (auto simp: mk_def)
    define u where "u = union_of_lists L D ?layers"
    have u: "distinct (map (same_item L D) u)" "set (map (same_item L D) u) = U"
      using items_union [of L D ?layers] U False by (simp_all add: u_def)
    then have len: "length u = card U" using distinct_card [of "map (same_item L D) u"] by simp
    have "merged_value L D s inherited True (Some tiers) key own =
        (if cap < length u then JList (filter (\<lambda>item. same_item L D item \<in> set keep) u) else JList u)"
      using False assms(1) by (simp add: merged_value_def Let_def d u_def keep_def order_def mk_def)
    moreover have "same_item L D ` {x \<in> set u. same_item L D x \<in> set keep} = U \<inter> set keep" using u(2) by force
    ultimately show ?thesis using False u(2) len by (auto simp: entry_set_def mk_def entries_def)
  qed
  moreover have "entry_set L D s key own \<subseteq> U" by (simp add: U_def combined_def)
  ultimately show ?thesis using own_kept keep by (simp add: U_def)
qed

lemma most_specific_kept_witness:
  "entry_set ascii_lower (\<lambda>_. []) demo_section ''names''
     (merged_value ascii_lower (\<lambda>_. []) demo_section [(''names'', JList [JStr ''a'', JStr ''b''])] True
       (Some [(''names'', [JList [JStr ''b'']])]) ''names'' (JList [JStr ''C''])) = {''b'', ''c''}"
proof -
  have cap: "se_cap demo_section ''names'' = Some 2" by (simp add: demo_section_def)
  have kind: "if ''names'' \<in> set (se_merged demo_section) then \<exists>d. JList [JStr ''C''] = JObj d else \<exists>items. JList [JStr ''C''] = JList items"
    by (simp add: demo_section_def)
  have u: "combined ascii_lower (\<lambda>_. []) demo_section [(''names'', JList [JStr ''a'', JStr ''b''])] ''names'' (JList [JStr ''C'']) = {''a'', ''b'', ''c''}"
    by code_simp
  have n: "by_nearness ascii_lower (\<lambda>_. []) demo_section [(''names'', [JList [JStr ''b'']])] ''names'' (JList [JStr ''C'']) = [''c'', ''b'']"
    by code_simp
  have o': "entry_set ascii_lower (\<lambda>_. []) demo_section ''names'' (JList [JStr ''C'']) = {''c''}" by code_simp
  show ?thesis
    using most_specific_kept [OF cap kind, of ascii_lower "\<lambda>_. []" "[(''names'', JList [JStr ''a'', JStr ''b''])]" "[(''names'', [JList [JStr ''b'']])]"]
    by (auto simp: u n o')
qed

lemma settable_only: "keys (settable_values s layer data) \<subseteq> set (settable s layer) \<inter> set (se_fields s)"
  by (auto simp: settable_values_def keys_def split: json.splits)

end
