(* ===== verification/Skills.thy ===== *)
theory Skills
  imports Py_Value
begin

text \<open>
  Skill names, deltas and the list they make (\<open>embry0/agents/skills.py\<close>). A malformed delta is None, the
  \<open>ValueError\<close>; its wording and the suggestions of \<open>difflib\<close> are left out. The skills of an agent row are a list
  of texts or null.

  The lemmas show that a request made at run time never loads a skill the operator does not load or let it add,
  and that it is told of every skill it asked for and did not get.
\<close>

section \<open>Deltas\<close>

text \<open>\<open>remove\<close> is None where the code has \<open>"*"\<close>.\<close>

record delta =
  dl_add :: "pystr list"
  dl_remove :: "pystr list option"

definition entry_name :: "json \<Rightarrow> pystr option" where
  "entry_name entry =
     (case entry of
        JStr name \<Rightarrow> Some name
      | JObj d \<Rightarrow> (case get d ''name'' of JStr name \<Rightarrow> if name \<noteq> [] then Some name else None | _ \<Rightarrow> None)
      | _ \<Rightarrow> None)"

fun entry_names :: "json list \<Rightarrow> pystr list option" where
  "entry_names [] = Some []"
| "entry_names (v # vs) =
     (case entry_name v of None \<Rightarrow> None | Some n \<Rightarrow> map_option (Cons n) (entry_names vs))"

definition normalize_delta :: "json \<Rightarrow> delta option" where
  "normalize_delta value =
     (case value of
        JNull \<Rightarrow> Some \<lparr>dl_add = [], dl_remove = Some []\<rparr>
      | JList vs \<Rightarrow> map_option (\<lambda>names. \<lparr>dl_add = names, dl_remove = None\<rparr>) (entry_names vs)
      | JObj d \<Rightarrow>
          (case (get_or d ''add'' (JList []), get_or d ''remove'' (JList [])) of
             (JList add, JStr r) \<Rightarrow>
               if r = ''*'' then map_option (\<lambda>names. \<lparr>dl_add = names, dl_remove = None\<rparr>) (entry_names add) else None
           | (JList add, JList remove) \<Rightarrow>
               (case (entry_names add, entry_names remove) of
                  (Some a, Some r) \<Rightarrow> Some \<lparr>dl_add = a, dl_remove = Some r\<rparr>
                | _ \<Rightarrow> None)
           | _ \<Rightarrow> None)
      | _ \<Rightarrow> None)"

definition add_once :: "pystr \<Rightarrow> pystr list \<Rightarrow> pystr list" where
  "add_once name current = (if name \<in> set current then current else current @ [name])"

definition apply_delta :: "delta \<Rightarrow> pystr list \<Rightarrow> pystr list" where
  "apply_delta d current =
     fold add_once (dl_add d)
       (case dl_remove d of None \<Rightarrow> [] | Some drop' \<Rightarrow> filter (\<lambda>s. s \<notin> set drop') current)"

fun apply_deltas :: "pystr list \<Rightarrow> json list \<Rightarrow> pystr list option" where
  "apply_deltas current [] = Some current"
| "apply_deltas current (raw # deltas) =
     (case normalize_delta raw of None \<Rightarrow> None | Some d \<Rightarrow> apply_deltas (apply_delta d current) deltas)"

definition effective_skills :: "pystr list \<Rightarrow> json list \<Rightarrow> pystr list option" where
  "effective_skills base deltas = apply_deltas (fold add_once base []) deltas"

section \<open>What triage may add\<close>

definition TRIAGE_MAY_ADD_FIELD :: pystr where "TRIAGE_MAY_ADD_FIELD = ''triage_may_add_skills''"
definition TRIAGE_MAY_ADD_MAX :: nat where "TRIAGE_MAY_ADD_MAX = 20"

definition name_start :: "char \<Rightarrow> bool" where
  "name_start c \<longleftrightarrow> is_digit c \<or> in_range CHR ''a'' CHR ''z'' c"

definition catalog_part :: "pystr \<Rightarrow> pystr \<Rightarrow> bool" where
  "catalog_part others s \<longleftrightarrow>
     (case s of [] \<Rightarrow> False | c # cs \<Rightarrow> name_start c \<and> list_all (\<lambda>c. name_start c \<or> c \<in> set others) cs \<and> length cs \<le> 63)"

definition catalog_skill_name :: "pystr \<Rightarrow> bool" where
  "catalog_skill_name s \<longleftrightarrow>
     (case partition_at CHR '':'' s of
        (plugin, found, skill) \<Rightarrow> found \<and> catalog_part ''_-'' plugin \<and> catalog_part ''._-'' skill)"

fun catalog_names :: "json list \<Rightarrow> pystr list \<Rightarrow> pystr list option" where
  "catalog_names [] names = Some names"
| "catalog_names (JStr s # vs) names = (if catalog_skill_name s then catalog_names vs (add_once s names) else None)"
| "catalog_names (_ # vs) names = None"

definition checked_triage_may_add :: "json \<Rightarrow> pystr list option" where
  "checked_triage_may_add value =
     (case value of
        JList vs \<Rightarrow> (case catalog_names vs [] of
            None \<Rightarrow> None
          | Some names \<Rightarrow> if TRIAGE_MAY_ADD_MAX < length names then None else Some names)
      | _ \<Rightarrow> None)"

definition triage_may_add :: "json dict \<Rightarrow> pystr list" where
  "triage_may_add row =
     (let v = get row TRIAGE_MAY_ADD_FIELD
      in case checked_triage_may_add (if truthy v then v else JList []) of Some names \<Rightarrow> names | None \<Rightarrow> [])"

definition skill_source :: "pystr \<Rightarrow> pystr" where
  "skill_source name = (if CHR '':'' \<in> set name then fst (partition_at CHR '':'' name) else [])"

definition sources :: "pystr list \<Rightarrow> pystr set" where
  "sources names = skill_source ` set names - {[]}"

definition row_skills :: "json dict \<Rightarrow> pystr list" where
  "row_skills row =
     (case get row ''skills'' of
        JList vs \<Rightarrow> List.map_filter (\<lambda>v. case v of JStr s \<Rightarrow> Some s | _ \<Rightarrow> None) vs
      | _ \<Rightarrow> [])"

definition triage_skill_choices :: "json dict \<Rightarrow> pystr list" where
  "triage_skill_choices row = filter (\<lambda>name. skill_source name \<in> sources (row_skills row)) (triage_may_add row)"

section \<open>Narrowing\<close>

record narrowed =
  nw_skills :: "pystr list"
  nw_hidden :: bool
  nw_not_granted :: "pystr list"

definition is_repository_skill :: "pystr \<Rightarrow> bool" where
  "is_repository_skill name \<longleftrightarrow> CHR '':'' \<notin> set name"

definition addable :: "pystr list \<Rightarrow> pystr list \<Rightarrow> pystr \<Rightarrow> bool" where
  "addable operator may_add name \<longleftrightarrow>
     (if name \<in> set operator then True
      else if operator = [] \<and> is_repository_skill name then True
      else name \<in> set may_add \<and> skill_source name \<in> sources operator)"

definition grant_skill :: "pystr list \<Rightarrow> pystr list \<Rightarrow> pystr \<Rightarrow> pystr list \<times> pystr list \<Rightarrow> pystr list \<times> pystr list" where
  "grant_skill operator may_add name so_far =
     (case so_far of
        (current, refused) \<Rightarrow>
          if name \<in> set current then so_far
          else if addable operator may_add name then (current @ [name], refused)
          else (current, refused @ [name]))"

definition narrowed_skills :: "pystr list \<Rightarrow> json \<Rightarrow> pystr list \<Rightarrow> narrowed" where
  "narrowed_skills operator request may_add =
     (case normalize_delta request of
        None \<Rightarrow> \<lparr>nw_skills = [], nw_hidden = True, nw_not_granted = []\<rparr>
      | Some d \<Rightarrow>
          if operator = [] \<and> dl_remove d \<noteq> None
          then \<lparr>nw_skills = [], nw_hidden = False, nw_not_granted = filter (\<lambda>n. \<not> addable operator may_add n) (dl_add d)\<rparr>
          else
            (let left = (case dl_remove d of None \<Rightarrow> [] | Some drop' \<Rightarrow> filter (\<lambda>s. s \<notin> set drop') operator)
             in case fold (grant_skill operator may_add) (dl_add d) (left, []) of
                  (current, refused) \<Rightarrow> \<lparr>nw_skills = current, nw_hidden = (current = []), nw_not_granted = refused\<rparr>))"

text \<open>\<open>check_skill_names\<close>: the names it raises for.\<close>

definition unknown_skills :: "pystr list \<Rightarrow> pystr list \<Rightarrow> pystr list" where
  "unknown_skills names catalog = filter (\<lambda>n. \<not> is_repository_skill n \<and> n \<notin> set catalog) (fold add_once names [])"

section \<open>A request never widens\<close>

text \<open>What a list loads: an empty one is no filter, so the repository's own skills and no source's.\<close>

definition loaded :: "pystr list \<Rightarrow> pystr set" where
  "loaded names = (if names = [] then {n. is_repository_skill n} else set names)"

definition narrowed_loads :: "narrowed \<Rightarrow> pystr set" where
  "narrowed_loads r = (if nw_hidden r then {} else loaded (nw_skills r))"

lemma grants:
  "fold (grant_skill operator may_add) names (current, refused) = (current', refused') \<Longrightarrow>
   set current' = set current \<union> {n \<in> set names. addable operator may_add n} \<and>
   set refused' = set refused \<union> {n \<in> set names. \<not> addable operator may_add n \<and> n \<notin> set current}"
proof (induction names arbitrary: current refused)
  case (Cons n names)
  consider "n \<in> set current" | "n \<notin> set current" "addable operator may_add n" | "n \<notin> set current" "\<not> addable operator may_add n"
    by blast
  then show ?case
    using Cons by cases (auto simp: grant_skill_def)
qed simp

lemma addable_sound: "addable operator may_add n \<Longrightarrow> n \<in> loaded operator \<union> {n \<in> set may_add. skill_source n \<in> sources operator}"
  by (auto simp: addable_def loaded_def split: if_splits)

lemma addable_Nil: "addable [] may_add n \<longleftrightarrow> is_repository_skill n"
  by (simp add: addable_def sources_def)

lemma addable_own: "n \<in> set operator \<Longrightarrow> addable operator may_add n"
  by (simp add: addable_def)

text \<open>C21: a request made at run time loads no skill but those the operator's list loads, and those the operator lets
  it add from a source the list already loads; each skill it asks for is loaded or named as not granted, never both;
  a request that replaces the list loads only what it names, and a malformed one loads nothing.\<close>

theorem narrowing_never_widens:
  "let r = narrowed_skills operator request may_add in
   narrowed_loads r \<subseteq> loaded operator \<union> {n \<in> set may_add. skill_source n \<in> sources operator} \<and>
   (case normalize_delta request of
      None \<Rightarrow> narrowed_loads r = {}
    | Some d \<Rightarrow> set (dl_add d) \<subseteq> narrowed_loads r \<union> set (nw_not_granted r) \<and> narrowed_loads r \<inter> set (nw_not_granted r) = {} \<and>
        (case dl_remove d of
           None \<Rightarrow> narrowed_loads r \<subseteq> set (dl_add d)
         | Some drop' \<Rightarrow> operator = [] \<or> narrowed_loads r \<inter> (set drop' - set (dl_add d)) = {}))"
proof (cases "normalize_delta request")
  case None
  then show ?thesis by (simp add: narrowed_skills_def narrowed_loads_def)
next
  case (Some d)
  show ?thesis
  proof (cases "operator = [] \<and> dl_remove d \<noteq> None")
    case True
    then show ?thesis
      by (auto simp: narrowed_skills_def Some narrowed_loads_def loaded_def addable_Nil Let_def)
  next
    case False
    define left where "left = (case dl_remove d of None \<Rightarrow> [] | Some drop' \<Rightarrow> filter (\<lambda>s. s \<notin> set drop') operator)"
    obtain current refused where f: "fold (grant_skill operator may_add) (dl_add d) (left, []) = (current, refused)" by fastforce
    have r: "narrowed_skills operator request may_add = \<lparr>nw_skills = current, nw_hidden = (current = []), nw_not_granted = refused\<rparr>"
      using False by (auto simp: narrowed_skills_def Some left_def [symmetric] f)
    have loads: "narrowed_loads (narrowed_skills operator request may_add) = set current"
      by (simp add: r narrowed_loads_def loaded_def)
    have left: "n \<in> set operator" if "n \<in> set left" for n using that by (auto simp: left_def split: option.splits)
    have cur: "set current = set left \<union> {n \<in> set (dl_add d). addable operator may_add n}"
      and ref: "set refused = {n \<in> set (dl_add d). \<not> addable operator may_add n \<and> n \<notin> set left}"
      using grants [OF f] by auto
    have able: "addable operator may_add n" if "n \<in> set left" for n using left [OF that] by (rule addable_own)
    have "addable operator may_add n" if "n \<in> set current" for n using that able [of n] by (auto simp: cur)
    then have "set current \<subseteq> loaded operator \<union> {n \<in> set may_add. skill_source n \<in> sources operator}"
      using addable_sound by (intro subsetI) simp
    moreover have "set (dl_add d) \<subseteq> set current \<union> set refused" by (auto simp: cur ref)
    moreover have "set current \<inter> set refused = {}" using able by (auto simp: cur ref)
    moreover have "case dl_remove d of None \<Rightarrow> set current \<subseteq> set (dl_add d)
        | Some drop' \<Rightarrow> operator = [] \<or> set current \<inter> (set drop' - set (dl_add d)) = {}"
      by (auto simp: cur left_def split: option.splits)
    moreover have "nw_not_granted (narrowed_skills operator request may_add) = refused" by (simp add: r)
    ultimately show ?thesis by (cases "dl_remove d") (simp_all add: Let_def loads Some)
  qed
qed

text \<open>A skill triage is offered is one it is granted.\<close>

lemma triage_choice_granted:
  assumes "n \<in> set (triage_skill_choices row)" and "normalize_delta request = Some d" and "n \<in> set (dl_add d)"
  shows "n \<in> narrowed_loads (narrowed_skills (row_skills row) request (triage_may_add row))"
proof -
  have a: "addable (row_skills row) (triage_may_add row) n" using assms(1) by (auto simp: triage_skill_choices_def addable_def)
  have "row_skills row \<noteq> []" using assms(1) by (auto simp: triage_skill_choices_def sources_def)
  obtain current refused where f: "fold (grant_skill (row_skills row) (triage_may_add row)) (dl_add d)
      (case dl_remove d of None \<Rightarrow> [] | Some drop' \<Rightarrow> filter (\<lambda>s. s \<notin> set drop') (row_skills row), []) = (current, refused)"
    by fastforce
  have "n \<in> set current" using grants [OF f] a assms(3) by blast
  then show ?thesis using \<open>row_skills row \<noteq> []\<close> f by (auto simp: narrowed_skills_def assms(2) narrowed_loads_def loaded_def)
qed

end
