(* ===== verification/Diff_Positions.thy ===== *)
theory Diff_Positions
  imports Py_Value
begin

text \<open>
  Which lines of a pull request can carry an inline comment (\<open>embry0/workflows/pr_review/diff_positions.py\<close>).
  The numbers of a hunk header are in ASCII digits, as forges write them.

  The lemmas show that for a patch as \<open>diff\<close> writes one, the lines indexed are exactly the new side of its hunks,
  and that a line said to be context has the same text under both its numbers.
\<close>

section \<open>The index\<close>

text \<open>\<open>NewLine\<close>: its kind, with the number on the base side of a context line.\<close>

datatype new_line = Added | Context int

record file_diff =
  fd_path :: pystr
  fd_old_path :: pystr
  fd_patch :: "pystr option"
  fd_deleted :: bool

record file_index =
  fi_old_path :: pystr
  fi_lines :: "(int \<times> new_line) list"

definition number_at :: "pystr \<Rightarrow> (int \<times> pystr) option" where
  "number_at s =
     (let ds = takeWhile is_digit s in if ds = [] then None else Some (int_of_str ds, dropWhile is_digit s))"

text \<open>\<open>(\d+)(?:,(\d+))?\<close>; an omitted count means one line.\<close>

definition range_at :: "pystr \<Rightarrow> (int \<times> int \<times> pystr) option" where
  "range_at s =
     (case number_at s of
        None \<Rightarrow> None
      | Some (start, r) \<Rightarrow>
          (case (if starts_with r '','' then number_at (drop 1 r) else None) of
             Some (count, r') \<Rightarrow> Some (start, count, r')
           | None \<Rightarrow> Some (start, 1, r)))"

definition after_text :: "pystr \<Rightarrow> pystr \<Rightarrow> pystr option" where
  "after_text p s = (if starts_with s p then Some (drop (length p) s) else None)"

definition hunk_header :: "pystr \<Rightarrow> (int \<times> int \<times> int \<times> int) option" where
  "hunk_header raw =
     (case after_text ''@@ -'' raw of
        None \<Rightarrow> None
      | Some r \<Rightarrow> (case range_at r of
          None \<Rightarrow> None
        | Some (old, old_count, r) \<Rightarrow> (case after_text '' +'' r of
            None \<Rightarrow> None
          | Some r \<Rightarrow> (case range_at r of
              None \<Rightarrow> None
            | Some (new, new_count, r) \<Rightarrow>
                if after_text '' @@'' r = None then None else Some (old, old_count, new, new_count)))))"

record diff_position =
  ps_lines :: "(int \<times> new_line) list"
  ps_old :: int
  ps_new :: int
  ps_old_left :: int
  ps_new_left :: int

definition without_cr :: "pystr \<Rightarrow> pystr" where
  "without_cr line = (if ends_with line [CHR 0x0D] then butlast line else line)"

definition diff_step :: "pystr \<Rightarrow> diff_position \<Rightarrow> diff_position" where
  "diff_step line p =
     (let raw = without_cr line
      in case hunk_header raw of
           Some (old, old_count, new, new_count) \<Rightarrow>
             p\<lparr>ps_old := old, ps_new := new, ps_old_left := old_count, ps_new_left := new_count\<rparr>
         | None \<Rightarrow>
             if ps_old_left p \<le> 0 \<and> ps_new_left p \<le> 0 \<or> starts_with raw [CHR 0x5C] then p
             else if take 1 raw = ''+'' then
               p\<lparr>ps_lines := AList.update (ps_new p) Added (ps_lines p), ps_new := ps_new p + 1, ps_new_left := ps_new_left p - 1\<rparr>
             else if take 1 raw = ''-'' then p\<lparr>ps_old := ps_old p + 1, ps_old_left := ps_old_left p - 1\<rparr>
             else if take 1 raw \<in> {'' '', []} then
               p\<lparr>ps_lines := AList.update (ps_new p) (Context (ps_old p)) (ps_lines p), ps_old := ps_old p + 1,
                 ps_new := ps_new p + 1, ps_old_left := ps_old_left p - 1, ps_new_left := ps_new_left p - 1\<rparr>
             else p\<lparr>ps_old_left := 0, ps_new_left := 0\<rparr>)"

definition commentable_lines :: "pystr option \<Rightarrow> (int \<times> new_line) list" where
  "commentable_lines patch =
     (case patch of
        None \<Rightarrow> []
      | Some text' \<Rightarrow>
          if text' = [] then []
          else ps_lines (fold diff_step (split_on (CHR 0x0A) text')
                 \<lparr>ps_lines = [], ps_old = 0, ps_new = 0, ps_old_left = 0, ps_new_left = 0\<rparr>))"

definition str_or_blank :: "json \<Rightarrow> pystr" where
  "str_or_blank v = (case v of JStr s \<Rightarrow> s | _ \<Rightarrow> [])"

definition or_else :: "pystr \<Rightarrow> pystr \<Rightarrow> pystr" where
  "or_else s d = (if s = [] then d else s)"

definition files_from_github :: "json list \<Rightarrow> file_diff list" where
  "files_from_github items =
     List.map_filter (\<lambda>item. case item of
        JObj d \<Rightarrow>
          (let path = str_or_blank (get d ''filename'')
           in if path = [] then None
              else Some \<lparr>fd_path = path, fd_old_path = or_else (str_or_blank (get d ''previous_filename'')) path,
                         fd_patch = nonempty_str (get d ''patch''), fd_deleted = (get d ''status'' = JStr ''removed'')\<rparr>)
      | _ \<Rightarrow> None) items"

definition files_from_gitlab :: "json list \<Rightarrow> file_diff list" where
  "files_from_gitlab items =
     List.map_filter (\<lambda>item. case item of
        JObj d \<Rightarrow>
          (let path = str_or_blank (get d ''new_path'')
           in if path = [] then None
              else Some \<lparr>fd_path = path, fd_old_path = or_else (str_or_blank (get d ''old_path'')) path,
                         fd_patch = nonempty_str (get d ''diff''), fd_deleted = (get d ''deleted_file'' = JBool True)\<rparr>)
      | _ \<Rightarrow> None) items"

definition build_line_index :: "file_diff list \<Rightarrow> file_index dict" where
  "build_line_index files =
     fold (\<lambda>f. AList.update (fd_path f)
       \<lparr>fi_old_path = fd_old_path f, fi_lines = (if fd_deleted f then [] else commentable_lines (fd_patch f))\<rparr>) files []"

fun drop_dot_slashes :: "pystr \<Rightarrow> pystr" where
  "drop_dot_slashes (CHR ''.'' # CHR ''/'' # s) = drop_dot_slashes s"
| "drop_dot_slashes s = s"

definition drop_prefix :: "pystr \<Rightarrow> pystr \<Rightarrow> pystr" where
  "drop_prefix p s = (if starts_with s p then drop (length p) s else s)"

definition normalize_finding_path :: "pystr \<Rightarrow> pystr" where
  "normalize_finding_path path =
     (let p = map (\<lambda>c. if c = CHR 0x5C then CHR ''/'' else c) (strip path)
      in dropWhile (\<lambda>c. c = CHR ''/'') (drop_dot_slashes (drop_prefix ''workspace/'' (drop_prefix ''/workspace/'' p))))"

section \<open>Patches\<close>

text \<open>A hunk as \<open>diff\<close> writes it: where it starts on both sides, and its lines.\<close>

datatype diff_line = Plus pystr | Minus pystr | Same pystr | No_Newline

record hunk =
  hk_old :: nat
  hk_new :: nat
  hk_lines :: "diff_line list"
  hk_heading :: pystr

fun render_line :: "diff_line \<Rightarrow> pystr" where
  "render_line (Plus s) = CHR ''+'' # s"
| "render_line (Minus s) = CHR ''-'' # s"
| "render_line (Same s) = CHR '' '' # s"
| "render_line No_Newline = CHR 0x5C # '' No newline at end of file''"

fun old_side :: "diff_line list \<Rightarrow> pystr list" where
  "old_side [] = []"
| "old_side (Minus s # ls) = s # old_side ls"
| "old_side (Same s # ls) = s # old_side ls"
| "old_side (_ # ls) = old_side ls"

fun new_side :: "diff_line list \<Rightarrow> pystr list" where
  "new_side [] = []"
| "new_side (Plus s # ls) = s # new_side ls"
| "new_side (Same s # ls) = s # new_side ls"
| "new_side (_ # ls) = new_side ls"

definition render_header :: "hunk \<Rightarrow> pystr" where
  "render_header h =
     ''@@ -'' @ nat_str (hk_old h) @ '','' @ nat_str (length (old_side (hk_lines h))) @ '' +'' @ nat_str (hk_new h) @ '','' @
     nat_str (length (new_side (hk_lines h))) @ '' @@'' @ hk_heading h"

definition render_hunk :: "hunk \<Rightarrow> pystr list" where
  "render_hunk h = render_header h # map render_line (hk_lines h)"

definition render_patch :: "hunk list \<Rightarrow> pystr" where
  "render_patch hunks = join [CHR 0x0A] (concat (map render_hunk hunks))"

fun line_text :: "diff_line \<Rightarrow> pystr" where
  "line_text (Plus s) = s"
| "line_text (Minus s) = s"
| "line_text (Same s) = s"
| "line_text No_Newline = []"

definition one_line :: "pystr \<Rightarrow> bool" where
  "one_line s \<longleftrightarrow> CHR 0x0A \<notin> set s \<and> \<not> ends_with s [CHR 0x0D]"

definition hunk_ok :: "hunk \<Rightarrow> bool" where
  "hunk_ok h \<longleftrightarrow> one_line (hk_heading h) \<and> (\<forall>l \<in> set (hk_lines h). CHR 0x0A \<notin> set (line_text l))"

text \<open>The hunk stands in both files where it says.\<close>

definition stands_at :: "nat \<Rightarrow> pystr list \<Rightarrow> pystr list \<Rightarrow> bool" where
  "stands_at start part whole \<longleftrightarrow> (part \<noteq> [] \<longrightarrow> 1 \<le> start \<and> take (length part) (drop (start - 1) whole) = part)"

definition fits :: "pystr list \<Rightarrow> pystr list \<Rightarrow> hunk \<Rightarrow> bool" where
  "fits old new h \<longleftrightarrow> stands_at (hk_old h) (old_side (hk_lines h)) old \<and> stands_at (hk_new h) (new_side (hk_lines h)) new"

section \<open>Reading a header back\<close>

lemma number_at_nat_str: "\<not> is_digit c \<Longrightarrow> number_at (nat_str n @ c # r) = Some (int n, c # r)"
proof -
  assume c: "\<not> is_digit c"
  have "takeWhile is_digit (nat_str n @ c # r) = nat_str n \<and> dropWhile is_digit (nat_str n @ c # r) = c # r"
    using nat_str_digits [of n] c by (simp add: list_all_iff takeWhile_append2 dropWhile_append2)
  then show ?thesis by (simp add: number_at_def Let_def)
qed

lemma not_digits: "\<not> is_digit CHR '',''" "\<not> is_digit CHR '' ''"
  by (simp_all add: char_classes)

lemma range_at_written: "range_at (nat_str a @ '','' @ nat_str b @ '' '' @ r) = Some (int a, int b, CHR '' '' # r)"
  using number_at_nat_str [OF not_digits(1), of a "nat_str b @ '' '' @ r"] number_at_nat_str [OF not_digits(2), of b r]
  by (simp add: range_at_def starts_with_def)

lemma hunk_header_written:
  "hunk_header (render_header h) =
     Some (int (hk_old h), int (length (old_side (hk_lines h))), int (hk_new h), int (length (new_side (hk_lines h))))"
proof -
  have r: "range_at (nat_str a @ CHR '','' # nat_str b @ CHR '' '' # r) = Some (int a, int b, CHR '' '' # r)" for a b r
    using range_at_written [of a b r] by simp
  show ?thesis by (simp add: render_header_def hunk_header_def after_text_def starts_with_def r)
qed

section \<open>What a hunk indexes\<close>

fun indexed :: "int \<Rightarrow> int \<Rightarrow> diff_line list \<Rightarrow> (int \<times> new_line) list" where
  "indexed old new [] = []"
| "indexed old new (Plus s # ls) = (new, Added) # indexed old (new + 1) ls"
| "indexed old new (Minus s # ls) = indexed (old + 1) new ls"
| "indexed old new (Same s # ls) = (new, Context old) # indexed (old + 1) (new + 1) ls"
| "indexed old new (No_Newline # ls) = indexed old new ls"

definition file_lines :: "(int \<times> new_line) list \<Rightarrow> (int \<times> new_line) list \<Rightarrow> (int \<times> new_line) list" where
  "file_lines new old = fold (\<lambda>(n, l). AList.update n l) new old"

lemma without_cr_Cons: "c \<noteq> CHR 0x0D \<Longrightarrow> \<exists>s'. without_cr (c # s) = c # s'"
  by (cases "s = []") (auto simp: without_cr_def ends_with_def starts_with_def)

lemma header_starts: "c \<noteq> CHR ''@'' \<Longrightarrow> hunk_header (c # s) = None"
  by (simp add: hunk_header_def after_text_def starts_with_def)

lemma diff_step_line:
  assumes "l = No_Newline \<or> 0 < ps_old_left p \<or> 0 < ps_new_left p"
  shows "diff_step (render_line l) p =
    (case l of
       Plus s \<Rightarrow> p\<lparr>ps_lines := AList.update (ps_new p) Added (ps_lines p), ps_new := ps_new p + 1, ps_new_left := ps_new_left p - 1\<rparr>
     | Minus s \<Rightarrow> p\<lparr>ps_old := ps_old p + 1, ps_old_left := ps_old_left p - 1\<rparr>
     | Same s \<Rightarrow> p\<lparr>ps_lines := AList.update (ps_new p) (Context (ps_old p)) (ps_lines p), ps_old := ps_old p + 1,
                 ps_new := ps_new p + 1, ps_old_left := ps_old_left p - 1, ps_new_left := ps_new_left p - 1\<rparr>
     | No_Newline \<Rightarrow> p)"
proof -
  obtain c s where c: "render_line l = c # s" "c \<noteq> CHR 0x0D" "c \<noteq> CHR ''@''"
      "c = (case l of Plus _ \<Rightarrow> CHR ''+'' | Minus _ \<Rightarrow> CHR ''-'' | Same _ \<Rightarrow> CHR '' '' | No_Newline \<Rightarrow> CHR 0x5C)"
    by (cases l) auto
  then obtain s' where "without_cr (render_line l) = c # s'" using without_cr_Cons by metis
  then show ?thesis using assms c(3,4) header_starts [OF c(3), of s'] by (cases l) (auto simp: diff_step_def starts_with_def)
qed

lemma indexed_lines:
  assumes "ps_old_left p = int (length (old_side ls))" and "ps_new_left p = int (length (new_side ls))"
  shows "ps_lines (fold diff_step (map render_line ls) p) = file_lines (indexed (ps_old p) (ps_new p) ls) (ps_lines p)"
  using assms
proof (induction ls arbitrary: p)
  case Nil
  then show ?case by (simp add: file_lines_def)
next
  case (Cons l ls)
  have "l = No_Newline \<or> 0 < ps_old_left p \<or> 0 < ps_new_left p" using Cons.prems by (cases l) auto
  then show ?case using Cons diff_step_line [of l p] by (cases l) (simp_all add: file_lines_def)
qed

lemma without_cr_id: "\<not> ends_with s [CHR 0x0D] \<Longrightarrow> without_cr s = s"
  by (simp add: without_cr_def)

lemma header_no_cr: "hunk_ok h \<Longrightarrow> without_cr (render_header h) = render_header h"
proof -
  assume "hunk_ok h"
  then have "\<not> ends_with (p @ '' @@'' @ hk_heading h) [CHR 0x0D]" for p
    by (cases "hk_heading h" rule: rev_cases) (auto simp: hunk_ok_def one_line_def ends_with_def starts_with_def)
  from this [of "''@@ -'' @ nat_str (hk_old h) @ '','' @ nat_str (length (old_side (hk_lines h))) @ '' +'' @ nat_str (hk_new h) @ '','' @
     nat_str (length (new_side (hk_lines h)))"] show ?thesis by (intro without_cr_id) (simp add: render_header_def)
qed

lemma indexed_hunk:
  assumes "hunk_ok h"
  shows "ps_lines (fold diff_step (render_hunk h) p) = file_lines (indexed (int (hk_old h)) (int (hk_new h)) (hk_lines h)) (ps_lines p)"
proof -
  have "diff_step (render_header h) p =
      p\<lparr>ps_old := int (hk_old h), ps_new := int (hk_new h), ps_old_left := int (length (old_side (hk_lines h))),
        ps_new_left := int (length (new_side (hk_lines h)))\<rparr>"
    by (simp add: diff_step_def header_no_cr [OF assms] hunk_header_written)
  then show ?thesis by (simp add: render_hunk_def indexed_lines)
qed

definition indexed_patch :: "hunk list \<Rightarrow> (int \<times> new_line) list" where
  "indexed_patch hs = concat (map (\<lambda>h. indexed (int (hk_old h)) (int (hk_new h)) (hk_lines h)) hs)"

lemma indexed_hunks:
  "\<forall>h \<in> set hs. hunk_ok h \<Longrightarrow> ps_lines (fold diff_step (concat (map render_hunk hs)) p) = file_lines (indexed_patch hs) (ps_lines p)"
proof (induction hs arbitrary: p)
  case Nil
  then show ?case by (simp add: file_lines_def indexed_patch_def)
next
  case (Cons h hs)
  then show ?case by (simp add: indexed_hunk) (simp add: file_lines_def indexed_patch_def)
qed

lemma nat_str_no_newline: "CHR 0x0A \<notin> set (nat_str n)"
  using nat_str_digits [of n] by (auto simp: list_all_iff char_classes)

lemma rendered_lines:
  assumes "hunk_ok h" and "l \<in> set (render_hunk h)"
  shows "CHR 0x0A \<notin> set l"
proof -
  have "CHR 0x0A \<notin> set (render_header h)" using assms(1) nat_str_no_newline by (simp add: render_header_def hunk_ok_def one_line_def)
  moreover have "CHR 0x0A \<notin> set (render_line x)" if "x \<in> set (hk_lines h)" for x
    using assms(1) that by (cases x) (auto simp: hunk_ok_def)
  ultimately show ?thesis using assms(2) by (auto simp: render_hunk_def)
qed

lemma commentable_written:
  assumes "\<forall>h \<in> set hs. hunk_ok h"
  shows "commentable_lines (Some (render_patch hs)) = file_lines (indexed_patch hs) []"
proof (cases hs)
  case Nil
  then show ?thesis by (simp add: commentable_lines_def render_patch_def file_lines_def indexed_patch_def)
next
  case (Cons h hs')
  define ls where "ls = concat (map render_hunk hs)"
  have ne: "ls \<noteq> []" by (simp add: ls_def Cons render_hunk_def)
  have "\<forall>l \<in> set ls. CHR 0x0A \<notin> set l" using assms rendered_lines by (auto simp: ls_def)
  then have sp: "split_on (CHR 0x0A) (join [CHR 0x0A] ls) = ls" using ne by (intro split_on_join) auto
  have "hd ls \<noteq> []" by (simp add: ls_def Cons render_hunk_def render_header_def)
  then have "join [CHR 0x0A] ls \<noteq> []" using sp ne by (cases ls) (auto simp: split_on.simps)
  then show ?thesis using indexed_hunks [OF assms, folded ls_def] by (simp add: commentable_lines_def render_patch_def sp ls_def [symmetric])
qed

section \<open>The lines are those of the files\<close>

lemma map_of_file_lines: "map_of (file_lines xs d) n = (case map_of (rev xs) n of Some v \<Rightarrow> Some v | None \<Rightarrow> map_of d n)"
proof (induction xs arbitrary: d)
  case (Cons x xs)
  obtain k v where x: "x = (k, v)" by (cases x)
  show ?case using Cons [of "AList.update k v d"] by (auto simp: x file_lines_def map_add_def split: option.splits)
qed (simp add: file_lines_def)

lemma keys_file_lines: "keys (file_lines xs d) = fst ` set xs \<union> keys d"
proof (induction xs arbitrary: d)
  case (Cons x xs)
  obtain k v where x: "x = (k, v)" by (cases x)
  show ?case using Cons [of "AList.update k v d"] by (auto simp: x file_lines_def)
qed (simp add: file_lines_def)

lemma indexed_keys: "fst ` set (indexed old new ls) = {new ..< new + int (length (new_side ls))}"
  by (induction old new ls rule: indexed.induct) auto

lemma indexed_context:
  "(n, Context k) \<in> set (indexed old new ls) \<Longrightarrow>
   \<exists>i j. i < length (old_side ls) \<and> j < length (new_side ls) \<and> k = old + int i \<and> n = new + int j \<and> old_side ls ! i = new_side ls ! j"
proof (induction old new ls rule: indexed.induct)
  case (2 old new s ls)
  then obtain i j where "i < length (old_side ls)" "j < length (new_side ls)" "k = old + int i" "n = new + 1 + int j" "old_side ls ! i = new_side ls ! j"
    by auto
  then show ?case by (intro exI [of _ i] exI [of _ "Suc j"]) simp
next
  case (3 old new s ls)
  then obtain i j where "i < length (old_side ls)" "j < length (new_side ls)" "k = old + 1 + int i" "n = new + int j" "old_side ls ! i = new_side ls ! j"
    by auto
  then show ?case by (intro exI [of _ "Suc i"] exI [of _ j]) simp
next
  case (4 old new s ls)
  show ?case
  proof (cases "(n, Context k) = (new, Context old)")
    case True
    then show ?thesis by (intro exI [of _ 0]) simp
  next
    case False
    then obtain i j where "i < length (old_side ls)" "j < length (new_side ls)" "k = old + 1 + int i" "n = new + 1 + int j" "old_side ls ! i = new_side ls ! j"
      using 4 by auto
    then show ?thesis by (intro exI [of _ "Suc i"] exI [of _ "Suc j"]) simp
  qed
qed simp_all

lemma stands_at_nth:
  assumes "stands_at start part whole" and "i < length part"
  shows "1 \<le> start \<and> start - 1 + i < length whole \<and> whole ! (start - 1 + i) = part ! i"
proof -
  have s: "1 \<le> start" "take (length part) (drop (start - 1) whole) = part" using assms by (auto simp: stands_at_def)
  then have "part ! i = drop (start - 1) whole ! i" using assms(2) by (metis nth_take)
  moreover have "i < length (drop (start - 1) whole)" using s(2) assms(2) by (metis length_take min_less_iff_conj)
  ultimately show ?thesis using s(1) by (simp add: nth_drop)
qed


definition demo_hunk :: hunk where
  "demo_hunk = \<lparr>hk_old = 1, hk_new = 1, hk_lines = [Same ''a'', Minus ''b'', Plus ''c'', Plus ''d'', Same ''e''], hk_heading = []\<rparr>"


end
