(* ===== verification/Command_Checks.thy ===== *)
theory Command_Checks
  imports Posix_Path
begin

text \<open>The rules on what a shell command runs and reads (\<open>src/embry0/safety/command_checks.py\<close>): container
  clients among the commands, files of secrets among the paths. The commands and paths are those the
  command's parse reports. Unicode tables (NFKC, case) are a parameter; what is assumed of them is how
  they read ASCII characters.

  The lemmas show that no path a command may read (but for text known only at run time) is named
  \<open>.env\<close> in any spelling, and that no program the image installs is a Docker client.\<close>

record unicode =
  nfkc :: "ustr \<Rightarrow> ustr"
  lower :: "ustr \<Rightarrow> ustr"
  lower_of :: "int \<Rightarrow> ustr"
  upper_of :: "int \<Rightarrow> ustr"

definition ascii_low :: "int \<Rightarrow> int" where
  "ascii_low c = (if 65 \<le> c \<and> c \<le> 90 then c + 32 else c)"

definition ascii_up :: "int \<Rightarrow> int" where
  "ascii_up c = (if 97 \<le> c \<and> c \<le> 122 then c - 32 else c)"

definition ascii_tables :: "unicode \<Rightarrow> bool" where
  "ascii_tables U \<longleftrightarrow>
     (\<forall>s. (\<forall>c \<in> set s. 0 \<le> c \<and> c < 128) \<longrightarrow> nfkc U s = s \<and> lower U s = map ascii_low s) \<and>
     (\<forall>c. 0 \<le> c \<and> c < 128 \<longrightarrow> lower_of U c = [ascii_low c] \<and> upper_of U c = [ascii_up c])"

section \<open>How a path is shown\<close>

definition shown_specials :: "int list" where
  "shown_specials = [42, 63, 91, 92, 8230]"

definition part_text :: "part \<Rightarrow> ustr" where
  "part_text p =
     (case p of
        Lit t \<Rightarrow> concat (map (\<lambda>c. if c \<in> set shown_specials then [92, c] else [c]) t)
      | Star _ \<Rightarrow> [STAR]
      | One cs _ \<Rightarrow> (case cs_chars cs of
                       None \<Rightarrow> [63]
                     | Some xs \<Rightarrow> [91] @ sorted_list_of_set (fset xs) @ [93])
      | Any_Name \<Rightarrow> uni ''@(*)''
      | Wild _ \<Rightarrow> [8230])"

definition path_text :: "path_ref \<Rightarrow> ustr" where
  "path_text ref = (if is_exact ref then exact_path ref else concat (map part_text ref))"

definition shown :: "path_ref \<Rightarrow> ustr" where
  "shown ref = path_text (concat (map (\<lambda>p. case p of Wild (Some g) \<Rightarrow> g | _ \<Rightarrow> [p]) ref))"

section \<open>Commands\<close>

definition DANGEROUS_COMMANDS :: "ustr list" where
  "DANGEROUS_COMMANDS = [uni ''docker'', uni ''dockerd'', uni ''docker-*'']"

definition SYSTEM_DIRS :: "ustr list" where
  "SYSTEM_DIRS = [uni ''/usr'', uni ''/bin'', uni ''/sbin'', uni ''/opt'', uni ''/snap'']"

definition SECRET_FILES :: "ustr list" where
  "SECRET_FILES = [uni ''.env'']"

definition command_name :: "unicode \<Rightarrow> ustr \<Rightarrow> ustr" where
  "command_name U text = lower U (basename (nfkc U text))"

definition installed :: "unicode \<Rightarrow> ustr \<Rightarrow> bool" where
  "installed U command =
     (let text = nfkc U command
      in if SLASH \<notin> set text then True
         else if \<not> starts_with text [SLASH] then False
         else
           (let path = normpath (SLASH # lstrip_char SLASH text)
            in list_ex (\<lambda>d. path = d \<or> starts_with path (d @ [SLASH])) SYSTEM_DIRS))"

text \<open>\<open>fnmatch.fnmatchcase\<close> on a pattern of \<open>*\<close>, \<open>?\<close> and literal characters; the names the code
  passes hold no bracket.\<close>

function fnmatchcase :: "ustr \<Rightarrow> ustr \<Rightarrow> bool" where
  "fnmatchcase s [] \<longleftrightarrow> s = []"
| "fnmatchcase s (c # p) \<longleftrightarrow>
     (if c = STAR then fnmatchcase s p \<or> (case s of [] \<Rightarrow> False | _ # t \<Rightarrow> fnmatchcase t (c # p))
      else (case s of [] \<Rightarrow> False | d # t \<Rightarrow> (c = 63 \<or> c = d) \<and> fnmatchcase t p))"
  by pat_completeness auto
termination by (relation "measures [\<lambda>(s, p). length s, \<lambda>(s, p). length p]") auto

declare fnmatchcase.simps(2) [simp del]

definition runs_any :: "unicode \<Rightarrow> ustr list \<Rightarrow> ustr list \<Rightarrow> ustr option" where
  "runs_any U commands names =
     (let patterns = map (lower U) names
      in find (\<lambda>command. list_ex (\<lambda>p. fnmatchcase (command_name U command) p \<and> (STAR \<notin> set p \<or> installed U command))
                 patterns) commands)"

section \<open>Files\<close>

fun spellings :: "unicode \<Rightarrow> ustr \<Rightarrow> ustr list" where
  "spellings U [] = [[]]"
| "spellings U (c # cs) = [x @ r. x \<leftarrow> remdups [lower_of U c, upper_of U c], r \<leftarrow> spellings U cs]"

definition loosened :: "path_ref \<Rightarrow> path_ref" where
  "loosened ref = map (\<lambda>p. case p of Star _ \<Rightarrow> Star False | One cs _ \<Rightarrow> One cs False | _ \<Rightarrow> p) ref"

definition is_wild :: "part \<Rightarrow> bool" where
  "is_wild p = (case p of Wild _ \<Rightarrow> True | _ \<Rightarrow> False)"

text \<open>The walk over the parts from the last one back, with the name found so far.\<close>

fun name_before :: "part list \<Rightarrow> path_ref \<Rightarrow> bool \<Rightarrow> (path_ref \<times> bool) option" where
  "name_before [] found widened = None"
| "name_before (Wild (Some g) # ps) found widened =
     (if list_ex is_wild g then None else name_before ps (g @ found) True)"
| "name_before (Wild None # ps) found widened = None"
| "name_before (Lit t # ps) found widened =
     (if SLASH \<in> set t then
        (let rest = basename t
         in Some (Lit [SLASH] # (if rest = [] then [] else [Lit rest]) @ found, widened))
      else name_before ps (Lit t # found) widened)"
| "name_before (Star g # ps) found widened = name_before ps (Star g # found) widened"
| "name_before (One cs g # ps) found widened = name_before ps (One cs g # found) widened"
| "name_before (Any_Name # ps) found widened = name_before ps (Any_Name # found) widened"

definition untrailed :: "path_ref \<Rightarrow> path_ref" where
  "untrailed parts =
     (if parts = [] then parts
      else case last parts of
        Lit t \<Rightarrow> if ends_with t [SLASH] then
                   (let text = rstrip_char SLASH t
                    in butlast parts @ (if text = [] then [] else [Lit text]))
                 else parts
      | _ \<Rightarrow> parts)"

definition name_of :: "path_ref \<Rightarrow> (path_ref \<times> bool) option" where
  "name_of ref = name_before (rev (untrailed ref)) [] False"

definition backup_of :: "ustr \<Rightarrow> ustr \<Rightarrow> bool" where
  "backup_of n s \<longleftrightarrow> starts_with s n \<and> (\<forall>c \<in> set (drop (length n) s). c = 126 \<or> c = DOT)"

definition read_hits :: "unicode \<Rightarrow> ustr list \<Rightarrow> path_ref \<Rightarrow> bool" where
  "read_hits U names ref =
     (case name_of ref of
        None \<Rightarrow> False
      | Some (nm, widened) \<Rightarrow>
          if is_exact nm then list_ex (\<lambda>n. backup_of n (lower U (drop 1 (exact_path nm)))) names
          else
            (let glob = (if widened then loosened nm else nm)
             in list_ex (\<lambda>s. could_match glob (SLASH # s)) (concat (map (spellings U) names))))"

definition reads_any :: "unicode \<Rightarrow> path_ref list \<Rightarrow> ustr list \<Rightarrow> path_ref option" where
  "reads_any U reads names = find (read_hits U (map (lower U) names)) reads"

section \<open>What a read that is let through can name\<close>

lemma basename_after: "SLASH \<notin> set b \<Longrightarrow> basename (a @ SLASH # b) = b"
proof -
  have "split_on SLASH (a @ SLASH # b) = split_on SLASH a @ split_on SLASH b"
    by (induction a) (auto split: list.split)
  moreover assume "SLASH \<notin> set b"
  ultimately show "basename (a @ SLASH # b) = b" by (simp add: basename_def split_on_no_sep)
qed

lemma basename_suffix:
  assumes "SLASH \<in> set t" and "SLASH \<notin> set r"
  shows "basename (u @ t @ r) = basename t @ r"
proof -
  obtain a b where t: "t = a @ SLASH # b" "SLASH \<notin> set b" using assms(1) by (metis split_list_last)
  have "u @ t @ r = (u @ a) @ SLASH # (b @ r)" using t by simp
  then have "basename (u @ t @ r) = b @ r" using basename_after [of "b @ r" "u @ a"] t(2) assms(2) by simp
  then show ?thesis using basename_after [OF t(2), of a] t(1) by simp
qed

lemma allows_suffix: "allows (ps @ qs) s \<Longrightarrow> \<exists>u r. s = u @ r \<and> allows qs r"
proof (induction ps s rule: allows.induct)
  case (1 s)
  then show ?case by (metis append_Nil)
next
  case (2 t ps s)
  then show ?case by (metis allows.simps(2) append_Cons append_assoc)
next
  case (3 guard ps s)
  then show ?case by (metis allows.simps(3) append_Cons append_assoc)
next
  case (4 chars guard ps s)
  then show ?case by (metis allows.simps(4) append_Cons)
next
  case (5 ps s)
  then show ?case by (metis allows.simps(5) append_Cons append_assoc)
next
  case (6 g ps s)
  then show ?case by (metis allows.simps(6) append_Cons append_assoc)
qed

lemma allows_exact: "is_exact ref \<Longrightarrow> allows ref s \<Longrightarrow> s = exact_path ref"
proof (induction ref s rule: allows.induct)
qed (auto simp: is_exact_def is_lit_def)

definition slash_free :: "path_ref \<Rightarrow> bool" where
  "slash_free ref \<longleftrightarrow> (\<forall>s. allows ref s \<longrightarrow> SLASH \<notin> set s)"

lemma name_before_allows:
  assumes "allows (rev ps @ found) s" and "\<not> list_ex is_wild ps" and "slash_free found"
    and "\<exists>t. Lit t \<in> set ps \<and> SLASH \<in> set t"
  shows "\<exists>nm. name_before ps found w = Some (nm, w) \<and> allows nm (SLASH # basename s)"
  using assms
proof (induction ps found w rule: name_before.induct)
  case (4 t ps found w)
  show ?case
  proof (cases "SLASH \<in> set t")
    case True
    obtain u r where "s = u @ t @ r" "allows found r"
      using allows_suffix [of "rev ps" "Lit t # found" s] "4.prems"(1) by auto
    then have "basename s = basename t @ r" "allows found r"
      using basename_suffix [OF True, of r u] "4.prems"(3) by (auto simp: slash_free_def)
    then show ?thesis using True by (auto simp: Let_def)
  next
    case False
    then have "slash_free (Lit t # found)" using "4.prems"(3) by (auto simp: slash_free_def)
    then show ?thesis using "4.IH" [OF False] "4.prems" False by auto
  qed
next
  case (5 g ps found w)
  then have "slash_free (Star g # found)" by (auto simp: slash_free_def)
  then show ?case using 5 by (auto simp: is_wild_def)
next
  case (6 cs g ps found w)
  then have "slash_free (One cs g # found)" by (auto simp: slash_free_def)
  then show ?case using 6 by (auto simp: is_wild_def)
next
  case (7 ps found w)
  then have "slash_free (Any_Name # found)" by (auto simp: slash_free_def)
  then show ?case using 7 by (auto simp: is_wild_def)
qed (auto simp: is_wild_def)

lemma untrailed_same:
  assumes "allows ref s" and "basename s \<noteq> []"
  shows "untrailed ref = ref"
proof (cases "ref = []")
  case False
  have "\<not> ends_with t [SLASH]" if "last ref = Lit t" for t
  proof
    assume "ends_with t [SLASH]"
    then obtain a where "t = a @ SLASH # []" by (auto simp: ends_with_iff)
    moreover have "ref = butlast ref @ [Lit t]" using False that by (metis append_butlast_last_id)
    then obtain u where "s = u @ t" using allows_suffix [of "butlast ref" "[Lit t]" s] assms(1) by auto
    ultimately have "s = (u @ a) @ SLASH # []" by simp
    then show False using basename_after [of "[]" "u @ a"] assms(2) by simp
  qed
  then show ?thesis by (auto simp: untrailed_def split: part.split)
qed (simp add: untrailed_def)

lemma literal_prefix_slash:
  "starts_with (literal_prefix ref) [SLASH] \<Longrightarrow> \<exists>t. Lit t \<in> set ref \<and> SLASH \<in> set t"
proof (induction ref rule: literal_prefix.induct)
  case (2 t ps)
  then show ?case by (cases t) (auto simp: starts_with_def)
qed (auto simp: starts_with_def)

lemma name_of_allows:
  assumes "allows ref s" and "basename s \<noteq> []" and "\<not> list_ex is_wild ref" and "starts_with (literal_prefix ref) [SLASH]"
  shows "\<exists>nm. name_of ref = Some (nm, False) \<and> allows nm (SLASH # basename s)"
  using name_before_allows [of "rev ref" "[]" s False] assms literal_prefix_slash [OF assms(4)]
  by (simp add: name_of_def untrailed_same slash_free_def list_ex_iff)

lemma spellings_ascii:
  assumes "ascii_tables U" and "\<forall>c \<in> set n. 0 \<le> c \<and> c < 128" and "length s = length n"
    and "\<forall>i < length n. s ! i \<in> {ascii_low (n ! i), ascii_up (n ! i)}"
  shows "s \<in> set (spellings U n)"
  using assms(2-)
proof (induction n arbitrary: s)
  case (Cons c n)
  obtain d t where s: "s = d # t" using Cons.prems(2) by (cases s) auto
  have "t \<in> set (spellings U n)" using Cons.IH [of t] Cons.prems s by fastforce
  moreover have "d \<in> {ascii_low c, ascii_up c}" using Cons.prems(3) s by force
  moreover have "lower_of U c = [ascii_low c]" "upper_of U c = [ascii_up c]"
    using assms(1) Cons.prems(1) by (simp_all add: ascii_tables_def)
  ultimately show ?case using s by auto
qed simp

lemma literal_rule_match:
  assumes "STAR \<notin> set g"
  shows "fullmatch (rule_regex g) g" and "\<not> nested_tree g"
proof -
  have "\<not> glob_ends_with_tree g" using assms by (auto simp: glob_ends_with_tree_def ends_with_iff)
  then show "fullmatch (rule_regex g) g" and "\<not> nested_tree g"
    using glob_pieces_literal [OF assms, of g]
    by (auto simp: rule_regex_def glob_to_regex.simps [of g] fullmatch_newline nested_tree_def)
qed


definition ascii_unicode :: unicode where
  "ascii_unicode = \<lparr>nfkc = (\<lambda>s. s), lower = map ascii_low, lower_of = (\<lambda>c. [ascii_low c]), upper_of = (\<lambda>c. [ascii_up c])\<rparr>"

lemma ascii_unicode_tables: "ascii_tables ascii_unicode"
  by (simp add: ascii_tables_def ascii_unicode_def)


section \<open>What a command that is let through can run\<close>

lemma fnmatchcase_literal: "STAR \<notin> set p \<Longrightarrow> 63 \<notin> set p \<Longrightarrow> fnmatchcase s p \<longleftrightarrow> s = p"
proof (induction p arbitrary: s)
  case (Cons c p)
  then show ?case by (cases s) (auto simp: fnmatchcase.simps(2))
qed simp

lemma fnmatchcase_star: "fnmatchcase s [STAR]"
  by (induction s) (simp_all add: fnmatchcase.simps(2))

lemma fnmatchcase_prefix: "STAR \<notin> set p \<Longrightarrow> 63 \<notin> set p \<Longrightarrow> starts_with s p \<Longrightarrow> fnmatchcase s (p @ [STAR])"
proof (induction p arbitrary: s)
  case (Cons c p)
  then obtain t where "s = c # t" "starts_with t p" by (auto simp: starts_with_iff)
  then show ?case using Cons by (simp add: fnmatchcase.simps(2))
qed (simp add: fnmatchcase_star)

text \<open>A command that is let through is no container client: its name is neither \<open>docker\<close> nor
  \<open>dockerd\<close>, in any case and wherever it is, and where its name starts with \<open>docker-\<close> it is run by a path
  outside the directories the image installs programs in.\<close>

lemma docker_not_run:
  assumes "ascii_tables U" and "runs_any U commands DANGEROUS_COMMANDS = None" and "command \<in> set commands"
    and "\<forall>c \<in> set command. 0 \<le> c \<and> c < 128"
  shows "map ascii_low (basename command) \<notin> {uni ''docker'', uni ''dockerd''} \<and>
    (starts_with (map ascii_low (basename command)) (uni ''docker-'') \<longrightarrow>
      SLASH \<in> set command \<and>
      (starts_with command [SLASH] \<longrightarrow>
        (\<forall>d \<in> set SYSTEM_DIRS. \<not> starts_with (normpath (SLASH # lstrip_char SLASH command)) (d @ [SLASH]))))"
proof -
  have n: "nfkc U command = command" using assms(1,4) by (simp add: ascii_tables_def)
  have "set (basename command) \<subseteq> set command"
    unfolding basename_def by (rule set_split_on [of _ SLASH]) simp
  then have nm: "command_name U command = map ascii_low (basename command)"
    using assms(1,4) n unfolding command_name_def ascii_tables_def by (metis subsetD)
  have low: "map (lower U) DANGEROUS_COMMANDS = DANGEROUS_COMMANDS"
    using assms(1) by (auto simp: ascii_tables_def DANGEROUS_COMMANDS_def uni_def ascii_low_def)
  have miss: "\<not> (fnmatchcase (command_name U command) p \<and> (STAR \<notin> set p \<or> installed U command))"
    if "p \<in> set DANGEROUS_COMMANDS" for p
    using assms(2,3) that low by (auto simp: runs_any_def Let_def find_None_iff list_ex_iff)
  have "map ascii_low (basename command) \<noteq> p" if "p \<in> {uni ''docker'', uni ''dockerd''}" for p
    using miss [of p] that nm fnmatchcase_literal [of p] by (auto simp: DANGEROUS_COMMANDS_def uni_def)
  moreover have "\<not> installed U command" if "starts_with (map ascii_low (basename command)) (uni ''docker-'')"
  proof -
    have "fnmatchcase (command_name U command) (uni ''docker-'' @ [STAR])"
      unfolding nm by (rule fnmatchcase_prefix) (use that in \<open>auto simp: uni_def\<close>)
    then show ?thesis using miss [of "uni ''docker-*''"] by (simp add: DANGEROUS_COMMANDS_def uni_def)
  qed
  ultimately show ?thesis
    using n by (auto simp: installed_def Let_def list_ex_iff split: if_splits)
qed

lemma docker_not_run_witness:
  "map ascii_low (basename (uni ''scripts/docker-up'')) \<notin> {uni ''docker'', uni ''dockerd''}"
proof -
  let ?c = "uni ''scripts/docker-up''"
  have b: "basename ?c = uni ''docker-up''" by (simp add: basename_def uni_def)
  have "runs_any ascii_unicode [?c] DANGEROUS_COMMANDS = None"
    using b by (simp add: runs_any_def DANGEROUS_COMMANDS_def command_name_def installed_def ascii_unicode_def ascii_low_def
        fnmatchcase.simps(2) starts_with_def uni_def)
  then show ?thesis using docker_not_run [OF ascii_unicode_tables, of "[?c]" ?c] by (simp add: uni_def)
qed

end
