(* ===== verification/Tool_Policy.thy ===== *)
theory Tool_Policy
  imports Command_Checks
begin

text \<open>The gate every tool call of an agent passes (\<open>src/embry0/safety/policy.py\<close>, the normalization of
  \<open>src/embry0/safety/patterns.py\<close>, and the look-up of a skill's text in
  \<open>src/embry0/safety/skill_commands.py\<close>): the tool-name allowlist and the content rules (ring 3), the deny
  rules on paths (ring 2), and the commands a skill runs. An exception anywhere refuses the call, so each
  step answers a verdict or an error that is turned into one.

  Parameters, in \<open>policy_env\<close>: the regular-expression search of a content rule, the parse of a shell
  command (\<open>bash_paths\<close>), the password file, Unicode's tables, and the commands in a skill's Markdown.\<close>

section \<open>Values\<close>

text \<open>A value of a tool's input: text, or anything else with its truth value and its \<open>str()\<close>, which may
  raise.\<close>

datatype tool_value = Text ustr | Other bool "ustr option"

type_synonym tool_input = "(ustr \<times> tool_value) list"

record content_rule =
  cr_pattern :: ustr
  cr_tools :: "ustr list"
  cr_reason :: ustr

record command_check =
  cc_runs :: "ustr list"
  cc_reads :: "ustr list"
  cc_reason :: ustr

record safety_policy =
  allowed_tools :: "ustr list option"
  deny_rules :: "ustr list"
  content_checks :: "content_rule list"
  command_checks :: "command_check list"

text \<open>\<open>Verdict\<close>, with the reason as a value instead of its wording.\<close>

datatype deny_reason =
    Not_In_Allowlist
  | Input_Too_Long nat
  | Content_Refused ustr
  | Command_Unreadable
  | Command_Runs ustr ustr
  | Command_Reads ustr ustr
  | Rule_Reachable ustr ustr
  | Rule_Matches ustr ustr
  | Hook_Failed
  | Ring2_Failed
  | Skill_Runs_Shell
  | Skill_Command ustr deny_reason
  | Skill_Refused
  | Skill_Failed

datatype tool_verdict = Tool_Allow | Tool_Deny deny_reason

record shell_paths =
  sp_reads :: "path_ref list"
  sp_writes :: "path_ref list"
  sp_commands :: "ustr list"

datatype shell_parse = Parsed shell_paths | Unreadable | Parser_Failed

record policy_env =
  pe_unicode :: unicode
  pe_search :: "ustr \<Rightarrow> ustr \<Rightarrow> bool option"
  pe_parse :: "ustr \<Rightarrow> ustr \<Rightarrow> ustr \<Rightarrow> shell_parse"
  pe_user_home :: "ustr \<Rightarrow> ustr option"
  pe_word :: "int \<Rightarrow> bool"
  pe_skill_commands :: "ustr \<Rightarrow> ustr \<Rightarrow> ustr list"

section \<open>Normalizing a command\<close>

fun join_lines :: "ustr \<Rightarrow> ustr" where
  "join_lines [] = []"
| "join_lines [c] = [c]"
| "join_lines (c # d # s) = (if c = 92 \<and> d = NEWLINE then join_lines s else c # join_lines (d # s))"

definition drop_optional :: "ustr \<Rightarrow> ustr \<Rightarrow> ustr" where
  "drop_optional p s = (if starts_with s p then drop (length p) s else s)"

text \<open>What follows \<open>/(?:usr/)?(?:local/)?s?bin/\<close> at the start of a text.\<close>

definition after_bin_prefix :: "ustr \<Rightarrow> ustr option" where
  "after_bin_prefix s =
     (if starts_with s [SLASH] then
        (let t = drop_optional (uni ''s'') (drop_optional (uni ''local/'') (drop_optional (uni ''usr/'') (drop 1 s)))
         in if starts_with t (uni ''bin/'') then Some (drop 4 t) else None)
      else None)"

definition word_boundary :: "int \<Rightarrow> bool" where
  "word_boundary c \<longleftrightarrow> uspace c \<or> c \<in> {59, 38, 124, 40, 41, 123, 125, 96, 39, 34, 61}"

lemma drop_optional_shorter: "length (drop_optional p s) \<le> length s"
  by (simp add: drop_optional_def)

lemma after_bin_prefix_shorter: "after_bin_prefix s = Some r \<Longrightarrow> length r < length s"
proof -
  assume a: "after_bin_prefix s = Some r"
  let ?t = "drop_optional (uni ''s'') (drop_optional (uni ''local/'') (drop_optional (uni ''usr/'') (drop 1 s)))"
  have "length ?t \<le> length (drop 1 s)" by (meson drop_optional_shorter order_trans)
  moreover have "r = drop 4 ?t" "starts_with ?t (uni ''bin/'')" "s \<noteq> []"
    using a by (auto simp: after_bin_prefix_def Let_def starts_with_def split: if_splits)
  moreover have "?t \<noteq> []" using calculation(3) by (auto simp: starts_with_def uni_def)
  ultimately show ?thesis by (cases s; cases ?t) auto
qed

function drop_bin_prefixes :: "bool \<Rightarrow> ustr \<Rightarrow> ustr" where
  "drop_bin_prefixes start [] = []"
| "drop_bin_prefixes start (c # s) =
     (case (if start then after_bin_prefix (c # s) else None) of
        Some r \<Rightarrow> drop_bin_prefixes False r
      | None \<Rightarrow> c # drop_bin_prefixes (word_boundary c) s)"
  by pat_completeness auto
termination
  by (relation "measure (\<lambda>(start, s). length s)") (auto split: if_splits dest: after_bin_prefix_shorter)

fun collapse_space :: "ustr \<Rightarrow> ustr" where
  "collapse_space [] = []"
| "collapse_space (c # s) =
     (if uspace c then
        (case s of [] \<Rightarrow> [32] | d # _ \<Rightarrow> if uspace d then collapse_space s else 32 # collapse_space s)
      else c # collapse_space s)"

definition normalize_command :: "unicode \<Rightarrow> ustr \<Rightarrow> ustr" where
  "normalize_command U cmd = collapse_space (drop_bin_prefixes True (join_lines (nfkc U cmd)))"

section \<open>Ring 3: names, content and commands\<close>

definition INFRA_ALLOWED_TOOLS :: "ustr list" where
  "INFRA_ALLOWED_TOOLS = [uni ''TodoWrite'', uni ''Skill'', uni ''SlashCommand'']"

definition SHELL_TOOLS :: "ustr list" where
  "SHELL_TOOLS = [uni ''Bash'', uni ''Monitor'']"

definition MAX_CHECKED_INPUT :: int where
  "MAX_CHECKED_INPUT = 64 * 1024"

definition checked_length :: "ustr \<Rightarrow> bool" where
  "checked_length s \<longleftrightarrow> int (length s) \<le> MAX_CHECKED_INPUT"

definition rule_applies :: "content_rule \<Rightarrow> ustr \<Rightarrow> bool" where
  "rule_applies r tool =
     (if cr_tools r = [] \<or> tool \<in> set (cr_tools r) then True
      else tool \<in> set SHELL_TOOLS \<and> list_ex (\<lambda>t. t \<in> set (cr_tools r)) SHELL_TOOLS)"

definition stringify_input :: "tool_input \<Rightarrow> ustr" where
  "stringify_input input =
     join [32] (concat (map (\<lambda>(k, v). case v of Text t \<Rightarrow> [t] | Other _ (Some t) \<Rightarrow> [t] | Other _ None \<Rightarrow> []) input))"

fun content_verdict :: "policy_env \<Rightarrow> ustr \<Rightarrow> content_rule list \<Rightarrow> tool_verdict" where
  "content_verdict E text [] = Tool_Allow"
| "content_verdict E text (r # rs) =
     (case pe_search E (cr_pattern r) text of
        None \<Rightarrow> Tool_Deny Hook_Failed
      | Some True \<Rightarrow> Tool_Deny (Content_Refused (cr_reason r))
      | Some False \<Rightarrow> content_verdict E text rs)"

fun checks_verdict :: "unicode \<Rightarrow> shell_paths \<Rightarrow> command_check list \<Rightarrow> tool_verdict" where
  "checks_verdict U found [] = Tool_Allow"
| "checks_verdict U found (c # cs) =
     (case runs_any U (sp_commands found) (cc_runs c) of
        Some hit \<Rightarrow> Tool_Deny (Command_Runs hit (cc_reason c))
      | None \<Rightarrow>
          (case reads_any U (sp_reads found) (cc_reads c) of
             Some ref \<Rightarrow> Tool_Deny (Command_Reads (shown ref) (cc_reason c))
           | None \<Rightarrow> checks_verdict U found cs))"

definition command_verdict :: "policy_env \<Rightarrow> command_check list \<Rightarrow> ustr \<Rightarrow> ustr \<Rightarrow> ustr \<Rightarrow> tool_verdict" where
  "command_verdict E checks command cwd home =
     (case pe_parse E command cwd home of
        Unreadable \<Rightarrow> Tool_Deny Command_Unreadable
      | Parser_Failed \<Rightarrow> Tool_Deny Hook_Failed
      | Parsed found \<Rightarrow> checks_verdict (pe_unicode E) found checks)"

definition evaluate_policy :: "policy_env \<Rightarrow> safety_policy \<Rightarrow> ustr \<Rightarrow> tool_input \<Rightarrow> ustr \<Rightarrow> ustr \<Rightarrow> tool_verdict" where
  "evaluate_policy E policy tool input cwd home =
     (if (case allowed_tools policy of
            None \<Rightarrow> False | Some names \<Rightarrow> tool \<notin> set names \<and> tool \<notin> set INFRA_ALLOWED_TOOLS)
      then Tool_Deny Not_In_Allowlist
      else
        let rules = filter (\<lambda>r. rule_applies r tool) (content_checks policy);
            checks = (if tool \<in> set SHELL_TOOLS then command_checks policy else [])
        in if rules = [] \<and> checks = [] then Tool_Allow
           else
             let raw = stringify_input input;
                 haystack = (if checked_length raw then normalize_command (pe_unicode E) raw else raw)
             in if \<not> checked_length haystack then Tool_Deny (Input_Too_Long (length haystack))
                else
                  (case content_verdict E haystack rules of
                     Tool_Deny r \<Rightarrow> Tool_Deny r
                   | Tool_Allow \<Rightarrow>
                       (case map_of input (uni ''command'') of
                          Some (Text command) \<Rightarrow>
                            if checks \<noteq> [] \<and> command \<noteq> [] then command_verdict E checks command cwd home
                            else Tool_Allow
                        | _ \<Rightarrow> Tool_Allow)))"

section \<open>Ring 2: paths\<close>

definition PATH_KEYS :: "(ustr \<times> ustr list) list" where
  "PATH_KEYS =
     [(uni ''Read'', [uni ''file_path'', uni ''path'']),
      (uni ''Write'', [uni ''file_path'', uni ''path'']),
      (uni ''Edit'', [uni ''file_path'', uni ''path'']),
      (uni ''NotebookEdit'', [uni ''notebook_path'']),
      (uni ''Glob'', [uni ''path'', uni ''pattern'']),
      (uni ''Grep'', [uni ''path''])]"

definition RULE_COVERS :: "(ustr \<times> ustr list) list" where
  "RULE_COVERS =
     [(uni ''Read'', [uni ''Read'', uni ''Glob'', uni ''Grep'', uni ''Edit'', uni ''Write'', uni ''NotebookEdit'']),
      (uni ''Edit'', [uni ''Edit'', uni ''Write'', uni ''NotebookEdit''])]"

text \<open>\<open>^(\w+)\((.*)\)$\<close>, where \<open>$\<close> also stands before a final newline.\<close>

definition word_char :: "policy_env \<Rightarrow> int \<Rightarrow> bool" where
  "word_char E c \<longleftrightarrow> 48 \<le> c \<and> c \<le> 57 \<or> 65 \<le> c \<and> c \<le> 90 \<or> 97 \<le> c \<and> c \<le> 122 \<or> c = 95 \<or> 128 \<le> c \<and> pe_word E c"

definition match_rule_text :: "policy_env \<Rightarrow> ustr \<Rightarrow> (ustr \<times> ustr) option" where
  "match_rule_text E rule =
     (let (tool, found, rest) = partition_at 40 rule;
          body = (if ends_with rest [41, NEWLINE] then take (length rest - 1) rest else rest)
      in if found \<and> tool \<noteq> [] \<and> list_all (word_char E) tool \<and> ends_with body [41] \<and> NEWLINE \<notin> set body
         then Some (tool, butlast body) else None)"

definition rule_path_to_absolute :: "ustr \<Rightarrow> ustr \<Rightarrow> ustr \<Rightarrow> ustr option" where
  "rule_path_to_absolute rule_path cwd home =
     (if starts_with rule_path (uni ''//'') then Some (drop 1 rule_path)
      else if starts_with rule_path (uni ''~/'') then Some (rstrip_char SLASH home @ drop 1 rule_path)
      else if starts_with rule_path [SLASH] then Some (rstrip_char SLASH cwd @ rule_path)
      else None)"

definition expand_tilde :: "policy_env \<Rightarrow> ustr \<Rightarrow> ustr \<Rightarrow> ustr option" where
  "expand_tilde E raw home =
     (if \<not> starts_with raw [126] then Some raw
      else
        let (user, sep, rest) = partition_at SLASH (drop 1 raw)
        in case (if user = [] then Some home else pe_user_home E user) of
             None \<Rightarrow> None
           | Some base \<Rightarrow> Some (base @ (if sep then SLASH # rest else [])))"

definition absolute_path :: "policy_env \<Rightarrow> ustr \<Rightarrow> ustr \<Rightarrow> ustr \<Rightarrow> ustr option" where
  "absolute_path E raw cwd home =
     (case expand_tilde E raw home of
        None \<Rightarrow> None
      | Some expanded \<Rightarrow>
          (let path = normpath (if starts_with expanded [SLASH] then expanded else path_join cwd expanded)
           in Some (if starts_with path [SLASH, SLASH] then SLASH # lstrip_char SLASH path else path)))"

text \<open>The errors \<open>_candidate_paths\<close> raises.\<close>

datatype path_error = Too_Long_Command nat | Bash_Syntax | Internal_Error

fun keyed_paths :: "policy_env \<Rightarrow> ustr \<Rightarrow> tool_input \<Rightarrow> ustr \<Rightarrow> ustr \<Rightarrow> ustr list \<Rightarrow> path_error + (path_ref \<times> ustr) list" where
  "keyed_paths E tool input cwd home [] = Inr []"
| "keyed_paths E tool input cwd home (key # ks) =
     (case map_of input key of
        Some (Text raw) \<Rightarrow>
          if raw = [] \<or> key = uni ''pattern'' \<and> \<not> (starts_with raw [SLASH] \<or> starts_with raw [126])
          then keyed_paths E tool input cwd home ks
          else (case absolute_path E raw cwd home of
                  None \<Rightarrow> Inl Internal_Error
                | Some p \<Rightarrow> (case keyed_paths E tool input cwd home ks of
                               Inl e \<Rightarrow> Inl e | Inr ps \<Rightarrow> Inr ((exact_ref p, tool) # ps)))
      | _ \<Rightarrow> keyed_paths E tool input cwd home ks)"

definition candidate_paths :: "policy_env \<Rightarrow> ustr \<Rightarrow> tool_input \<Rightarrow> ustr \<Rightarrow> ustr \<Rightarrow> path_error + (path_ref \<times> ustr) list" where
  "candidate_paths E tool input cwd home =
     (if tool \<in> set SHELL_TOOLS then
        (case map_of input (uni ''command'') of
           Some (Text command) \<Rightarrow>
             if command = [] then Inr []
             else if \<not> checked_length command then Inl (Too_Long_Command (length command))
             else (case pe_parse E command cwd home of
                     Unreadable \<Rightarrow> Inl Bash_Syntax
                   | Parser_Failed \<Rightarrow> Inl Internal_Error
                   | Parsed found \<Rightarrow> Inr (map (\<lambda>p. (p, uni ''Read'')) (sp_reads found) @
                                         map (\<lambda>p. (p, uni ''Write'')) (sp_writes found)))
         | _ \<Rightarrow> Inr [])
      else keyed_paths E tool input cwd home (case map_of PATH_KEYS tool of None \<Rightarrow> [] | Some ks \<Rightarrow> ks))"

definition rule_covers :: "ustr \<Rightarrow> ustr list" where
  "rule_covers tool = (case map_of RULE_COVERS tool of None \<Rightarrow> [tool] | Some ts \<Rightarrow> ts)"

definition path_hit :: "ustr \<Rightarrow> path_ref \<Rightarrow> bool" where
  "path_hit glob ref = (if is_exact ref then fullmatch (rule_regex glob) (exact_path ref) else could_match ref glob)"

fun rules_verdict :: "policy_env \<Rightarrow> ustr \<Rightarrow> ustr \<Rightarrow> (path_ref \<times> ustr) list \<Rightarrow> ustr list \<Rightarrow> tool_verdict" where
  "rules_verdict E project home candidates [] = Tool_Allow"
| "rules_verdict E project home candidates (rule # rules) =
     (case match_rule_text E rule of
        None \<Rightarrow> rules_verdict E project home candidates rules
      | Some (rule_tool, rule_path) \<Rightarrow>
          (let applicable = map fst (filter (\<lambda>(ref, tool). tool \<in> set (rule_covers rule_tool)) candidates)
           in if applicable = [] then rules_verdict E project home candidates rules
              else case rule_path_to_absolute rule_path project home of
                None \<Rightarrow> Tool_Deny Ring2_Failed
              | Some glob \<Rightarrow>
                  (case find (path_hit glob) applicable of
                     Some ref \<Rightarrow> Tool_Deny ((if is_exact ref then Rule_Matches else Rule_Reachable) (path_text ref) rule)
                   | None \<Rightarrow> rules_verdict E project home candidates rules)))"

definition evaluate_ring2_paths ::
  "policy_env \<Rightarrow> safety_policy \<Rightarrow> ustr \<Rightarrow> tool_input \<Rightarrow> ustr \<Rightarrow> ustr \<Rightarrow> ustr option \<Rightarrow> tool_verdict" where
  "evaluate_ring2_paths E policy tool input cwd home project_root =
     (case candidate_paths E tool input cwd home of
        Inl (Too_Long_Command n) \<Rightarrow> Tool_Deny (Input_Too_Long n)
      | Inl Bash_Syntax \<Rightarrow> Tool_Deny Command_Unreadable
      | Inl Internal_Error \<Rightarrow> Tool_Deny Ring2_Failed
      | Inr candidates \<Rightarrow>
          if candidates = [] then Tool_Allow
          else rules_verdict E (case project_root of None \<Rightarrow> cwd | Some r \<Rightarrow> if r = [] then cwd else r)
                 home candidates (deny_rules policy))"

section \<open>Skills\<close>

definition SKILL_TOOLS :: "ustr list" where
  "SKILL_TOOLS = [uni ''Skill'', uni ''SlashCommand'']"

text \<open>\<open>str(tool_input.get(key) or "")\<close>, which raises where \<open>str\<close> does.\<close>

definition text_of :: "tool_input \<Rightarrow> ustr \<Rightarrow> ustr option" where
  "text_of input key =
     (case map_of input key of
        None \<Rightarrow> Some []
      | Some (Text t) \<Rightarrow> Some t
      | Some (Other truth txt) \<Rightarrow> if truth then txt else Some [])"

definition strip_space :: "ustr \<Rightarrow> ustr" where
  "strip_space s = rev (dropWhile uspace (rev (dropWhile uspace s)))"

definition name_word :: "int \<Rightarrow> bool" where
  "name_word c \<longleftrightarrow> 48 \<le> c \<and> c \<le> 57 \<or> 65 \<le> c \<and> c \<le> 90 \<or> 97 \<le> c \<and> c \<le> 122 \<or> c = 95"

text \<open>\<open>_NAME.fullmatch\<close>: parts between colons.\<close>

definition skill_name_ok :: "ustr \<Rightarrow> bool" where
  "skill_name_ok s \<longleftrightarrow>
     list_all (\<lambda>p. p \<noteq> [] \<and> name_word (hd p) \<and> list_all (\<lambda>c. name_word c \<or> c = DOT \<or> c = 45) (tl p)) (split_on 58 s)"

record skill_call_data =
  sk_name :: ustr
  sk_arguments :: ustr

text \<open>An error is \<open>True\<close> for a \<open>SkillError\<close>, \<open>False\<close> for any other exception.\<close>

definition skill_call :: "ustr \<Rightarrow> tool_input \<Rightarrow> bool + skill_call_data" where
  "skill_call tool input =
     (case (if tool = uni ''SlashCommand'' then
              (case text_of input (uni ''command'') of
                 None \<Rightarrow> None
               | Some t \<Rightarrow> (case partition_at 32 (strip_space t) of (nm, _, args) \<Rightarrow> Some (nm, args)))
            else
              (case text_of input (uni ''skill'') of
                 None \<Rightarrow> None
               | Some nm \<Rightarrow> map_option (Pair nm) (text_of input (uni ''args'')))) of
        None \<Rightarrow> Inl False
      | Some (nm, args) \<Rightarrow>
          (let name' = drop_optional [SLASH] (strip_space nm)
           in if skill_name_ok name' then Inr \<lparr>sk_name = name', sk_arguments = args\<rparr> else Inl True))"

text \<open>A skill file: its text when the session started, and what reading it again answers now (\<open>None\<close>: the
  path is gone; \<open>Some None\<close>: it cannot be read).\<close>

record skill_file =
  sf_text :: "ustr option"
  sf_now :: "ustr option option"

record skill_snapshot =
  sn_files :: "(ustr \<times> skill_file list) list"
  sn_changed :: "ustr set"
  sn_hidden :: bool

fun file_texts :: "skill_file list \<Rightarrow> ustr list option" where
  "file_texts [] = Some []"
| "file_texts (f # fs) =
     (case sf_text f of
        None \<Rightarrow> None
      | Some t \<Rightarrow>
          (case sf_now f of
             None \<Rightarrow> map_option (\<lambda>ts. t # ts) (file_texts fs)
           | Some None \<Rightarrow> None
           | Some (Some now) \<Rightarrow> map_option (\<lambda>ts. t # (if now \<noteq> t then [now] else []) @ ts) (file_texts fs)))"

definition skill_texts :: "skill_snapshot \<Rightarrow> ustr \<Rightarrow> ustr list option" where
  "skill_texts sn nm =
     (if sn_hidden sn then None
      else case map_of (sn_files sn) nm of
        None \<Rightarrow> None
      | Some found \<Rightarrow> if found = [] \<or> nm \<in> sn_changed sn then None else file_texts found)"

section \<open>The gate\<close>

definition shell_gate ::
  "policy_env \<Rightarrow> safety_policy \<Rightarrow> ustr \<Rightarrow> tool_input \<Rightarrow> ustr \<Rightarrow> ustr \<Rightarrow> ustr option \<Rightarrow> tool_verdict" where
  "shell_gate E policy tool input cwd home project_root =
     (case evaluate_policy E policy tool input cwd home of
        Tool_Deny r \<Rightarrow> Tool_Deny r
      | Tool_Allow \<Rightarrow> evaluate_ring2_paths E policy tool input cwd home project_root)"

fun commands_verdict ::
  "policy_env \<Rightarrow> safety_policy \<Rightarrow> ustr \<Rightarrow> ustr \<Rightarrow> ustr option \<Rightarrow> ustr list \<Rightarrow> tool_verdict" where
  "commands_verdict E policy cwd home project_root [] = Tool_Allow"
| "commands_verdict E policy cwd home project_root (c # cs) =
     (case shell_gate E policy (uni ''Bash'') [(uni ''command'', Text c)] cwd home project_root of
        Tool_Deny r \<Rightarrow> Tool_Deny (Skill_Command c r)
      | Tool_Allow \<Rightarrow> commands_verdict E policy cwd home project_root cs)"

definition gate_skill_call ::
  "policy_env \<Rightarrow> safety_policy \<Rightarrow> ustr \<Rightarrow> tool_input \<Rightarrow> ustr \<Rightarrow> ustr \<Rightarrow> skill_snapshot option \<Rightarrow> ustr option \<Rightarrow> tool_verdict" where
  "gate_skill_call E policy tool input cwd home skills project_root =
     (case skill_call tool input of
        Inl skill_error \<Rightarrow> Tool_Deny (if skill_error then Skill_Refused else Skill_Failed)
      | Inr call \<Rightarrow>
          (case skills of
             None \<Rightarrow> Tool_Deny Skill_Refused
           | Some sn \<Rightarrow>
               (case skill_texts sn (sk_name call) of
                  None \<Rightarrow> Tool_Deny Skill_Refused
                | Some texts \<Rightarrow>
                    (let commands = fold (\<lambda>text. fold (\<lambda>c found. if c \<in> set found then found else found @ [c])
                                       (pe_skill_commands E text (sk_arguments call))) texts []
                     in if commands = [] then Tool_Allow
                        else if (case allowed_tools policy of None \<Rightarrow> False | Some names \<Rightarrow> uni ''Bash'' \<notin> set names)
                        then Tool_Deny Skill_Runs_Shell
                        else commands_verdict E policy cwd home project_root commands))))"

definition gate_tool_call ::
  "policy_env \<Rightarrow> safety_policy \<Rightarrow> ustr \<Rightarrow> tool_input \<Rightarrow> ustr \<Rightarrow> ustr \<Rightarrow> skill_snapshot option \<Rightarrow> ustr option \<Rightarrow> tool_verdict" where
  "gate_tool_call E policy tool input cwd home skills project_root =
     (case shell_gate E policy tool input cwd home project_root of
        Tool_Deny r \<Rightarrow> Tool_Deny r
      | Tool_Allow \<Rightarrow>
          if tool \<in> set SKILL_TOOLS then gate_skill_call E policy tool input cwd home skills project_root
          else Tool_Allow)"

section \<open>Policies\<close>

definition BASELINE_DENY_RULES :: "ustr list" where
  "BASELINE_DENY_RULES = map uni
     [''Read(//etc/**)'', ''Read(//root/**)'', ''Read(~/.claude/**)'', ''Read(~/.ssh/**)'', ''Read(~/.aws/**)'',
      ''Read(~/.gnupg/**)'', ''Read(//proc/**)'',
      ''Write(//etc/**)'', ''Write(//root/**)'', ''Write(//usr/**)'', ''Write(//bin/**)'', ''Write(//sbin/**)'',
      ''Edit(//etc/**)'', ''Edit(//root/**)'', ''Edit(//usr/**)'', ''Edit(//bin/**)'', ''Edit(//sbin/**)'',
      ''Write(//workspace/.claude/settings*.json)'', ''Edit(//workspace/.claude/settings*.json)'',
      ''Glob(//etc/**)'', ''Glob(//root/**)'', ''Glob(~/.claude/**)'', ''Glob(~/.ssh/**)'', ''Glob(~/.aws/**)'',
      ''Glob(~/.gnupg/**)'', ''Glob(//proc/**)'',
      ''Grep(//etc/**)'', ''Grep(//root/**)'', ''Grep(~/.claude/**)'', ''Grep(~/.ssh/**)'', ''Grep(~/.aws/**)'',
      ''Grep(~/.gnupg/**)'', ''Grep(//proc/**)'']"

definition AGENT_TOOLS :: "(ustr \<times> ustr list) list" where
  "AGENT_TOOLS =
     [(uni ''triage'', map uni [''Read'', ''Glob'', ''Grep'']),
      (uni ''developer'', map uni [''Read'', ''Write'', ''Edit'', ''Bash'', ''Glob'', ''Grep'']),
      (uni ''review'', map uni [''Read'', ''Glob'', ''Grep'', ''Bash''])]"

definition READ_ONLY_TOOLS :: "ustr list" where
  "READ_ONLY_TOOLS = map uni [''Read'', ''Glob'', ''Grep'']"

definition default_tools_for_agent :: "ustr \<Rightarrow> ustr list" where
  "default_tools_for_agent agent_type =
     (case map_of AGENT_TOOLS agent_type of
        Some ts \<Rightarrow> ts | None \<Rightarrow> the (map_of AGENT_TOOLS (uni ''developer'')))"

definition tools_for_run :: "ustr \<Rightarrow> ustr list option \<Rightarrow> ustr list" where
  "tools_for_run agent_type tools = (case tools of None \<Rightarrow> default_tools_for_agent agent_type | Some ts \<Rightarrow> ts)"

definition read_only_if_emptied :: "ustr list \<Rightarrow> ustr list \<Rightarrow> ustr list" where
  "read_only_if_emptied before after =
     (if after \<noteq> [] then after else filter (\<lambda>t. t \<in> set READ_ONLY_TOOLS) before)"

text \<open>The patterns of \<open>patterns.py\<close> are an argument.\<close>

definition default_policy_for_agent :: "ustr list \<Rightarrow> ustr \<Rightarrow> safety_policy" where
  "default_policy_for_agent patterns agent_type =
     \<lparr>allowed_tools = Some (default_tools_for_agent agent_type), deny_rules = BASELINE_DENY_RULES,
      content_checks = map (\<lambda>p. \<lparr>cr_pattern = p, cr_tools = [uni ''Bash''], cr_reason = p\<rparr>) patterns,
      command_checks =
        [\<lparr>cc_runs = DANGEROUS_COMMANDS, cc_reads = [], cc_reason = uni ''a container client or daemon''\<rparr>,
         \<lparr>cc_runs = [], cc_reads = SECRET_FILES, cc_reason = uni ''a file of secrets''\<rparr>]\<rparr>"

section \<open>What the gate lets through\<close>

lemma absolute_path_form:
  assumes "starts_with cwd [SLASH]" and "absolute_path E raw cwd home = Some p"
  shows "\<exists>cs. p = SLASH # join [SLASH] cs \<and> (\<forall>c \<in> set cs. clean_component c)"
proof -
  obtain expanded where p: "p = (let path = normpath (if starts_with expanded [SLASH] then expanded else path_join cwd expanded)
      in if starts_with path [SLASH, SLASH] then SLASH # lstrip_char SLASH path else path)"
    using assms(2) unfolding absolute_path_def Let_def by (auto split: option.splits)
  let ?q = "if starts_with expanded [SLASH] then expanded else path_join cwd expanded"
  have "starts_with ?q [SLASH]" using assms(1) by (auto simp: path_join_def starts_with_iff)
  then obtain n cs where n: "normpath ?q = replicate n SLASH @ join [SLASH] cs" "n \<in> {1, 2}" "\<forall>c \<in> set cs. clean_component c"
    by (rule normpath_absolute)
  have "lstrip_char SLASH (join [SLASH] cs) = join [SLASH] cs"
    using join_clean_start [OF n(3)] by (cases "join [SLASH] cs") (auto simp: lstrip_char_def starts_with_def)
  then have "p = SLASH # join [SLASH] cs"
    using p n(1,2) join_clean_start [OF n(3)]
    by (auto simp: Let_def lstrip_char_def starts_with_def numeral_2_eq_2 split: if_splits)
  then show ?thesis using n(3) by blast
qed

lemma rules_allow:
  assumes "rules_verdict E project home cands rules = Tool_Allow" and "rule \<in> set rules"
    and "match_rule_text E rule = Some (rt, rp)" and "(ref, t) \<in> set cands" and "t \<in> set (rule_covers rt)"
  shows "\<exists>glob. rule_path_to_absolute rp project home = Some glob \<and> \<not> path_hit glob ref"
  using assms(1,2)
proof (induction rules)
  case (Cons r rules)
  show ?case
  proof (cases "r = rule")
    case True
    let ?refs = "map fst (filter (\<lambda>(ref, tool). tool \<in> set (rule_covers rt)) cands)"
    have r: "ref \<in> set ?refs" using assms(4,5) by force
    then have "?refs \<noteq> []" by (metis list.set(1) empty_iff)
    then obtain glob where g: "rule_path_to_absolute rp project home = Some glob" "find (path_hit glob) ?refs = None"
      using Cons.prems(1) assms(3) True by (auto simp: Let_def split: option.splits)
    then show ?thesis using r by (auto simp: find_None_iff)
  next
    case False
    then have "rules_verdict E project home cands rules = Tool_Allow"
      using Cons.prems(1) by (auto simp: Let_def split: option.splits prod.splits if_splits)
    then show ?thesis using Cons.IH Cons.prems(2) False by simp
  qed
qed simp

lemma unhit_path:
  assumes "\<not> path_hit glob ref" and "allows ref p" and "\<not> nested_tree glob" and "is_exact ref \<or> p = [] \<or> last p \<noteq> NEWLINE"
  shows "\<not> fullmatch (rule_regex glob) p"
  using assms could_match_complete [of ref p glob] allows_exact [of ref p]
  by (auto simp: path_hit_def split: if_splits)

lemma keyed_paths_hold:
  assumes "keyed_paths E tool input cwd home ks = Inr ps" and "key \<in> set ks"
    and "map_of input key = Some (Text raw)" and "raw \<noteq> []" and "key \<noteq> uni ''pattern''"
  shows "\<exists>p. absolute_path E raw cwd home = Some p \<and> (exact_ref p, tool) \<in> set ps"
  using assms(1,2)
proof (induction ks arbitrary: ps)
  case (Cons k ks)
  show ?case
  proof (cases "k = key")
    case True
    then show ?thesis using Cons.prems(1) assms(3-5) by (auto split: option.splits sum.splits)
  next
    case False
    have "\<exists>ps'. keyed_paths E tool input cwd home ks = Inr ps' \<and> set ps' \<subseteq> set ps"
      using Cons.prems(1) by (auto split: option.splits tool_value.splits sum.splits if_splits)
    then show ?thesis using Cons.IH Cons.prems(2) False by fastforce
  qed
qed simp

text \<open>A directory and everything below it.\<close>

definition in_tree :: "ustr \<Rightarrow> ustr \<Rightarrow> bool" where
  "in_tree d p \<longleftrightarrow> p = d \<or> starts_with p (d @ [SLASH])"

lemma tree_rule_matches:
  assumes "STAR \<notin> set d" and "in_tree d p"
  shows "fullmatch (rule_regex (d @ [SLASH, STAR, STAR])) p" and "\<not> nested_tree (d @ [SLASH, STAR, STAR])"
proof -
  let ?g = "d @ [SLASH, STAR, STAR]"
  have b: "tree_base ?g = d" "glob_ends_with_tree ?g" by (simp_all add: tree_base_def glob_ends_with_tree_def ends_with_iff)
  have n: "\<not> glob_ends_with_tree d" using assms(1) by (auto simp: glob_ends_with_tree_def ends_with_iff)
  then show nest: "\<not> nested_tree ?g" by (simp add: nested_tree_def b)
  have "fullmatch (glob_pieces d) d" using glob_pieces_literal [OF assms(1)] by simp
  then have "fullmatch (glob_pieces d @ [Rx_Tree]) p"
    using assms(2) unfolding fullmatch_append in_tree_def starts_with_iff
    by (elim disjE exE) (force simp: fullmatch_Cons piece_then_def, (rule exI [of _ d], force simp: fullmatch_Cons piece_then_def))
  then have "fullmatch (glob_to_regex ?g) p"
    using b n by (simp add: glob_to_regex.simps [of ?g] glob_to_regex.simps [of d])
  then show "fullmatch (rule_regex ?g) p" by (simp add: rule_regex_def fullmatch_newline)
qed

lemma match_rule_text_plain:
  assumes "t \<noteq> []" and "\<forall>c \<in> set t. 65 \<le> c \<and> c \<le> 90 \<or> 97 \<le> c \<and> c \<le> 122" and "NEWLINE \<notin> set rp"
  shows "match_rule_text E (t @ [40] @ rp @ [41]) = Some (t, rp)"
proof -
  have "40 \<notin> set t" using assms(2) by force
  then have "partition_at 40 (t @ [40] @ rp @ [41]) = (t, True, rp @ [41])"
    by (simp add: partition_at_found)
  moreover have "list_all (word_char E) t" using assms(2) by (auto simp: list_all_iff word_char_def)
  ultimately show ?thesis
    using assms(1,3) by (auto simp: match_rule_text_def ends_with_def starts_with_def)
qed

lemma tree_rule_holds:
  assumes "rules_verdict E project home cands rules = Tool_Allow" and "(ref, t) \<in> set cands"
    and "rt @ [40] @ (SLASH # (d @ [SLASH, STAR, STAR])) @ [41] \<in> set rules" and "t \<in> set (rule_covers rt)"
    and "rt \<noteq> []" and "\<forall>c \<in> set rt. 65 \<le> c \<and> c \<le> 90 \<or> 97 \<le> c \<and> c \<le> 122"
    and "starts_with d [SLASH]" and "STAR \<notin> set d" and "NEWLINE \<notin> set d"
    and "allows ref p" and "is_exact ref \<or> p = [] \<or> last p \<noteq> NEWLINE"
  shows "\<not> in_tree d p"
proof
  assume i: "in_tree d p"
  let ?g = "d @ [SLASH, STAR, STAR]"
  have "match_rule_text E (rt @ [40] @ (SLASH # ?g) @ [41]) = Some (rt, SLASH # ?g)"
    using assms(9) by (intro match_rule_text_plain assms) auto
  from rules_allow [OF assms(1) _ this assms(2,4)] assms(3)
  obtain glob where g: "rule_path_to_absolute (SLASH # ?g) project home = Some glob" "\<not> path_hit glob ref" by blast
  have "glob = ?g" using g(1) assms(7) by (auto simp: rule_path_to_absolute_def uni_def starts_with_iff split: if_splits)
  then show False
    using unhit_path [OF g(2) assms(10) _ assms(11)] tree_rule_matches [OF assms(8) i] by blast
qed

definition HOST_DIRS :: "ustr list" where
  "HOST_DIRS = map uni [''/etc'', ''/root'', ''/proc'']"

definition SYSTEM_TREES :: "ustr list" where
  "SYSTEM_TREES = map uni [''/usr'', ''/bin'', ''/sbin'']"

definition WRITING_TOOLS :: "ustr list" where
  "WRITING_TOOLS = map uni [''Edit'', ''Write'', ''NotebookEdit'']"

definition FILE_TOOLS :: "ustr list" where
  "FILE_TOOLS = map uni [''Read'', ''Glob'', ''Grep''] @ WRITING_TOOLS"

lemma covers_tools:
  "t \<in> set FILE_TOOLS \<Longrightarrow> t \<in> set (rule_covers (uni ''Read''))"
  "t \<in> set WRITING_TOOLS \<Longrightarrow> t \<in> set (rule_covers (uni ''Edit''))"
  by (auto simp: FILE_TOOLS_def WRITING_TOOLS_def rule_covers_def RULE_COVERS_def uni_def)

lemma baseline_texts:
  "d \<in> set HOST_DIRS \<Longrightarrow> uni ''Read'' @ [40] @ (SLASH # (d @ [SLASH, STAR, STAR])) @ [41] \<in> set BASELINE_DENY_RULES"
  "d \<in> set SYSTEM_TREES \<Longrightarrow> uni ''Edit'' @ [40] @ (SLASH # (d @ [SLASH, STAR, STAR])) @ [41] \<in> set BASELINE_DENY_RULES"
  "d \<in> set (HOST_DIRS @ SYSTEM_TREES) \<Longrightarrow> starts_with d [SLASH] \<and> STAR \<notin> set d \<and> NEWLINE \<notin> set d"
  by (auto simp: HOST_DIRS_def SYSTEM_TREES_def BASELINE_DENY_RULES_def uni_def starts_with_def)

lemma tool_words:
  "uni ''Read'' \<noteq> [] \<and> (\<forall>c \<in> set (uni ''Read''). 65 \<le> c \<and> c \<le> 90 \<or> 97 \<le> c \<and> c \<le> 122)"
  "uni ''Edit'' \<noteq> [] \<and> (\<forall>c \<in> set (uni ''Edit''). 65 \<le> c \<and> c \<le> 90 \<or> 97 \<le> c \<and> c \<le> 122)"
  by (simp_all add: uni_def)

lemma baseline_holds:
  assumes "rules_verdict E project home cands BASELINE_DENY_RULES = Tool_Allow" and "(ref, t) \<in> set cands"
    and "allows ref p" and "is_exact ref \<or> p = [] \<or> last p \<noteq> NEWLINE"
  shows "t \<in> set FILE_TOOLS \<Longrightarrow> d \<in> set HOST_DIRS \<Longrightarrow> \<not> in_tree d p"
    and "t \<in> set WRITING_TOOLS \<Longrightarrow> d \<in> set SYSTEM_TREES \<Longrightarrow> \<not> in_tree d p"
proof -
  note words = tool_words(1) [THEN conjunct1] tool_words(1) [THEN conjunct2] tool_words(2) [THEN conjunct1] tool_words(2) [THEN conjunct2]
  show "\<not> in_tree d p" if t: "t \<in> set FILE_TOOLS" and d: "d \<in> set HOST_DIRS"
  proof -
    have "starts_with d [SLASH] \<and> STAR \<notin> set d \<and> NEWLINE \<notin> set d" by (rule baseline_texts(3)) (simp add: d)
    then show ?thesis
      by (intro tree_rule_holds [OF assms(1,2) baseline_texts(1) [OF d] covers_tools(1) [OF t] words(1,2) _ _ _ assms(3,4)]) simp_all
  qed
  show "\<not> in_tree d p" if t: "t \<in> set WRITING_TOOLS" and d: "d \<in> set SYSTEM_TREES"
  proof -
    have "starts_with d [SLASH] \<and> STAR \<notin> set d \<and> NEWLINE \<notin> set d" by (rule baseline_texts(3)) (simp add: d)
    then show ?thesis
      by (intro tree_rule_holds [OF assms(1,2) baseline_texts(2) [OF d] covers_tools(2) [OF t] words(3,4) _ _ _ assms(3,4)]) simp_all
  qed
qed

lemma fullmatch_appendI: "fullmatch a u \<Longrightarrow> fullmatch b r \<Longrightarrow> fullmatch (a @ b) (u @ r)"
  unfolding fullmatch_append by blast

text \<open>The rule on the files that carry the sandbox's own permissions.\<close>

lemma settings_rule_matches:
  assumes "SLASH \<notin> set u"
  shows "fullmatch (rule_regex (uni ''/workspace/.claude/settings*.json''))
    (uni ''/workspace/.claude/settings'' @ u @ uni ''.json'')"
proof -
  let ?a = "uni ''/workspace/.claude/settings''" and ?b = "uni ''.json''"
  let ?g = "uni ''/workspace/.claude/settings*.json''"
  have "glob_pieces ?g = glob_pieces ?a @ [Rx_Segment] @ glob_pieces ?b" by (simp add: uni_def)
  moreover have "fullmatch (glob_pieces ?a) ?a" "fullmatch (glob_pieces ?b) ?b"
    by (simp_all add: glob_pieces_literal uni_def)
  moreover have "fullmatch [Rx_Segment] u" using assms by (auto simp: fullmatch_Cons piece_then_def)
  ultimately have "fullmatch (glob_pieces ?g) (?a @ u @ ?b)" by (metis fullmatch_appendI)
  moreover have "\<not> glob_ends_with_tree ?g"
    by (simp add: glob_ends_with_tree_def ends_with_def starts_with_def uni_def)
  then have "glob_to_regex ?g = glob_pieces ?g" by (simp add: glob_to_regex.simps [of ?g])
  ultimately show ?thesis by (simp add: rule_regex_def fullmatch_newline)
qed

lemma settings_rule_holds:
  assumes "rules_verdict E project home cands BASELINE_DENY_RULES = Tool_Allow" and "(ref, t) \<in> set cands"
    and "t \<in> set WRITING_TOOLS" and "allows ref (uni ''/workspace/.claude/settings'' @ u @ uni ''.json'')"
  shows "SLASH \<in> set u"
proof (rule ccontr)
  assume u: "SLASH \<notin> set u"
  let ?rp = "SLASH # uni ''/workspace/.claude/settings*.json''" and ?p = "uni ''/workspace/.claude/settings'' @ u @ uni ''.json''"
  let ?rule = "uni ''Edit'' @ [40] @ ?rp @ [41]"
  have "?rule \<in> set BASELINE_DENY_RULES" by (simp add: BASELINE_DENY_RULES_def uni_def)
  moreover have "match_rule_text E ?rule = Some (uni ''Edit'', ?rp)"
    using tool_words by (intro match_rule_text_plain) (auto simp: uni_def)
  ultimately obtain glob where g: "rule_path_to_absolute ?rp project home = Some glob" "\<not> path_hit glob ref"
    using rules_allow [OF assms(1) _ _ assms(2) covers_tools(2) [OF assms(3)]] by blast
  have gl: "glob = uni ''/workspace/.claude/settings*.json''"
    using g(1) by (auto simp: rule_path_to_absolute_def uni_def starts_with_def)
  have "\<not> nested_tree glob"
    by (simp add: gl nested_tree_def glob_ends_with_tree_def ends_with_def starts_with_def uni_def)
  moreover have "last ?p \<noteq> NEWLINE" by (simp add: uni_def)
  ultimately show False using unhit_path [OF g(2) assms(4)] settings_rule_matches [OF u] gl by blast
qed




section \<open>Skills\<close>

lemma commands_allow:
  "commands_verdict E policy cwd home project_root cs = Tool_Allow \<longleftrightarrow>
     (\<forall>c \<in> set cs. shell_gate E policy (uni ''Bash'') [(uni ''command'', Text c)] cwd home project_root = Tool_Allow)"
  by (induction cs) (auto split: tool_verdict.splits)

lemma add_new_set: "set (fold (\<lambda>c found. if c \<in> set found then found else found @ [c]) cs found) = set found \<union> set cs"
  by (induction cs arbitrary: found) auto

lemma skill_command_set:
  "set (fold (\<lambda>text. fold (\<lambda>c found. if c \<in> set found then found else found @ [c]) (f text)) texts found) =
     set found \<union> (\<Union>text \<in> set texts. set (f text))"
  by (induction texts arbitrary: found) (auto simp: add_new_set)

lemma file_texts_cover:
  assumes "file_texts fs = Some ts" and "f \<in> set fs"
  shows "\<exists>t. sf_text f = Some t \<and> t \<in> set ts \<and> (\<forall>now. sf_now f = Some now \<longrightarrow> (\<exists>t'. now = Some t' \<and> t' \<in> set ts))"
  using assms
proof (induction fs arbitrary: ts)
  case (Cons x xs)
  obtain t where t: "sf_text x = Some t" using Cons.prems(1) by (cases "sf_text x") auto
  obtain new us where us: "file_texts xs = Some us" "ts = t # new @ us"
    "\<forall>now. sf_now x = Some now \<longrightarrow> (\<exists>t'. now = Some t' \<and> t' \<in> set (t # new))"
  proof (cases "sf_now x")
    case None
    then show thesis using Cons.prems(1) t that [of _ "[]"] by auto
  next
    case (Some now)
    then obtain t' where "now = Some t'" using Cons.prems(1) t by (cases now) auto
    then show thesis using Cons.prems(1) t Some that [of _ "if t' \<noteq> t then [t'] else []"] by auto
  qed
  show ?case
  proof (cases "f = x")
    case True
    then show ?thesis using t us by auto
  next
    case False
    then show ?thesis using Cons.IH [OF us(1)] Cons.prems(2) us(2) by auto
  qed
qed simp

text \<open>C6: a skill runs nothing the agent could not run as a shell call itself: a call that is let through is of
  a skill the session loaded and that has not changed while it did, and every command in its text, as loaded
  and as it is now, passes the gate as a Bash call.\<close>

theorem skill_runs_checked_commands:
  assumes "gate_tool_call E policy tool input cwd home skills project_root = Tool_Allow" and "tool \<in> set SKILL_TOOLS"
  shows "\<exists>call sn found texts. skill_call tool input = Inr call \<and> skills = Some sn \<and> \<not> sn_hidden sn \<and>
    map_of (sn_files sn) (sk_name call) = Some found \<and> sk_name call \<notin> sn_changed sn \<and>
    skill_texts sn (sk_name call) = Some texts \<and>
    (\<forall>f \<in> set found. \<exists>t. sf_text f = Some t \<and> t \<in> set texts \<and>
       (\<forall>now. sf_now f = Some now \<longrightarrow> (\<exists>t'. now = Some t' \<and> t' \<in> set texts))) \<and>
    (\<forall>text \<in> set texts. \<forall>c \<in> set (pe_skill_commands E text (sk_arguments call)).
       gate_tool_call E policy (uni ''Bash'') [(uni ''command'', Text c)] cwd home skills project_root = Tool_Allow)"
proof -
  have g: "gate_skill_call E policy tool input cwd home skills project_root = Tool_Allow"
    using assms by (auto simp: gate_tool_call_def split: tool_verdict.splits)
  then obtain call sn texts where c: "skill_call tool input = Inr call" "skills = Some sn" "skill_texts sn (sk_name call) = Some texts"
    by (auto simp: gate_skill_call_def split: sum.splits option.splits)
  let ?cs = "fold (\<lambda>text. fold (\<lambda>c found. if c \<in> set found then found else found @ [c])
    (pe_skill_commands E text (sk_arguments call))) texts []"
  have "?cs = [] \<or> commands_verdict E policy cwd home project_root ?cs = Tool_Allow"
    using g c by (auto simp: gate_skill_call_def Let_def split: if_splits)
  then have "commands_verdict E policy cwd home project_root ?cs = Tool_Allow"
    by (elim disjE) (simp_all only: commands_verdict.simps)
  then have all: "\<forall>x \<in> set ?cs. shell_gate E policy (uni ''Bash'') [(uni ''command'', Text x)] cwd home project_root = Tool_Allow"
    unfolding commands_allow .
  have bash: "uni ''Bash'' \<notin> set SKILL_TOOLS" by (simp add: SKILL_TOOLS_def uni_def)
  have cmds: "gate_tool_call E policy (uni ''Bash'') [(uni ''command'', Text x)] cwd home skills project_root = Tool_Allow"
    if "t \<in> set texts" "x \<in> set (pe_skill_commands E t (sk_arguments call))" for t x
  proof -
    have "x \<in> set ?cs" using that unfolding skill_command_set by auto
    then show ?thesis using all bash by (simp add: gate_tool_call_def)
  qed
  obtain found where f: "map_of (sn_files sn) (sk_name call) = Some found" "sk_name call \<notin> sn_changed sn" "file_texts found = Some texts"
    and h: "\<not> sn_hidden sn"
    using c(3) by (auto simp: skill_texts_def split: if_splits option.splits)
  have "\<forall>f \<in> set found. \<exists>t. sf_text f = Some t \<and> t \<in> set texts \<and>
       (\<forall>now. sf_now f = Some now \<longrightarrow> (\<exists>t'. now = Some t' \<and> t' \<in> set texts))"
    using file_texts_cover [OF f(3)] by blast
  then show ?thesis using c f(1,2) h cmds by blast
qed

section \<open>The whole gate\<close>

lemma content_allow:
  "content_verdict E s rules = Tool_Allow \<longleftrightarrow> (\<forall>r \<in> set rules. pe_search E (cr_pattern r) s = Some False)"
  by (induction rules) (auto split: option.splits bool.splits)

lemma checks_allow:
  "checks_verdict U found checks = Tool_Allow \<longleftrightarrow>
     (\<forall>c \<in> set checks. runs_any U (sp_commands found) (cc_runs c) = None \<and> reads_any U (sp_reads found) (cc_reads c) = None)"
  by (induction checks) (auto split: option.splits)

text \<open>C3: the gate fails closed: a call that is let through has a tool the agent was given, an input every
  content rule for the tool was run on, whole, without error and without a match, and, where it is a shell
  command, one that was parsed and of which no command and no read is one the checks name. An exception, a
  parse error or an input too long to check refuses it.\<close>

theorem gate_fails_closed:
  assumes "gate_tool_call E policy tool input cwd home skills project_root = Tool_Allow"
  shows "(\<forall>names. allowed_tools policy = Some names \<longrightarrow> tool \<in> set names \<union> {uni ''TodoWrite'', uni ''Skill'', uni ''SlashCommand''}) \<and>
    (\<forall>r \<in> set (content_checks policy). rule_applies r tool \<longrightarrow>
       int (length (stringify_input input)) \<le> 64 * 1024 \<and>
       pe_search E (cr_pattern r) (normalize_command (pe_unicode E) (stringify_input input)) = Some False) \<and>
    (tool \<in> {uni ''Bash'', uni ''Monitor''} \<longrightarrow>
       (\<forall>command. map_of input (uni ''command'') = Some (Text command) \<and> command \<noteq> [] \<longrightarrow>
         (\<exists>found. pe_parse E command cwd home = Parsed found \<and>
            (\<forall>c \<in> set (command_checks policy).
               runs_any (pe_unicode E) (sp_commands found) (cc_runs c) = None \<and>
               reads_any (pe_unicode E) (sp_reads found) (cc_reads c) = None))))"
proof -
  let ?raw = "stringify_input input"
  let ?rules = "filter (\<lambda>r. rule_applies r tool) (content_checks policy)"
  let ?checks = "if tool \<in> set SHELL_TOOLS then command_checks policy else []"
  have ev: "evaluate_policy E policy tool input cwd home = Tool_Allow"
    and r2: "evaluate_ring2_paths E policy tool input cwd home project_root = Tool_Allow"
    using assms by (auto simp: gate_tool_call_def shell_gate_def split: tool_verdict.splits)
  have names: "tool \<in> set names \<union> {uni ''TodoWrite'', uni ''Skill'', uni ''SlashCommand''}"
    if "allowed_tools policy = Some names" for names
    using ev that by (auto simp: evaluate_policy_def INFRA_ALLOWED_TOOLS_def split: if_splits)
  have raw: "checked_length ?raw \<and> content_verdict E (normalize_command (pe_unicode E) ?raw) ?rules = Tool_Allow"
    if "\<not> (?rules = [] \<and> ?checks = [])"
    using ev that by (cases "checked_length ?raw") (auto simp: evaluate_policy_def Let_def split: if_splits tool_verdict.splits)
  have content: "int (length ?raw) \<le> 64 * 1024 \<and> pe_search E (cr_pattern r) (normalize_command (pe_unicode E) ?raw) = Some False"
    if "r \<in> set (content_checks policy)" "rule_applies r tool" for r
  proof -
    have "r \<in> set ?rules" using that by simp
    moreover from this have "?rules \<noteq> []" by (metis empty_iff list.set(1))
    ultimately show ?thesis using raw unfolding content_allow checked_length_def MAX_CHECKED_INPUT_def by blast
  qed
  have shell: "\<exists>found. pe_parse E command cwd home = Parsed found \<and>
      (\<forall>c \<in> set (command_checks policy). runs_any (pe_unicode E) (sp_commands found) (cc_runs c) = None \<and>
         reads_any (pe_unicode E) (sp_reads found) (cc_reads c) = None)"
    if t: "tool \<in> set SHELL_TOOLS" and m: "map_of input (uni ''command'') = Some (Text command)" and n: "command \<noteq> []" for command
  proof (cases "command_checks policy = []")
    case True
    obtain found where "pe_parse E command cwd home = Parsed found"
      using r2 t m n by (auto simp: evaluate_ring2_paths_def candidate_paths_def split: if_splits shell_parse.splits)
    then show ?thesis using True by simp
  next
    case False
    note r = raw [unfolded if_P [OF t]]
    have "command_verdict E (command_checks policy) command cwd home = Tool_Allow"
      using ev r False t m n by (auto simp: evaluate_policy_def Let_def split: if_splits tool_verdict.splits)
    then show ?thesis by (auto simp: command_verdict_def checks_allow split: shell_parse.splits)
  qed
  have tools: "set SHELL_TOOLS = {uni ''Bash'', uni ''Monitor''}" by (simp add: SHELL_TOOLS_def)
  have "\<forall>command. map_of input (uni ''command'') = Some (Text command) \<and> command \<noteq> [] \<longrightarrow>
      (\<exists>found. pe_parse E command cwd home = Parsed found \<and>
         (\<forall>c \<in> set (command_checks policy). runs_any (pe_unicode E) (sp_commands found) (cc_runs c) = None \<and>
            reads_any (pe_unicode E) (sp_reads found) (cc_reads c) = None))" if "tool \<in> set SHELL_TOOLS"
    using shell [OF that] by blast
  moreover have "\<forall>r \<in> set (content_checks policy). rule_applies r tool \<longrightarrow> int (length ?raw) \<le> 64 * 1024 \<and>
      pe_search E (cr_pattern r) (normalize_command (pe_unicode E) ?raw) = Some False"
    using content by blast
  moreover have "\<forall>names. allowed_tools policy = Some names \<longrightarrow>
      tool \<in> set names \<union> {uni ''TodoWrite'', uni ''Skill'', uni ''SlashCommand''}"
    using names by blast
  ultimately show ?thesis unfolding tools [symmetric] by (intro conjI impI)
qed

definition demo_env :: policy_env where
  "demo_env = \<lparr>pe_unicode = ascii_unicode, pe_search = (\<lambda>_ _. Some False),
     pe_parse = (\<lambda>_ _ _. Parsed \<lparr>sp_reads = [exact_ref (uni ''/workspace/app.py'')],
                              sp_writes = [exact_ref (uni ''/workspace/out.txt'')], sp_commands = [uni ''cp'']\<rparr>),
     pe_user_home = (\<lambda>_. None), pe_word = (\<lambda>_. False), pe_skill_commands = (\<lambda>_ _. [uni ''cp app.py out.txt''])\<rparr>"

definition demo_policy :: safety_policy where
  "demo_policy = default_policy_for_agent [uni ''rm''] (uni ''developer'')"

definition demo_shell :: tool_input where
  "demo_shell = [(uni ''command'', Text (uni ''cp app.py out.txt''))]"

definition demo_write :: tool_input where
  "demo_write = [(uni ''file_path'', Text (uni ''docs/../src/app.py''))]"

definition demo_skills :: skill_snapshot where
  "demo_skills = \<lparr>sn_files = [(uni ''tidy'', [\<lparr>sf_text = Some (uni ''text''), sf_now = Some (Some (uni ''text''))\<rparr>])],
     sn_changed = {}, sn_hidden = False\<rparr>"

theorem gate_fails_closed_witness:
  "\<exists>found. pe_parse demo_env (uni ''cp app.py out.txt'') (uni ''/workspace'') (uni ''/home/agent'') = Parsed found \<and>
     reads_any (pe_unicode demo_env) (sp_reads found) SECRET_FILES = None"
proof -
  have "gate_tool_call demo_env demo_policy (uni ''Bash'') demo_shell (uni ''/workspace'') (uni ''/home/agent'') None None = Tool_Allow"
    by code_simp
  note gate_fails_closed [OF this, THEN conjunct2, THEN conjunct2]
  moreover have "map_of demo_shell (uni ''command'') = Some (Text (uni ''cp app.py out.txt''))" by (simp add: demo_shell_def)
  moreover have "uni ''cp app.py out.txt'' \<noteq> []" by (simp add: uni_def)
  moreover have "\<lparr>cc_runs = [], cc_reads = SECRET_FILES, cc_reason = uni ''a file of secrets''\<rparr> \<in> set (command_checks demo_policy)"
    by (simp add: demo_policy_def default_policy_for_agent_def)
  ultimately show ?thesis by fastforce
qed



theorem skill_runs_checked_commands_witness:
  "gate_tool_call demo_env demo_policy (uni ''Bash'') [(uni ''command'', Text (uni ''cp app.py out.txt''))]
     (uni ''/workspace'') (uni ''/home/agent'') (Some demo_skills) None = Tool_Allow"
proof -
  let ?input = "[(uni ''skill'', Text (uni ''tidy''))]"
  have c: "skill_call (uni ''Skill'') ?input = Inr \<lparr>sk_name = uni ''tidy'', sk_arguments = []\<rparr>" by code_simp
  have t: "skill_texts demo_skills (uni ''tidy'') = Some [uni ''text'']" by code_simp
  have "shell_gate demo_env demo_policy (uni ''Skill'') ?input (uni ''/workspace'') (uni ''/home/agent'') None = Tool_Allow"
    by code_simp
  moreover have "shell_gate demo_env demo_policy (uni ''Bash'') [(uni ''command'', Text (uni ''cp app.py out.txt''))]
      (uni ''/workspace'') (uni ''/home/agent'') None = Tool_Allow"
    by code_simp
  moreover have skills: "pe_skill_commands demo_env = (\<lambda>_ _. [uni ''cp app.py out.txt''])" by (simp add: demo_env_def)
  ultimately have g: "gate_tool_call demo_env demo_policy (uni ''Skill'') ?input (uni ''/workspace'') (uni ''/home/agent'') (Some demo_skills) None = Tool_Allow"
    using c t by (simp add: gate_tool_call_def gate_skill_call_def skills
        demo_policy_def default_policy_for_agent_def default_tools_for_agent_def AGENT_TOOLS_def SKILL_TOOLS_def uni_def)
  have "uni ''Skill'' \<in> set SKILL_TOOLS" by (simp add: SKILL_TOOLS_def)
  from skill_runs_checked_commands [OF g this]
  obtain texts where "skill_texts demo_skills (uni ''tidy'') = Some texts"
    "\<forall>t \<in> set texts. \<forall>c \<in> set (pe_skill_commands demo_env t []).
       gate_tool_call demo_env demo_policy (uni ''Bash'') [(uni ''command'', Text c)] (uni ''/workspace'') (uni ''/home/agent'') (Some demo_skills) None = Tool_Allow"
    using c by auto
  then show ?thesis using t skills by auto
qed

end
