(* ===== verification/Run_Slots.thy ===== *)
theory Run_Slots
  imports Prelude
begin

text \<open>
  The cap on jobs running at once (\<open>embry0/orchestration/run_slots.py\<close>). A \<open>RunSlot\<close> object is
  an entry of the heap \<open>slots\<close>, named by the number it was allocated under; the gate holds
  such numbers where the code holds references. The future a waiting task blocks on is the field
  \<open>waiter\<close>: the environment may cancel it at any time.
\<close>

datatype waiter = Pending | Resolved | Cancelled

record run_slot =
  slot_job :: pystr
  granted :: bool
  released :: bool
  waiter :: "waiter option"

record run_slots =
  slot_limit :: int
  holders :: "nat set"
  priority :: "nat list"
  ordinary :: "nat list"
  slots :: "nat \<rightharpoonup> run_slot"
  next_slot :: nat

datatype gate_error = ValueError int

definition new_run_slots :: "int \<Rightarrow> gate_error + run_slots" where
  "new_run_slots limit =
     (if limit < 0 then Inl (ValueError limit)
      else Inr \<lparr>slot_limit = limit, holders = {}, priority = [], ordinary = [],
                slots = Map.empty, next_slot = 0\<rparr>)"

definition running :: "run_slots \<Rightarrow> nat" where
  "running g = card (holders g)"

definition waiting :: "run_slots \<Rightarrow> nat" where
  "waiting g = length (priority g) + length (ordinary g)"

definition queued :: "run_slots \<Rightarrow> nat list" where
  "queued g = priority g @ ordinary g"

text \<open>\<open>self._limit == 0 or len(self._holders) < self._limit\<close>.\<close>

definition has_room :: "run_slots \<Rightarrow> bool" where
  "has_room g \<longleftrightarrow> slot_limit g = 0 \<or> int (running g) < slot_limit g"

definition grant_waiter :: "waiter option \<Rightarrow> waiter option" where
  "grant_waiter w = (case w of Some Pending \<Rightarrow> Some Resolved | _ \<Rightarrow> w)"

definition grant :: "nat \<Rightarrow> run_slots \<Rightarrow> run_slots" where
  "grant i g = g\<lparr>holders := insert i (holders g),
     slots := (slots g)(i := map_option
       (\<lambda>s. s\<lparr>granted := True, waiter := grant_waiter (waiter s)\<rparr>) (slots g i))\<rparr>"

definition claim :: "pystr \<Rightarrow> bool \<Rightarrow> run_slots \<Rightarrow> nat \<times> run_slots" where
  "claim job prio g =
     (let i = next_slot g;
          g1 = g\<lparr>slots := (slots g)(i \<mapsto>
                   \<lparr>slot_job = job, granted = False, released = False, waiter = None\<rparr>),
                 next_slot := Suc i\<rparr>
      in (i, if has_room g then grant i g1
             else if prio then g1\<lparr>priority := priority g1 @ [i]\<rparr>
             else g1\<lparr>ordinary := ordinary g1 @ [i]\<rparr>))"

definition position :: "nat \<Rightarrow> run_slots \<Rightarrow> nat option" where
  "position i g = place i (queued g)"

function grant_next :: "run_slots \<Rightarrow> run_slots" where
  "grant_next g =
     (if has_room g then
        (case priority g of
           i # q \<Rightarrow> grant_next (grant i (g\<lparr>priority := q\<rparr>))
         | [] \<Rightarrow> (case ordinary g of
             i # q \<Rightarrow> grant_next (grant i (g\<lparr>ordinary := q\<rparr>))
           | [] \<Rightarrow> g))
      else g)"
  by pat_completeness auto
termination
  by (relation "measure waiting") (auto simp: waiting_def grant_def)

declare grant_next.simps [simp del]

definition gate_release :: "nat \<Rightarrow> run_slots \<Rightarrow> run_slots" where
  "gate_release i g =
     (if i \<in> holders g then grant_next (g\<lparr>holders := holders g - {i}\<rparr>)
      else if i \<in> set (priority g) then g\<lparr>priority := remove1 i (priority g)\<rparr>
      else if i \<in> set (ordinary g) then g\<lparr>ordinary := remove1 i (ordinary g)\<rparr>
      else g)"

text \<open>\<open>RunSlot.release\<close>: idempotent, marks the slot before it tells the gate.\<close>

definition release :: "nat \<Rightarrow> run_slots \<Rightarrow> run_slots" where
  "release i g =
     (case slots g i of
        None \<Rightarrow> g
      | Some s \<Rightarrow>
          if released s then g
          else gate_release i (g\<lparr>slots := (slots g)(i \<mapsto> s\<lparr>released := True\<rparr>)\<rparr>))"

text \<open>
  \<open>RunSlot.wait\<close> up to its suspension: True when it returns at once, else the future is
  created (once) and the task blocks on it.
\<close>

definition wait_slot :: "nat \<Rightarrow> run_slots \<Rightarrow> bool \<times> run_slots" where
  "wait_slot i g =
     (case slots g i of
        None \<Rightarrow> (False, g)
      | Some s \<Rightarrow>
          if granted s then (True, g)
          else if waiter s = None
          then (False, g\<lparr>slots := (slots g)(i \<mapsto> s\<lparr>waiter := Some Pending\<rparr>)\<rparr>)
          else (False, g))"

text \<open>The environment: the waiting task is cancelled, which cancels its future.\<close>

definition cancel_wait :: "nat \<Rightarrow> run_slots \<Rightarrow> run_slots" where
  "cancel_wait i g =
     (case slots g i of
        Some s \<Rightarrow> (if waiter s = Some Pending
                  then g\<lparr>slots := (slots g)(i \<mapsto> s\<lparr>waiter := Some Cancelled\<rparr>)\<rparr> else g)
      | None \<Rightarrow> g)"


subsection \<open>The events of a gate and its reachable states\<close>

datatype gate_event = Claim pystr bool | Wait nat | Cancel_Wait nat | Release nat

inductive gate_step :: "run_slots \<Rightarrow> gate_event \<Rightarrow> run_slots \<Rightarrow> bool" where
  gs_claim: "claim job prio g = (i, g') \<Longrightarrow> gate_step g (Claim job prio) g'"
| gs_wait: "wait_slot i g = (b, g') \<Longrightarrow> gate_step g (Wait i) g'"
| gs_cancel: "gate_step g (Cancel_Wait i) (cancel_wait i g)"
| gs_release: "gate_step g (Release i) (release i g)"

inductive_cases gate_step_ClaimE: "gate_step g (Claim job prio) g'"
inductive_cases gate_step_ReleaseE: "gate_step g (Release i) g'"
inductive_simps gate_step_simps [simp]:
  "gate_step g (Claim job prio) g'" "gate_step g (Wait i) g'"
  "gate_step g (Cancel_Wait i) g'" "gate_step g (Release i) g'"

inductive gate_reachable :: "int \<Rightarrow> run_slots \<Rightarrow> bool" where
  gr_new: "new_run_slots limit = Inr g \<Longrightarrow> gate_reachable limit g"
| gr_step: "gate_reachable limit g \<Longrightarrow> gate_step g e g' \<Longrightarrow> gate_reachable limit g'"

subsection \<open>The invariant\<close>

text \<open>
  What holds at every moment, inside an operation included: the cap, no slot both running and
  waiting, every slot in the gate allocated.
\<close>

definition gate_core :: "run_slots \<Rightarrow> bool" where
  "gate_core g \<longleftrightarrow>
     0 \<le> slot_limit g \<and> finite (holders g) \<and>
     (0 < slot_limit g \<longrightarrow> int (running g) \<le> slot_limit g) \<and>
     distinct (queued g) \<and> holders g \<inter> set (queued g) = {} \<and>
     (\<forall>i. slots g i = None \<longleftrightarrow> next_slot g \<le> i) \<and>
     (\<forall>i \<in> holders g \<union> set (queued g). i < next_slot g)"

text \<open>How a slot's own flags agree with where the gate keeps it.\<close>

definition slot_agrees :: "run_slots \<Rightarrow> nat \<Rightarrow> run_slot \<Rightarrow> bool" where
  "slot_agrees g i s \<longleftrightarrow>
     (i \<in> holders g \<longleftrightarrow> granted s \<and> \<not> released s) \<and>
     (i \<in> set (queued g) \<longleftrightarrow> \<not> granted s \<and> \<not> released s) \<and>
     (granted s \<longrightarrow> waiter s \<noteq> Some Pending)"

definition work_conserving :: "run_slots \<Rightarrow> bool" where
  "work_conserving g \<longleftrightarrow> (queued g \<noteq> [] \<longrightarrow> \<not> has_room g)"

definition gate_inv :: "run_slots \<Rightarrow> bool" where
  "gate_inv g \<longleftrightarrow> gate_core g \<and> work_conserving g \<and>
     (\<forall>i s. slots g i = Some s \<longrightarrow> slot_agrees g i s)"

lemmas gate_defs = gate_core_def slot_agrees_def work_conserving_def queued_def running_def has_room_def

lemma slots_update_sel [simp]:
  "queued (g\<lparr>slots := f\<rparr>) = queued g" "running (g\<lparr>slots := f\<rparr>) = running g"
  "has_room (g\<lparr>slots := f\<rparr>) = has_room g"
  "work_conserving (g\<lparr>slots := f\<rparr>) = work_conserving g"
  "slot_agrees (g\<lparr>slots := f\<rparr>) = slot_agrees g"
  by (simp_all add: gate_defs fun_eq_iff)

lemma grant_waiter_not_Pending [simp]: "grant_waiter w \<noteq> Some Pending"
  by (simp add: grant_waiter_def split: option.split waiter.split)

lemma grant_sel [simp]:
  "slot_limit (grant i g) = slot_limit g" "holders (grant i g) = insert i (holders g)"
  "priority (grant i g) = priority g" "ordinary (grant i g) = ordinary g"
  "next_slot (grant i g) = next_slot g" "queued (grant i g) = queued g"
  by (simp_all add: grant_def queued_def)

text \<open>One round of the granting loop, seen on the queue as a whole.\<close>

definition pop_grant :: "run_slots \<Rightarrow> run_slots" where
  "pop_grant g =
     (case priority g of
        i # q \<Rightarrow> grant i (g\<lparr>priority := q\<rparr>)
      | [] \<Rightarrow> (case ordinary g of i # q \<Rightarrow> grant i (g\<lparr>ordinary := q\<rparr>) | [] \<Rightarrow> g))"

lemma grant_next_pop:
  "grant_next g = (if has_room g \<and> queued g \<noteq> [] then grant_next (pop_grant g) else g)"
  by (subst grant_next.simps) (auto simp: pop_grant_def queued_def split: list.splits)

lemma pop_grant_sel:
  assumes "queued g = i # q"
  shows "queued (pop_grant g) = q" "holders (pop_grant g) = insert i (holders g)"
    "slot_limit (pop_grant g) = slot_limit g" "next_slot (pop_grant g) = next_slot g"
    "slots (pop_grant g) = (slots g)(i := map_option
       (\<lambda>s. s\<lparr>granted := True, waiter := grant_waiter (waiter s)\<rparr>) (slots g i))"
  using assms by (auto simp: pop_grant_def queued_def grant_def split: list.splits)

lemma pop_grant_core:
  assumes "gate_core g" "has_room g" "queued g \<noteq> []"
  shows "gate_core (pop_grant g)"
proof -
  from assms(3) obtain i q where q: "queued g = i # q" by (cases "queued g") auto
  have "int (card (insert i (holders g))) \<le> slot_limit g" if "0 < slot_limit g"
    using assms(1,2) that by (simp add: gate_core_def has_room_def running_def card_insert_if)
  with assms(1) show ?thesis
    by (auto simp: gate_core_def running_def q pop_grant_sel [OF q])
qed

lemma pop_grant_agrees:
  assumes "gate_core g" "queued g \<noteq> []"
    and "\<And>s. slots g j = Some s \<Longrightarrow> slot_agrees g j s"
    and "slots (pop_grant g) j = Some s'"
  shows "slot_agrees (pop_grant g) j s'"
proof -
  from assms(2) obtain i q where q: "queued g = i # q" by (cases "queued g") auto
  from assms(1) have "i \<notin> set q" "i \<notin> holders g" by (auto simp: gate_core_def q)
  with assms(3,4) show ?thesis
    by (auto simp: slot_agrees_def pop_grant_sel [OF q] q split: if_splits)
qed

text \<open>
  The agreement is carried for every slot but an excepted set: inside \<open>release\<close> the slot being
  released has left the gate before its grant is handed on.
\<close>

lemma grant_next_inv:
  assumes "gate_core g" and "\<And>j s. j \<notin> X \<Longrightarrow> slots g j = Some s \<Longrightarrow> slot_agrees g j s"
    and "X \<inter> set (queued g) = {}"
  shows "gate_core (grant_next g) \<and> work_conserving (grant_next g) \<and>
    (\<forall>j s. j \<notin> X \<longrightarrow> slots (grant_next g) j = Some s \<longrightarrow> slot_agrees (grant_next g) j s) \<and>
    (\<forall>j \<in> X. slots (grant_next g) j = slots g j) \<and> next_slot (grant_next g) = next_slot g"
  using assms
proof (induction "waiting g" arbitrary: g rule: less_induct)
  case less
  show ?case
  proof (cases "has_room g \<and> queued g \<noteq> []")
    case False
    then show ?thesis
      using less.prems by (auto simp: grant_next_pop [of g] work_conserving_def)
  next
    case True
    then obtain i q where q: "queued g = i # q" by (cases "queued g") auto
    note sel = pop_grant_sel [OF q]
    have w: "waiting (pop_grant g) < waiting g"
      using q by (auto simp: waiting_def pop_grant_def queued_def split: list.splits)
    have i: "i \<notin> X" using less.prems(3) q by auto
    have "gate_core (pop_grant g)" using less.prems(1) True by (simp add: pop_grant_core)
    moreover have "slot_agrees (pop_grant g) j s"
      if "j \<notin> X" "slots (pop_grant g) j = Some s" for j s
      using pop_grant_agrees [OF less.prems(1) _ less.prems(2)] that True by blast
    moreover have "X \<inter> set (queued (pop_grant g)) = {}" using less.prems(3) q sel by auto
    ultimately have IH: "gate_core (grant_next (pop_grant g)) \<and> work_conserving (grant_next (pop_grant g)) \<and>
      (\<forall>j s. j \<notin> X \<longrightarrow> slots (grant_next (pop_grant g)) j = Some s \<longrightarrow>
         slot_agrees (grant_next (pop_grant g)) j s) \<and>
      (\<forall>j \<in> X. slots (grant_next (pop_grant g)) j = slots (pop_grant g) j) \<and>
      next_slot (grant_next (pop_grant g)) = next_slot (pop_grant g)"
      using less.hyps [OF w] by blast
    moreover have "slots (pop_grant g) j = slots g j" if "j \<in> X" for j using that i sel by auto
    ultimately show ?thesis using True by (simp add: grant_next_pop [of g] sel)
  qed
qed


lemma grant_next_take:
  "\<exists>k. queued (grant_next g) = drop k (queued g) \<and>
       holders (grant_next g) = holders g \<union> set (take k (queued g)) \<and>
       slot_limit (grant_next g) = slot_limit g"
proof (induction "waiting g" arbitrary: g rule: less_induct)
  case less
  show ?case
  proof (cases "has_room g \<and> queued g \<noteq> []")
    case False
    then show ?thesis by (intro exI [of _ 0]) (auto simp: grant_next_pop [of g])
  next
    case True
    then obtain i q where q: "queued g = i # q" by (cases "queued g") auto
    have "waiting (pop_grant g) < waiting g"
      using q by (auto simp: waiting_def pop_grant_def queued_def split: list.splits)
    from less.hyps [OF this] obtain k where
      "queued (grant_next (pop_grant g)) = drop k q \<and>
       holders (grant_next (pop_grant g)) = insert i (holders g) \<union> set (take k q) \<and>
       slot_limit (grant_next (pop_grant g)) = slot_limit g"
      using pop_grant_sel [OF q] by auto
    with True q show ?thesis by (intro exI [of _ "Suc k"]) (simp add: grant_next_pop [of g])
  qed
qed

text \<open>With exactly one place free, exactly the head of the queue moves.\<close>

lemma grant_next_one:
  assumes "gate_core g" "0 < slot_limit g" "int (running g) = slot_limit g - 1"
  shows "queued (grant_next g) = tl (queued g)"
    and "holders (grant_next g) = holders g \<union> set (take 1 (queued g))"
proof -
  have room: "has_room g" using assms(3) by (simp add: has_room_def)
  have "queued (grant_next g) = tl (queued g) \<and>
        holders (grant_next g) = holders g \<union> set (take 1 (queued g))"
  proof (cases "queued g")
    case Nil
    then show ?thesis by (simp add: grant_next_pop [of g])
  next
    case (Cons i q)
    from assms(1) Cons have "i \<notin> holders g" "finite (holders g)" by (auto simp: gate_core_def)
    then have "\<not> has_room (pop_grant g)"
      using assms(2,3) by (simp add: has_room_def running_def pop_grant_sel [OF Cons])
    then have "grant_next (pop_grant g) = pop_grant g" by (simp add: grant_next_pop [of "pop_grant g"])
    with room Cons show ?thesis by (simp add: grant_next_pop [of g] pop_grant_sel [OF Cons])
  qed
  then show "queued (grant_next g) = tl (queued g)"
    and "holders (grant_next g) = holders g \<union> set (take 1 (queued g))" by auto
qed

subsection \<open>Every operation keeps the invariant\<close>

lemma gate_inv_new [inv_intros]: "new_run_slots limit = Inr g \<Longrightarrow> gate_inv g"
  by (auto simp: new_run_slots_def gate_inv_def gate_defs split: if_splits)

lemma gate_inv_slotD:
  "gate_inv g \<Longrightarrow> slots g i = Some s \<Longrightarrow> slot_agrees g i s"
  by (simp add: gate_inv_def)

lemma gate_inv_coreD: "gate_inv g \<Longrightarrow> gate_core g"
  by (simp add: gate_inv_def)

lemma gate_core_slot_update:
  assumes "gate_core g" "slots g i = Some s"
  shows "gate_core (g\<lparr>slots := (slots g)(i \<mapsto> s')\<rparr>)"
  using assms by (simp add: gate_core_def) (metis option.distinct(1))

lemma gate_core_drop_holder:
  assumes "gate_core g"
  shows "gate_core (g\<lparr>holders := holders g - {i}\<rparr>)"
proof -
  have "int (card (holders g - {i})) \<le> int (card (holders g))"
    using assms by (simp add: gate_core_def card_Diff1_le)
  with assms show ?thesis
    by (auto simp: gate_core_def running_def queued_def)
qed

text \<open>A change of one waiting slot's own fields leaves the gate's part alone.\<close>

lemma gate_inv_slot_update:
  assumes "gate_inv g" "slots g i = Some s" "slot_agrees g i s'"
  shows "gate_inv (g\<lparr>slots := (slots g)(i \<mapsto> s')\<rparr>)"
  using assms gate_core_slot_update [of g i s s'] by (simp add: gate_inv_def)

lemma gate_inv_wait [inv_intros]:
  assumes "gate_inv g" "wait_slot i g = (b, g')"
  shows "gate_inv g'"
proof (cases "slots g i")
  case None
  with assms show ?thesis by (simp add: wait_slot_def)
next
  case (Some s)
  have "slot_agrees g i (s\<lparr>waiter := Some Pending\<rparr>)" if "\<not> granted s"
    using gate_inv_slotD [OF assms(1) Some] that by (simp add: slot_agrees_def)
  with assms Some show ?thesis
    by (auto simp: wait_slot_def intro: gate_inv_slot_update split: if_splits)
qed

lemma gate_inv_cancel [inv_intros]:
  assumes "gate_inv g"
  shows "gate_inv (cancel_wait i g)"
proof (cases "slots g i")
  case None
  with assms show ?thesis by (simp add: cancel_wait_def)
next
  case (Some s)
  have "slot_agrees g i (s\<lparr>waiter := Some Cancelled\<rparr>)"
    using gate_inv_slotD [OF assms Some] by (simp add: slot_agrees_def)
  with assms Some show ?thesis
    by (auto simp: cancel_wait_def intro: gate_inv_slot_update)
qed

lemma claim_granted:
  assumes "gate_inv g" "claim job prio g = (i, g')" "has_room g"
  shows "holders g' = insert i (holders g)" "queued g' = queued g" "i = next_slot g"
  using assms by (auto simp: claim_def Let_def queued_def grant_def)

lemma gate_inv_claim [inv_intros]:
  assumes inv: "gate_inv g" and c: "claim job prio g = (i, g')"
  shows "gate_inv g'"
proof -
  have i: "i = next_slot g" using c by (simp add: claim_def Let_def)
  have core: "gate_core g" using inv by (rule gate_inv_coreD)
  then have fresh: "slots g i = None" "i \<notin> holders g" "i \<notin> set (queued g)"
    by (auto simp: gate_core_def i)
  have g': "slot_limit g' = slot_limit g" "next_slot g' = Suc i"
    "holders g' = (if has_room g then insert i (holders g) else holders g)"
    "set (queued g') = (if has_room g then set (queued g) else insert i (set (queued g)))"
    "distinct (queued g') \<longleftrightarrow> distinct (queued g)"
    "slots g' = (slots g)(i \<mapsto> \<lparr>slot_job = job, granted = has_room g, released = False, waiter = None\<rparr>)"
    using c fresh
    by (auto simp: claim_def Let_def i grant_def queued_def grant_waiter_def split: if_splits)
  show ?thesis
  proof (cases "has_room g")
    case True
    then have q: "queued g = []" using inv by (simp add: gate_inv_def work_conserving_def)
    from True have "int (card (insert i (holders g))) \<le> slot_limit g" if "0 < slot_limit g"
      using that fresh core by (simp add: has_room_def running_def gate_core_def)
    then have "gate_core g'"
      using core q i True by (auto simp: gate_core_def running_def g')
    moreover have "slot_agrees g' j s" if "slots g' j = Some s" for j s
      using that gate_inv_slotD [OF inv, of j s] q True
      by (auto simp: g' slot_agrees_def grant_waiter_def split: if_splits)
    moreover have "set (queued g') = {}" using q True by (simp add: g')
    ultimately show ?thesis by (simp add: gate_inv_def work_conserving_def)
  next
    case False
    have "slot_agrees g' j s" if "slots g' j = Some s" for j s
      using that gate_inv_slotD [OF inv, of j s] fresh False
      by (auto simp: g' slot_agrees_def split: if_splits)
    moreover have "gate_core g'"
      using core fresh False i by (auto simp: gate_core_def running_def g' less_Suc_eq)
    moreover have "work_conserving g'"
      using False by (simp add: work_conserving_def has_room_def running_def g')
    ultimately show ?thesis by (simp add: gate_inv_def)
  qed
qed


lemma gate_inv_gate_release:
  assumes inv: "gate_inv g" and s: "slots g i = Some s" and r: "\<not> released s"
  defines "g1 \<equiv> g\<lparr>slots := (slots g)(i \<mapsto> s\<lparr>released := True\<rparr>)\<rparr>"
  shows "gate_inv (gate_release i g1)"
proof -
  have core: "gate_core g" and wc: "work_conserving g" using inv by (simp_all add: gate_inv_def)
  have core1: "gate_core g1"
    using gate_core_slot_update [OF core s] by (simp add: g1_def)
  have agree: "slot_agrees g j s'" if "slots g j = Some s'" for j s'
    using inv that by (rule gate_inv_slotD)
  show ?thesis
  proof (cases "i \<in> holders g")
    case True
    define g2 where "g2 = g1\<lparr>holders := holders g1 - {i}\<rparr>"
    have q: "i \<notin> set (queued g2)" "i \<notin> holders g2"
      using core True by (auto simp: g2_def g1_def gate_core_def queued_def)
    have core2: "gate_core g2"
      using gate_core_drop_holder [OF core1] by (simp add: g2_def)
    have agree2: "slot_agrees g2 j s'" if "j \<notin> {i}" "slots g2 j = Some s'" for j s'
      using that agree [of j s'] by (auto simp: g2_def g1_def slot_agrees_def queued_def)
    have X: "{i} \<inter> set (queued g2) = {}" using q by simp
    note G = grant_next_inv [OF core2 agree2 X]
    obtain k where "queued (grant_next g2) = drop k (queued g2)"
      "holders (grant_next g2) = holders g2 \<union> set (take k (queued g2))"
      using grant_next_take by blast
    then have out: "i \<notin> holders (grant_next g2)" "i \<notin> set (queued (grant_next g2))"
      using q by (auto dest: in_set_takeD in_set_dropD)
    have "slots (grant_next g2) i = Some (s\<lparr>released := True\<rparr>)"
      using G by (simp add: g2_def g1_def)
    then have "slot_agrees (grant_next g2) i s'" if "slots (grant_next g2) i = Some s'" for s'
      using that out agree [OF s] by (auto simp: slot_agrees_def)
    then have "gate_inv (grant_next g2)"
      using G by (auto simp: gate_inv_def) (metis singletonD)
    then show ?thesis using True by (simp add: gate_release_def g2_def g1_def)
  next
    case False
    define g2 where "g2 = gate_release i g1"
    have g2: "holders g2 = holders g" "slot_limit g2 = slot_limit g" "next_slot g2 = next_slot g"
      "slots g2 = slots g1" "set (queued g2) = set (queued g) - {i}" "distinct (queued g2)"
      using core False by (auto simp: g2_def gate_release_def g1_def queued_def gate_core_def)
    have "gate_core g2"
      using core1 g2 False by (auto simp: gate_core_def running_def g1_def)
    moreover have "work_conserving g2"
      using wc g2 False
      by (cases "queued g") (auto simp: work_conserving_def has_room_def running_def)
    moreover have "slot_agrees g2 j s'" if "slots g2 j = Some s'" for j s'
      using that agree [of j] agree [OF s] g2 False
      by (auto simp: slot_agrees_def g1_def split: if_splits)
    ultimately show ?thesis by (simp add: gate_inv_def g2_def)
  qed
qed

lemma gate_inv_release [inv_intros]: "gate_inv g \<Longrightarrow> gate_inv (release i g)"
  by (auto simp: release_def intro: gate_inv_gate_release split: option.split)

lemma gate_step_inv: "gate_step g e g' \<Longrightarrow> gate_inv g \<Longrightarrow> gate_inv g'"
  by (induction rule: gate_step.induct) (auto intro: inv_intros)

lemma gate_reachable_inv: "gate_reachable limit g \<Longrightarrow> gate_inv g"
  by (induction rule: gate_reachable.induct) (auto intro: inv_intros gate_step_inv)

lemma release_limit [simp]: "slot_limit (release i g) = slot_limit g"
proof -
  have "slot_limit (gate_release i h) = slot_limit h" for h
    using grant_next_take [of "h\<lparr>holders := holders h - {i}\<rparr>"] by (auto simp: gate_release_def)
  then show ?thesis by (simp add: release_def split: option.split)
qed

lemma gate_step_limit: "gate_step g e g' \<Longrightarrow> slot_limit g' = slot_limit g"
  by (induction rule: gate_step.induct)
    (auto simp: claim_def wait_slot_def cancel_wait_def Let_def split: if_splits option.splits)

lemma gate_reachable_limit: "gate_reachable limit g \<Longrightarrow> slot_limit g = limit"
  by (induction rule: gate_reachable.induct)
    (auto simp: new_run_slots_def gate_step_limit split: if_splits)

subsection \<open>Handing a slot on\<close>

lemma inv_holder:
  assumes "gate_inv g" "i \<in> holders g"
  obtains s where "slots g i = Some s" "granted s" "\<not> released s"
proof -
  from assms have "i < next_slot g" "slots g i = None \<longleftrightarrow> next_slot g \<le> i"
    by (auto simp: gate_inv_def gate_core_def)
  then obtain s where "slots g i = Some s" by (cases "slots g i") auto
  with that assms show ?thesis by (auto dest: gate_inv_slotD simp: slot_agrees_def)
qed

text \<open>Releasing a running slot while others wait: the head of the queue gets it.\<close>

lemma release_holder:
  assumes inv: "gate_inv g" and i: "i \<in> holders g" and q: "queued g \<noteq> []"
  shows "queued (release i g) = tl (queued g)"
    and "holders (release i g) = insert (hd (queued g)) (holders g - {i})"
proof -
  obtain s where s: "slots g i = Some s" "\<not> released s" using inv i by (rule inv_holder)
  define g2 where "g2 = g\<lparr>slots := (slots g)(i \<mapsto> s\<lparr>released := True\<rparr>), holders := holders g - {i}\<rparr>"
  have rel: "release i g = grant_next g2"
    using s i by (simp add: release_def gate_release_def g2_def)
  have core: "gate_core g" using inv by (rule gate_inv_coreD)
  have full: "0 < slot_limit g" "int (running g) = slot_limit g"
    using inv q by (auto simp: gate_inv_def gate_defs)
  have fin: "finite (holders g)" "0 < card (holders g)"
    using core i by (auto simp: gate_core_def card_gt_0_iff)
  then have one: "int (running g2) = slot_limit g2 - 1"
    using full i by (simp add: g2_def running_def card_Diff_singleton)
  have q2: "queued g2 = queued g" by (simp add: g2_def queued_def)
  have "gate_core g2"
    using gate_core_drop_holder [OF gate_core_slot_update [OF core s(1)]] by (simp add: g2_def)
  note N = grant_next_one [OF this _ one]
  have sel: "0 < slot_limit g2" "holders g2 = holders g - {i}" using full by (simp_all add: g2_def)
  show "queued (release i g) = tl (queued g)"
    using N(1) [OF sel(1)] by (simp only: rel q2)
  have "holders (release i g) = (holders g - {i}) \<union> set (take 1 (queued g))"
    using N(2) [OF sel(1)] by (simp only: rel q2 sel)
  moreover have "set (take 1 (queued g)) = {hd (queued g)}" using q by (cases "queued g") auto
  ultimately show "holders (release i g) = insert (hd (queued g)) (holders g - {i})" by simp
qed

text \<open>A run in which slots other than \<open>w\<close> give their place back, one after another.\<close>

fun holders_return :: "nat \<Rightarrow> nat list \<Rightarrow> run_slots \<Rightarrow> bool" where
  "holders_return w [] g = True"
| "holders_return w (h # hs) g \<longleftrightarrow> h \<in> holders g \<and> h \<noteq> w \<and> holders_return w hs (release h g)"

lemma position_release:
  assumes "gate_inv g" "h \<in> holders g" "position w g = Some n"
  shows "if n = 1 then w \<in> holders (release h g) else position w (release h g) = Some (n - 1)"
proof -
  from assms(3) obtain x q where q: "queued g = x # q"
    by (cases "queued g") (auto simp: position_def)
  then show ?thesis
    using assms release_holder [OF assms(1,2)]
    by (auto simp: position_def split: if_splits dest: place_ge_1)
qed

lemma fold_release_holder:
  assumes "gate_inv g" "w \<in> holders g" "holders_return w hs g"
  shows "w \<in> holders (fold release hs g)"
  using assms
proof (induction hs arbitrary: g)
  case (Cons h hs)
  then obtain s where s: "slots g h = Some s" "\<not> released s" by (auto elim: inv_holder)
  have "w \<in> holders (release h g)"
    using Cons.prems s grant_next_take [of "g\<lparr>slots := (slots g)(h \<mapsto> s\<lparr>released := True\<rparr>), holders := holders g - {h}\<rparr>"]
    by (auto simp: release_def gate_release_def)
  with Cons show ?case by (auto intro: gate_inv_release)
qed simp


subsection \<open>Properties\<close>

text \<open>C1: in every state the gate can reach, at most \<open>limit\<close> jobs run at once when the limit is
  not 0, no job both runs and waits, and no job waits while a place is free.\<close>

theorem run_slots_cap:
  assumes "gate_reachable limit g"
  shows "(limit = 0 \<or> int (running g) \<le> limit) \<and>
    holders g \<inter> set (queued g) = {} \<and> distinct (queued g) \<and>
    (queued g \<noteq> [] \<longrightarrow> 0 < limit \<and> int (running g) = limit)"
  using gate_reachable_inv [OF assms] gate_reachable_limit [OF assms]
  by (auto simp: gate_inv_def gate_defs)

theorem run_slots_cap_witness:
  "\<exists>g. gate_reachable 1 g \<and> queued g = [1] \<and> int (running g) \<le> 1"
proof -
  obtain g0 where g0: "new_run_slots 1 = Inr g0" by (simp add: new_run_slots_def)
  define g1 where "g1 = snd (claim ''a'' False g0)"
  define g2 where "g2 = snd (claim ''b'' False g1)"
  have "gate_reachable 1 g2"
    unfolding g2_def g1_def
    by (rule gr_step [OF gr_step [OF gr_new [OF g0]]]; rule gs_claim; rule surjective_pairing)
  moreover have "queued g2 = [1]"
    using g0 by (auto simp: new_run_slots_def g1_def g2_def claim_def grant_def has_room_def
        running_def queued_def Let_def)
  ultimately show ?thesis using run_slots_cap [of 1 g2] by auto
qed


definition three_claims :: "run_slots" where
  "three_claims = (let g0 = \<lparr>slot_limit = 1, holders = {}, priority = [], ordinary = [],
                slots = Map.empty, next_slot = 0\<rparr>
     in snd (claim ''resume'' True (snd (claim ''b'' False (snd (claim ''a'' False g0))))))"

lemma three_claims_reachable: "gate_reachable 1 three_claims"
  unfolding three_claims_def Let_def
  by (rule gr_step [OF gr_step [OF gr_step [OF gr_new]]]; (rule gs_claim, rule surjective_pairing)?)
    (simp add: new_run_slots_def)



text \<open>A claim made while the gate is full joins the queue behind the claims of its own kind,
  and a priority claim ahead of every ordinary one; no other claim loses more than the one place
  a priority claim takes.\<close>

lemma claim_position:
  assumes "gate_reachable limit g" and "\<not> has_room g" and "claim job prio g = (i, g')"
  shows "position i g' = Some (if prio then Suc (length (priority g)) else Suc (waiting g)) \<and>
    (\<forall>j. position j g' = (if j = i then position i g'
       else if prio \<and> j \<in> set (ordinary g) then map_option Suc (position j g) else position j g))"
proof -
  have inv: "gate_core g" using assms(1) by (simp add: gate_reachable_inv gate_inv_coreD)
  have i: "i = next_slot g" using assms(3) by (simp add: claim_def Let_def)
  have fresh: "i \<notin> set (priority g)" "i \<notin> set (ordinary g)"
    "set (priority g) \<inter> set (ordinary g) = {}"
    using inv by (auto simp: gate_core_def i queued_def)
  have q: "queued g' = (if prio then priority g @ i # ordinary g else priority g @ ordinary g @ [i])"
    using assms(2,3) by (auto simp: claim_def Let_def i queued_def)
  have at: "place i (xs @ i # ys) = Some (Suc (length xs))" if "i \<notin> set xs" for xs ys
    using that by (simp add: place_append_right)
  have "position i g' = Some (if prio then Suc (length (priority g)) else Suc (waiting g))"
    using fresh at [of "priority g" "ordinary g"] at [of "priority g @ ordinary g" "[]"]
    by (simp add: position_def q waiting_def)
  moreover have "position j g' =
      (if prio \<and> j \<in> set (ordinary g) then map_option Suc (position j g) else position j g)"
    if "j \<noteq> i" for j
  proof -
    have skip: "place j (xs @ [i]) = place j xs" for xs
      using that by (induction xs) auto
    have pos: "position j g = place j (priority g @ ordinary g)"
      "position j g' = place j (if prio then priority g @ i # ordinary g
                                else (priority g @ ordinary g) @ [i])"
      by (simp_all add: position_def q) (simp add: queued_def)
    show ?thesis
    proof (cases "j \<in> set (priority g)")
      case True
      then show ?thesis
        using fresh skip [of "priority g @ ordinary g"]
        by (auto simp: pos place_append_left)
    next
      case False
      then show ?thesis
        using that skip [of "priority g @ ordinary g"]
        by (auto simp: pos place_append_right split: option.split dest: place_SomeD)
    qed
  qed
  ultimately show ?thesis by auto
qed

lemma claim_position_witness:
  "position 3 (snd (claim ''r2'' True three_claims)) = Some 2"
proof -
  note r = three_claims_reachable
  have h: "\<not> has_room three_claims" "priority three_claims = [2]" "next_slot three_claims = 3"
    by (simp_all add: three_claims_def Let_def claim_def grant_def has_room_def running_def)
  have c: "claim ''r2'' True three_claims = (3, snd (claim ''r2'' True three_claims))"
    using h by (simp add: claim_def Let_def)
  from claim_position [OF r h(1) c, THEN conjunct1] show ?thesis using h by simp
qed

lemma grant_next_keeps_released:
  "map_option released (slots (grant_next g) i) = map_option released (slots g i)"
proof (induction "waiting g" arbitrary: g rule: less_induct)
  case less
  show ?case
  proof (cases "has_room g \<and> queued g \<noteq> []")
    case True
    then obtain j q where q: "queued g = j # q" by (cases "queued g") auto
    have "waiting (pop_grant g) < waiting g"
      using q by (auto simp: waiting_def pop_grant_def queued_def split: list.splits)
    with less True show ?thesis
      by (auto simp: grant_next_pop [of g] pop_grant_sel [OF q] option.map_comp comp_def)
  qed (auto simp: grant_next_pop [of g])
qed

lemma gate_release_keeps_released:
  "map_option released (slots (gate_release j g) i) = map_option released (slots g i)"
  by (simp add: gate_release_def grant_next_keeps_released)

text \<open>\<open>RunSlot.release\<close> may be called again at any later moment without effect, and a claim
  that was given back neither runs nor waits.\<close>

lemma release_final:
  assumes "gate_reachable limit g" and "slots g i \<noteq> None"
  shows "release i (release i g) = release i g \<and>
    i \<notin> holders (release i g) \<and> position i (release i g) = None"
proof -
  have "map_option released (slots (release i g) i) = Some True"
    using assms(2) gate_release_keeps_released [of i _ i]
    by (cases "slots g i") (simp_all add: release_def del: map_option_eq_Some)
  then obtain s where s: "slots (release i g) i = Some s" "released s" by auto
  have "slot_agrees (release i g) i s"
    using s(1) by (intro gate_inv_slotD gate_inv_release gate_reachable_inv [OF assms(1)])
  with s show ?thesis by (simp add: release_def [of i "release i g"] slot_agrees_def position_def)
qed

lemma release_final_witness:
  "position 1 (release 1 three_claims) = None \<and> slots three_claims 1 \<noteq> None"
proof -
  note r = three_claims_reachable
  have h: "slots three_claims 1 \<noteq> None"
    by (simp add: three_claims_def Let_def claim_def grant_def has_room_def running_def)
  from release_final [OF r h] h show ?thesis by simp
qed

end
