(* ===== verification/Enrollment.thy ===== *)
theory Enrollment
  imports Py_Value
begin

text \<open>
  The bearer enrollment every credential proxy shares (\<open>embry0/execution/proxy/enrollment.py\<close>):
  the registry of enrolled sandboxes, the admin gate, the \<open>/admin/enroll\<close> handlers. The registry
  runs a proxy's \<open>on_unenroll\<close> hook on the proxy's own per-sandbox state, so the operations work
  on the registry and that state together. SHA-256 is a parameter of the model (\<open>sha\<close>); each
  reading of the clock is an argument, since the code reads it more than once per call.
\<close>

definition DEFAULT_TTL_SECONDS :: pyfloat where "DEFAULT_TTL_SECONDS = Fin 86400"
definition MAX_TTL_SECONDS :: pyfloat where "MAX_TTL_SECONDS = Fin (7 * 86400)"
definition DEFAULT_MAX_ENTRIES :: int where "DEFAULT_MAX_ENTRIES = 500"
definition ADMIN_MAX_FAILURES :: nat where "ADMIN_MAX_FAILURES = 10"
definition ADMIN_FAILURE_WINDOW_SECONDS :: rat where "ADMIN_FAILURE_WINDOW_SECONDS = 60"
definition ADMIN_LOCKOUT_SECONDS :: rat where "ADMIN_LOCKOUT_SECONDS = 60"

subsection \<open>The registry\<close>

record registry =
  max_entries :: int
  default_ttl :: pyfloat
  hash_by_id :: "pystr dict"
  id_by_hash :: "pystr dict"
  payload_token_by_id :: "pystr dict"
  git_identity_by_id :: "(pystr \<times> pystr) dict"
  expires_at_by_id :: "pyfloat dict"

definition new_registry :: "int \<Rightarrow> pyfloat \<Rightarrow> registry" where
  "new_registry cap ttl = \<lparr>max_entries = cap, default_ttl = ttl, hash_by_id = [], id_by_hash = [],
     payload_token_by_id = [], git_identity_by_id = [], expires_at_by_id = []\<rparr>"

type_synonym 'x hook = "(pystr \<Rightarrow> 'x \<Rightarrow> 'x) option"

definition run_hook :: "'x hook \<Rightarrow> pystr \<Rightarrow> 'x \<Rightarrow> 'x" where
  "run_hook on_unenroll i x = (case on_unenroll of None \<Rightarrow> x | Some f \<Rightarrow> f i x)"

definition end_enrollment :: "'x hook \<Rightarrow> pystr \<Rightarrow> registry \<times> 'x \<Rightarrow> bool \<times> registry \<times> 'x" where
  "end_enrollment on_unenroll i = (\<lambda>(r, x).
     let old = map_of (hash_by_id r) i;
         r' = r\<lparr>hash_by_id := AList.delete i (hash_by_id r),
                id_by_hash := (case old of None \<Rightarrow> id_by_hash r
                                         | Some h \<Rightarrow> AList.delete h (id_by_hash r)),
                payload_token_by_id := AList.delete i (payload_token_by_id r),
                git_identity_by_id := AList.delete i (git_identity_by_id r),
                expires_at_by_id := AList.delete i (expires_at_by_id r)\<rparr>
     in if old = None then (False, r', x) else (True, r', run_hook on_unenroll i x))"

definition purge_expired :: "'x hook \<Rightarrow> rat \<Rightarrow> registry \<times> 'x \<Rightarrow> registry \<times> 'x" where
  "purge_expired on_unenroll now st =
     fold (\<lambda>i st. snd (end_enrollment on_unenroll i st))
       (map fst (filter (\<lambda>(i, e). fle e (Fin now)) (expires_at_by_id (fst st)))) st"

datatype enrolled = Enrolled | RegistryFull

text \<open>What a new enrollment replaces: this sandbox's own, then the one the bearer belonged to.\<close>

definition end_previous :: "'x hook \<Rightarrow> pystr \<Rightarrow> pystr \<Rightarrow> registry \<times> 'x \<Rightarrow> registry \<times> 'x" where
  "end_previous on_unenroll i h st =
     (let st2 = snd (end_enrollment on_unenroll i st)
      in case map_of (id_by_hash (fst st2)) h of
           None \<Rightarrow> st2
         | Some holder \<Rightarrow> snd (end_enrollment on_unenroll holder st2))"

definition store_enrollment ::
  "pystr \<Rightarrow> pystr \<Rightarrow> pystr option \<Rightarrow> pystr option \<Rightarrow> pystr option \<Rightarrow> pyfloat \<Rightarrow> registry \<Rightarrow> registry" where
  "store_enrollment i h payload git_host git_username expires r =
     r\<lparr>hash_by_id := AList.update i h (hash_by_id r),
       id_by_hash := AList.update h i (id_by_hash r),
       payload_token_by_id :=
         (case payload of Some p \<Rightarrow> AList.update i p (payload_token_by_id r)
                        | None \<Rightarrow> AList.delete i (payload_token_by_id r)),
       git_identity_by_id :=
         (case git_host of
            Some g \<Rightarrow> if g = [] then AList.delete i (git_identity_by_id r)
                     else AList.update i
                       (g, case git_username of
                             Some u \<Rightarrow> if u = [] then ''oauth2'' else u
                           | None \<Rightarrow> ''oauth2'') (git_identity_by_id r)
          | None \<Rightarrow> AList.delete i (git_identity_by_id r)),
       expires_at_by_id := AList.update i expires (expires_at_by_id r)\<rparr>"

definition granted_ttl :: "pyfloat option \<Rightarrow> registry \<Rightarrow> pyfloat" where
  "granted_ttl ttl_seconds r =
     fmin (case ttl_seconds of Some t \<Rightarrow> if ftruthy t then t else default_ttl r
                             | None \<Rightarrow> default_ttl r) MAX_TTL_SECONDS"

definition enroll ::
  "(pystr \<Rightarrow> pystr) \<Rightarrow> 'x hook \<Rightarrow> rat \<Rightarrow> rat \<Rightarrow> pystr \<Rightarrow> pystr \<Rightarrow> pystr option \<Rightarrow> pystr option \<Rightarrow>
   pystr option \<Rightarrow> pyfloat option \<Rightarrow> registry \<times> 'x \<Rightarrow> enrolled \<times> registry \<times> 'x" where
  "enroll sha on_unenroll now1 now2 i token payload git_host git_username ttl_seconds st =
     (let st1 = purge_expired on_unenroll now1 st;
          r1 = fst st1
      in if i \<notin> keys (hash_by_id r1) \<and> max_entries r1 \<le> int (length (hash_by_id r1))
         then (RegistryFull, st1)
         else
           let ttl = granted_ttl ttl_seconds r1;
               h = sha token;
               st3 = end_previous on_unenroll i h st1
           in (Enrolled,
               store_enrollment i h payload git_host git_username (fadd (Fin now2) ttl) (fst st3),
               snd st3))"

definition unenroll :: "'x hook \<Rightarrow> pystr \<Rightarrow> registry \<times> 'x \<Rightarrow> bool \<times> registry \<times> 'x" where
  "unenroll on_unenroll i st = end_enrollment on_unenroll i st"

definition lookup ::
  "(pystr \<Rightarrow> pystr) \<Rightarrow> 'x hook \<Rightarrow> rat \<Rightarrow> pystr \<Rightarrow> registry \<times> 'x \<Rightarrow> pystr option \<times> registry \<times> 'x" where
  "lookup sha on_unenroll now presented st =
     (case map_of (id_by_hash (fst st)) (sha presented) of
        None \<Rightarrow> (None, st)
      | Some i \<Rightarrow>
          let e = (case map_of (expires_at_by_id (fst st)) i of Some e \<Rightarrow> e | None \<Rightarrow> Fin 0)
          in if fle e (Fin now) then (None, snd (end_enrollment on_unenroll i st))
             else (Some i, st))"

definition payload_token_for :: "registry \<Rightarrow> pystr \<Rightarrow> pystr option" where
  "payload_token_for r i = map_of (payload_token_by_id r) i"

definition git_identity_for :: "registry \<Rightarrow> pystr \<Rightarrow> (pystr \<times> pystr) option" where
  "git_identity_for r i = map_of (git_identity_by_id r) i"

subsection \<open>The admin gate\<close>

record admin_guard =
  token_hash :: pystr
  failures :: "rat list"
  locked_until :: rat

datatype admin_verdict = Admin_Ok | Admin_Unauthorized | Admin_Locked

text \<open>\<open>AdminGuard(admin_token)\<close>; None is the \<open>ValueError\<close> of an empty token.\<close>

definition new_admin_guard :: "(pystr \<Rightarrow> pystr) \<Rightarrow> pystr \<Rightarrow> admin_guard option" where
  "new_admin_guard sha token =
     (if token = [] then None
      else Some \<lparr>token_hash = sha token, failures = [], locked_until = 0\<rparr>)"

definition guard_check ::
  "(pystr \<Rightarrow> pystr) \<Rightarrow> rat \<Rightarrow> pystr \<Rightarrow> admin_guard \<Rightarrow> admin_verdict \<times> admin_guard" where
  "guard_check sha now presented g =
     (if now < locked_until g then (Admin_Locked, g)
      else if presented \<noteq> [] \<and> sha presented = token_hash g
      then (Admin_Ok, g\<lparr>failures := []\<rparr>)
      else
        let fs = filter (\<lambda>t. now - ADMIN_FAILURE_WINDOW_SECONDS < t) (failures g) @ [now]
        in if ADMIN_MAX_FAILURES \<le> length fs
           then (Admin_Locked, g\<lparr>failures := [], locked_until := now + ADMIN_LOCKOUT_SECONDS\<rparr>)
           else (Admin_Unauthorized, g\<lparr>failures := fs\<rparr>))"


subsection \<open>The handlers\<close>

text \<open>
  A reply is the status, the headers the handler sets and the body; \<open>Raised\<close> is an exception the
  handler does not catch (aiohttp answers 500). \<open>'e\<close> is what an extension refuses a body with.
\<close>

datatype 'e reply_body =
    Error_Body pystr
  | Detail_Body pystr 'e
  | Fields "(pystr \<times> json) list"

datatype 'e reply = Reply nat "(pystr \<times> pystr) list" "'e reply_body" | Raised

abbreviation bad_request :: "'e reply" where
  "bad_request \<equiv> Reply 400 [] (Error_Body ''bad_request'')"

record 'x app =
  app_registry :: registry
  app_guard :: admin_guard
  app_scope :: 'x

record ('e, 'p, 'x) extension =
  ext_parse :: "(pystr \<times> json) list \<Rightarrow> 'e + 'p"
  ext_apply :: "pystr \<Rightarrow> 'p \<Rightarrow> 'x \<Rightarrow> (pystr \<times> json) list \<times> 'x"

definition put_registry :: "registry \<times> 'x \<Rightarrow> 'x app \<Rightarrow> 'x app" where
  "put_registry st a = a\<lparr>app_registry := fst st, app_scope := snd st\<rparr>"

abbreviation reg_of :: "'x app \<Rightarrow> registry \<times> 'x" where
  "reg_of a \<equiv> (app_registry a, app_scope a)"

text \<open>The first component is the refusal to send; None means authorized.\<close>

definition guard_admin ::
  "(pystr \<Rightarrow> pystr) \<Rightarrow> rat \<Rightarrow> pystr \<Rightarrow> 'x app \<Rightarrow> 'e reply option \<times> 'x app" where
  "guard_admin sha now header a =
     (let (v, g) = guard_check sha now header (app_guard a); a' = a\<lparr>app_guard := g\<rparr>
      in (case v of
            Admin_Ok \<Rightarrow> None
          | Admin_Locked \<Rightarrow>
              Some (Reply 429 [(''Retry-After'', ''60'')] (Error_Body ''too_many_failures''))
          | Admin_Unauthorized \<Rightarrow> Some (Reply 401 [] (Error_Body ''unauthorized'')), a'))"

definition sandbox_id_ok :: "pystr \<Rightarrow> bool" where
  "sandbox_id_ok s \<longleftrightarrow> 1 \<le> length s \<and> length s \<le> 64 \<and>
     list_all (\<lambda>c. is_alnum c \<or> c = CHR ''_'' \<or> c = CHR ''-'') s"

datatype ttl_field = Ttl_Bad | Ttl_Overflow | Ttl "pyfloat option"

definition parse_ttl :: "json \<Rightarrow> ttl_field" where
  "parse_ttl v = (case v of
      JNull \<Rightarrow> Ttl None
    | JInt n \<Rightarrow> (if n \<le> 0 then Ttl_Bad
                else case float_of_int n of None \<Rightarrow> Ttl_Overflow | Some f \<Rightarrow> Ttl (Some f))
    | JFloat f \<Rightarrow> (if fle f (Fin 0) then Ttl_Bad else Ttl (Some f))
    | _ \<Rightarrow> Ttl_Bad)"

text \<open>\<open>registry.enroll\<close> when the token is not a string: the hash raises after the purge.\<close>

definition enroll_field ::
  "(pystr \<Rightarrow> pystr) \<Rightarrow> 'x hook \<Rightarrow> rat \<Rightarrow> rat \<Rightarrow> pystr \<Rightarrow> json \<Rightarrow> pystr option \<Rightarrow> pystr option \<Rightarrow>
   pystr option \<Rightarrow> pyfloat option \<Rightarrow> registry \<times> 'x \<Rightarrow> enrolled option \<times> registry \<times> 'x" where
  "enroll_field sha hook now1 now2 i token payload git_host git_username ttl st =
     (case token of
        JStr t \<Rightarrow> (case enroll sha hook now1 now2 i t payload git_host git_username ttl st of
                     (e, st') \<Rightarrow> (Some e, st'))
      | _ \<Rightarrow> (let st1 = purge_expired hook now1 st; r1 = fst st1
             in (if i \<notin> keys (hash_by_id r1) \<and> max_entries r1 \<le> int (length (hash_by_id r1))
                 then Some RegistryFull else None, st1)))"

record ('e, 'p, 'x) enroll_request =
  rq_id :: pystr
  rq_token :: json
  rq_ttl :: "pyfloat option"
  rq_parsed :: "(('e, 'p, 'x) extension \<times> 'p) option"

text \<open>The checks of the handler up to the registry call: the refusal to send, or the request.\<close>

definition read_enroll ::
  "('e, 'p, 'x) extension option \<Rightarrow> (pystr \<times> json) list \<Rightarrow> 'e reply + ('e, 'p, 'x) enroll_request" where
  "read_enroll ext body =
     (let sandbox_id = get_or body ''sandbox_id'' (JStr []);
          sandbox_token = get_or body ''sandbox_token'' (JStr [])
      in if \<not> truthy sandbox_id \<or> \<not> truthy sandbox_token then Inl bad_request
      else case py_len sandbox_token of
        None \<Rightarrow> Inl Raised
      | Some n \<Rightarrow>
      if n < 32 then Inl bad_request
      else case sandbox_id of
        JStr i \<Rightarrow>
          if \<not> sandbox_id_ok i then Inl bad_request
          else (case parse_ttl (get body ''ttl_seconds'') of
            Ttl_Bad \<Rightarrow> Inl bad_request
          | Ttl_Overflow \<Rightarrow> Inl Raised
          | Ttl ttl \<Rightarrow>
              (case ext of
                 None \<Rightarrow> Inr \<lparr>rq_id = i, rq_token = sandbox_token, rq_ttl = ttl, rq_parsed = None\<rparr>
               | Some x \<Rightarrow>
                   (case ext_parse x body of
                      Inl e \<Rightarrow> Inl (Reply 400 [] (Detail_Body ''bad_request'' e))
                    | Inr p \<Rightarrow> Inr \<lparr>rq_id = i, rq_token = sandbox_token, rq_ttl = ttl,
                                   rq_parsed = Some (x, p)\<rparr>)))
      | _ \<Rightarrow> Inl Raised)"

definition enroll_body ::
  "(pystr \<Rightarrow> pystr) \<Rightarrow> bool \<Rightarrow> 'x hook \<Rightarrow> ('e, 'p, 'x) extension option \<Rightarrow> rat \<Rightarrow> rat \<Rightarrow>
   (pystr \<times> json) list \<Rightarrow> 'x app \<Rightarrow> 'e reply \<times> 'x app" where
  "enroll_body sha accepts_payload hook ext now1 now2 body a =
     (case read_enroll ext body of
        Inl refusal \<Rightarrow> (refusal, a)
      | Inr rq \<Rightarrow>
          let field = (\<lambda>k. if accepts_payload then nonempty_str (get body k) else None);
              (outcome, st) = enroll_field sha hook now1 now2 (rq_id rq) (rq_token rq)
                 (field ''github_token'') (field ''git_host'') (field ''git_username'') (rq_ttl rq) (reg_of a)
          in case outcome of
               None \<Rightarrow> (Raised, put_registry st a)
             | Some RegistryFull \<Rightarrow> (Reply 429 [] (Error_Body ''registry_full''), put_registry st a)
             | Some Enrolled \<Rightarrow>
                 (case rq_parsed rq of
                    None \<Rightarrow> (Reply 200 [] (Fields [(''status'', JStr ''enrolled'')]), put_registry st a)
                  | Some (x, p) \<Rightarrow>
                      (case ext_apply x (rq_id rq) p (snd st) of (fs, x') \<Rightarrow>
                         (Reply 200 [] (Fields (AList.updates (map fst fs) (map snd fs)
                                          [(''status'', JStr ''enrolled'')])),
                          put_registry (fst st, x') a))))"

text \<open>\<open>POST /admin/enroll\<close>. The body is None when it is not JSON.\<close>

definition enroll_handler ::
  "(pystr \<Rightarrow> pystr) \<Rightarrow> bool \<Rightarrow> 'x hook \<Rightarrow> ('e, 'p, 'x) extension option \<Rightarrow> rat \<Rightarrow> rat \<Rightarrow> rat \<Rightarrow>
   pystr \<Rightarrow> json option \<Rightarrow> 'x app \<Rightarrow> 'e reply \<times> 'x app" where
  "enroll_handler sha accepts_payload hook ext now now1 now2 header body a =
     (case guard_admin sha now header a of
        (Some denied, a') \<Rightarrow> (denied, a')
      | (None, a') \<Rightarrow>
          (case body of
             Some (JObj d) \<Rightarrow> enroll_body sha accepts_payload hook ext now1 now2 d a'
           | _ \<Rightarrow> (bad_request, a')))"

text \<open>\<open>DELETE /admin/enroll/{sandbox_id}\<close>.\<close>

definition unenroll_handler ::
  "(pystr \<Rightarrow> pystr) \<Rightarrow> 'x hook \<Rightarrow> rat \<Rightarrow> pystr \<Rightarrow> pystr \<Rightarrow> 'x app \<Rightarrow> 'e reply \<times> 'x app" where
  "unenroll_handler sha hook now header i a =
     (case guard_admin sha now header a of
        (Some denied, a') \<Rightarrow> (denied, a')
      | (None, a') \<Rightarrow>
          if \<not> sandbox_id_ok i then (bad_request, a')
          else (Reply 200 [] (Fields [(''status'', JStr ''unenrolled'')]),
                put_registry (snd (unenroll hook i (reg_of a'))) a'))"

text \<open>\<open>check_bearer\<close>: the \<open>Authorization\<close> header (empty when absent) to the sandbox.\<close>

definition check_bearer ::
  "(pystr \<Rightarrow> pystr) \<Rightarrow> 'x hook \<Rightarrow> rat \<Rightarrow> pystr \<Rightarrow> 'x app \<Rightarrow> pystr option \<times> 'x app" where
  "check_bearer sha hook now auth a =
     (if \<not> starts_with auth ''Bearer '' then (None, a)
      else let presented = strip (drop (length ''Bearer '') auth)
           in if presented = [] then (None, a)
              else case lookup sha hook now presented (reg_of a) of
                     (i, st) \<Rightarrow> (i, put_registry st a))"

text \<open>\<open>payload_token\<close>: \<open>or\<close> also replaces an empty token.\<close>

definition payload_token :: "'x app \<Rightarrow> pystr \<Rightarrow> pystr \<Rightarrow> pystr" where
  "payload_token a i fallback =
     (case payload_token_for (app_registry a) i of
        Some t \<Rightarrow> if t = [] then fallback else t | None \<Rightarrow> fallback)"


subsection \<open>The registry's invariant\<close>

text \<open>
  One bearer belongs to one enrollment and one sandbox holds at most one: the two maps are each
  other's inverse. Every enrollment has an expiry, and nothing is kept for a sandbox without one.
\<close>

definition reg_inv :: "registry \<Rightarrow> bool" where
  "reg_inv r \<longleftrightarrow>
     distinct (map fst (hash_by_id r)) \<and> distinct (map fst (expires_at_by_id r)) \<and>
     (\<forall>i h. map_of (hash_by_id r) i = Some h \<longleftrightarrow> map_of (id_by_hash r) h = Some i) \<and>
     keys (expires_at_by_id r) = keys (hash_by_id r) \<and>
     keys (payload_token_by_id r) \<subseteq> keys (hash_by_id r) \<and>
     keys (git_identity_by_id r) \<subseteq> keys (hash_by_id r)"

definition enrolled_ids :: "registry \<Rightarrow> pystr set" where
  "enrolled_ids r = keys (hash_by_id r)"

definition within_cap :: "registry \<Rightarrow> bool" where
  "within_cap r \<longleftrightarrow> int (length (hash_by_id r)) \<le> max_entries r"

lemma reg_inv_new [inv_intros]: "reg_inv (new_registry cap ttl)"
  by (simp add: reg_inv_def new_registry_def)

lemma end_enrollment_sel:
  "hash_by_id (fst (snd (end_enrollment f i st))) = AList.delete i (hash_by_id (fst st))"
  "id_by_hash (fst (snd (end_enrollment f i st))) =
     (case map_of (hash_by_id (fst st)) i of None \<Rightarrow> id_by_hash (fst st)
      | Some h \<Rightarrow> AList.delete h (id_by_hash (fst st)))"
  "payload_token_by_id (fst (snd (end_enrollment f i st))) =
     AList.delete i (payload_token_by_id (fst st))"
  "git_identity_by_id (fst (snd (end_enrollment f i st))) =
     AList.delete i (git_identity_by_id (fst st))"
  "expires_at_by_id (fst (snd (end_enrollment f i st))) =
     AList.delete i (expires_at_by_id (fst st))"
  "max_entries (fst (snd (end_enrollment f i st))) = max_entries (fst st)"
  "default_ttl (fst (snd (end_enrollment f i st))) = default_ttl (fst st)"
  by (simp_all add: end_enrollment_def Let_def split_beta)

lemma end_enrollment_scope:
  "snd (snd (end_enrollment f i st)) =
     (if i \<in> enrolled_ids (fst st) then run_hook f i (snd st) else snd st)"
  by (cases st) (simp add: end_enrollment_def Let_def enrolled_ids_def map_of_None_keys)

lemma enrolled_ids_end [dom_simps]:
  "enrolled_ids (fst (snd (end_enrollment f i st))) = enrolled_ids (fst st) - {i}"
  by (simp add: enrolled_ids_def end_enrollment_sel)

lemma reg_inv_bij:
  "reg_inv r \<Longrightarrow> map_of (hash_by_id r) i = Some h \<longleftrightarrow> map_of (id_by_hash r) h = Some i"
  by (simp add: reg_inv_def)

lemma end_enrollment_inverse:
  assumes "reg_inv (fst st)"
  shows "map_of (id_by_hash (fst (snd (end_enrollment f i st)))) h =
    (if map_of (id_by_hash (fst st)) h = Some i then None else map_of (id_by_hash (fst st)) h)"
proof (cases "map_of (hash_by_id (fst st)) i")
  case None
  then have "map_of (id_by_hash (fst st)) h \<noteq> Some i"
    using reg_inv_bij [OF assms, of i h] by simp
  with None show ?thesis by (simp add: end_enrollment_sel(2))
next
  case (Some g)
  have "g = h \<longleftrightarrow> map_of (id_by_hash (fst st)) h = Some i"
    using reg_inv_bij [OF assms, of i h] Some by simp
  with Some show ?thesis by (simp add: end_enrollment_sel(2)) blast
qed

lemma reg_inv_end [inv_intros]:
  assumes "reg_inv (fst st)"
  shows "reg_inv (fst (snd (end_enrollment f i st)))"
proof -
  have "map_of (hash_by_id (fst (snd (end_enrollment f i st)))) j = Some h \<longleftrightarrow>
      map_of (id_by_hash (fst (snd (end_enrollment f i st)))) h = Some j" for j h
    by (simp add: end_enrollment_inverse [OF assms] end_enrollment_sel(1) reg_inv_bij [OF assms])
  with assms show ?thesis
    unfolding reg_inv_def
    by (intro conjI allI) (simp_all add: end_enrollment_sel(1,3,4,5) Diff_mono)
qed

lemma within_cap_end [inv_intros]:
  assumes "within_cap (fst st)"
  shows "within_cap (fst (snd (end_enrollment f i st)))"
proof -
  have "length (AList.delete i (hash_by_id (fst st))) \<le> length (hash_by_id (fst st))"
    by (rule length_delete_le)
  with assms show ?thesis by (simp add: within_cap_def end_enrollment_sel)
qed

text \<open>A property of the pair that every ending keeps is kept by a purge.\<close>

lemma purge_expired_rule:
  assumes "P st" and "\<And>i st. P st \<Longrightarrow> P (snd (end_enrollment f i st))"
  shows "P (purge_expired f now st)"
proof -
  have "P (fold (\<lambda>i st. snd (end_enrollment f i st)) is st)" for "is"
    using assms(1)
  proof (induction "is" arbitrary: st)
    case (Cons i "is")
    from Cons.IH [OF assms(2) [OF Cons.prems]] show ?case by simp
  qed simp
  then show ?thesis by (simp add: purge_expired_def)
qed

lemma purge_expired_inv [inv_intros]:
  "reg_inv (fst st) \<Longrightarrow> reg_inv (fst (purge_expired f now st))"
  by (rule purge_expired_rule [where P = "\<lambda>st. reg_inv (fst st)"])
    (auto intro: reg_inv_end)

lemma within_cap_purge [inv_intros]:
  "within_cap (fst st) \<Longrightarrow> within_cap (fst (purge_expired f now st))"
  by (rule purge_expired_rule [where P = "\<lambda>st. within_cap (fst st)"])
    (auto intro: within_cap_end)

lemma fold_end_maps:
  fixes st :: "registry \<times> 'x" and f :: "'x hook"
  defines "run \<equiv> fold (\<lambda>i (st :: registry \<times> 'x). snd (end_enrollment f i st))"
  shows "map_of (hash_by_id (fst (run is st))) j = (if j \<in> set is then None else map_of (hash_by_id (fst st)) j)"
    and "map_of (expires_at_by_id (fst (run is st))) j =
           (if j \<in> set is then None else map_of (expires_at_by_id (fst st)) j)"
    and "max_entries (fst (run is st)) = max_entries (fst st)"
    and "default_ttl (fst (run is st)) = default_ttl (fst st)"
proof -
  have "map_of (hash_by_id (fst (run is st))) j = (if j \<in> set is then None else map_of (hash_by_id (fst st)) j) \<and>
    map_of (expires_at_by_id (fst (run is st))) j =
      (if j \<in> set is then None else map_of (expires_at_by_id (fst st)) j) \<and>
    max_entries (fst (run is st)) = max_entries (fst st) \<and>
    default_ttl (fst (run is st)) = default_ttl (fst st)"
    unfolding run_def
  proof (induction "is" arbitrary: st)
    case (Cons i "is")
    show ?case using Cons.IH [of "snd (end_enrollment f i st)"]
      by (auto simp: end_enrollment_sel)
  qed simp
  then show "map_of (hash_by_id (fst (run is st))) j =
      (if j \<in> set is then None else map_of (hash_by_id (fst st)) j)"
    and "map_of (expires_at_by_id (fst (run is st))) j =
           (if j \<in> set is then None else map_of (expires_at_by_id (fst st)) j)"
    and "max_entries (fst (run is st)) = max_entries (fst st)"
    and "default_ttl (fst (run is st)) = default_ttl (fst st)" by simp_all
qed

lemma expired_ids:
  assumes "reg_inv r"
  shows "j \<in> set (map fst (filter (\<lambda>(i, e). fle e (Fin now)) (expires_at_by_id r))) \<longleftrightarrow>
    (\<exists>e. map_of (expires_at_by_id r) j = Some e \<and> fle e (Fin now))"
  using assms by (force simp: reg_inv_def image_iff)

lemma purge_expired_maps:
  assumes "reg_inv (fst st)"
  shows "map_of (hash_by_id (fst (purge_expired f now st))) j =
      (if (\<exists>e. map_of (expires_at_by_id (fst st)) j = Some e \<and> fle e (Fin now)) then None
       else map_of (hash_by_id (fst st)) j)"
    and "map_of (expires_at_by_id (fst (purge_expired f now st))) j =
      (if (\<exists>e. map_of (expires_at_by_id (fst st)) j = Some e \<and> fle e (Fin now)) then None
       else map_of (expires_at_by_id (fst st)) j)"
  by (simp_all only: purge_expired_def fold_end_maps expired_ids [OF assms])

lemma purge_expired_params [simp]:
  "max_entries (fst (purge_expired f now st)) = max_entries (fst st)"
  "default_ttl (fst (purge_expired f now st)) = default_ttl (fst st)"
  by (simp_all add: purge_expired_def fold_end_maps)


text \<open>After the previous enrollments have ended, neither the sandbox nor the bearer is in use.\<close>

lemma end_previous_rule:
  assumes "P st" and "\<And>i st. P st \<Longrightarrow> P (snd (end_enrollment f i st))"
  shows "P (end_previous f i h st)"
  using assms by (simp add: end_previous_def Let_def split: option.split)

lemma end_previous_inv [inv_intros]: "reg_inv (fst st) \<Longrightarrow> reg_inv (fst (end_previous f i h st))"
  by (rule end_previous_rule [where P = "\<lambda>st. reg_inv (fst st)"]) (auto intro: reg_inv_end)

lemma end_previous_params [simp]:
  "max_entries (fst (end_previous f i h st)) = max_entries (fst st)"
  by (simp add: end_previous_def Let_def end_enrollment_sel split: option.split)

lemma end_previous_ids:
  assumes "reg_inv (fst st)"
  shows "map_of (hash_by_id (fst (end_previous f i h st))) j =
      (if j = i \<or> map_of (id_by_hash (fst st)) h = Some j then None else map_of (hash_by_id (fst st)) j)"
    and "map_of (expires_at_by_id (fst (end_previous f i h st))) j =
      (if j = i \<or> map_of (id_by_hash (fst st)) h = Some j then None
       else map_of (expires_at_by_id (fst st)) j)"
    and "h \<notin> keys (id_by_hash (fst (end_previous f i h st)))"
proof -
  define st2 where "st2 = snd (end_enrollment f i st)"
  have inv2: "reg_inv (fst st2)" using assms by (simp add: st2_def reg_inv_end)
  have holder: "map_of (id_by_hash (fst st2)) h =
      (if map_of (id_by_hash (fst st)) h = Some i then None else map_of (id_by_hash (fst st)) h)"
    using assms by (simp add: st2_def end_enrollment_inverse)
  have prev: "end_previous f i h st = (case map_of (id_by_hash (fst st2)) h of None \<Rightarrow> st2
      | Some k \<Rightarrow> snd (end_enrollment f k st2))"
    unfolding st2_def end_previous_def Let_def by (rule refl)
  show "map_of (hash_by_id (fst (end_previous f i h st))) j =
      (if j = i \<or> map_of (id_by_hash (fst st)) h = Some j then None else map_of (hash_by_id (fst st)) j)"
    using holder by (cases "map_of (id_by_hash (fst st)) h")
      (auto simp: prev st2_def end_enrollment_sel(1) split: if_splits)
  show "map_of (expires_at_by_id (fst (end_previous f i h st))) j =
      (if j = i \<or> map_of (id_by_hash (fst st)) h = Some j then None
       else map_of (expires_at_by_id (fst st)) j)"
    using holder by (cases "map_of (id_by_hash (fst st)) h")
      (auto simp: prev st2_def end_enrollment_sel(5) split: if_splits)
  show "h \<notin> keys (id_by_hash (fst (end_previous f i h st)))"
  proof (cases "map_of (id_by_hash (fst st2)) h")
    case None
    then show ?thesis by (simp add: prev) (simp add: map_of_None_keys)
  next
    case (Some k)
    have "map_of (id_by_hash (fst (snd (end_enrollment f k st2)))) h = None"
      using Some by (simp add: end_enrollment_inverse [OF inv2])
    with Some show ?thesis by (simp add: prev map_of_None_keys)
  qed
qed

lemma enrolled_ids_store [dom_simps]:
  "enrolled_ids (store_enrollment i h p g u e r) = insert i (enrolled_ids r)"
  by (simp add: enrolled_ids_def store_enrollment_def)

lemma store_enrollment_sel [simp]:
  "hash_by_id (store_enrollment i h p g u e r) = AList.update i h (hash_by_id r)"
  "id_by_hash (store_enrollment i h p g u e r) = AList.update h i (id_by_hash r)"
  "expires_at_by_id (store_enrollment i h p g u e r) = AList.update i e (expires_at_by_id r)"
  "max_entries (store_enrollment i h p g u e r) = max_entries r"
  by (simp_all add: store_enrollment_def)

lemma store_enrollment_keys:
  "keys (payload_token_by_id (store_enrollment i h p g u e r)) \<subseteq> insert i (keys (payload_token_by_id r))"
  "keys (git_identity_by_id (store_enrollment i h p g u e r)) \<subseteq> insert i (keys (git_identity_by_id r))"
  by (auto simp: store_enrollment_def split: option.split)

lemma store_enrollment_inv [inv_intros]:
  assumes inv: "reg_inv r" and i: "i \<notin> enrolled_ids r" and h: "h \<notin> keys (id_by_hash r)"
  shows "reg_inv (store_enrollment i h p g u e r)"
proof -
  have fresh: "map_of (hash_by_id r) i = None" "map_of (id_by_hash r) h = None"
    using i h by (simp_all add: enrolled_ids_def map_of_None_keys)
  have bij: "map_of (AList.update i h (hash_by_id r)) j = Some k \<longleftrightarrow>
      map_of (AList.update h i (id_by_hash r)) k = Some j" for j k
    using reg_inv_bij [OF inv, of j k] reg_inv_bij [OF inv, of j h] reg_inv_bij [OF inv, of i k] fresh
    by (cases "j = i"; cases "k = h") simp_all
  from inv bij store_enrollment_keys [of i h p g u e r] show ?thesis
    unfolding reg_inv_def by (intro conjI allI) (simp_all, blast+)
qed

lemma enrolled_ids_map_of: "j \<in> enrolled_ids r \<longleftrightarrow> map_of (hash_by_id r) j \<noteq> None"
  by (simp add: enrolled_ids_def map_of_None_keys)

lemma enroll_inv [inv_intros]:
  assumes "reg_inv (fst st)"
  shows "reg_inv (fst (snd (enroll sha f t1 t2 i tok p g u ttl st)))"
proof -
  have inv1: "reg_inv (fst (purge_expired f t1 st))" using assms by (rule purge_expired_inv)
  note prev = end_previous_ids [OF inv1, where f = f and i = i and h = "sha tok"]
  have "i \<notin> enrolled_ids (fst (end_previous f i (sha tok) (purge_expired f t1 st)))"
    by (simp add: enrolled_ids_map_of prev(1))
  with inv1 prev(3) show ?thesis
    by (simp add: enroll_def Let_def store_enrollment_inv end_previous_inv)
qed

lemma enroll_cap [inv_intros]:
  assumes "reg_inv (fst st)" "within_cap (fst st)"
  shows "within_cap (fst (snd (enroll sha f t1 t2 i tok p g u ttl st)))"
proof -
  define st1 where "st1 = purge_expired f t1 st"
  define st3 where "st3 = end_previous f i (sha tok) st1"
  have inv1: "reg_inv (fst st1)" and cap1: "within_cap (fst st1)"
    using assms by (simp_all add: st1_def purge_expired_inv within_cap_purge)
  have inv3: "reg_inv (fst st3)" using inv1 by (simp add: st3_def end_previous_inv)
  have len: "length (hash_by_id r) = card (enrolled_ids r)" if "reg_inv r" for r
    using that by (simp add: reg_inv_def enrolled_ids_def distinct_keys_length)
  have sub: "enrolled_ids (fst st3) \<subseteq> enrolled_ids (fst st1) - {i}"
    using end_previous_ids(1) [OF inv1, where f = f and i = i and h = "sha tok"]
    by (auto simp: enrolled_ids_map_of st3_def split: if_splits)
  have stored: "length (AList.update i (sha tok) (hash_by_id (fst st3))) = Suc (card (enrolled_ids (fst st3)))"
  proof -
    have "distinct (map fst (AList.update i (sha tok) (hash_by_id (fst st3))))"
      using inv3 by (simp add: reg_inv_def)
    moreover have "i \<notin> keys (hash_by_id (fst st3))" using sub by (auto simp: enrolled_ids_def)
    ultimately show ?thesis by (simp add: distinct_keys_length enrolled_ids_def)
  qed
  have fin: "finite (enrolled_ids (fst st1))" by (simp add: enrolled_ids_def)
  have "int (Suc (card (enrolled_ids (fst st3)))) \<le> max_entries (fst st1)"
    if "i \<in> enrolled_ids (fst st1) \<or> int (length (hash_by_id (fst st1))) < max_entries (fst st1)"
  proof (cases "i \<in> enrolled_ids (fst st1)")
    case True
    have "card (enrolled_ids (fst st3)) \<le> card (enrolled_ids (fst st1) - {i})"
      using sub fin by (intro card_mono) auto
    moreover have "0 < card (enrolled_ids (fst st1))" using True fin card_gt_0_iff by blast
    ultimately have "Suc (card (enrolled_ids (fst st3))) \<le> card (enrolled_ids (fst st1))"
      using True fin by (simp add: card_Diff_singleton)
    with cap1 len [OF inv1] show ?thesis by (simp add: within_cap_def)
  next
    case False
    have "card (enrolled_ids (fst st3)) \<le> card (enrolled_ids (fst st1))"
      using sub fin by (intro card_mono) auto
    with that False len [OF inv1] show ?thesis by simp
  qed
  moreover have "max_entries (fst st3) = max_entries (fst st1)" by (simp add: st3_def)
  ultimately show ?thesis using cap1 stored
    by (auto simp: enroll_def Let_def within_cap_def enrolled_ids_def simp flip: st1_def st3_def)
qed


lemma lookup_inv [inv_intros]:
  "reg_inv (fst st) \<Longrightarrow> reg_inv (fst (snd (lookup sha f now t st)))"
  by (auto simp: lookup_def Let_def intro: reg_inv_end split: option.split)

lemma lookup_cap [inv_intros]:
  "within_cap (fst st) \<Longrightarrow> within_cap (fst (snd (lookup sha f now t st)))"
  by (auto simp: lookup_def Let_def intro: within_cap_end split: option.split)

text \<open>Every registry change a handler makes is one of these.\<close>

inductive reg_step :: "(pystr \<Rightarrow> pystr) \<Rightarrow> 'x hook \<Rightarrow> registry \<times> 'x \<Rightarrow> registry \<times> 'x \<Rightarrow> bool"
  for sha f where
  rs_none: "reg_step sha f st st"
| rs_end: "reg_step sha f st (snd (end_enrollment f i st))"
| rs_purge: "reg_step sha f st (purge_expired f now st)"
| rs_enroll: "reg_step sha f st (snd (enroll sha f t1 t2 i tok p g u ttl st))"

lemma reg_step_inv: "reg_step sha f st st' \<Longrightarrow> reg_inv (fst st) \<Longrightarrow> reg_inv (fst st')"
  by (induction rule: reg_step.induct) (auto intro: inv_intros)

lemma reg_step_cap:
  "reg_step sha f st st' \<Longrightarrow> reg_inv (fst st) \<Longrightarrow> within_cap (fst st) \<Longrightarrow> within_cap (fst st')"
  by (induction rule: reg_step.induct) (auto intro: inv_intros)

lemma max_entries_step: "reg_step sha f st st' \<Longrightarrow> max_entries (fst st') = max_entries (fst st)"
  by (induction rule: reg_step.induct) (auto simp: enroll_def Let_def end_enrollment_sel)

lemma lookup_step: "reg_step sha f st (snd (lookup sha f now t st))"
  by (auto simp: lookup_def Let_def intro: reg_step.intros split: option.split)

lemma enroll_field_step: "reg_step sha f st (snd (enroll_field sha f t1 t2 i tok p g u ttl st))"
  by (cases tok)
    (auto simp: enroll_field_def Let_def intro: rs_purge rs_enroll split: prod.split,
      metis rs_enroll snd_conv)

lemma enroll_field_Enrolled:
  assumes "enroll_field sha f t1 t2 i tok p g u ttl st = (Some Enrolled, st')"
  shows "i \<in> enrolled_ids (fst st')"
  using assms
  by (cases tok) (auto simp: enroll_field_def enroll_def Let_def dom_simps split: if_splits prod.splits)

lemma guard_admin_same [simp]:
  assumes "guard_admin sha now h a = (r, a')"
  shows "reg_of a' = reg_of a"
  using assms by (auto simp: guard_admin_def Let_def split: prod.splits)

subsection \<open>The reachable states of a proxy\<close>

definition new_app :: "(pystr \<Rightarrow> pystr) \<Rightarrow> pystr \<Rightarrow> 'x \<Rightarrow> 'x app option" where
  "new_app sha token x =
     (case new_admin_guard sha token of
        None \<Rightarrow> None
      | Some g \<Rightarrow> Some \<lparr>app_registry = new_registry DEFAULT_MAX_ENTRIES DEFAULT_TTL_SECONDS,
                       app_guard = g, app_scope = x\<rparr>)"

inductive app_step ::
  "(pystr \<Rightarrow> pystr) \<Rightarrow> bool \<Rightarrow> 'x hook \<Rightarrow> ('e, 'p, 'x) extension option \<Rightarrow> 'x app \<Rightarrow> 'x app \<Rightarrow> bool"
  for sha acc f ext where
  as_enroll: "enroll_handler sha acc f ext t t1 t2 header body a = (rep, a') \<Longrightarrow> app_step sha acc f ext a a'"
| as_unenroll: "unenroll_handler sha f t header i a = (rep :: 'e reply, a') \<Longrightarrow> app_step sha acc f ext a a'"
| as_bearer: "check_bearer sha f t auth a = (who, a') \<Longrightarrow> app_step sha acc f ext a a'"

text \<open>
  What an application step does to the registry and the per-sandbox state: one registry step, and
  after a successful enrollment the extension's \<open>apply\<close> for the sandbox just enrolled.
\<close>

definition app_step_effect ::
  "(pystr \<Rightarrow> pystr) \<Rightarrow> 'x hook \<Rightarrow> ('e, 'p, 'x) extension option \<Rightarrow> 'x app \<Rightarrow> 'x app \<Rightarrow> bool" where
  "app_step_effect sha f ext a a' \<longleftrightarrow>
     reg_step sha f (reg_of a) (reg_of a') \<or>
     (\<exists>st i p x body. reg_step sha f (reg_of a) st \<and> i \<in> enrolled_ids (fst st) \<and> ext = Some x \<and>
       ext_parse x body = Inr p \<and> reg_of a' = (fst st, snd (ext_apply x i p (snd st))))"

lemma read_enroll_parsed:
  "read_enroll ext body = Inr rq \<Longrightarrow> rq_parsed rq = Some (x, p) \<Longrightarrow>
   ext = Some x \<and> ext_parse x body = Inr p"
  by (auto simp: read_enroll_def Let_def
      split: if_splits option.splits json.splits ttl_field.splits sum.splits)

lemma enroll_body_effect:
  assumes "enroll_body sha acc f ext t1 t2 d a = (rep, a')"
  shows "app_step_effect sha f ext a a'"
proof (cases "read_enroll ext d")
  case (Inl e)
  with assms show ?thesis by (simp add: enroll_body_def app_step_effect_def rs_none)
next
  case (Inr rq)
  define field where "field = (\<lambda>k. if acc then nonempty_str (get d k) else None)"
  obtain out st where e: "enroll_field sha f t1 t2 (rq_id rq) (rq_token rq) (field ''github_token'')
      (field ''git_host'') (field ''git_username'') (rq_ttl rq) (reg_of a) = (out, st)"
    by (rule prod.exhaust)
  have step: "reg_step sha f (reg_of a) st"
    using enroll_field_step e by (metis snd_conv)
  show ?thesis
  proof (cases "out = Some Enrolled \<and> rq_parsed rq \<noteq> None")
    case False
    then have "reg_of a' = st"
      using assms Inr e
      by (auto simp: enroll_body_def Let_def field_def put_registry_def
          split: option.splits enrolled.splits)
    with step show ?thesis by (simp add: app_step_effect_def)
  next
    case True
    then obtain x p where xp: "rq_parsed rq = Some (x, p)" by auto
    have "i \<in> enrolled_ids (fst st)" if "i = rq_id rq" for i
      using e True enroll_field_Enrolled that by blast
    moreover have "reg_of a' = (fst st, snd (ext_apply x (rq_id rq) p (snd st)))"
      using assms Inr e True xp
      by (auto simp: enroll_body_def Let_def field_def put_registry_def split: prod.splits)
    ultimately show ?thesis
      unfolding app_step_effect_def using step read_enroll_parsed [OF Inr xp] by blast
  qed
qed

lemma app_step_reg:
  fixes ext :: "('e, 'p, 'x) extension option"
  assumes "app_step sha acc f ext a a'"
  obtains (step) "reg_step sha f (reg_of a) (reg_of a')"
  | (applied) st i p x body where "reg_step sha f (reg_of a) st" "i \<in> enrolled_ids (fst st)"
      "ext = Some x" "reg_of a' = (fst st, snd (ext_apply x i p (snd st)))" "ext_parse x body = Inr p"
proof -
  have "app_step_effect sha f ext a a'"
    using assms
  proof (induction rule: app_step.induct)
    case (as_enroll t t1 t2 header body a rep a')
    show ?case
    proof (cases "guard_admin sha t header a :: 'e reply option \<times> 'x app")
      case (Pair den a1)
      note same = guard_admin_same [OF Pair]
      show ?thesis
      proof (cases "\<exists>d. den = None \<and> body = Some (JObj d)")
        case False
        then have "a' = a1" using as_enroll Pair
          by (auto simp: enroll_handler_def split: option.splits json.splits)
        then show ?thesis using same rs_none by (auto simp: app_step_effect_def)
      next
        case True
        then obtain d where "enroll_body sha acc f ext t1 t2 d a1 = (rep, a')"
          using as_enroll Pair by (auto simp: enroll_handler_def)
        then show ?thesis using enroll_body_effect same by (fastforce simp: app_step_effect_def)
      qed
    qed
  next
    case (as_unenroll t header i a rep a')
    show ?case
    proof (cases "guard_admin sha t header a :: 'e reply option \<times> 'x app")
      case (Pair den a1)
      note same = guard_admin_same [OF Pair]
      have "reg_step sha f (reg_of a1) (reg_of a')"
        using as_unenroll Pair rs_none [of sha f "reg_of a1"] rs_end [of sha f "reg_of a1" i]
        by (auto simp: unenroll_handler_def put_registry_def unenroll_def split: option.splits if_splits)
      with same show ?thesis by (simp add: app_step_effect_def)
    qed
  next
    case (as_bearer t auth a who a')
    have "reg_step sha f (reg_of a) (reg_of a')"
      using as_bearer rs_none [of sha f "reg_of a"] lookup_step [of sha f "reg_of a"]
      by (auto simp: check_bearer_def Let_def put_registry_def split: if_splits prod.splits)
        (metis prod.collapse snd_conv)
    then show ?case by (simp add: app_step_effect_def)
  qed
  then show ?thesis using that by (auto simp: app_step_effect_def)
qed


inductive app_reachable ::
  "(pystr \<Rightarrow> pystr) \<Rightarrow> bool \<Rightarrow> 'x hook \<Rightarrow> ('e, 'p, 'x) extension option \<Rightarrow> 'x \<Rightarrow> 'x app \<Rightarrow> bool"
  for sha acc f ext x0 where
  ar_new: "new_app sha token x0 = Some a \<Longrightarrow> app_reachable sha acc f ext x0 a"
| ar_step: "app_reachable sha acc f ext x0 a \<Longrightarrow> app_step sha acc f ext a a' \<Longrightarrow>
     app_reachable sha acc f ext x0 a'"

definition registry_ok :: "registry \<Rightarrow> bool" where
  "registry_ok r \<longleftrightarrow> reg_inv r \<and> within_cap r \<and> max_entries r = DEFAULT_MAX_ENTRIES"

lemma reg_step_ok: "reg_step sha f st st' \<Longrightarrow> registry_ok (fst st) \<Longrightarrow> registry_ok (fst st')"
  unfolding registry_ok_def by (metis reg_step_inv reg_step_cap max_entries_step)

lemma registry_ok_new: "registry_ok (new_registry DEFAULT_MAX_ENTRIES ttl)"
  unfolding registry_ok_def
  by (intro conjI reg_inv_new) (simp_all add: within_cap_def new_registry_def DEFAULT_MAX_ENTRIES_def)

lemma new_app_sel:
  assumes "new_app sha token x = Some a"
  shows "app_registry a = new_registry DEFAULT_MAX_ENTRIES DEFAULT_TTL_SECONDS" "app_scope a = x"
  using assms by (auto simp: new_app_def split: option.splits)

lemma app_step_ok:
  assumes "app_step sha acc f ext a a'" "registry_ok (app_registry a)"
  shows "registry_ok (app_registry a')"
  using assms(1)
proof (cases rule: app_step_reg)
  case step
  from reg_step_ok [OF step] assms(2) show ?thesis by simp
next
  case (applied st i p x body)
  from reg_step_ok [OF applied(1)] assms(2) applied(4) show ?thesis by simp
qed

lemma app_reachable_ok: "app_reachable sha acc f ext x0 a \<Longrightarrow> registry_ok (app_registry a)"
proof (induction rule: app_reachable.induct)
  case (ar_new token a)
  then show ?case
    by (simp add: new_app_sel registry_ok_new)
next
  case (ar_step a a')
  then show ?case by (blast intro: app_step_ok)
qed

subsection \<open>The contract of a proxy's per-sandbox state\<close>

text \<open>
  What the registry asks of an \<open>on_unenroll\<close> hook, and of an extension's \<open>apply\<close>: the hook drops
  exactly the sandbox's own entry, and \<open>apply\<close> adds none but the enrolled sandbox's.
\<close>

locale scoped_hook =
  fixes forget :: "pystr \<Rightarrow> 'x \<Rightarrow> 'x" and scoped :: "'x \<Rightarrow> pystr set"
  assumes scoped_forget: "scoped (forget i x) = scoped x - {i}"
begin

lemma scoped_end:
  assumes "scoped (snd st) \<subseteq> enrolled_ids (fst st)"
  shows "scoped (snd (snd (end_enrollment (Some forget) i st))) \<subseteq>
    enrolled_ids (fst (snd (end_enrollment (Some forget) i st)))"
  using assms by (auto simp: end_enrollment_scope dom_simps run_hook_def scoped_forget)

lemma scoped_purge:
  "scoped (snd st) \<subseteq> enrolled_ids (fst st) \<Longrightarrow>
   scoped (snd (purge_expired (Some forget) now st)) \<subseteq>
     enrolled_ids (fst (purge_expired (Some forget) now st))"
  by (rule purge_expired_rule [where P = "\<lambda>st. scoped (snd st) \<subseteq> enrolled_ids (fst st)"])
    (auto dest: scoped_end)

lemma scoped_previous:
  "scoped (snd st) \<subseteq> enrolled_ids (fst st) \<Longrightarrow>
   scoped (snd (end_previous (Some forget) i h st)) \<subseteq>
     enrolled_ids (fst (end_previous (Some forget) i h st))"
  by (rule end_previous_rule [where P = "\<lambda>st. scoped (snd st) \<subseteq> enrolled_ids (fst st)"])
    (auto dest: scoped_end)

lemma scoped_enroll:
  assumes "reg_inv (fst st)" "scoped (snd st) \<subseteq> enrolled_ids (fst st)"
    and "enroll sha (Some forget) t1 t2 i tok p g u ttl st = (out, st')"
  shows "scoped (snd st') \<subseteq> enrolled_ids (fst st') - (if out = Enrolled then {i} else {})"
proof -
  define st1 where "st1 = purge_expired (Some forget) t1 st"
  have s1: "scoped (snd st1) \<subseteq> enrolled_ids (fst st1)" and inv1: "reg_inv (fst st1)"
    using assms(1,2) by (simp_all add: st1_def scoped_purge purge_expired_inv)
  have "i \<notin> enrolled_ids (fst (end_previous (Some forget) i (sha tok) st1))"
    by (simp add: enrolled_ids_map_of end_previous_ids(1) [OF inv1])
  with scoped_previous [OF s1, of i "sha tok"] s1 assms(3) show ?thesis
    by (auto simp: enroll_def Let_def dom_simps simp flip: st1_def split: if_splits)
qed

lemma scoped_reg_step:
  assumes "reg_step sha (Some forget) st st'" "reg_inv (fst st)" "scoped (snd st) \<subseteq> enrolled_ids (fst st)"
  shows "scoped (snd st') \<subseteq> enrolled_ids (fst st')"
  using assms
proof (induction rule: reg_step.induct)
  case (rs_enroll st t1 t2 i tok p g u ttl)
  then show ?case
    using scoped_enroll [of st sha t1 t2 i tok p g u ttl "fst X" "snd X" for X, OF _ _ prod.collapse [symmetric]]
    by blast
qed (auto dest: scoped_end scoped_purge)

end

locale scoped_extension = scoped_hook forget scoped
  for forget :: "pystr \<Rightarrow> 'x \<Rightarrow> 'x" and scoped :: "'x \<Rightarrow> pystr set" +
  fixes ext :: "('e, 'p, 'x) extension" and valid :: "'x \<Rightarrow> bool"
  assumes scoped_apply: "scoped (snd (ext_apply ext i p x)) \<subseteq> insert i (scoped x)"
    and valid_forget: "valid x \<Longrightarrow> valid (forget i x)"
    and valid_apply: "ext_parse ext body = Inr p \<Longrightarrow> valid x \<Longrightarrow> valid (snd (ext_apply ext i p x))"
begin

lemma valid_end: "valid (snd st) \<Longrightarrow> valid (snd (snd (end_enrollment (Some forget) i st)))"
  by (simp add: end_enrollment_scope run_hook_def valid_forget)

lemma valid_reg_step:
  assumes "reg_step sha (Some forget) st st'" "valid (snd st)"
  shows "valid (snd st')"
  using assms
proof (induction rule: reg_step.induct)
  case (rs_purge st now)
  then show ?case
    by (intro purge_expired_rule [where P = "\<lambda>st. valid (snd st)"]) (auto intro: valid_end)
next
  case (rs_enroll st t1 t2 i tok p g u ttl)
  then have "valid (snd (purge_expired (Some forget) t1 st))"
    by (intro purge_expired_rule [where P = "\<lambda>st. valid (snd st)"]) (auto intro: valid_end)
  moreover from this have "valid (snd (end_previous (Some forget) i (sha tok) (purge_expired (Some forget) t1 st)))"
    by (intro end_previous_rule [where P = "\<lambda>st. valid (snd st)"]) (auto intro: valid_end)
  ultimately show ?case by (simp add: enroll_def Let_def)
qed (auto intro: valid_end)

lemma valid_app_step:
  assumes "app_step sha acc (Some forget) (Some ext) a a'" and "valid (app_scope a)"
  shows "valid (app_scope a')"
  using assms(1)
proof (cases rule: app_step_reg)
  case step
  from valid_reg_step [OF step] assms(2) show ?thesis by simp
next
  case (applied st i p x body)
  from valid_reg_step [OF applied(1)] assms(2) have "valid (snd st)" by simp
  with applied valid_apply show ?thesis by simp
qed

lemma valid_reachable:
  assumes "app_reachable sha acc (Some forget) (Some ext) x0 a" and "valid x0"
  shows "valid (app_scope a)"
  using assms(1)
proof (induction rule: app_reachable.induct)
  case (ar_new token a)
  then show ?case using assms(2) by (simp add: new_app_sel)
next
  case (ar_step a a')
  then show ?case by (blast intro: valid_app_step)
qed

lemma scoped_app_step:
  assumes "app_step sha acc (Some forget) (Some ext) a a'"
    and "registry_ok (app_registry a)" and "scoped (app_scope a) \<subseteq> enrolled_ids (app_registry a)"
  shows "scoped (app_scope a') \<subseteq> enrolled_ids (app_registry a')"
  using assms(1)
proof (cases rule: app_step_reg)
  case step
  from scoped_reg_step [OF step] assms(2,3) show ?thesis by (simp add: registry_ok_def)
next
  case (applied st i p x body)
  have "scoped (snd st) \<subseteq> enrolled_ids (fst st)"
    using scoped_reg_step [OF applied(1)] assms(2,3) by (simp add: registry_ok_def)
  with applied scoped_apply [of i p "snd st"] show ?thesis by auto
qed

theorem scope_within_enrollment:
  assumes "app_reachable sha acc (Some forget) (Some ext) x0 a" and "scoped x0 = {}"
  shows "scoped (app_scope a) \<subseteq> enrolled_ids (app_registry a)"
  using assms(1)
proof (induction rule: app_reachable.induct)
  case (ar_new token a)
  then show ?case using assms(2)
    by (simp add: new_app_sel)
next
  case (ar_step a a')
  from ar_step.hyps(2) app_reachable_ok [OF ar_step.hyps(1)] ar_step.IH
  show ?case by (rule scoped_app_step)
qed

end


subsection \<open>Properties\<close>

text \<open>C24: in every state a proxy's admin and bearer requests can reach, bearers and sandboxes are
  in one-to-one correspondence, at most 500 sandboxes are enrolled, every enrollment has an expiry
  and no credential is kept for a sandbox that is not enrolled.\<close>

theorem enrollment_consistent:
  assumes "app_reachable sha acc f ext x0 a"
  defines "r \<equiv> app_registry a"
  shows "(\<forall>i h. map_of (hash_by_id r) i = Some h \<longleftrightarrow> map_of (id_by_hash r) h = Some i) \<and>
    length (hash_by_id r) \<le> 500 \<and> card (enrolled_ids r) = length (hash_by_id r) \<and>
    keys (expires_at_by_id r) = enrolled_ids r \<and>
    keys (payload_token_by_id r) \<union> keys (git_identity_by_id r) \<subseteq> enrolled_ids r"
proof -
  have ok: "reg_inv r" "within_cap r" "max_entries r = 500"
    using app_reachable_ok [OF assms(1)] by (simp_all add: registry_ok_def r_def DEFAULT_MAX_ENTRIES_def)
  have "card (enrolled_ids r) = length (hash_by_id r)"
    using ok(1) by (simp add: reg_inv_def enrolled_ids_def distinct_keys_length)
  with ok show ?thesis
    by (intro conjI allI reg_inv_bij) (simp_all add: reg_inv_def within_cap_def enrolled_ids_def)
qed

lemma lookup_by_maps:
  assumes "reg_inv (fst st)"
  shows "fst (lookup sha f now tok st) =
    (case map_of (id_by_hash (fst st)) (sha tok) of
       None \<Rightarrow> None
     | Some i \<Rightarrow> if (\<exists>e. map_of (expires_at_by_id (fst st)) i = Some e \<and> fle e (Fin now)) then None else Some i)"
proof (cases "map_of (id_by_hash (fst st)) (sha tok)")
  case (Some i)
  then have "i \<in> keys (expires_at_by_id (fst st))"
    using assms reg_inv_bij [OF assms, of i "sha tok"] by (auto simp: reg_inv_def dest: map_of_SomeD_keys)
  then obtain e where "map_of (expires_at_by_id (fst st)) i = Some e" by (auto simp: in_keys_iff)
  with Some show ?thesis by (simp add: lookup_def)
qed (simp add: lookup_def)

lemma granted_ttl_purge [simp]:
  "granted_ttl ttl (fst (purge_expired f now st)) = granted_ttl ttl (fst st)"
  by (simp add: granted_ttl_def split: option.split)

lemma enroll_maps:
  assumes "reg_inv (fst st)" and "enroll sha f t1 t2 i tok p g u ttl st = (Enrolled, st')"
  shows "map_of (id_by_hash (fst st')) (sha tok) = Some i"
    and "map_of (hash_by_id (fst st')) i = Some (sha tok)"
    and "map_of (expires_at_by_id (fst st')) i = Some (fadd (Fin t2) (granted_ttl ttl (fst st)))"
  using assms(2) by (auto simp: enroll_def Let_def split: if_splits)

text \<open>An accepted enrollment makes its bearer resolve to its sandbox until it expires, and
  takes every earlier bearer of the sandbox out of use; the sandbox that held the bearer before
  is no longer enrolled.\<close>

lemma enroll_then_lookup:
  assumes "app_reachable sha acc f ext x0 a"
    and "enroll sha f t1 t2 i tok p g u ttl (reg_of a) = (Enrolled, st')"
  shows "fst (lookup sha f now tok st') =
      (if fle (fadd (Fin t2) (granted_ttl ttl (app_registry a))) (Fin now) then None else Some i) \<and>
    (\<forall>old. sha old \<noteq> sha tok \<longrightarrow> fst (lookup sha f now old st') \<noteq> Some i) \<and>
    (\<forall>j. j \<noteq> i \<longrightarrow> map_of (id_by_hash (app_registry a)) (sha tok) = Some j \<longrightarrow>
        j \<notin> enrolled_ids (fst st'))"
proof -
  have inv: "reg_inv (app_registry a)" using app_reachable_ok [OF assms(1)] by (simp add: registry_ok_def)
  then have inv': "reg_inv (fst st')"
    using enroll_inv [of "reg_of a" sha f t1 t2 i tok p g u ttl] assms(2) by simp
  note m = enroll_maps [of "reg_of a", simplified, OF inv assms(2)]
  have "fst (lookup sha f now old st') \<noteq> Some i" if "sha old \<noteq> sha tok" for old
    using that m(2) reg_inv_bij [OF inv', of i "sha old"]
    by (auto simp: lookup_by_maps [OF inv'] split: option.splits if_splits)
  moreover have "j \<notin> enrolled_ids (fst st')"
    if "j \<noteq> i" "map_of (id_by_hash (app_registry a)) (sha tok) = Some j" for j
  proof
    assume "j \<in> enrolled_ids (fst st')"
    then obtain k where k: "map_of (hash_by_id (fst st')) j = Some k"
      by (auto simp: enrolled_ids_map_of)
    define st1 where "st1 = purge_expired f t1 (reg_of a)"
    have inv1: "reg_inv (fst st1)" using inv by (simp add: st1_def purge_expired_inv)
    have st': "fst st' = store_enrollment i (sha tok) p g u (fadd (Fin t2) (granted_ttl ttl (fst st1)))
        (fst (end_previous f i (sha tok) st1))"
      using assms(2) by (auto simp: enroll_def Let_def simp flip: st1_def split: if_splits)
    with k that(1) have c: "map_of (id_by_hash (fst st1)) (sha tok) \<noteq> Some j"
      "map_of (hash_by_id (fst st1)) j = Some k"
      by (simp_all add: end_previous_ids(1) [OF inv1] split: if_splits)
    from c(2) have "map_of (hash_by_id (app_registry a)) j = Some k"
      by (simp add: st1_def purge_expired_maps(1) inv split: if_splits)
    moreover have "map_of (hash_by_id (app_registry a)) j = Some (sha tok)"
      using that(2) reg_inv_bij [OF inv] by simp
    ultimately show False using c reg_inv_bij [OF inv1, of j k] by simp
  qed
  ultimately show ?thesis using m by (simp add: lookup_by_maps [OF inv'])
qed

text \<open>Whatever lifetime the orchestrator asks for, an accepted enrollment expires within a
  week of the clock reading it was stored at, unless the lifetime is NaN.\<close>

lemma enrollment_expiry_bound:
  assumes "app_reachable sha acc f ext x0 a"
    and "enroll sha f t1 t2 i tok p g u ttl (reg_of a) = (Enrolled, st')"
    and "ttl \<noteq> Some NaN" and "default_ttl (app_registry a) \<noteq> NaN"
    and "map_of (expires_at_by_id (fst st')) i = Some e"
  shows "fle e (Fin (t2 + 604800))"
proof -
  have "reg_inv (app_registry a)" using app_reachable_ok [OF assms(1)] by (simp add: registry_ok_def)
  then have e: "e = fadd (Fin t2) (granted_ttl ttl (app_registry a))"
    using enroll_maps(3) [of "reg_of a"] assms(2,5) by simp
  define t where "t = (case ttl of Some t \<Rightarrow> if ftruthy t then t else default_ttl (app_registry a)
                                | None \<Rightarrow> default_ttl (app_registry a))"
  have "t \<noteq> NaN" using assms(3,4) by (auto simp: t_def split: option.splits if_splits)
  then have "fle (fmin t (Fin 604800)) (Fin 604800)" using fmin_le_right by blast
  then show ?thesis
    unfolding e granted_ttl_def t_def [symmetric] MAX_TTL_SECONDS_def
    by (cases "fmin t (Fin 604800)") simp_all
qed

subsection \<open>The admin gate\<close>

fun guard_run ::
  "(pystr \<Rightarrow> pystr) \<Rightarrow> (rat \<times> pystr) list \<Rightarrow> admin_guard \<Rightarrow> admin_verdict list \<times> admin_guard" where
  "guard_run sha [] g = ([], g)"
| "guard_run sha ((t, p) # ps) g =
     (let (v, g') = guard_check sha t p g; (vs, g'') = guard_run sha ps g' in (v # vs, g''))"

lemma guard_check_failures:
  "length (failures g) < 10 \<Longrightarrow> length (failures (snd (guard_check sha t p g))) < 10"
  by (auto simp: guard_check_def Let_def ADMIN_MAX_FAILURES_def)

lemma guard_check_token [simp]: "token_hash (snd (guard_check sha t p g)) = token_hash g"
  by (auto simp: guard_check_def Let_def)

lemma guard_run_inv:
  "length (failures g) < 10 \<Longrightarrow>
   length (failures (snd (guard_run sha ps g))) < 10 \<and> token_hash (snd (guard_run sha ps g)) = token_hash g"
proof (induction ps arbitrary: g)
  case (Cons tp ps)
  obtain t p where tp: "tp = (t, p)" by (cases tp)
  show ?case
    using Cons.IH [of "snd (guard_check sha t p g)"] guard_check_failures [OF Cons.prems, of sha t p]
    by (simp add: tp Let_def split_beta)
qed simp

definition recent_failures :: "rat \<Rightarrow> admin_guard \<Rightarrow> nat" where
  "recent_failures t0 g = length (filter (\<lambda>t. t0 \<le> t) (failures g))"

lemma locked_run:
  "\<forall>(t, p) \<in> set ps. t < locked_until g \<Longrightarrow> guard_run sha ps g = (map (\<lambda>_. Admin_Locked) ps, g)"
  by (induction sha ps g rule: guard_run.induct) (auto simp: guard_check_def)

lemma unauthorized_bound:
  assumes "length (failures g) < 10"
    and "\<forall>(t, p) \<in> set ps. t0 \<le> t \<and> t < t0 + 60 \<and> \<not> (p \<noteq> [] \<and> sha p = token_hash g)"
  shows "length (filter (\<lambda>v. v = Admin_Unauthorized) (fst (guard_run sha ps g))) + recent_failures t0 g \<le> 9"
  using assms
proof (induction ps arbitrary: g)
  case Nil
  have "recent_failures t0 g \<le> length (failures g)" by (simp add: recent_failures_def)
  with Nil show ?case by simp
next
  case (Cons tp ps)
  obtain t p where tp: "tp = (t, p)" by (cases tp)
  define g' where "g' = snd (guard_check sha t p g)"
  have IH: "length (filter (\<lambda>v. v = Admin_Unauthorized) (fst (guard_run sha ps g'))) +
      recent_failures t0 g' \<le> 9"
    using Cons.prems by (intro Cons.IH) (auto simp: g'_def guard_check_failures)
  have t: "t0 \<le> t" "t < t0 + 60" "\<not> (p \<noteq> [] \<and> sha p = token_hash g)" using Cons.prems tp by auto
  define fs where "fs = filter (\<lambda>s. t - 60 < s) (failures g) @ [t]"
  have rec: "length (filter (\<lambda>s. t0 \<le> s) fs) = Suc (recent_failures t0 g)"
  proof -
    have "filter (\<lambda>s. t0 \<le> s) (filter (\<lambda>s. t - 60 < s) (failures g)) = filter (\<lambda>s. t0 \<le> s) (failures g)"
      using t by (auto simp: filter_filter intro: filter_cong)
    with t show ?thesis by (simp add: fs_def recent_failures_def)
  qed
  consider (before) "t < locked_until g" | (lock) "\<not> t < locked_until g" "10 \<le> length fs"
    | (fail) "\<not> t < locked_until g" "length fs < 10" by linarith
  then show ?case
  proof cases
    case before
    then have "guard_check sha t p g = (Admin_Locked, g)" by (simp add: guard_check_def)
    with IH show ?thesis by (simp add: tp Let_def split_beta g'_def)
  next
    case lock
    then have c: "guard_check sha t p g = (Admin_Locked, g\<lparr>failures := [], locked_until := t + 60\<rparr>)"
      using t by (auto simp: guard_check_def Let_def fs_def ADMIN_MAX_FAILURES_def
          ADMIN_FAILURE_WINDOW_SECONDS_def ADMIN_LOCKOUT_SECONDS_def)
    have "guard_run sha ps g' = (map (\<lambda>_. Admin_Locked) ps, g')"
      using Cons.prems(2) t(1) by (intro locked_run) (auto simp: g'_def c tp)
    moreover have "recent_failures t0 g \<le> length (failures g)" by (simp add: recent_failures_def)
    ultimately show ?thesis using c Cons.prems(1) by (simp add: tp Let_def split_beta g'_def)
  next
    case fail
    then have c: "guard_check sha t p g = (Admin_Unauthorized, g\<lparr>failures := fs\<rparr>)"
      using t by (auto simp: guard_check_def Let_def fs_def ADMIN_MAX_FAILURES_def
          ADMIN_FAILURE_WINDOW_SECONDS_def)
    then have "recent_failures t0 g' = Suc (recent_failures t0 g)"
      by (simp add: g'_def recent_failures_def rec)
    with IH c show ?thesis by (simp add: tp Let_def split_beta g'_def)
  qed
qed



subsection \<open>Instances the witnesses run\<close>

definition demo_token :: pystr where
  "demo_token = ''0123456789abcdef0123456789abcdef''"

definition demo_body :: "json \<Rightarrow> json" where
  "demo_body ttl = JObj [(''sandbox_id'', JStr ''sb1''), (''sandbox_token'', JStr demo_token),
     (''ttl_seconds'', ttl)]"

definition demo_app :: "unit app" where
  "demo_app = \<lparr>app_registry = new_registry DEFAULT_MAX_ENTRIES DEFAULT_TTL_SECONDS,
     app_guard = \<lparr>token_hash = ''adm'', failures = [], locked_until = 0\<rparr>, app_scope = ()\<rparr>"

definition demo_enrolled :: "json \<Rightarrow> unit reply \<times> unit app" where
  "demo_enrolled ttl = enroll_handler (\<lambda>s. s) False None (None :: (unit, unit, unit) extension option)
     0 0 0 ''adm'' (Some (demo_body ttl)) demo_app"

definition no_extension :: "(unit, unit, unit) extension option" where
  "no_extension = None"

lemma demo_app_reachable: "app_reachable (\<lambda>s. s) False None no_extension () demo_app"
  by (rule ar_new [where token = "''adm''"]) (simp add: new_app_def new_admin_guard_def demo_app_def)

lemma demo_enrolled_reachable: "app_reachable (\<lambda>s. s) False None no_extension () (snd (demo_enrolled ttl))"
  unfolding demo_enrolled_def no_extension_def
  by (rule ar_step [OF demo_app_reachable [unfolded no_extension_def]])
    (rule as_enroll, rule surjective_pairing)

lemma demo_enrolled_eval:
  "hash_by_id (app_registry (snd (demo_enrolled (JInt 60)))) = [(''sb1'', demo_token)]"
  by code_simp

theorem enrollment_consistent_witness:
  "length (hash_by_id (app_registry (snd (demo_enrolled (JInt 60))))) \<le> 500 \<and>
   card (enrolled_ids (app_registry (snd (demo_enrolled (JInt 60))))) = 1"
  using enrollment_consistent [OF demo_enrolled_reachable [of "JInt 60"]]
  by (simp add: demo_enrolled_eval)

lemma enroll_then_lookup_witness:
  "fst (lookup (\<lambda>s. s) None 9 ''t2'' (snd (enroll (\<lambda>s. s) None 5 5 ''sb1'' ''t2'' None None None
      (Some (Fin 10)) (reg_of (snd (demo_enrolled (JInt 60))))))) = Some ''sb1'' \<and>
   fst (lookup (\<lambda>s. s) None 9 demo_token (snd (enroll (\<lambda>s. s) None 5 5 ''sb1'' ''t2'' None None None
      (Some (Fin 10)) (reg_of (snd (demo_enrolled (JInt 60))))))) \<noteq> Some ''sb1''"
proof -
  let ?e = "enroll (\<lambda>s. s) None 5 5 ''sb1'' ''t2'' None None None (Some (Fin 10))
      (reg_of (snd (demo_enrolled (JInt 60))))"
  have "fst ?e = Enrolled" by code_simp
  then have e: "?e = (Enrolled, snd ?e)" by (metis prod.collapse)
  have "\<not> fle (fadd (Fin 5) (granted_ttl (Some (Fin 10)) (app_registry (snd (demo_enrolled (JInt 60)))))) (Fin 9)"
    by code_simp
  moreover have "demo_token \<noteq> ''t2''" by (simp add: demo_token_def)
  ultimately show ?thesis
    using enroll_then_lookup [OF demo_enrolled_reachable e, of 9] by simp
qed

lemma enrollment_expiry_bound_witness:
  "fle (Fin 604805) (Fin (5 + 604800))"
proof -
  let ?e = "enroll (\<lambda>s. s) None 5 5 ''sb2'' ''t2'' None None None (Some PInf) (reg_of demo_app)"
  have "fst ?e = Enrolled" by code_simp
  then have e: "?e = (Enrolled, snd ?e)" by (metis prod.collapse)
  have "map_of (expires_at_by_id (fst (snd ?e))) ''sb2'' = Some (Fin 604805)" by code_simp
  moreover have "default_ttl (app_registry demo_app) \<noteq> NaN" by code_simp
  ultimately show ?thesis
    using enrollment_expiry_bound [OF demo_app_reachable e] by blast
qed

definition wrong_attempts :: "(rat \<times> pystr) list" where
  "wrong_attempts = map (\<lambda>i. (of_nat i, ''guess'')) [0..<12]"


text \<open>An admin request whose \<open>ttl_seconds\<close> is the JSON literal NaN is accepted, and the
  enrollment it makes never expires: its bearer resolves at every later clock reading.\<close>

lemma nan_ttl_never_expires:
  "\<exists>fs. fst (demo_enrolled (JFloat NaN)) = Reply 200 [] (Fields fs) \<and>
   fst (lookup (\<lambda>s. s) None now demo_token (reg_of (snd (demo_enrolled (JFloat NaN))))) = Some ''sb1''"
proof -
  have r: "fst (demo_enrolled (JFloat NaN)) = Reply 200 [] (Fields [(''status'', JStr ''enrolled'')])"
    by code_simp
  have m: "map_of (id_by_hash (app_registry (snd (demo_enrolled (JFloat NaN))))) demo_token = Some ''sb1''"
    "map_of (expires_at_by_id (app_registry (snd (demo_enrolled (JFloat NaN))))) ''sb1'' = Some NaN"
    by code_simp+
  show ?thesis using r m by (simp add: lookup_def)
qed

end
