(* ===== verification/Forge_Scope.thy ===== *)
theory Forge_Scope
  imports Enrollment "HOL-Library.List_Lexorder" "HOL-Library.Char_ord"
begin

text \<open>
  The repository scope of the forge API proxies (\<open>embry0/execution/proxy/forge_scope.py\<close>): which
  calls the github-proxy and the gitlab-proxy forward for a sandbox, and the enrollment extension
  that stores a sandbox's scope. A request path is the raw, percent-encoded path; a decoded segment
  holds the UTF-8 bytes of its characters. A refused enroll body carries a reason instead of the
  formatted message.
\<close>

definition SCOPE_FIELD :: pystr where "SCOPE_FIELD = ''allowed_repos''"
definition MAX_SCOPE_REPOS :: nat where "MAX_SCOPE_REPOS = 8"
definition GITLAB_MAX_DEPTH :: nat where "GITLAB_MAX_DEPTH = 20"

text \<open>\<open>_PCHAR_SAFE\<close> with the characters \<open>quote\<close> never escapes.\<close>

definition pchar_safe :: "char \<Rightarrow> bool" where
  "pchar_safe c \<longleftrightarrow> is_alnum c \<or> c \<in> set (CHR 0x27 # ''-._~!$&()*+,;=:@'')"

definition name_char :: "char \<Rightarrow> bool" where
  "name_char c \<longleftrightarrow> is_alnum c \<or> c \<in> set ''_.-''"

text \<open>\<open>_NAME_PART_RE.fullmatch\<close>.\<close>

definition name_part :: "pystr \<Rightarrow> bool" where
  "name_part s \<longleftrightarrow> 1 \<le> length s \<and> length s \<le> 255 \<and> list_all name_char s"

text \<open>\<open>_DIGITS_RE.fullmatch\<close>.\<close>

definition all_digits :: "pystr \<Rightarrow> bool" where
  "all_digits s \<longleftrightarrow> s \<noteq> [] \<and> list_all is_digit s"

subsection \<open>Rules\<close>

datatype rule_token = Num | Seg | Enc | Rest | Lit pystr

datatype http_rule = Rule "pystr set" "rule_token list"

definition read_methods :: "pystr set" where
  "read_methods = {''GET'', ''HEAD''}"

abbreviation rd :: "rule_token list \<Rightarrow> http_rule" where
  "rd \<equiv> Rule read_methods"

definition GITHUB_RULES :: "http_rule list" where
  "GITHUB_RULES =
    [rd [],
     rd [Lit ''issues''],
     rd [Lit ''issues'', Num],
     rd [Lit ''issues'', Num, Lit ''comments''],
     rd [Lit ''issues'', Num, Lit ''events''],
     rd [Lit ''issues'', Num, Lit ''timeline''],
     rd [Lit ''issues'', Lit ''comments''],
     rd [Lit ''issues'', Lit ''comments'', Num],
     rd [Lit ''pulls''],
     rd [Lit ''pulls'', Num],
     rd [Lit ''pulls'', Num, Lit ''commits''],
     rd [Lit ''pulls'', Num, Lit ''files''],
     rd [Lit ''pulls'', Num, Lit ''comments''],
     rd [Lit ''pulls'', Num, Lit ''reviews''],
     rd [Lit ''pulls'', Num, Lit ''reviews'', Num],
     rd [Lit ''pulls'', Num, Lit ''reviews'', Num, Lit ''comments''],
     rd [Lit ''pulls'', Lit ''comments''],
     rd [Lit ''pulls'', Lit ''comments'', Num],
     rd [Lit ''commits''],
     rd [Lit ''commits'', Seg],
     rd [Lit ''commits'', Seg, Lit ''check-runs''],
     rd [Lit ''commits'', Seg, Lit ''check-suites''],
     rd [Lit ''commits'', Seg, Lit ''status''],
     rd [Lit ''commits'', Seg, Lit ''statuses''],
     rd [Lit ''check-runs'', Num],
     rd [Lit ''check-runs'', Num, Lit ''annotations''],
     rd [Lit ''check-suites'', Num],
     rd [Lit ''check-suites'', Num, Lit ''check-runs''],
     rd [Lit ''branches''],
     rd [Lit ''branches'', Seg],
     rd [Lit ''compare'', Rest],
     rd [Lit ''contents''],
     rd [Lit ''contents'', Rest],
     rd [Lit ''readme''],
     rd [Lit ''labels'']]"

definition GITLAB_RULES :: "http_rule list" where
  "GITLAB_RULES =
    [rd [],
     rd [Lit ''issues''],
     rd [Lit ''issues'', Num],
     rd [Lit ''issues'', Num, Lit ''notes''],
     rd [Lit ''issues'', Num, Lit ''notes'', Num],
     rd [Lit ''issues'', Num, Lit ''discussions''],
     rd [Lit ''merge_requests''],
     rd [Lit ''merge_requests'', Num],
     rd [Lit ''merge_requests'', Num, Lit ''notes''],
     rd [Lit ''merge_requests'', Num, Lit ''notes'', Num],
     rd [Lit ''merge_requests'', Num, Lit ''discussions''],
     rd [Lit ''merge_requests'', Num, Lit ''changes''],
     rd [Lit ''merge_requests'', Num, Lit ''diffs''],
     rd [Lit ''merge_requests'', Num, Lit ''commits''],
     rd [Lit ''merge_requests'', Num, Lit ''pipelines''],
     rd [Lit ''repository'', Lit ''commits''],
     rd [Lit ''repository'', Lit ''commits'', Enc],
     rd [Lit ''repository'', Lit ''commits'', Enc, Lit ''diff''],
     rd [Lit ''repository'', Lit ''commits'', Enc, Lit ''statuses''],
     rd [Lit ''repository'', Lit ''tree''],
     rd [Lit ''repository'', Lit ''files'', Enc],
     rd [Lit ''repository'', Lit ''files'', Enc, Lit ''raw''],
     rd [Lit ''repository'', Lit ''branches''],
     rd [Lit ''repository'', Lit ''branches'', Enc],
     rd [Lit ''repository'', Lit ''compare''],
     rd [Lit ''pipelines''],
     rd [Lit ''pipelines'', Num],
     rd [Lit ''pipelines'', Num, Lit ''jobs''],
     rd [Lit ''labels'']]"

subsection \<open>Paths\<close>

definition dot_segment :: "pystr \<Rightarrow> bool" where
  "dot_segment s \<longleftrightarrow> s = ''.'' \<or> s = ''..''"

definition safe_parts :: "pystr list \<Rightarrow> bool" where
  "safe_parts ps \<longleftrightarrow> list_all (\<lambda>p. p \<noteq> [] \<and> \<not> dot_segment p) ps"

definition normalize_github_repo :: "pystr \<Rightarrow> pystr option" where
  "normalize_github_repo value =
     (let parts = split_on CHR ''/'' (strip value)
      in if length parts \<noteq> 2 \<or> \<not> safe_parts parts \<or> \<not> list_all name_part parts then None
         else Some (ascii_lower (join ''/'' parts)))"

definition normalize_gitlab_project :: "pystr \<Rightarrow> pystr option" where
  "normalize_gitlab_project value =
     (let parts = split_on CHR ''/'' (strip value)
      in if \<not> (2 \<le> length parts \<and> length parts \<le> GITLAB_MAX_DEPTH) then None
         else if \<not> safe_parts parts \<or> \<not> list_all name_part parts then None
         else Some (ascii_lower (join ''/'' parts)))"

definition is_control :: "char \<Rightarrow> bool" where
  "is_control c \<longleftrightarrow> ord c < 0x20 \<or> ord c = 0x7F"

definition decode_segment :: "pystr \<Rightarrow> pystr option" where
  "decode_segment raw =
     (if raw = [] \<or> CHR 0x5C \<in> set raw then None
      else case unquote raw of
        None \<Rightarrow> None
      | Some decoded \<Rightarrow>
          if dot_segment decoded \<or> CHR 0x5C \<in> set decoded \<or> has_escape decoded then None
          else if list_ex is_control decoded then None
          else Some decoded)"

fun decode_all :: "pystr list \<Rightarrow> pystr list option" where
  "decode_all [] = Some []"
| "decode_all (raw # raws) =
     (case decode_segment raw of
        None \<Rightarrow> None
      | Some d \<Rightarrow> (case decode_all raws of None \<Rightarrow> None | Some ds \<Rightarrow> Some (d # ds)))"

definition decode_segments :: "pystr \<Rightarrow> pystr list option" where
  "decode_segments raw_path =
     (case raw_path of
        c # body \<Rightarrow>
          if c \<noteq> CHR ''/'' then None
          else if body = [] then Some []
          else decode_all (split_on CHR ''/'' body)
      | [] \<Rightarrow> None)"

fun token_matches :: "rule_token \<Rightarrow> pystr \<Rightarrow> bool" where
  "token_matches Num s = all_digits s"
| "token_matches Seg s = (CHR ''/'' \<notin> set s)"
| "token_matches Enc s = safe_parts (split_on CHR ''/'' s)"
| "token_matches (Lit t) s = (s = t)"
| "token_matches Rest s = (s = ''{rest}'')"

definition rule_matches :: "rule_token list \<Rightarrow> pystr list \<Rightarrow> bool" where
  "rule_matches pattern rest =
     (if pattern \<noteq> [] \<and> last pattern = Rest then
        (let head = butlast pattern; tail = drop (length head) rest
         in length head < length rest \<and> list_all (\<lambda>s. CHR ''/'' \<notin> set s) tail \<and>
            list_all2 token_matches head (take (length head) rest))
      else length rest = length pattern \<and> list_all2 token_matches pattern rest)"

fun rule_pattern :: "http_rule \<Rightarrow> rule_token list" where "rule_pattern (Rule _ p) = p"
fun rule_methods :: "http_rule \<Rightarrow> pystr set" where "rule_methods (Rule ms _) = ms"

definition match_rule :: "http_rule list \<Rightarrow> pystr list \<Rightarrow> http_rule option" where
  "match_rule rules rest = find (\<lambda>r. rule_matches (rule_pattern r) rest) rules"

definition encode_path :: "pystr list \<Rightarrow> pystr" where
  "encode_path segs = ''/'' @ join ''/'' (map (quote pchar_safe) segs)"

subsection \<open>Verdicts\<close>

datatype verdict = Deny pystr | Allow pystr

definition rule_verdict :: "pystr \<Rightarrow> pystr list \<Rightarrow> nat \<Rightarrow> http_rule list \<Rightarrow> verdict" where
  "rule_verdict meth segs prefix_len rules =
     (case match_rule rules (drop prefix_len segs) of
        None \<Rightarrow> Deny ''path_not_allowed''
      | Some r \<Rightarrow> if meth \<notin> rule_methods r then Deny ''method_not_allowed''
                 else Allow (encode_path segs))"

definition github_verdict :: "pystr \<Rightarrow> pystr \<Rightarrow> pystr set option \<Rightarrow> verdict" where
  "github_verdict meth raw_path scope =
     (case scope of
        None \<Rightarrow> Deny ''unscoped_enrollment''
      | Some S \<Rightarrow>
          (case decode_segments raw_path of
             None \<Rightarrow> Deny ''malformed_path''
           | Some segs \<Rightarrow>
               if list_ex (\<lambda>s. CHR ''/'' \<in> set s) segs then Deny ''malformed_path''
               else if length segs < 3 \<or> segs ! 0 \<noteq> ''repos'' then Deny ''path_not_allowed''
               else (case normalize_github_repo (segs ! 1 @ ''/'' @ segs ! 2) of
                       None \<Rightarrow> Deny ''malformed_path''
                     | Some repo \<Rightarrow> if repo \<notin> S then Deny ''repo_out_of_scope''
                                   else rule_verdict meth segs 3 GITHUB_RULES)))"

definition gitlab_verdict :: "pystr \<Rightarrow> pystr \<Rightarrow> pystr set option \<Rightarrow> verdict" where
  "gitlab_verdict meth raw_path scope =
     (case scope of
        None \<Rightarrow> Deny ''unscoped_enrollment''
      | Some S \<Rightarrow>
          (case decode_segments raw_path of
             None \<Rightarrow> Deny ''malformed_path''
           | Some segs \<Rightarrow>
               if length segs < 2 \<or> segs ! 0 \<noteq> ''projects'' then Deny ''path_not_allowed''
               else if all_digits (segs ! 1) then Deny ''project_id_not_a_path''
               else (case normalize_gitlab_project (segs ! 1) of
                       None \<Rightarrow> Deny ''malformed_path''
                     | Some project \<Rightarrow> if project \<notin> S then Deny ''repo_out_of_scope''
                                      else rule_verdict meth segs 2 GITLAB_RULES)))"

subsection \<open>The enrolled scope\<close>

datatype reject =
    Not_A_Path_List
  | Too_Many_Repos
  | Not_A_Repo pystr

fun str_list :: "json list \<Rightarrow> pystr list option" where
  "str_list [] = Some []"
| "str_list (JStr s # vs) = map_option ((#) s) (str_list vs)"
| "str_list (_ # vs) = None"

fun normalize_all :: "(pystr \<Rightarrow> pystr option) \<Rightarrow> pystr list \<Rightarrow> reject + pystr set" where
  "normalize_all nrm [] = Inr {}"
| "normalize_all nrm (v # vs) =
     (case nrm v of
        None \<Rightarrow> Inl (Not_A_Repo v)
      | Some r \<Rightarrow> (case normalize_all nrm vs of Inl e \<Rightarrow> Inl e | Inr S \<Rightarrow> Inr (insert r S)))"

definition parse_allowed_repos ::
  "(pystr \<Rightarrow> pystr option) \<Rightarrow> (pystr \<times> json) list \<Rightarrow> reject + pystr set option" where
  "parse_allowed_repos nrm body =
     (case map_of body SCOPE_FIELD of
        None \<Rightarrow> Inr None
      | Some (JList requested) \<Rightarrow>
          (case str_list requested of
             None \<Rightarrow> Inl Not_A_Path_List
           | Some rs \<Rightarrow> if MAX_SCOPE_REPOS < length rs then Inl Too_Many_Repos
                        else (case normalize_all nrm rs of Inl e \<Rightarrow> Inl e | Inr S \<Rightarrow> Inr (Some S)))
      | Some _ \<Rightarrow> Inl Not_A_Path_List)"

type_synonym repo_scopes = "pystr set dict"

definition repo_scope_apply ::
  "pystr \<Rightarrow> pystr set option \<Rightarrow> repo_scopes \<Rightarrow> (pystr \<times> json) list \<times> repo_scopes" where
  "repo_scope_apply i parsed scopes =
     (case parsed of
        None \<Rightarrow> ([], AList.delete i scopes)
      | Some S \<Rightarrow> ([(SCOPE_FIELD, JList (map JStr (sorted_list_of_set S)))], AList.update i S scopes))"

definition repo_scope_forget :: "pystr \<Rightarrow> repo_scopes \<Rightarrow> repo_scopes" where
  "repo_scope_forget i scopes = AList.delete i scopes"

definition repo_scope_extension ::
  "(pystr \<Rightarrow> pystr option) \<Rightarrow> (reject, pystr set option, repo_scopes) extension" where
  "repo_scope_extension nrm = \<lparr>ext_parse = parse_allowed_repos nrm, ext_apply = repo_scope_apply\<rparr>"

text \<open>\<open>request_verdict\<close>: the verdict on a request of an enrolled sandbox.\<close>

definition request_verdict ::
  "(pystr \<Rightarrow> pystr \<Rightarrow> pystr set option \<Rightarrow> verdict) \<Rightarrow> repo_scopes app \<Rightarrow> pystr \<Rightarrow> pystr \<Rightarrow> pystr \<Rightarrow> verdict" where
  "request_verdict evaluate a i meth raw_path =
     evaluate meth raw_path (map_of (app_scope a) i)"


subsection \<open>Normalized repository names\<close>

lemma name_char_facts:
  assumes "name_char c"
  shows "printable c" "c \<noteq> CHR ''/''" "c \<noteq> CHR ''%''" "ord c < 128" "c \<noteq> CHR 0x5C" "\<not> is_control c"
  using assms by (auto simp: name_char_def printable_def char_classes is_control_def)

lemma name_char_lower [simp]: "name_char (lower_char c) \<longleftrightarrow> name_char c"
proof -
  have "\<not> is_alpha CHR ''_''" "\<not> is_alpha CHR ''.''" "\<not> is_alpha CHR ''-''" by code_simp+
  then show ?thesis by (simp add: name_char_def lower_char_eq_iff)
qed

lemma name_part_lower [simp]: "name_part (ascii_lower s) \<longleftrightarrow> name_part s"
  by (simp add: name_part_def ascii_lower_def list_all_iff)

lemma dot_segment_lower [simp]: "dot_segment (ascii_lower s) \<longleftrightarrow> dot_segment s"
proof -
  have "\<not> is_alpha CHR ''.''" by code_simp
  then have "lower_char c = CHR ''.'' \<longleftrightarrow> c = CHR ''.''" for c by (rule lower_char_eq_iff)
  then show ?thesis by (auto simp: dot_segment_def ascii_lower_def map_eq_Cons_conv)
qed

lemma safe_parts_lower [simp]: "safe_parts (map ascii_lower ps) \<longleftrightarrow> safe_parts ps"
  by (induction ps) (auto simp: safe_parts_def ascii_lower_def dest: dot_segment_lower [unfolded ascii_lower_def, THEN iffD1]
      intro: dot_segment_lower [unfolded ascii_lower_def, THEN iffD2])

lemma name_parts_no_slash: "list_all name_part ps \<Longrightarrow> \<forall>p \<in> set ps. CHR ''/'' \<notin> set p"
  by (auto simp: list_all_iff name_part_def dest: name_char_facts(2))

lemma ascii_lower_join: "ascii_lower (join ''/'' ps) = join ''/'' (map ascii_lower ps)"
proof -
  have "map lower_char ''/'' = ''/''" by code_simp
  then show ?thesis unfolding ascii_lower_def by (simp only: map_join)
qed

lemma strip_name_join:
  assumes "list_all name_part ps"
  shows "strip (join ''/'' ps) = join ''/'' ps"
proof (rule strip_id)
  have "printable c" if "c \<in> set (join ''/'' ps)" for c
  proof -
    have "c = CHR ''/'' \<or> (\<exists>p \<in> set ps. c \<in> set p)" using that set_join [of "''/''" ps] by auto
    then show ?thesis
      using assms name_char_facts(1) by (auto simp: list_all_iff name_part_def printable_def ord_def)
  qed
  then show "join ''/'' ps = [] \<or> printable (hd (join ''/'' ps)) \<and> printable (last (join ''/'' ps))"
    by auto
qed

lemma split_lower_join:
  assumes "list_all name_part ps" "ps \<noteq> []"
  shows "split_on CHR ''/'' (strip (ascii_lower (join ''/'' ps))) = map ascii_lower ps"
proof -
  have "list_all name_part (map ascii_lower ps)" using assms(1) by (simp add: list_all_iff)
  then show ?thesis
    using assms(2) name_parts_no_slash [of "map ascii_lower ps"]
    by (simp add: ascii_lower_join strip_name_join split_on_join)
qed

lemma all_name_part_lower [simp]: "list_all name_part (map ascii_lower ps) \<longleftrightarrow> list_all name_part ps"
  by (simp add: list_all_iff)

text \<open>
  What a forge's naming rule promises the enrollment: a normalized name is its own normal form,
  so the scope may be compared with \<open>in\<close>.
\<close>

locale repo_normalizer =
  fixes nrm :: "pystr \<Rightarrow> pystr option"
  assumes nrm_canonical: "nrm v = Some r \<Longrightarrow> nrm r = Some r"
begin

lemma normalize_all_canonical:
  "normalize_all nrm vs = Inr S \<Longrightarrow>
   finite S \<and> card S \<le> length vs \<and> (\<forall>r \<in> S. nrm r = Some r) \<and> (\<forall>v \<in> set vs. \<exists>r \<in> S. nrm v = Some r)"
proof (induction vs arbitrary: S)
  case (Cons v vs)
  then obtain r T where v: "nrm v = Some r" and T: "normalize_all nrm vs = Inr T" and S: "S = insert r T"
    by (auto split: option.splits sum.splits)
  with Cons.IH [OF T] nrm_canonical [OF v] show ?case
    by (auto simp: card_insert_if)
qed simp

lemma parsed_scope:
  assumes "parse_allowed_repos nrm body = Inr (Some S)"
  shows "finite S \<and> card S \<le> MAX_SCOPE_REPOS \<and> (\<forall>r \<in> S. nrm r = Some r)"
  using assms
  by (auto simp: parse_allowed_repos_def dest: normalize_all_canonical
      split: option.splits json.splits if_splits sum.splits)

end

text \<open>What a stored scope holds: a few canonical names.\<close>

definition scopes_valid :: "(pystr \<Rightarrow> pystr option) \<Rightarrow> repo_scopes \<Rightarrow> bool" where
  "scopes_valid nrm x \<longleftrightarrow> (\<forall>i S. map_of x i = Some S \<longrightarrow>
     finite S \<and> card S \<le> MAX_SCOPE_REPOS \<and> (\<forall>r \<in> S. nrm r = Some r))"

sublocale repo_normalizer \<subseteq> scope:
  scoped_extension repo_scope_forget keys "repo_scope_extension nrm" "scopes_valid nrm"
proof (unfold_locales, goal_cases)
  case (1 i x)
  show ?case by (simp add: repo_scope_forget_def)
next
  case (2 i p x)
  show ?case by (auto simp: repo_scope_extension_def repo_scope_apply_def split: option.split)
next
  case (3 x i)
  then show ?case by (simp add: scopes_valid_def repo_scope_forget_def)
next
  case (4 body p x i)
  then show ?case using parsed_scope [of body]
    by (auto simp: scopes_valid_def repo_scope_extension_def repo_scope_apply_def
        split: option.splits if_splits)
qed

lemma github_canonical:
  assumes "normalize_github_repo v = Some r"
  shows "normalize_github_repo r = Some r"
proof -
  define ps where "ps = split_on CHR ''/'' (strip v)"
  from assms have ps: "length ps = 2" "safe_parts ps" "list_all name_part ps" "r = ascii_lower (join ''/'' ps)"
    by (auto simp: normalize_github_repo_def Let_def simp flip: ps_def split: if_splits)
  then have "split_on CHR ''/'' (strip r) = map ascii_lower ps"
    using split_lower_join [of ps] by (cases ps) auto
  with ps show ?thesis
    by (simp add: normalize_github_repo_def Let_def ascii_lower_join comp_def)
qed

lemma gitlab_canonical:
  assumes "normalize_gitlab_project v = Some r"
  shows "normalize_gitlab_project r = Some r"
proof -
  define ps where "ps = split_on CHR ''/'' (strip v)"
  from assms have ps: "2 \<le> length ps" "length ps \<le> GITLAB_MAX_DEPTH" "safe_parts ps"
    "list_all name_part ps" "r = ascii_lower (join ''/'' ps)"
    by (auto simp: normalize_gitlab_project_def Let_def simp flip: ps_def split: if_splits)
  then have "split_on CHR ''/'' (strip r) = map ascii_lower ps"
    using split_lower_join [of ps] by (cases ps) auto
  with ps show ?thesis
    by (simp add: normalize_gitlab_project_def Let_def ascii_lower_join comp_def)
qed

interpretation gh_names: repo_normalizer normalize_github_repo
  by unfold_locales (rule github_canonical)

interpretation gl_names: repo_normalizer normalize_gitlab_project
  by unfold_locales (rule gitlab_canonical)

subsection \<open>What is forwarded is what was checked\<close>

lemma pchar_safe_facts: "\<not> pchar_safe CHR ''%''" "\<not> pchar_safe CHR ''/''" "\<not> pchar_safe CHR 0x5C"
  "\<not> is_alnum CHR ''/''" "\<not> is_alnum CHR 0x5C"
  by code_simp+

lemma quoted_chars:
  "CHR ''/'' \<notin> set (quote pchar_safe s)" "CHR 0x5C \<notin> set (quote pchar_safe s)"
  using quote_chars [of _ pchar_safe s] pchar_safe_facts by fastforce+

lemma decode_segment_utf8:
  "decode_segment raw = Some d \<Longrightarrow> utf8_valid d \<and> d \<noteq> [] \<and> \<not> dot_segment d"
  by (auto simp: decode_segment_def unquote_def Let_def split: if_splits option.splits)

lemma decode_quoted_segment:
  assumes "decode_segment raw = Some d"
  shows "decode_segment (quote pchar_safe d) = Some d"
proof -
  have "unquote (quote pchar_safe d) = Some d"
    using decode_segment_utf8 [OF assms] pchar_safe_facts(1) by (simp add: unquote_def unquote_quote Let_def)
  moreover have "\<not> (dot_segment d \<or> CHR 0x5C \<in> set d \<or> has_escape d)" "\<not> list_ex is_control d"
    using assms by (auto simp: decode_segment_def split: if_splits option.splits)
  ultimately show ?thesis
    using decode_segment_utf8 [OF assms] quoted_chars(2) [of d] by (simp add: decode_segment_def)
qed

lemma decode_all_quoted:
  "decode_all raws = Some ds \<Longrightarrow> decode_all (map (quote pchar_safe) ds) = Some ds"
  by (induction raws arbitrary: ds) (auto split: option.splits dest: decode_quoted_segment)

lemma decode_all_parts:
  "decode_all raws = Some ds \<Longrightarrow> \<forall>d \<in> set ds. d \<noteq> [] \<and> \<not> dot_segment d"
  by (induction raws arbitrary: ds) (auto split: option.splits dest: decode_segment_utf8)

lemma decode_segments_cases:
  assumes "decode_segments p = Some ds"
  obtains "p = ''/''" "ds = []"
  | body where "p = CHR ''/'' # body" "body \<noteq> []" "decode_all (split_on CHR ''/'' body) = Some ds" "ds \<noteq> []"
proof -
  have empty: "decode_all raws = Some [] \<Longrightarrow> raws = []" for raws
    by (cases raws) (auto split: option.splits)
  have some: "decode_all (split_on CHR ''/'' b) = Some ds \<Longrightarrow> ds \<noteq> []" for b
    using empty [of "split_on CHR ''/'' b"] by auto
  obtain c body where p: "p = c # body" using assms by (cases p) (simp_all add: decode_segments_def)
  then have c: "c = CHR ''/''" using assms by (simp add: decode_segments_def split: if_splits)
  show ?thesis
  proof (cases "body = []")
    case True
    then show ?thesis using assms p c that(1) by (simp add: decode_segments_def)
  next
    case False
    then have d: "decode_all (split_on CHR ''/'' body) = Some ds" using assms p c by (simp add: decode_segments_def)
    show ?thesis using that(2) p c False d some [OF d] by simp
  qed
qed

lemma split_encoded:
  assumes "ds \<noteq> []"
  shows "split_on CHR ''/'' (join ''/'' (map (quote pchar_safe) ds)) = map (quote pchar_safe) ds"
  using assms quoted_chars(1) by (intro split_on_join) auto

lemma decode_encode_path:
  assumes "decode_segments p = Some ds"
  shows "decode_segments (encode_path ds) = Some ds"
  using assms
proof (cases rule: decode_segments_cases)
  case 1
  then show ?thesis by (simp add: decode_segments_def encode_path_def)
next
  case (2 body)
  obtain d ds' where ds: "ds = d # ds'" using 2 by (cases ds) auto
  have "d \<noteq> []" using decode_all_parts [OF 2(3)] ds by simp
  then have "join ''/'' (map (quote pchar_safe) ds) \<noteq> []" by (cases ds') (auto simp: ds)
  then show ?thesis
    using decode_all_quoted [OF 2(3)] split_encoded [OF 2(4)]
    by (simp add: decode_segments_def encode_path_def)
qed

lemma encoded_segment_plain:
  assumes "decode_segments p = Some ds" "ds \<noteq> []" "x \<in> set (split_on CHR ''/'' (tl (encode_path ds)))"
  shows "x \<noteq> [] \<and> \<not> dot_segment x \<and> (\<forall>c \<in> set x. pchar_safe c \<or> c = CHR ''%'')"
proof -
  from assms(1,2) obtain raws where raws: "decode_all raws = Some ds"
    by (auto elim: decode_segments_cases)
  from assms(2,3) obtain d where d: "d \<in> set ds" "x = quote pchar_safe d"
    by (auto simp: encode_path_def split_encoded)
  have "\<exists>raw. decode_segment raw = Some d" using raws d(1)
    by (induction raws arbitrary: ds) (auto split: option.splits)
  then have x: "decode_segment x = Some d" using d(2) decode_quoted_segment by auto
  have "\<not> dot_segment x"
  proof
    assume "dot_segment x"
    then have "unquote x = Some x" unfolding dot_segment_def unquote_def
      by (elim disjE) (simp_all add: ord_def)
    with x \<open>dot_segment x\<close> show False by (simp add: decode_segment_def split: if_splits)
  qed
  moreover have "pchar_safe c \<or> c = CHR ''%''" if "c \<in> set x" for c
    using quote_chars [of c pchar_safe d] that d(2) by (auto simp: pchar_safe_def)
  ultimately show ?thesis using x by (auto simp: decode_segment_def)
qed

text \<open>
  What the two forges' policies have in common: the verdict looks at the path through its decoded
  segments only, and a call it lets through matched a rule below a repository in the scope.
\<close>

locale forge_policy =
  fixes evaluate :: "pystr \<Rightarrow> pystr \<Rightarrow> pystr set option \<Rightarrow> verdict"
    and repo_of :: "pystr list \<Rightarrow> pystr option"
    and prefix_len :: nat
    and rules :: "http_rule list"
  assumes by_segments: "decode_segments p = decode_segments q \<Longrightarrow> evaluate m p scope = evaluate m q scope"
    and allowed: "evaluate m p scope = Allow u \<Longrightarrow>
      \<exists>S segs repo. scope = Some S \<and> decode_segments p = Some segs \<and> prefix_len \<le> length segs \<and>
        repo_of segs = Some repo \<and> repo \<in> S \<and> rule_verdict m segs prefix_len rules = Allow u"
    and read_rules: "r \<in> set rules \<Longrightarrow> rule_methods r = read_methods"
    and prefix_pos: "0 < prefix_len"
begin

lemma allowed_path:
  assumes "evaluate m p scope = Allow u"
  shows "\<exists>S segs repo r. scope = Some S \<and> decode_segments p = Some segs \<and> segs \<noteq> [] \<and>
    repo_of segs = Some repo \<and> repo \<in> S \<and> r \<in> set rules \<and>
    rule_matches (rule_pattern r) (drop prefix_len segs) \<and> m \<in> read_methods \<and> u = encode_path segs"
proof -
  from allowed [OF assms] obtain S segs repo where A: "scope = Some S" "decode_segments p = Some segs"
    "prefix_len \<le> length segs" "repo_of segs = Some repo" "repo \<in> S"
    "rule_verdict m segs prefix_len rules = Allow u" by blast
  from A(6) obtain r where "match_rule rules (drop prefix_len segs) = Some r"
    "m \<in> rule_methods r" "u = encode_path segs"
    by (auto simp: rule_verdict_def split: option.splits if_splits)
  with A read_rules [of r] prefix_pos show ?thesis
    by (force simp: match_rule_def find_Some_iff)
qed

lemma forwarded_same_segments:
  assumes "evaluate m p scope = Allow u"
  shows "decode_segments u = decode_segments p"
  using allowed_path [OF assms] decode_encode_path by auto

lemma forwarded_stable:
  assumes "evaluate m p scope = Allow u"
  shows "evaluate m u scope = Allow u"
  using by_segments [OF forwarded_same_segments [OF assms]] assms by simp

lemma forwarded_plain:
  assumes "evaluate m p scope = Allow u" "x \<in> set (split_on CHR ''/'' (tl u))"
  shows "x \<noteq> [] \<and> \<not> dot_segment x \<and> (\<forall>c \<in> set x. pchar_safe c \<or> c = CHR ''%'')"
  using allowed_path [OF assms(1)] encoded_segment_plain assms(2) by blast

end

definition github_repo_of :: "pystr list \<Rightarrow> pystr option" where
  "github_repo_of segs = normalize_github_repo (segs ! 1 @ ''/'' @ segs ! 2)"

definition gitlab_project_of :: "pystr list \<Rightarrow> pystr option" where
  "gitlab_project_of segs = normalize_gitlab_project (segs ! 1)"

lemma github_rules_read: "r \<in> set GITHUB_RULES \<Longrightarrow> rule_methods r = read_methods"
  by (auto simp: GITHUB_RULES_def)

lemma gitlab_rules_read: "r \<in> set GITLAB_RULES \<Longrightarrow> rule_methods r = read_methods"
  by (auto simp: GITLAB_RULES_def)

interpretation github: forge_policy github_verdict github_repo_of 3 GITHUB_RULES
  by unfold_locales
    (auto simp: github_verdict_def github_repo_of_def github_rules_read split: option.splits if_splits)

interpretation gitlab: forge_policy gitlab_verdict gitlab_project_of 2 GITLAB_RULES
  by unfold_locales
    (auto simp: gitlab_verdict_def gitlab_project_of_def gitlab_rules_read split: option.splits if_splits)


subsection \<open>Properties\<close>



text \<open>The gitlab-proxy forwards a call only when it is a GET or HEAD, the sandbox has a scope,
  and the path names a project in that scope, never by number, and one of the fixed resources
  below it.\<close>

lemma gitlab_allow_sound:
  assumes "gitlab_verdict m p scope = Allow u"
  shows "m \<in> {''GET'', ''HEAD''} \<and>
    (\<exists>S segs project. scope = Some S \<and> decode_segments p = Some segs \<and> segs ! 0 = ''projects'' \<and>
       \<not> all_digits (segs ! 1) \<and> normalize_gitlab_project (segs ! 1) = Some project \<and> project \<in> S \<and>
       (\<exists>r \<in> set GITLAB_RULES. rule_matches (rule_pattern r) (drop 2 segs)))"
proof -
  from gitlab.allowed_path [OF assms] obtain S segs project r where
    "scope = Some S" "decode_segments p = Some segs" "gitlab_project_of segs = Some project" "project \<in> S"
    "r \<in> set GITLAB_RULES" "rule_matches (rule_pattern r) (drop 2 segs)" "m \<in> read_methods" by blast
  moreover from assms have "segs ! 0 = ''projects'' \<and> \<not> all_digits (segs ! 1)"
    if "decode_segments p = Some segs" for segs
    using that by (auto simp: gitlab_verdict_def split: option.splits if_splits)
  ultimately show ?thesis unfolding gitlab_project_of_def read_methods_def by blast
qed

lemma gitlab_allow_sound_witness:
  "gitlab_verdict ''GET'' ''/projects/Acme%2Fapp/repository/files/src%2Fmain.py/raw'' (Some {''acme/app''}) =
     Allow ''/projects/Acme%2Fapp/repository/files/src%2Fmain.py/raw'' \<and> ''GET'' \<in> {''GET'', ''HEAD''}"
proof -
  have a: "gitlab_verdict ''GET'' ''/projects/Acme%2Fapp/repository/files/src%2Fmain.py/raw'' (Some {''acme/app''}) =
     Allow ''/projects/Acme%2Fapp/repository/files/src%2Fmain.py/raw''"
    by code_simp
  show ?thesis using gitlab_allow_sound [OF a] a by blast
qed

text \<open>C27: the path a forge proxy sends upstream decodes to exactly the segments it checked, gets
  the same verdict again, and has no empty, dot or control segment and no character outside
  the path alphabet, whatever the request path was.\<close>

theorem forwarded_is_checked:
  assumes "github_verdict m p scope = Allow u \<or> gitlab_verdict m p scope = Allow u"
  shows "decode_segments u = decode_segments p \<and>
    (github_verdict m p scope = Allow u \<longrightarrow> github_verdict m u scope = Allow u) \<and>
    (gitlab_verdict m p scope = Allow u \<longrightarrow> gitlab_verdict m u scope = Allow u) \<and>
    (\<forall>x \<in> set (split_on CHR ''/'' (tl u)).
       x \<noteq> [] \<and> \<not> dot_segment x \<and> (\<forall>c \<in> set x. pchar_safe c \<or> c = CHR ''%''))"
  using assms
proof
  assume a: "github_verdict m p scope = Allow u"
  have "github_verdict m u scope = Allow u" by (rule github.forwarded_stable [OF a])
  moreover have "gitlab_verdict m u scope = Allow u" if "gitlab_verdict m p scope = Allow u"
    by (rule gitlab.forwarded_stable [OF that])
  ultimately show ?thesis
    using github.forwarded_same_segments [OF a] github.forwarded_plain [OF a] by blast
next
  assume a: "gitlab_verdict m p scope = Allow u"
  have "gitlab_verdict m u scope = Allow u" by (rule gitlab.forwarded_stable [OF a])
  moreover have "github_verdict m u scope = Allow u" if "github_verdict m p scope = Allow u"
    by (rule github.forwarded_stable [OF that])
  ultimately show ?thesis
    using gitlab.forwarded_same_segments [OF a] gitlab.forwarded_plain [OF a] by blast
qed

theorem forwarded_is_checked_witness:
  "github_verdict ''GET'' ''/repos/acme/%61pp/contents/x%3A%E2%82%AC'' (Some {''acme/app''}) =
     Allow ''/repos/acme/app/contents/x:%E2%82%AC'' \<and>
   decode_segments ''/repos/acme/app/contents/x:%E2%82%AC'' =
     decode_segments ''/repos/acme/%61pp/contents/x%3A%E2%82%AC''"
proof -
  have a: "github_verdict ''GET'' ''/repos/acme/%61pp/contents/x%3A%E2%82%AC'' (Some {''acme/app''}) =
     Allow ''/repos/acme/app/contents/x:%E2%82%AC''"
    by code_simp
  show ?thesis using forwarded_is_checked [OF disjI1, OF a] a by blast
qed

text \<open>In every state the github-proxy's admin requests can reach, a stored scope belongs to an
  enrolled sandbox and holds at most eight names, each its own normal form; a sandbox that is not
  enrolled has every call refused.\<close>

lemma github_scope_lifecycle:
  assumes "app_reachable sha acc (Some repo_scope_forget)
      (Some (repo_scope_extension normalize_github_repo)) [] a"
  shows "keys (app_scope a) \<subseteq> enrolled_ids (app_registry a) \<and>
    (\<forall>i S. map_of (app_scope a) i = Some S \<longrightarrow>
       finite S \<and> card S \<le> 8 \<and> (\<forall>r \<in> S. normalize_github_repo r = Some r)) \<and>
    (\<forall>i m p. i \<notin> enrolled_ids (app_registry a) \<longrightarrow>
       request_verdict github_verdict a i m p = Deny ''unscoped_enrollment'')"
proof -
  have k: "keys (app_scope a) \<subseteq> enrolled_ids (app_registry a)"
    using gh_names.scope.scope_within_enrollment [OF assms] by simp
  have "scopes_valid normalize_github_repo (app_scope a)"
    using gh_names.scope.valid_reachable [OF assms] by (simp add: scopes_valid_def)
  moreover have "request_verdict github_verdict a i m p = Deny ''unscoped_enrollment''"
    if "i \<notin> enrolled_ids (app_registry a)" for i m p
  proof -
    have "map_of (app_scope a) i = None" using k that by (auto simp: map_of_None_keys)
    then show ?thesis by (simp add: request_verdict_def github_verdict_def)
  qed
  ultimately show ?thesis using k by (auto simp: scopes_valid_def MAX_SCOPE_REPOS_def)
qed

definition demo_scoped :: "repo_scopes app" where
  "demo_scoped = snd (enroll_handler (\<lambda>s. s) True (Some repo_scope_forget)
     (Some (repo_scope_extension normalize_github_repo)) 0 0 0 ''adm''
     (Some (JObj [(''sandbox_id'', JStr ''sb1''), (''sandbox_token'', JStr demo_token),
        (''allowed_repos'', JList [JStr '' Acme/App'', JStr ''acme/app''])]))
     \<lparr>app_registry = new_registry DEFAULT_MAX_ENTRIES DEFAULT_TTL_SECONDS,
      app_guard = \<lparr>token_hash = ''adm'', failures = [], locked_until = 0\<rparr>, app_scope = []\<rparr>)"

lemma github_scope_lifecycle_witness:
  "map_of (app_scope demo_scoped) ''sb1'' = Some {''acme/app''} \<and>
   keys (app_scope demo_scoped) \<subseteq> enrolled_ids (app_registry demo_scoped)"
proof -
  have "app_reachable (\<lambda>s. s) True (Some repo_scope_forget)
      (Some (repo_scope_extension normalize_github_repo)) [] demo_scoped"
    unfolding demo_scoped_def
    by (rule ar_step [OF ar_new [where token = "''adm''"] as_enroll], simp add: new_app_def new_admin_guard_def)
      (rule surjective_pairing)
  from github_scope_lifecycle [OF this]
  have "keys (app_scope demo_scoped) \<subseteq> enrolled_ids (app_registry demo_scoped)" by blast
  moreover have "map_of (app_scope demo_scoped) ''sb1'' = Some {''acme/app''}" by code_simp
  ultimately show ?thesis by blast
qed

text \<open>The repository compared with the scope is the one the path names with surrounding white
  space removed, while the forwarded path keeps it: a call on a repository that is not in the
  scope can be let through.\<close>

lemma github_scope_ignores_space:
  "github_verdict ''GET'' ''/repos/%20acme/app%20/issues'' (Some {''acme/app''}) =
     Allow ''/repos/%20acme/app%20/issues'' \<and>
   decode_segments ''/repos/%20acme/app%20/issues'' = Some [''repos'', '' acme'', ''app '', ''issues'']"
  by code_simp

end
