(* ===== verification/Url.thy ===== *)
theory Url
  imports Py_Str
begin

text \<open>
  \<open>urllib.parse.urlsplit\<close> and the attributes of its result, as far as the proxies use them. Two
  checks of the library are narrowed to the answers the callers can tell apart: of the hosts in
  brackets only \<open>IPvFuture\<close> ones are kept (an IPv6 literal holds a colon, which every caller
  refuses in a host), and the Unicode normalisation check of a non-ASCII authority is left out
  (the only non-ASCII character that lower-cases to an allowed one is the Kelvin sign, and its
  normal form is the letter K).
\<close>

record url =
  url_scheme :: pystr
  url_netloc :: pystr
  url_path :: pystr
  url_query :: pystr
  url_fragment :: pystr

definition scheme_char :: "char \<Rightarrow> bool" where
  "scheme_char c \<longleftrightarrow> is_alnum c \<or> c \<in> set ''+-.''"

definition split_scheme :: "pystr \<Rightarrow> pystr \<times> pystr" where
  "split_scheme u =
     (case partition_at CHR '':'' u of (head, found, rest) \<Rightarrow>
        if found \<and> head \<noteq> [] \<and> is_alpha (hd head) \<and> list_all scheme_char head
        then (ascii_lower head, rest) else ([], u))"

definition authority_end :: "char \<Rightarrow> bool" where
  "authority_end c \<longleftrightarrow> c \<in> set ''/?#''"

definition split_netloc :: "pystr \<Rightarrow> pystr \<times> pystr" where
  "split_netloc u =
     (if starts_with u ''//''
      then (takeWhile (\<lambda>c. \<not> authority_end c) (drop 2 u), dropWhile (\<lambda>c. \<not> authority_end c) (drop 2 u))
      else ([], u))"

text \<open>\<open>_check_bracketed_netloc\<close>: the host of a bracketed authority is an \<open>IPvFuture\<close>.\<close>

definition ip_future :: "pystr \<Rightarrow> bool" where
  "ip_future h =
     (case h of
        [] \<Rightarrow> False
      | v # r \<Rightarrow> (case partition_at CHR ''.'' r of (hex, found, rest) \<Rightarrow>
                   v = CHR ''v'' \<and> found \<and> hex \<noteq> [] \<and> list_all is_hex hex \<and> rest \<noteq> []))"

definition bracketed_ok :: "pystr \<Rightarrow> bool" where
  "bracketed_ok netloc =
     (let hp = snd (snd (rpartition_at CHR ''@'' netloc))
      in case partition_at CHR ''['' hp of (before, found, rest) \<Rightarrow>
           if found then
             (case partition_at CHR '']'' rest of (host, _, port) \<Rightarrow>
                before = [] \<and> (port = [] \<or> hd port = CHR '':'') \<and> ip_future host)
           else ip_future (fst (partition_at CHR '':'' hp)))"

definition brackets_ok :: "pystr \<Rightarrow> bool" where
  "brackets_ok netloc \<longleftrightarrow>
     (CHR ''['' \<in> set netloc \<longleftrightarrow> CHR '']'' \<in> set netloc) \<and> (CHR ''['' \<in> set netloc \<longrightarrow> bracketed_ok netloc)"

text \<open>\<open>urlsplit(s)\<close>; None is the \<open>ValueError\<close>.\<close>

definition urlsplit :: "pystr \<Rightarrow> url option" where
  "urlsplit s =
     (let u = filter (\<lambda>c. ord c \<noteq> 9 \<and> ord c \<noteq> 10 \<and> ord c \<noteq> 13) (dropWhile (\<lambda>c. ord c \<le> 32) s);
          (scheme, u1) = split_scheme u;
          (netloc, u2) = split_netloc u1;
          (u3, _, fragment) = partition_at CHR ''#'' u2;
          (path, _, query) = partition_at CHR ''?'' u3
      in if brackets_ok netloc
         then Some \<lparr>url_scheme = scheme, url_netloc = netloc, url_path = path, url_query = query,
                url_fragment = fragment\<rparr>
         else None)"

text \<open>\<open>parts.username\<close>, \<open>parts.password\<close> (empty for None: the callers ask only whether they are truthy).\<close>

definition url_userinfo :: "url \<Rightarrow> pystr \<times> pystr" where
  "url_userinfo u =
     (case rpartition_at CHR ''@'' (url_netloc u) of (userinfo, found, _) \<Rightarrow>
        if found then (case partition_at CHR '':'' userinfo of (name, _, password) \<Rightarrow> (name, password))
        else ([], []))"

definition url_hostinfo :: "url \<Rightarrow> pystr \<times> pystr" where
  "url_hostinfo u =
     (let hp = snd (snd (rpartition_at CHR ''@'' (url_netloc u)))
      in case partition_at CHR ''['' hp of (_, found, rest) \<Rightarrow>
           if found then
             (case partition_at CHR '']'' rest of (host, _, port) \<Rightarrow> (host, snd (snd (partition_at CHR '':'' port))))
           else (case partition_at CHR '':'' hp of (host, _, port) \<Rightarrow> (host, port)))"

text \<open>\<open>str.lower\<close> on a host: the ASCII letters and the Kelvin sign. Lower-casing leaves the other bytes
  alone and an occurrence of its encoding overlaps no other, so the order of replacing is free.\<close>

fun host_lower :: "pystr \<Rightarrow> pystr" where
  "host_lower [] = []"
| "host_lower (c # cs) =
     (case host_lower cs of
        [] \<Rightarrow> [lower_char c]
      | d # r \<Rightarrow>
          if c = CHR 0xE2 \<and> d = CHR 0x84 \<and> r \<noteq> [] \<and> hd r = CHR 0xAA then CHR ''k'' # tl r
          else lower_char c # d # r)"

text \<open>\<open>parts.hostname\<close>, with the empty string for None.\<close>

definition url_hostname :: "url \<Rightarrow> pystr" where
  "url_hostname u =
     (case partition_at CHR ''%'' (fst (url_hostinfo u)) of (host, found, zone) \<Rightarrow>
        host_lower host @ (if found then CHR ''%'' # zone else []))"

text \<open>\<open>parts.port\<close>: the outer None is the \<open>ValueError\<close>, the inner one the missing port.\<close>

definition url_port :: "url \<Rightarrow> nat option option" where
  "url_port u =
     (let p = snd (url_hostinfo u)
      in if p = [] then Some None
         else if list_all is_digit p \<and> int_of_str p \<le> 65535 then Some (Some (nat (int_of_str p)))
         else None)"

lemma host_lower_ascii: "list_all (\<lambda>c. ord c < 128) s \<Longrightarrow> host_lower s = ascii_lower s"
proof (induction s)
  case (Cons c cs)
  then have "c \<noteq> CHR 0xE2" by (auto simp: ord_def)
  then have "host_lower (c # cs) = lower_char c # host_lower cs" by (simp split: list.split)
  with Cons show ?case by (simp add: ascii_lower_def)
qed (simp add: ascii_lower_def)

text \<open>The parts of a plain URL.\<close>

lemma alnum_plain: "is_alnum c \<Longrightarrow> printable c \<and> c \<noteq> CHR '':'' \<and> c \<noteq> CHR ''/'' \<and> c \<noteq> CHR ''%''"
  by (auto simp: is_alnum_def is_alpha_def is_digit_def in_range_def printable_def ord_def)

lemma scheme_char_plain: "scheme_char c \<Longrightarrow> printable c \<and> c \<noteq> CHR '':''"
proof (cases "is_alnum c")
  case False
  moreover assume "scheme_char c"
  moreover have "\<forall>c \<in> set ''+-.''. printable c \<and> c \<noteq> CHR '':''" by code_simp
  ultimately show ?thesis by (auto simp: scheme_char_def)
qed (auto dest: alnum_plain)

lemma urlsplit_plain:
  assumes "scheme \<noteq> []" "is_alpha (hd scheme)" "list_all scheme_char scheme"
    and "list_all (\<lambda>c. printable c \<and> \<not> authority_end c \<and> c \<noteq> CHR ''['' \<and> c \<noteq> CHR '']'') netloc"
    and "path = [] \<or> hd path = CHR ''/''"
    and "list_all (\<lambda>c. printable c \<and> c \<noteq> CHR ''#'' \<and> c \<noteq> CHR ''?'') path"
  shows "urlsplit (scheme @ ''://'' @ netloc @ path) =
    Some \<lparr>url_scheme = ascii_lower scheme, url_netloc = netloc, url_path = path, url_query = [],
      url_fragment = []\<rparr>"
proof -
  have sp: "printable c \<and> c \<noteq> CHR '':''" if "c \<in> set scheme" for c
    using assms(3) that scheme_char_plain by (auto simp: list_all_iff)
  let ?s = "scheme @ ''://'' @ netloc @ path"
  have "\<forall>c \<in> set ''://''. printable c" by code_simp
  moreover have "\<forall>c \<in> set scheme. printable c" using sp by blast
  moreover have "\<forall>c \<in> set netloc. printable c" "\<forall>c \<in> set path. printable c"
    using assms(4,6) by (simp_all add: list_all_iff)
  ultimately have pr: "\<forall>c \<in> set ?s. printable c" unfolding set_append by blast
  have d: "dropWhile (\<lambda>c. ord c \<le> 32) ?s = ?s"
    using assms(1) sp [of "hd scheme"] by (cases scheme) (auto simp: printable_def)
  have f: "filter (\<lambda>c. ord c \<noteq> 9 \<and> ord c \<noteq> 10 \<and> ord c \<noteq> 13) ?s = ?s"
  proof (rule filter_True, rule ballI)
    fix c assume "c \<in> set ?s"
    with pr have "printable c" by blast
    then show "ord c \<noteq> 9 \<and> ord c \<noteq> 10 \<and> ord c \<noteq> 13" by (auto simp: printable_def)
  qed
  have p: "partition_at CHR '':'' ?s = (scheme, True, ''//'' @ netloc @ path)"
  proof -
    have "CHR '':'' \<notin> set scheme" using sp by blast
    then show ?thesis by (simp add: partition_at_found)
  qed
  have n: "takeWhile (\<lambda>c. \<not> authority_end c) (netloc @ path) = netloc"
      "dropWhile (\<lambda>c. \<not> authority_end c) (netloc @ path) = path"
    using assms(4,5) by (cases path; auto simp: list_all_iff authority_end_def)+
  have h: "partition_at CHR ''#'' path = (path, False, [])" "partition_at CHR ''?'' path = (path, False, [])"
    using assms(6) by (auto intro!: partition_at_missing simp: list_all_iff)
  have "brackets_ok netloc" using assms(4) by (auto simp: brackets_ok_def list_all_iff)
  then show ?thesis
    unfolding urlsplit_def d f
    using assms(1-3) p h n starts_with_append [of "''//''"] by (simp add: split_scheme_def split_netloc_def starts_with_def)
qed

lemma url_plain_host:
  assumes "url_netloc u = host @ port" "list_all (\<lambda>c. ord c < 128 \<and> c \<notin> set ''@[:%'') host"
    and "port = [] \<or> (\<exists>ds. port = CHR '':'' # ds \<and> list_all is_digit ds)"
  shows "url_userinfo u = ([], [])" "url_hostinfo u = (host, drop 1 port)" "url_hostname u = ascii_lower host"
proof -
  have hc: "CHR ''@'' \<notin> set host" "CHR ''['' \<notin> set host" "CHR '':'' \<notin> set host" "CHR ''%'' \<notin> set host"
    using assms(2) by (auto simp: list_all_iff)
  have "\<not> is_digit CHR ''@''" "\<not> is_digit CHR ''[''" by code_simp+
  then have "CHR ''@'' \<notin> set port" "CHR ''['' \<notin> set port"
    using assms(3) by (auto simp: list_all_iff)
  with hc have a: "CHR ''@'' \<notin> set (host @ port)" "CHR ''['' \<notin> set (host @ port)" by simp_all
  note c = hc(3,4)
  have r: "rpartition_at CHR ''@'' (host @ port) = ([], False, host @ port)"
    using a(1) by (rule rpartition_at_missing)
  have b: "partition_at CHR ''['' (host @ port) = (host @ port, False, [])"
    using a(2) by (rule partition_at_missing)
  have h: "\<exists>f. partition_at CHR '':'' (host @ port) = (host, f, drop 1 port)"
    using assms(3) c(1) partition_at_missing [of _ host] partition_at_found [of _ host] by auto
  show 1: "url_userinfo u = ([], [])" using r assms(1) by (simp add: url_userinfo_def)
  show 2: "url_hostinfo u = (host, drop 1 port)" using r b h assms(1) by (auto simp: url_hostinfo_def)
  have "list_all (\<lambda>c. ord c < 128) host" using assms(2) by (simp add: list_all_iff)
  then show "url_hostname u = ascii_lower host"
    using 2 c(2) by (simp add: url_hostname_def partition_at_missing host_lower_ascii)
qed


lemma partition_at_hd: "partition_at c s = (b, f, a) \<Longrightarrow> b \<noteq> [] \<Longrightarrow> hd b = hd s \<and> s \<noteq> []"
  by (cases s) (auto simp: partition_at_def split: if_splits)

lemma urlsplit_path_absolute:
  assumes "urlsplit s = Some u" "url_netloc u \<noteq> []"
  shows "url_path u = [] \<or> hd (url_path u) = CHR ''/''"
proof -
  obtain u1 u2 u3 f1 f2 fr q where A: "split_netloc u1 = (url_netloc u, u2)"
    "partition_at CHR ''#'' u2 = (u3, f1, fr)" "partition_at CHR ''?'' u3 = (url_path u, f2, q)"
    using assms(1) by (auto simp: urlsplit_def Let_def split: prod.splits if_splits)
  show ?thesis
  proof (cases "url_path u = []")
    case False
    have h3: "hd (url_path u) = hd u3" "u3 \<noteq> []" using partition_at_hd [OF A(3) False] by simp_all
    have h2: "hd u3 = hd u2" "u2 \<noteq> []" using partition_at_hd [OF A(2) h3(2)] by simp_all
    have "authority_end (hd u2)"
      using A(1) assms(2) h2(2) hd_dropWhile [of "\<lambda>c. \<not> authority_end c"]
      by (auto simp: split_netloc_def split: if_splits)
    moreover have "CHR ''?'' \<notin> set (url_path u)" "CHR ''#'' \<notin> set u3"
      using partition_at_cases [OF A(3)] partition_at_cases [OF A(2)] by simp_all
    then have "hd (url_path u) \<noteq> CHR ''?''" "hd u3 \<noteq> CHR ''#''"
      using False h3(2) list.set_sel(1) by metis+
    ultimately show ?thesis using h3 h2 by (auto simp: authority_end_def)
  qed simp
qed

lemma url_hostname_netloc: "url_hostname u \<noteq> [] \<Longrightarrow> url_netloc u \<noteq> []"
  by (auto simp: url_hostname_def url_hostinfo_def rpartition_at_def partition_at_def)

text \<open>The authority of a URL whose path and query are arbitrary printable characters.\<close>

lemma urlsplit_authority:
  assumes "scheme \<noteq> []" "is_alpha (hd scheme)" "list_all scheme_char scheme"
    and "list_all (\<lambda>c. printable c \<and> \<not> authority_end c \<and> c \<noteq> CHR ''['' \<and> c \<noteq> CHR '']'') netloc"
    and "rest = [] \<or> authority_end (hd rest)" and "list_all printable rest"
  shows "\<exists>parts. urlsplit (scheme @ ''://'' @ netloc @ rest) = Some parts \<and> url_netloc parts = netloc"
proof -
  let ?s = "scheme @ ''://'' @ netloc @ rest"
  have sp: "\<forall>c \<in> set scheme. printable c \<and> c \<noteq> CHR '':''"
    using assms(3) scheme_char_plain by (auto simp: list_all_iff)
  have "\<forall>c \<in> set ''://''. printable c" by code_simp
  moreover have "\<forall>c \<in> set netloc. printable c" "\<forall>c \<in> set rest. printable c"
    using assms(4,6) by (simp_all add: list_all_iff)
  ultimately have pr: "\<forall>c \<in> set ?s. printable c" using sp unfolding set_append by blast
  have d: "dropWhile (\<lambda>c. ord c \<le> 32) ?s = ?s"
    using assms(1) sp by (cases scheme) (auto simp: printable_def)
  have f: "filter (\<lambda>c. ord c \<noteq> 9 \<and> ord c \<noteq> 10 \<and> ord c \<noteq> 13) ?s = ?s"
  proof (rule filter_True, rule ballI)
    fix c assume "c \<in> set ?s"
    with pr have "printable c" by blast
    then show "ord c \<noteq> 9 \<and> ord c \<noteq> 10 \<and> ord c \<noteq> 13" by (auto simp: printable_def)
  qed
  have "CHR '':'' \<notin> set scheme" using sp by blast
  then have p: "partition_at CHR '':'' ?s = (scheme, True, ''//'' @ netloc @ rest)"
    by (simp add: partition_at_found)
  have n: "takeWhile (\<lambda>c. \<not> authority_end c) (netloc @ rest) = netloc"
      "dropWhile (\<lambda>c. \<not> authority_end c) (netloc @ rest) = rest"
    using assms(4,5) by (cases rest; auto simp: list_all_iff)+
  have "brackets_ok netloc" using assms(4) by (auto simp: brackets_ok_def list_all_iff)
  then show ?thesis
    unfolding urlsplit_def d f
    using assms(1-3) p n by (simp add: split_scheme_def split_netloc_def starts_with_def split_beta)
qed

end
