(* ===== verification/Git_Scope.thy ===== *)
theory Git_Scope
  imports Forge_Scope Url
begin

text \<open>
  The git-proxy's per-sandbox grant (\<open>embry0/execution/proxy/git_scope.py\<close>) and the ref rule it
  shares with the clone (\<open>embry0/git_refs.py\<close>): which smart-HTTP requests are forwarded, how a
  grant is read from an enrollment, and the admin route that replaces its push branches. Refused
  bodies carry a reason instead of the formatted message.
\<close>

definition UPSTREAM_FIELD :: pystr where "UPSTREAM_FIELD = ''git_upstream''"
definition PUSH_FIELD :: pystr where "PUSH_FIELD = ''git_push''"
definition PUSH_BRANCHES_FIELD :: pystr where "PUSH_BRANCHES_FIELD = ''git_push_branches''"
definition JOB_FIELD :: pystr where "JOB_FIELD = ''job_id''"
definition GIT_ROUTE_PREFIX :: pystr where "GIT_ROUTE_PREFIX = ''/git/''"
definition UPLOAD_PACK :: pystr where "UPLOAD_PACK = ''git-upload-pack''"
definition RECEIVE_PACK :: pystr where "RECEIVE_PACK = ''git-receive-pack''"
definition MAX_PUSH_BRANCHES :: nat where "MAX_PUSH_BRANCHES = 16"

definition git_services :: "pystr list" where
  "git_services = [UPLOAD_PACK, RECEIVE_PACK]"

text \<open>The character classes of the module's patterns, each applied with \<open>fullmatch\<close>.\<close>

definition git_segment :: "pystr \<Rightarrow> bool" where
  "git_segment s \<longleftrightarrow> 1 \<le> length s \<and> length s \<le> 255 \<and> list_all name_char s"

definition host_char :: "char \<Rightarrow> bool" where
  "host_char c \<longleftrightarrow> in_range CHR ''a'' CHR ''z'' c \<or> is_digit c \<or> c \<in> set ''.-''"

definition host_ok :: "pystr \<Rightarrow> bool" where
  "host_ok h \<longleftrightarrow> 1 \<le> length h \<and> length h \<le> 253 \<and> list_all host_char h"

definition upstream_segment :: "pystr \<Rightarrow> bool" where
  "upstream_segment s \<longleftrightarrow> 1 \<le> length s \<and> length s \<le> 255 \<and> list_all (\<lambda>c. name_char c \<or> c = CHR ''~'') s"

definition job_id_ok :: "pystr \<Rightarrow> bool" where
  "job_id_ok s \<longleftrightarrow> 1 \<le> length s \<and> length s \<le> 128 \<and> list_all name_char s"

definition ref_char :: "char \<Rightarrow> bool" where
  "ref_char c \<longleftrightarrow> is_alnum c \<or> c \<in> set ''._/-''"

definition valid_ref :: "pystr \<Rightarrow> bool" where
  "valid_ref r \<longleftrightarrow> 1 \<le> length r \<and> length r \<le> 255 \<and> list_all ref_char r \<and> hd r \<noteq> CHR ''-''"

record git_grant =
  upstream :: pystr
  repos :: "pystr set"
  push :: bool
  push_branches :: "pystr set"
  job_id :: pystr

datatype git_ruling =
    Git_Deny pystr
  | Git_Allow pystr pystr pystr  \<comment> \<open>repository, service, upstream URL\<close>

definition normalize_git_repo :: "pystr \<Rightarrow> pystr option" where
  "normalize_git_repo value = normalize_gitlab_project value"

definition normalize_push_branch :: "json \<Rightarrow> pystr option" where
  "normalize_push_branch v =
     (case v of
        JStr value \<Rightarrow>
          if \<not> valid_ref value then None
          else if starts_with value ''refs/'' \<or> contains value ''..'' then None
          else if list_ex (\<lambda>part. part = [] \<or> starts_with part ''.'' \<or> ends_with part ''.lock'')
                    (split_on CHR ''/'' value) then None
          else if ends_with value ''.'' then None
          else Some value
      | _ \<Rightarrow> None)"

datatype grant_reject =
    Repos_Rejected reject
  | Upstream_Rejected json
  | Upstream_Missing
  | Push_Not_A_Bool
  | Branches_Not_A_List
  | Not_A_Branch json
  | Not_A_Job json

fun branch_set :: "json list \<Rightarrow> grant_reject + pystr set" where
  "branch_set [] = Inr {}"
| "branch_set (v # vs) =
     (case normalize_push_branch v of
        None \<Rightarrow> Inl (Not_A_Branch v)
      | Some b \<Rightarrow> (case branch_set vs of Inl e \<Rightarrow> Inl e | Inr B \<Rightarrow> Inr (insert b B)))"

definition parse_push_branches :: "json \<Rightarrow> grant_reject + pystr set" where
  "parse_push_branches raw =
     (case raw of
        JList vs \<Rightarrow> if MAX_PUSH_BRANCHES < length vs then Inl Branches_Not_A_List else branch_set vs
      | _ \<Rightarrow> Inl Branches_Not_A_List)"

definition rstrip_slash :: "pystr \<Rightarrow> pystr" where
  "rstrip_slash s = rev (dropWhile (\<lambda>c. c = CHR ''/'') (rev s))"

definition upstream_path_ok :: "pystr \<Rightarrow> bool" where
  "upstream_path_ok path \<longleftrightarrow>
     list_all (\<lambda>s. upstream_segment s \<and> \<not> dot_segment s) (split_on CHR ''/'' (drop 1 path))"

definition normalize_upstream :: "json \<Rightarrow> pystr option" where
  "normalize_upstream v =
     (case v of
        JStr value \<Rightarrow>
          (case urlsplit (strip value) of
             None \<Rightarrow> None
           | Some parts \<Rightarrow>
               (case url_port parts of
                  None \<Rightarrow> None
                | Some port \<Rightarrow>
                    let host = url_hostname parts; path = rstrip_slash (url_path parts)
                    in if url_scheme parts \<notin> {''http'', ''https''} \<or> fst (url_userinfo parts) \<noteq> [] \<or>
                          snd (url_userinfo parts) \<noteq> [] then None
                       else if url_query parts \<noteq> [] \<or> url_fragment parts \<noteq> [] \<or> host = [] \<or> \<not> host_ok host
                       then None
                       else if path \<noteq> [] \<and> \<not> upstream_path_ok path then None
                       else Some (url_scheme parts @ ''://'' @
                              (case port of None \<Rightarrow> host | Some p \<Rightarrow> host @ '':'' @ nat_str p) @ path)))
      | _ \<Rightarrow> None)"

subsection \<open>The verdict on a request\<close>

text \<open>The repository segments, the path below the repository, the method, the service and the
  query to send, or the reason of the refusal.\<close>

definition git_route :: "pystr list \<Rightarrow> pystr \<Rightarrow> pystr + (pystr list \<times> pystr \<times> pystr \<times> pystr \<times> pystr)" where
  "git_route segments raw_query =
     (if 2 \<le> length segments \<and> drop (length segments - 2) segments = [''info'', ''refs''] then
        let service = (if starts_with raw_query ''service='' then drop (length ''service='') raw_query else [])
        in if service \<notin> set git_services then Inl ''query_not_allowed''
           else Inr (take (length segments - 2) segments, ''info/refs'', ''GET'', service, ''?service='' @ service)
      else if last segments \<in> set git_services then
        if raw_query \<noteq> [] then Inl ''query_not_allowed''
        else Inr (butlast segments, last segments, ''POST'', last segments, [])
      else Inl ''path_not_allowed'')"

definition strip_git_suffix :: "pystr list \<Rightarrow> pystr list" where
  "strip_git_suffix segs =
     (if segs \<noteq> [] \<and> ends_with (last segs) ''.git''
      then butlast segs @ [take (length (last segs) - 4) (last segs)] else segs)"

definition git_verdict :: "pystr \<Rightarrow> pystr \<Rightarrow> pystr \<Rightarrow> git_grant option \<Rightarrow> git_ruling" where
  "git_verdict meth raw_path raw_query grant =
     (case grant of
        None \<Rightarrow> Git_Deny ''unscoped_enrollment''
      | Some g \<Rightarrow>
          if \<not> starts_with raw_path GIT_ROUTE_PREFIX then Git_Deny ''path_not_allowed''
          else
            let segments = split_on CHR ''/'' (drop (length GIT_ROUTE_PREFIX) raw_path)
            in if \<not> list_all (\<lambda>s. git_segment s \<and> \<not> dot_segment s) segments then Git_Deny ''malformed_path''
               else (case git_route segments raw_query of
                 Inl reason \<Rightarrow> Git_Deny reason
               | Inr (repo_segments, suffix, expected, service, query) \<Rightarrow>
                   if meth \<noteq> expected then Git_Deny ''method_not_allowed''
                   else
                     let rs = strip_git_suffix repo_segments
                     in (case normalize_git_repo (join ''/'' rs) of
                           None \<Rightarrow> Git_Deny ''malformed_path''
                         | Some repo \<Rightarrow>
                             if repo \<notin> repos g then Git_Deny ''repo_out_of_scope''
                             else if service = RECEIVE_PACK \<and> \<not> push g then Git_Deny ''push_not_allowed''
                             else Git_Allow repo service
                               (upstream g @ ''/'' @ join ''/'' rs @ ''.git/'' @ suffix @ query))))"

subsection \<open>The enrolled grant\<close>

type_synonym git_grants = "git_grant dict"

definition git_echo :: "git_grant \<Rightarrow> (pystr \<times> json) list" where
  "git_echo g =
     [(SCOPE_FIELD, JList (map JStr (sorted_list_of_set (repos g)))),
      (UPSTREAM_FIELD, JStr (upstream g)),
      (PUSH_FIELD, JBool (push g)),
      (PUSH_BRANCHES_FIELD, JList (map JStr (sorted_list_of_set (push_branches g))))]"

definition parse_upstream :: "(pystr \<times> json) list \<Rightarrow> pystr set \<Rightarrow> grant_reject + pystr" where
  "parse_upstream body rs =
     (case (case get body UPSTREAM_FIELD of
              JNull \<Rightarrow> Inr []
            | v \<Rightarrow> (case normalize_upstream v of None \<Rightarrow> Inl (Upstream_Rejected v) | Some u \<Rightarrow> Inr u)) of
        Inl e \<Rightarrow> Inl e
      | Inr u \<Rightarrow> if rs \<noteq> {} \<and> u = [] then Inl Upstream_Missing else Inr u)"

definition parse_job :: "json \<Rightarrow> grant_reject + pystr" where
  "parse_job v =
     (case v of
        JNull \<Rightarrow> Inr []
      | JStr j \<Rightarrow> if job_id_ok j then Inr j else Inl (Not_A_Job v)
      | _ \<Rightarrow> Inl (Not_A_Job v))"

definition git_scope_parse :: "(pystr \<times> json) list \<Rightarrow> grant_reject + git_grant option" where
  "git_scope_parse body =
     (case parse_allowed_repos normalize_git_repo body of
        Inl e \<Rightarrow> Inl (Repos_Rejected e)
      | Inr None \<Rightarrow> Inr None
      | Inr (Some rs) \<Rightarrow>
          (case parse_upstream body rs of
             Inl e \<Rightarrow> Inl e
           | Inr u \<Rightarrow>
               (case get_or body PUSH_FIELD (JBool False) of
                  JBool p \<Rightarrow>
                    (case (case get body PUSH_BRANCHES_FIELD of
                             JNull \<Rightarrow> Inr {} | raw \<Rightarrow> parse_push_branches raw) of
                       Inl e \<Rightarrow> Inl e
                     | Inr bs \<Rightarrow>
                         (case parse_job (get body JOB_FIELD) of
                            Inl e \<Rightarrow> Inl e
                          | Inr j \<Rightarrow> Inr (Some \<lparr>upstream = u, repos = rs, push = p, push_branches = bs,
                                              job_id = j\<rparr>)))
                | _ \<Rightarrow> Inl Push_Not_A_Bool)))"

definition git_scope_apply ::
  "pystr \<Rightarrow> git_grant option \<Rightarrow> git_grants \<Rightarrow> (pystr \<times> json) list \<times> git_grants" where
  "git_scope_apply i parsed grants =
     (case parsed of
        None \<Rightarrow> ([], AList.delete i grants)
      | Some g \<Rightarrow> (git_echo g, AList.update i g grants))"

definition git_scope_forget :: "pystr \<Rightarrow> git_grants \<Rightarrow> git_grants" where
  "git_scope_forget i grants = AList.delete i grants"

definition git_scope_extension :: "(grant_reject, git_grant option, git_grants) extension" where
  "git_scope_extension = \<lparr>ext_parse = git_scope_parse, ext_apply = git_scope_apply\<rparr>"

text \<open>\<open>PUT /admin/git-push-branches/{sandbox_id}\<close>. The body is None when it is not JSON.\<close>

definition push_branches_handler ::
  "(pystr \<Rightarrow> pystr) \<Rightarrow> rat \<Rightarrow> pystr \<Rightarrow> pystr \<Rightarrow> json option \<Rightarrow> git_grants app \<Rightarrow>
   grant_reject reply \<times> git_grants app" where
  "push_branches_handler sha now header i body a =
     (case guard_admin sha now header a of
        (Some denied, a') \<Rightarrow> (denied, a')
      | (None, a') \<Rightarrow>
          (case body of
             Some (JObj d) \<Rightarrow>
               (case parse_push_branches (get d PUSH_BRANCHES_FIELD) of
                  Inl e \<Rightarrow> (Reply 400 [] (Detail_Body ''bad_request'' e), a')
                | Inr bs \<Rightarrow>
                    (case map_of (app_scope a') i of
                       None \<Rightarrow> (Reply 404 [] (Error_Body ''not_enrolled''), a')
                     | Some g \<Rightarrow>
                         if \<not> push g then (Reply 409 [] (Error_Body ''push_not_allowed''), a')
                         else let g' = g\<lparr>push_branches := bs\<rparr>
                              in (Reply 200 [] (Fields (git_echo g')),
                                  a'\<lparr>app_scope := AList.update i g' (app_scope a')\<rparr>)))
           | _ \<Rightarrow> (bad_request, a')))"


subsection \<open>Requests\<close>

lemma name_chars_join:
  assumes "\<forall>p \<in> set ps. list_all name_char p"
  shows "strip (join ''/'' ps) = join ''/'' ps"
proof (rule strip_id)
  have "printable c" if "c \<in> set (join ''/'' ps)" for c
  proof -
    have "c = CHR ''/'' \<or> (\<exists>p \<in> set ps. c \<in> set p)" using that set_join [of "''/''" ps] by auto
    then show ?thesis
      using assms name_char_facts(1) by (auto simp: list_all_iff printable_def ord_def)
  qed
  then show "join ''/'' ps = [] \<or> printable (hd (join ''/'' ps)) \<and> printable (last (join ''/'' ps))"
    by auto
qed

lemma name_chars_split:
  assumes "\<forall>p \<in> set ps. list_all name_char p" "ps \<noteq> []"
  shows "split_on CHR ''/'' (strip (join ''/'' ps)) = ps"
proof -
  have "\<forall>p \<in> set ps. CHR ''/'' \<notin> set p"
    using assms(1) name_char_facts(2) by (auto simp: list_all_iff)
  with assms(2) show ?thesis by (simp add: name_chars_join [OF assms(1)] split_on_join)
qed

lemma normalize_joined:
  assumes "\<forall>p \<in> set ps. list_all name_char p"
  shows "normalize_git_repo (join ''/'' ps) = Some r \<longleftrightarrow>
    2 \<le> length ps \<and> length ps \<le> GITLAB_MAX_DEPTH \<and> safe_parts ps \<and> list_all name_part ps \<and>
    r = ascii_lower (join ''/'' ps)"
proof (cases "ps = []")
  case True
  have "strip [] = []" by (rule strip_id) simp
  with True show ?thesis by (simp add: normalize_git_repo_def normalize_gitlab_project_def)
next
  case False
  then show ?thesis
    using name_chars_split [OF assms False]
    by (auto simp: normalize_git_repo_def normalize_gitlab_project_def Let_def)
qed

lemma git_route_cases:
  assumes "git_route segs q = Inr (rs, suffix, m, svc, query)" "segs \<noteq> []"
  shows "svc \<in> set git_services \<and>
    (segs = rs @ [''info'', ''refs''] \<and> suffix = ''info/refs'' \<and> m = ''GET'' \<and> query = ''?service='' @ svc \<or>
     segs = rs @ [svc] \<and> suffix = svc \<and> m = ''POST'' \<and> query = [])"
  using assms by (auto simp: git_route_def Let_def split: if_splits)
    (metis append_take_drop_id)+

lemma strip_git_suffix_chars:
  "\<forall>p \<in> set ps. list_all name_char p \<Longrightarrow> \<forall>p \<in> set (strip_git_suffix ps). list_all name_char p"
proof -
  assume a: "\<forall>p \<in> set ps. list_all name_char p"
  have "list_all name_char (take n (last ps))" if "ps \<noteq> []" for n
  proof -
    have "list_all name_char (last ps)" using a last_in_set [OF that] by blast
    then show ?thesis unfolding list_all_iff by (meson in_set_takeD)
  qed
  with a show ?thesis by (auto simp: strip_git_suffix_def dest: in_set_butlastD)
qed

lemma git_verdict_cases:
  assumes "git_verdict m p q grant = Git_Allow repo svc url"
  obtains g segs rs suffix query where "grant = Some g" "starts_with p GIT_ROUTE_PREFIX"
    "segs = split_on CHR ''/'' (drop (length GIT_ROUTE_PREFIX) p)"
    "list_all (\<lambda>s. git_segment s \<and> \<not> dot_segment s) segs"
    "git_route segs q = Inr (rs, suffix, m, svc, query)"
    "normalize_git_repo (join ''/'' (strip_git_suffix rs)) = Some repo" "repo \<in> repos g"
    "svc = RECEIVE_PACK \<Longrightarrow> push g"
    "url = upstream g @ ''/'' @ join ''/'' (strip_git_suffix rs) @ ''.git/'' @ suffix @ query"
  using assms that by (auto simp: git_verdict_def Let_def split: option.splits if_splits sum.splits)

subsection \<open>Properties\<close>

lemma git_allow_parts:
  assumes "git_verdict m p q grant = Git_Allow repo svc url"
  shows "\<exists>g segs. grant = Some g \<and> repo \<in> repos g \<and> (svc = RECEIVE_PACK \<longrightarrow> push g) \<and>
    svc \<in> {''git-upload-pack'', ''git-receive-pack''} \<and>
    2 \<le> length segs \<and> (\<forall>s \<in> set segs. name_part s \<and> \<not> dot_segment s) \<and>
    repo = ascii_lower (join ''/'' segs) \<and>
    (m = ''GET'' \<and> url = upstream g @ ''/'' @ join ''/'' segs @ ''.git/info/refs?service='' @ svc \<or>
     m = ''POST'' \<and> url = upstream g @ ''/'' @ join ''/'' segs @ ''.git/'' @ svc)"
proof -
  from assms obtain g segs rs suffix query where A: "grant = Some g"
    "segs = split_on CHR ''/'' (drop (length GIT_ROUTE_PREFIX) p)"
    "list_all (\<lambda>s. git_segment s \<and> \<not> dot_segment s) segs"
    "git_route segs q = Inr (rs, suffix, m, svc, query)"
    "normalize_git_repo (join ''/'' (strip_git_suffix rs)) = Some repo" "repo \<in> repos g"
    "svc = RECEIVE_PACK \<Longrightarrow> push g"
    "url = upstream g @ ''/'' @ join ''/'' (strip_git_suffix rs) @ ''.git/'' @ suffix @ query"
    by (rule git_verdict_cases) blast
  define ss where "ss = strip_git_suffix rs"
  have route: "svc \<in> set git_services \<and>
    (segs = rs @ [''info'', ''refs''] \<and> suffix = ''info/refs'' \<and> m = ''GET'' \<and> query = ''?service='' @ svc \<or>
     segs = rs @ [svc] \<and> suffix = svc \<and> m = ''POST'' \<and> query = [])"
    by (rule git_route_cases [OF A(4)]) (simp add: A(2))
  then have "set rs \<subseteq> set segs" by auto
  then have "\<forall>p \<in> set rs. list_all name_char p"
    using A(3) by (auto simp: list_all_iff git_segment_def)
  then have "\<forall>p \<in> set ss. list_all name_char p" unfolding ss_def by (rule strip_git_suffix_chars)
  from normalize_joined [OF this] A(5) have ss: "2 \<le> length ss" "safe_parts ss" "list_all name_part ss"
    "repo = ascii_lower (join ''/'' ss)" unfolding ss_def by blast+
  have "\<forall>s \<in> set ss. name_part s \<and> \<not> dot_segment s"
    using ss(2,3) by (simp add: safe_parts_def list_all_iff)
  moreover have "m = ''GET'' \<and> url = upstream g @ ''/'' @ join ''/'' ss @ ''.git/info/refs?service='' @ svc \<or>
     m = ''POST'' \<and> url = upstream g @ ''/'' @ join ''/'' ss @ ''.git/'' @ svc"
    using route A(8) by (auto simp: ss_def)
  moreover have "svc \<in> {''git-upload-pack'', ''git-receive-pack''}"
    using route by (simp add: git_services_def UPLOAD_PACK_def RECEIVE_PACK_def)
  ultimately show ?thesis using A(1,6,7) ss(1,4) by blast
qed

lemma git_allow_url:
  assumes "git_verdict m p q (Some g) = Git_Allow repo svc url"
  shows "\<exists>segs tail. repo \<in> repos g \<and> url = upstream g @ ''/'' @ join ''/'' segs @ tail \<and>
    (\<forall>s \<in> set segs. name_part s) \<and> list_all printable tail"
proof -
  have lit: "list_all printable ''.git/info/refs?service=git-upload-pack''"
    "list_all printable ''.git/info/refs?service=git-receive-pack''"
    "list_all printable ''.git/git-upload-pack''" "list_all printable ''.git/git-receive-pack''"
    by code_simp+
  from git_allow_parts [OF assms] obtain segs where s: "repo \<in> repos g"
    "svc \<in> {''git-upload-pack'', ''git-receive-pack''}" "\<forall>s \<in> set segs. name_part s \<and> \<not> dot_segment s"
    "url = upstream g @ ''/'' @ join ''/'' segs @ ''.git/info/refs?service='' @ svc \<or>
     url = upstream g @ ''/'' @ join ''/'' segs @ ''.git/'' @ svc" by blast
  have "list_all printable (''.git/info/refs?service='' @ svc)" "list_all printable (''.git/'' @ svc)"
    using s(2) lit by auto
  with s show ?thesis by blast
qed

text \<open>C28: the git-proxy forwards a request only when the sandbox has a grant, the method fits the
  service, the repository is in the grant and, for receive-pack (its advertisement too), the grant
  allows pushing; the URL it requests is the grant's upstream with the checked repository segments
  and one of four suffixes, whatever the request path was.\<close>

theorem git_allow_sound:
  assumes "git_verdict m p q grant = Git_Allow repo svc url"
  shows "\<exists>g segs. grant = Some g \<and> repo \<in> repos g \<and> (svc = RECEIVE_PACK \<longrightarrow> push g) \<and>
    svc \<in> {''git-upload-pack'', ''git-receive-pack''} \<and>
    2 \<le> length segs \<and> (\<forall>s \<in> set segs. name_part s \<and> \<not> dot_segment s) \<and>
    repo = ascii_lower (join ''/'' segs) \<and>
    (m = ''GET'' \<and> url = upstream g @ ''/'' @ join ''/'' segs @ ''.git/info/refs?service='' @ svc \<or>
     m = ''POST'' \<and> url = upstream g @ ''/'' @ join ''/'' segs @ ''.git/'' @ svc)"
  using git_allow_parts [OF assms] .

theorem git_allow_sound_witness:
  "git_verdict ''GET'' ''/git/Acme/app.git/info/refs'' ''service=git-upload-pack''
      (Some \<lparr>upstream = ''https://github.com'', repos = {''acme/app''}, push = False, push_branches = {}, job_id = []\<rparr>) =
   Git_Allow ''acme/app'' ''git-upload-pack'' ''https://github.com/Acme/app.git/info/refs?service=git-upload-pack'' \<and>
   ''acme/app'' = ascii_lower ''acme/app''"
proof -
  let ?g = "\<lparr>upstream = ''https://github.com'', repos = {''acme/app''}, push = False, push_branches = {}, job_id = []\<rparr>"
  have a: "git_verdict ''GET'' ''/git/Acme/app.git/info/refs'' ''service=git-upload-pack'' (Some ?g) =
     Git_Allow ''acme/app'' ''git-upload-pack'' ''https://github.com/Acme/app.git/info/refs?service=git-upload-pack''"
    by code_simp
  from git_allow_sound [OF a] have "ascii_lower ''acme/app'' = ''acme/app''" by (elim exE conjE) (metis ascii_lower_idem)
  with a show ?thesis by simp
qed

lemma join_append: "ps \<noteq> [] \<Longrightarrow> qs \<noteq> [] \<Longrightarrow> join sep (ps @ qs) = join sep ps @ sep @ join sep qs"
proof (induction ps)
  case (Cons p ps)
  then show ?case by (cases "ps = []") (simp_all add: join_Cons)
qed simp

lemma join_last_suffix:
  assumes "ps \<noteq> []"
  shows "join sep ps @ t = join sep (butlast ps @ [last ps @ t])"
proof -
  have "ps = butlast ps @ [last ps]" using assms by simp
  then show ?thesis
    using join_append [of "butlast ps" "[last ps]" sep] join_append [of "butlast ps" "[last ps @ t]" sep]
    by (cases "butlast ps = []") (metis append_Nil join.simps(2), simp)
qed

lemma strip_git_suffix_added:
  "ps \<noteq> [] \<Longrightarrow> strip_git_suffix (butlast ps @ [last ps @ ''.git'']) = ps"
  by (simp add: strip_git_suffix_def ends_with_iff)

lemma git_suffix_segment:
  "name_part s \<Longrightarrow> length s \<le> 251 \<Longrightarrow> git_segment (s @ ''.git'') \<and> \<not> dot_segment (s @ ''.git'')"
  by (simp add: git_segment_def name_part_def dot_segment_def name_char_def char_classes append_eq_Cons_conv)

text \<open>What embry0's own git does works: for a repository in the grant, spelled with any case, the
  advertisement and the service request of a fetch are forwarded, and those of a push when the
  grant allows pushing.\<close>

lemma git_routes_served:
  assumes "\<forall>s \<in> set segs. name_part s \<and> \<not> dot_segment s" "2 \<le> length segs" "length segs \<le> 20"
    and "length (last segs) \<le> 251" and "ascii_lower (join ''/'' segs) \<in> repos g"
    and "svc = ''git-upload-pack'' \<or> svc = ''git-receive-pack'' \<and> push g"
  shows "git_verdict ''GET'' (''/git/'' @ join ''/'' segs @ ''.git/info/refs'') (''service='' @ svc) (Some g) =
      Git_Allow (ascii_lower (join ''/'' segs)) svc
        (upstream g @ ''/'' @ join ''/'' segs @ ''.git/info/refs?service='' @ svc) \<and>
    git_verdict ''POST'' (''/git/'' @ join ''/'' segs @ ''.git/'' @ svc) [] (Some g) =
      Git_Allow (ascii_lower (join ''/'' segs)) svc (upstream g @ ''/'' @ join ''/'' segs @ ''.git/'' @ svc)"
proof -
  have ne: "segs \<noteq> []" using assms(2) by auto
  let ?r = "butlast segs @ [last segs @ ''.git'']"
  have svc: "svc \<in> set git_services" "git_segment svc" "\<not> dot_segment svc"
    "svc = RECEIVE_PACK \<Longrightarrow> push g" "CHR ''/'' \<notin> set svc"
    using assms(6) by (elim disjE conjE; hypsubst; simp add: git_services_def UPLOAD_PACK_def RECEIVE_PACK_def
        git_segment_def dot_segment_def name_char_def char_classes)+
  have r_ok: "list_all (\<lambda>s. git_segment s \<and> \<not> dot_segment s) ?r"
  proof -
    have "git_segment (last segs @ ''.git'') \<and> \<not> dot_segment (last segs @ ''.git'')"
      using assms(1,4) ne by (intro git_suffix_segment) auto
    moreover have "\<forall>s \<in> set (butlast segs). git_segment s \<and> \<not> dot_segment s"
      using assms(1) by (auto simp: name_part_def git_segment_def dest: in_set_butlastD)
    ultimately show ?thesis by (simp add: list_all_iff)
  qed
  have lits: "git_segment ''info''" "git_segment ''refs''" "\<not> dot_segment ''info''" "\<not> dot_segment ''refs''"
    by code_simp+
  have parts: "split_on CHR ''/'' (join ''/'' (?r @ t)) = ?r @ t"
    if "list_all (\<lambda>s. git_segment s \<and> \<not> dot_segment s) t" for t
  proof -
    have "CHR ''/'' \<notin> set s" if "git_segment s" for s
      using that name_char_facts(2) by (auto simp: git_segment_def list_all_iff)
    moreover have "\<forall>s \<in> set (?r @ t). git_segment s" using r_ok that by (auto simp: list_all_iff)
    ultimately show ?thesis by (intro split_on_join) blast+
  qed
  have path: "join ''/'' segs @ ''.git/'' @ join ''/'' t = join ''/'' (?r @ t)" if "t \<noteq> []" for t
    using join_append [of ?r t "''/''"] that join_last_suffix [OF ne, of "''/''" "''.git''"] by simp
  have "\<forall>s \<in> set segs. list_all name_char s" using assms(1) by (simp add: name_part_def)
  from normalize_joined [OF this] have n: "normalize_git_repo (join ''/'' segs) = Some (ascii_lower (join ''/'' segs))"
    using assms(1-3) by (auto simp: GITLAB_MAX_DEPTH_def safe_parts_def list_all_iff name_part_def)
  note s = strip_git_suffix_added [OF ne]
  have "git_verdict ''GET'' (''/git/'' @ join ''/'' segs @ ''.git/info/refs'') (''service='' @ svc) (Some g) =
      Git_Allow (ascii_lower (join ''/'' segs)) svc
        (upstream g @ ''/'' @ join ''/'' segs @ ''.git/info/refs?service='' @ svc)"
  proof -
    have p: "''/git/'' @ join ''/'' segs @ ''.git/info/refs'' = GIT_ROUTE_PREFIX @ join ''/'' (?r @ [''info'', ''refs''])"
      using path [of "[''info'', ''refs'']"] by (simp add: GIT_ROUTE_PREFIX_def)
    have rt: "git_route (?r @ [''info'', ''refs'']) (''service='' @ svc) =
        Inr (?r, ''info/refs'', ''GET'', svc, ''?service='' @ svc)"
      using svc(1) starts_with_append [of "''service=''" svc] by (simp add: git_route_def)
    show ?thesis
      unfolding p git_verdict_def
      using parts [of "[''info'', ''refs'']"] r_ok lits rt s n assms(5) svc(4)
      by (simp add: Let_def)
  qed
  moreover have "git_verdict ''POST'' (''/git/'' @ join ''/'' segs @ ''.git/'' @ svc) [] (Some g) =
      Git_Allow (ascii_lower (join ''/'' segs)) svc (upstream g @ ''/'' @ join ''/'' segs @ ''.git/'' @ svc)"
  proof -
    have p: "''/git/'' @ join ''/'' segs @ ''.git/'' @ svc = GIT_ROUTE_PREFIX @ join ''/'' (?r @ [svc])"
      using path [of "[svc]"] by (simp add: GIT_ROUTE_PREFIX_def)
    have "svc \<noteq> ''refs''" using svc(1) by (auto simp: git_services_def UPLOAD_PACK_def RECEIVE_PACK_def)
    then have rt: "git_route (?r @ [svc]) [] = Inr (?r, svc, ''POST'', svc, [])"
      using svc(1) by (auto simp: git_route_def butlast_append)
    show ?thesis
      unfolding p git_verdict_def
      using parts [of "[svc]"] r_ok svc rt s n assms(5)
      by (simp add: Let_def)
  qed
  ultimately show ?thesis by blast
qed

lemma git_routes_served_witness:
  "git_verdict ''POST'' ''/git/Acme/app.git/git-receive-pack'' []
      (Some \<lparr>upstream = ''https://h'', repos = {''acme/app''}, push = True, push_branches = {}, job_id = []\<rparr>) =
   Git_Allow ''acme/app'' ''git-receive-pack'' ''https://h/Acme/app.git/git-receive-pack''"
proof -
  let ?g = "\<lparr>upstream = ''https://h'', repos = {''acme/app''}, push = True, push_branches = {}, job_id = []\<rparr>"
  have l: "ascii_lower (join ''/'' [''Acme'', ''app'']) = ''acme/app''" by code_simp
  have p: "\<forall>s \<in> set [''Acme'', ''app'']. name_part s \<and> \<not> dot_segment s" by code_simp
  have "ascii_lower (join ''/'' [''Acme'', ''app'']) \<in> repos ?g" by (simp only: l) simp
  from git_routes_served [OF p _ _ _ this, of "''git-receive-pack''"] l show ?thesis by simp
qed

subsection \<open>Branch names\<close>

text \<open>The rules of \<open>git check-ref-format\<close> for a full ref name.\<close>

definition git_ref_format :: "pystr \<Rightarrow> bool" where
  "git_ref_format r \<longleftrightarrow>
     list_all (\<lambda>p. p \<noteq> [] \<and> \<not> starts_with p ''.'' \<and> \<not> ends_with p ''.lock'') (split_on CHR ''/'' r) \<and>
     2 \<le> length (split_on CHR ''/'' r) \<and> \<not> contains r ''..'' \<and> \<not> contains r (CHR ''@'' # ''{'') \<and> \<not> ends_with r ''.'' \<and>
     list_all (\<lambda>c. 32 < ord c \<and> ord c \<noteq> 127 \<and> c \<noteq> CHR 0x5C \<and> c \<notin> set ''~^:?*['') r"

lemma contains_set: "contains s p \<Longrightarrow> set p \<subseteq> set s"
proof (induction s)
  case (Cons x xs)
  then show ?case by (auto simp: starts_with_iff) (metis UnI1 set_append set_ConsD list.set_intros(2))+
qed simp

lemma ref_char_facts:
  assumes "ref_char c"
  shows "32 < ord c \<and> ord c \<noteq> 127 \<and> c \<noteq> CHR 0x5C \<and> c \<noteq> CHR ''@'' \<and> c \<notin> set ''~^:?*[''"
proof (cases "is_alnum c")
  case True
  then show ?thesis by (auto simp: is_alnum_def is_alpha_def is_digit_def in_range_def ord_def)
next
  case False
  with assms show ?thesis by (auto simp: ref_char_def ord_def)
qed

lemma push_branch_ref_lemma:
  assumes "normalize_push_branch v = Some b"
  shows "v = JStr b \<and> git_ref_format (''refs/heads/'' @ b) \<and> \<not> starts_with b ''refs/'' \<and> \<not> starts_with b ''-''"
proof -
  from assms have b: "v = JStr b" "valid_ref b" "\<not> starts_with b ''refs/''" "\<not> contains b ''..''"
    "\<forall>p \<in> set (split_on CHR ''/'' b). p \<noteq> [] \<and> \<not> starts_with p ''.'' \<and> \<not> ends_with p ''.lock''"
    "\<not> ends_with b ''.''"
    by (auto simp: normalize_push_branch_def list_ex_iff split: json.splits if_splits)
  have ne: "b \<noteq> []" and "hd b \<noteq> CHR ''-''" and rc: "list_all ref_char b"
    using b(2) by (auto simp: valid_ref_def)
  then have opt: "\<not> starts_with b ''-''" by (cases b) (auto simp: starts_with_def)
  have all: "list_all ref_char (''refs/heads/'' @ b)"
    using rc by (simp add: ref_char_def char_classes)
  then have "CHR ''@'' \<notin> set (''refs/heads/'' @ b)"
    using ref_char_facts unfolding list_all_iff by blast
  then have at: "\<not> contains (''refs/heads/'' @ b) (CHR ''@'' # ''{'')" using contains_set by fastforce
  have dots: "\<not> contains (''refs/heads/'' @ b) ''..''"
    using b(4) by (cases b) (auto simp: starts_with_def)
  have fin: "\<not> ends_with (''refs/heads/'' @ b) ''.''"
    using b(6) ne by (cases b rule: rev_cases) (auto simp: ends_with_def starts_with_def)
  have split: "split_on CHR ''/'' (''refs/heads/'' @ b) = ''refs'' # ''heads'' # split_on CHR ''/'' b" by simp
  have chars: "list_all (\<lambda>c. 32 < ord c \<and> ord c \<noteq> 127 \<and> c \<noteq> CHR 0x5C \<and> c \<notin> set ''~^:?*['') (''refs/heads/'' @ b)"
    using all ref_char_facts unfolding list_all_iff by blast
  have parts: "list_all (\<lambda>p. p \<noteq> [] \<and> \<not> starts_with p ''.'' \<and> \<not> ends_with p ''.lock'')
      (''refs'' # ''heads'' # split_on CHR ''/'' b)"
    using b(5) by (simp add: list_all_iff starts_with_def ends_with_def)
  have "2 \<le> length (''refs'' # ''heads'' # split_on CHR ''/'' b)" by simp
  then have "git_ref_format (''refs/heads/'' @ b)"
    unfolding git_ref_format_def split using parts at dots fin chars by blast
  with b(1,3) opt show ?thesis by blast
qed

lemma push_branch_ref: "normalize_push_branch v = Some b \<Longrightarrow> git_ref_format (''refs/heads/'' @ b)"
  using push_branch_ref_lemma by blast

text \<open>A branch name the proxy takes is taken as it stands, makes a ref name git accepts below
  \<open>refs/heads/\<close>, and can be read neither as a full ref name nor as an option.\<close>

lemma push_branch_is_git_branch:
  assumes "normalize_push_branch v = Some b"
  shows "v = JStr b \<and> git_ref_format (''refs/heads/'' @ b) \<and> \<not> starts_with b ''refs/'' \<and> \<not> starts_with b ''-''"
  using push_branch_ref_lemma [OF assms] .

lemma push_branch_is_git_branch_witness:
  "normalize_push_branch (JStr ''embry0/fix-12'') = Some ''embry0/fix-12'' \<and>
   git_ref_format ''refs/heads/embry0/fix-12''"
proof -
  have a: "normalize_push_branch (JStr ''embry0/fix-12'') = Some ''embry0/fix-12''" by code_simp
  show ?thesis using push_branch_is_git_branch [OF a] a by simp
qed

subsection \<open>Upstream URLs\<close>

definition upstream_form :: "pystr \<Rightarrow> pystr \<Rightarrow> pystr \<Rightarrow> pystr \<Rightarrow> bool" where
  "upstream_form scheme host port path \<longleftrightarrow>
     scheme \<in> {''http'', ''https''} \<and> host_ok host \<and>
     (port = [] \<or> (\<exists>n \<le> 65535. port = CHR '':'' # nat_str n)) \<and>
     (path = [] \<or> hd path = CHR ''/'' \<and> last path \<noteq> CHR ''/'' \<and> upstream_path_ok path)"

lemma rstrip_slash_cases: "rstrip_slash s = [] \<or> hd (rstrip_slash s) = hd s \<and> last (rstrip_slash s) \<noteq> CHR ''/''"
proof (cases "rstrip_slash s = []")
  case False
  obtain t where t: "s = rstrip_slash s @ t"
    unfolding rstrip_slash_def by (metis rev_append rev_rev_ident takeWhile_dropWhile_id)
  have "hd s = hd (rstrip_slash s)" using False t by (metis hd_append2)
  moreover have "last (rstrip_slash s) \<noteq> CHR ''/''"
    using False hd_dropWhile [of "\<lambda>c. c = CHR ''/''" "rev s"]
    by (simp add: rstrip_slash_def last_rev)
  ultimately show ?thesis by simp
qed simp

lemma rstrip_slash_id: "s = [] \<or> last s \<noteq> CHR ''/'' \<Longrightarrow> rstrip_slash s = s"
  by (cases s rule: rev_cases) (auto simp: rstrip_slash_def)

lemma normalize_upstream_form:
  assumes "normalize_upstream v = Some u"
  shows "\<exists>scheme host port path. upstream_form scheme host port path \<and> u = scheme @ ''://'' @ host @ port @ path"
proof -
  from assms obtain s parts port where A: "v = JStr s" "urlsplit (strip s) = Some parts"
    "url_port parts = Some port" by (auto simp: normalize_upstream_def split: json.splits option.splits)
  define host path where "host = url_hostname parts" and "path = rstrip_slash (url_path parts)"
  have B: "url_scheme parts \<in> {''http'', ''https''}" "host \<noteq> []" "host_ok host" "path = [] \<or> upstream_path_ok path"
    "u = url_scheme parts @ ''://'' @ (case port of None \<Rightarrow> host | Some p \<Rightarrow> host @ '':'' @ nat_str p) @ path"
    using assms A unfolding host_def path_def
    by (simp_all add: normalize_upstream_def Let_def split: if_splits option.splits)
  have "path = [] \<or> hd path = CHR ''/'' \<and> last path \<noteq> CHR ''/''"
    using rstrip_slash_cases [of "url_path parts"]
      urlsplit_path_absolute [OF A(2) url_hostname_netloc] B(2)
    by (auto simp: host_def path_def rstrip_slash_def)
  moreover have "port = Some p \<Longrightarrow> p \<le> 65535" for p
    using A(3) by (auto simp: url_port_def Let_def split: if_splits)
  ultimately have "upstream_form (url_scheme parts) host (case port of None \<Rightarrow> [] | Some p \<Rightarrow> '':'' @ nat_str p) path"
    using B(1,3,4) by (auto simp: upstream_form_def split: option.split)
  moreover have "u = url_scheme parts @ ''://'' @ host @ (case port of None \<Rightarrow> [] | Some p \<Rightarrow> '':'' @ nat_str p) @ path"
    using B(5) by (auto split: option.split)
  ultimately show ?thesis by blast
qed

lemma host_char_facts: "host_char c \<Longrightarrow> printable c \<and> ord c < 128 \<and> \<not> authority_end c \<and>
    c \<noteq> CHR ''['' \<and> c \<noteq> CHR '']'' \<and> c \<notin> set ''@[:%'' \<and> lower_char c = c"
proof (cases "c \<in> set ''.-''")
  case True
  have "\<forall>c \<in> set ''.-''. printable c \<and> ord c < 128 \<and> \<not> authority_end c \<and>
    c \<noteq> CHR ''['' \<and> c \<noteq> CHR '']'' \<and> c \<notin> set ''@[:%'' \<and> lower_char c = c" by code_simp
  with True show ?thesis by blast
next
  case False
  moreover assume "host_char c"
  ultimately show ?thesis
    by (auto simp: host_char_def printable_def authority_end_def lower_char_def in_range_def is_digit_def ord_def)
qed

lemma digit_plain: "is_digit c \<Longrightarrow> printable c \<and> \<not> authority_end c \<and> c \<noteq> CHR ''['' \<and> c \<noteq> CHR '']''"
  by (auto simp: is_digit_def printable_def authority_end_def in_range_def ord_def)

lemma path_char_facts:
  assumes "upstream_path_ok path" "hd path = CHR ''/''" "path \<noteq> []"
  shows "list_all (\<lambda>c. printable c \<and> c \<noteq> CHR ''#'' \<and> c \<noteq> CHR ''?'') path"
proof -
  obtain r where r: "path = CHR ''/'' # r" using assms(2,3) by (cases path) auto
  have seg: "name_char c \<or> c = CHR ''~'' \<Longrightarrow> printable c \<and> c \<noteq> CHR ''#'' \<and> c \<noteq> CHR ''?''" for c
  proof -
    have "\<not> name_char CHR ''#''" "\<not> name_char CHR ''?''" "printable CHR ''~''" by code_simp+
    then show "name_char c \<or> c = CHR ''~'' \<Longrightarrow> printable c \<and> c \<noteq> CHR ''#'' \<and> c \<noteq> CHR ''?''"
      using name_char_facts(1) by auto
  qed
  have "set r \<subseteq> {CHR ''/''} \<union> (\<Union>p \<in> set (split_on CHR ''/'' r). set p)"
    using set_join [of "''/''" "split_on CHR ''/'' r"] by (simp add: join_split_on)
  moreover have "\<forall>p \<in> set (split_on CHR ''/'' r). \<forall>c \<in> set p. name_char c \<or> c = CHR ''~''"
    using assms(1) r by (simp add: upstream_path_ok_def upstream_segment_def list_all_iff)
  ultimately have "\<forall>c \<in> set r. c = CHR ''/'' \<or> printable c \<and> c \<noteq> CHR ''#'' \<and> c \<noteq> CHR ''?''"
    using seg by blast
  moreover have "printable CHR ''/'' \<and> CHR ''/'' \<noteq> CHR ''#'' \<and> CHR ''/'' \<noteq> CHR ''?''" by code_simp
  ultimately have "\<forall>c \<in> set r. printable c \<and> c \<noteq> CHR ''#'' \<and> c \<noteq> CHR ''?''"
    and "printable CHR ''/'' \<and> CHR ''/'' \<noteq> CHR ''#'' \<and> CHR ''/'' \<noteq> CHR ''?''" by metis+
  then show ?thesis unfolding r list_all_iff list.set by (simp only: ball_simps simp_thms)
qed

lemma upstream_scheme:
  assumes "upstream_form scheme host port path"
  shows "scheme \<noteq> []" "is_alpha (hd scheme)" "list_all scheme_char scheme" "ascii_lower scheme = scheme"
    "printable (hd scheme)"
proof -
  have "scheme \<in> {''http'', ''https''}" using assms by (simp add: upstream_form_def)
  then show "scheme \<noteq> []" "is_alpha (hd scheme)" "list_all scheme_char scheme" "ascii_lower scheme = scheme"
    "printable (hd scheme)"
    by (elim insertE; simp add: scheme_char_def char_classes ascii_lower_def lower_char_def printable_def)+
qed

lemma upstream_netloc:
  assumes "upstream_form scheme host port path"
  shows "list_all (\<lambda>c. printable c \<and> \<not> authority_end c \<and> c \<noteq> CHR ''['' \<and> c \<noteq> CHR '']'') (host @ port)"
    and "list_all (\<lambda>c. ord c < 128 \<and> c \<notin> set ''@[:%'') host" "ascii_lower host = host"
    and "port = [] \<or> (\<exists>ds. port = CHR '':'' # ds \<and> list_all is_digit ds)"
proof -
  have hostc: "\<forall>c \<in> set host. host_char c"
    using assms by (auto simp: upstream_form_def host_ok_def list_all_iff)
  show port: "port = [] \<or> (\<exists>ds. port = CHR '':'' # ds \<and> list_all is_digit ds)"
    using assms nat_str_digits by (auto simp: upstream_form_def)
  have portc: "c = CHR '':'' \<or> is_digit c" if "c \<in> set port" for c
    using port that by (auto simp: list_all_iff)
  have colon: "printable CHR '':'' \<and> \<not> authority_end CHR '':''" by code_simp
  show "list_all (\<lambda>c. printable c \<and> \<not> authority_end c \<and> c \<noteq> CHR ''['' \<and> c \<noteq> CHR '']'') (host @ port)"
    unfolding list_all_iff set_append
  proof
    fix c assume "c \<in> set host \<union> set port"
    then show "printable c \<and> \<not> authority_end c \<and> c \<noteq> CHR ''['' \<and> c \<noteq> CHR '']''"
      using hostc host_char_facts [of c] portc [of c] digit_plain [of c] colon by blast
  qed
  show "list_all (\<lambda>c. ord c < 128 \<and> c \<notin> set ''@[:%'') host"
    using hostc host_char_facts unfolding list_all_iff by blast
  show "ascii_lower host = host"
    using hostc host_char_facts unfolding ascii_lower_def by (intro map_idI) blast
qed

lemma normalize_plain_upstream:
  assumes "upstream_form scheme host port path"
  shows "normalize_upstream (JStr (scheme @ ''://'' @ host @ port @ path)) = Some (scheme @ ''://'' @ host @ port @ path)"
proof -
  note scheme = upstream_scheme [OF assms] and net = upstream_netloc(1) [OF assms]
  have sch: "scheme \<in> {''http'', ''https''}" and h: "host_ok host"
    and port: "port = [] \<or> (\<exists>n \<le> 65535. port = CHR '':'' # nat_str n)"
    and path: "path = [] \<or> hd path = CHR ''/'' \<and> last path \<noteq> CHR ''/'' \<and> upstream_path_ok path"
    using assms by (simp_all add: upstream_form_def)
  have hne: "host \<noteq> []" using h by (auto simp: host_ok_def)
  let ?u = "scheme @ ''://'' @ (host @ port) @ path"
  have pathc: "list_all (\<lambda>c. printable c \<and> c \<noteq> CHR ''#'' \<and> c \<noteq> CHR ''?'') path"
    using path path_char_facts by (cases "path = []") simp_all
  have "urlsplit ?u = Some \<lparr>url_scheme = ascii_lower scheme, url_netloc = host @ port, url_path = path,
      url_query = [], url_fragment = []\<rparr>" (is "_ = Some ?parts")
    using path by (intro urlsplit_plain scheme(1-3) net pathc) auto
  moreover have "printable (last ?u)"
    using net pathc hne last_in_set [of "(host @ port) @ path"] by (auto simp: list_all_iff)
  then have "strip ?u = ?u"
    using scheme(1,5) by (intro strip_id) simp
  moreover note p = url_plain_host [OF _ upstream_netloc(2,4) [OF assms], of ?parts, simplified]
  then have "url_hostname ?parts = host" using upstream_netloc(3) [OF assms] by simp
  moreover have "url_port ?parts = Some (if port = [] then None else Some (nat (int_of_str (drop 1 port))))"
    using port p(2) by (auto simp: url_port_def Let_def)
  moreover have "url_userinfo ?parts = ([], [])" using p(1) by simp
  moreover have "rstrip_slash path = path" using path by (intro rstrip_slash_id) auto
  ultimately show ?thesis
    using sch h hne port path by (auto simp: normalize_upstream_def scheme(4))
qed

lemma upstream_host:
  assumes "normalize_upstream v = Some u" "rest = [] \<or> hd rest = CHR ''/''" "list_all printable rest"
  shows "\<exists>scheme host port path parts. u = scheme @ ''://'' @ host @ port @ path \<and> host_ok host \<and>
    urlsplit (u @ rest) = Some parts \<and> url_hostname parts = host"
proof -
  from normalize_upstream_form [OF assms(1)] obtain scheme host port path
    where f: "upstream_form scheme host port path" and u: "u = scheme @ ''://'' @ host @ port @ path" by blast
  have path: "path = [] \<or> hd path = CHR ''/'' \<and> list_all printable path"
    using f path_char_facts [of path] by (auto simp: upstream_form_def list_all_iff)
  have "authority_end CHR ''/''" by code_simp
  then have "path @ rest = [] \<or> authority_end (hd (path @ rest))"
    using path assms(2) by (cases path) auto
  moreover have "list_all printable (path @ rest)" using path assms(3) by auto
  ultimately obtain parts where parts: "urlsplit (scheme @ ''://'' @ (host @ port) @ path @ rest) = Some parts"
    "url_netloc parts = host @ port"
    using urlsplit_authority [OF upstream_scheme(1-3) [OF f] upstream_netloc(1) [OF f]] by blast
  have "url_hostname parts = host"
    using url_plain_host(3) [OF parts(2) upstream_netloc(2,4) [OF f]] upstream_netloc(3) [OF f] by simp
  with parts u f show ?thesis by (auto simp: upstream_form_def)
qed

text \<open>The upstream a grant stores is an http or https URL of a plain host, with an optional port
  and plain path segments, and is its own normal form, so that echoing it back and normalizing it
  again changes nothing.\<close>

lemma upstream_canonical:
  assumes "normalize_upstream v = Some u"
  shows "normalize_upstream (JStr u) = Some u \<and>
    (\<exists>scheme host port path. u = scheme @ ''://'' @ host @ port @ path \<and>
       scheme \<in> {''http'', ''https''} \<and> host_ok host \<and>
       (port = [] \<or> (\<exists>n \<le> 65535. port = CHR '':'' # nat_str n)) \<and>
       (path = [] \<or> (\<exists>segs. path = CHR ''/'' # join ''/'' segs \<and>
          (\<forall>s \<in> set segs. upstream_segment s \<and> \<not> dot_segment s))))"
proof -
  from normalize_upstream_form [OF assms] obtain scheme host port path
    where f: "upstream_form scheme host port path" and u: "u = scheme @ ''://'' @ host @ port @ path" by blast
  have "\<exists>segs. path = CHR ''/'' # join ''/'' segs \<and> (\<forall>s \<in> set segs. upstream_segment s \<and> \<not> dot_segment s)"
    if ne: "path \<noteq> []"
  proof -
    obtain r where r: "path = CHR ''/'' # r" using f ne by (cases path) (auto simp: upstream_form_def)
    then have "\<forall>s \<in> set (split_on CHR ''/'' r). upstream_segment s \<and> \<not> dot_segment s"
      using f ne by (simp add: upstream_form_def upstream_path_ok_def list_all_iff)
    then show ?thesis using r by (intro exI [of _ "split_on CHR ''/'' r"]) (simp add: join_split_on)
  qed
  then have p: "path = [] \<or> (\<exists>segs. path = CHR ''/'' # join ''/'' segs \<and>
      (\<forall>s \<in> set segs. upstream_segment s \<and> \<not> dot_segment s))" by blast
  have f': "scheme \<in> {''http'', ''https''}" "host_ok host"
    "port = [] \<or> (\<exists>n \<le> 65535. port = CHR '':'' # nat_str n)"
    using f by (simp_all add: upstream_form_def)
  have "normalize_upstream (JStr u) = Some u" using normalize_plain_upstream [OF f] u by simp
  with u f' p show ?thesis by blast
qed

lemma upstream_canonical_witness:
  "normalize_upstream (JStr '' HTTPS://Git.Example.com:0443/forge/'') = Some ''https://git.example.com:443/forge'' \<and>
   normalize_upstream (JStr ''https://git.example.com:443/forge'') = Some ''https://git.example.com:443/forge''"
proof -
  have a: "normalize_upstream (JStr '' HTTPS://Git.Example.com:0443/forge/'') = Some ''https://git.example.com:443/forge''"
    by code_simp
  show ?thesis by (intro conjI a) (rule conjunct1 [OF upstream_canonical [OF a]])
qed

subsection \<open>The life of a grant\<close>

text \<open>What a stored grant holds.\<close>

definition grant_ok :: "git_grant \<Rightarrow> bool" where
  "grant_ok g \<longleftrightarrow>
     finite (repos g) \<and> card (repos g) \<le> MAX_SCOPE_REPOS \<and> (\<forall>r \<in> repos g. normalize_git_repo r = Some r) \<and>
     (upstream g = [] \<and> repos g = {} \<or> normalize_upstream (JStr (upstream g)) = Some (upstream g)) \<and>
     finite (push_branches g) \<and> card (push_branches g) \<le> MAX_PUSH_BRANCHES \<and>
     (\<forall>b \<in> push_branches g. normalize_push_branch (JStr b) = Some b) \<and>
     (job_id g = [] \<or> job_id_ok (job_id g))"

definition grants_ok :: "git_grants \<Rightarrow> bool" where
  "grants_ok x \<longleftrightarrow> (\<forall>i g. map_of x i = Some g \<longrightarrow> grant_ok g)"

lemma push_branch_id: "normalize_push_branch v = Some b \<Longrightarrow> v = JStr b"
  by (auto simp: normalize_push_branch_def split: json.splits if_splits)

lemma branch_set_ok:
  "branch_set vs = Inr B \<Longrightarrow>
   finite B \<and> card B \<le> length vs \<and> (\<forall>b \<in> B. normalize_push_branch (JStr b) = Some b)"
proof (induction vs arbitrary: B)
  case (Cons v vs)
  then obtain b T where v: "normalize_push_branch v = Some b" and T: "branch_set vs = Inr T" and B: "B = insert b T"
    by (auto split: option.splits sum.splits)
  with Cons.IH [OF T] push_branch_id [OF v] show ?case by (auto simp: card_insert_if)
qed simp

lemma parse_push_branches_ok:
  assumes "parse_push_branches raw = Inr B"
  shows "finite B \<and> card B \<le> MAX_PUSH_BRANCHES \<and> (\<forall>b \<in> B. normalize_push_branch (JStr b) = Some b)"
  using assms by (auto simp: parse_push_branches_def dest: branch_set_ok split: json.splits if_splits)

interpretation git_names: repo_normalizer normalize_git_repo
  by unfold_locales (auto simp: normalize_git_repo_def dest: gitlab_canonical)

lemma parse_upstream_ok:
  assumes "parse_upstream body rs = Inr u"
  shows "u = [] \<and> rs = {} \<or> normalize_upstream (JStr u) = Some u"
proof -
  have "normalize_upstream (JStr w) = Some w" if "normalize_upstream v = Some w" for v w
    using normalize_upstream_form [OF that] normalize_plain_upstream by auto
  then show ?thesis
    using assms by (auto simp: parse_upstream_def split: json.splits option.splits if_splits)
qed

lemma git_scope_parse_ok:
  assumes "git_scope_parse body = Inr (Some g)"
  shows "grant_ok g"
proof -
  from assms obtain rs u p bs j where A: "parse_allowed_repos normalize_git_repo body = Inr (Some rs)"
    "parse_upstream body rs = Inr u"
    "(case get body PUSH_BRANCHES_FIELD of JNull \<Rightarrow> Inr {} | raw \<Rightarrow> parse_push_branches raw) = Inr bs"
    "parse_job (get body JOB_FIELD) = Inr j"
    "g = \<lparr>upstream = u, repos = rs, push = p, push_branches = bs, job_id = j\<rparr>"
    by (auto simp: git_scope_parse_def split: sum.splits option.splits json.splits)
  have "finite bs \<and> card bs \<le> MAX_PUSH_BRANCHES \<and> (\<forall>b \<in> bs. normalize_push_branch (JStr b) = Some b)"
    using A(3) parse_push_branches_ok by (auto split: json.splits)
  moreover have "j = [] \<or> job_id_ok j"
    using A(4) by (auto simp: parse_job_def split: json.splits if_splits)
  ultimately show ?thesis
    using git_names.parsed_scope [OF A(1)] parse_upstream_ok [OF A(2)] A(5) by (simp add: grant_ok_def)
qed

interpretation git_scope: scoped_extension git_scope_forget keys git_scope_extension grants_ok
proof (unfold_locales, goal_cases)
  case (1 i x)
  show ?case by (simp add: git_scope_forget_def)
next
  case (2 i p x)
  show ?case by (auto simp: git_scope_extension_def git_scope_apply_def split: option.split)
next
  case (3 x i)
  then show ?case by (simp add: grants_ok_def git_scope_forget_def)
next
  case (4 body p x i)
  then show ?case using git_scope_parse_ok [of body]
    by (auto simp: grants_ok_def git_scope_extension_def git_scope_apply_def split: option.splits if_splits)
qed

text \<open>The requests that reach the git-proxy's admin routes, in any order.\<close>

inductive git_reachable :: "(pystr \<Rightarrow> pystr) \<Rightarrow> git_grants app \<Rightarrow> bool" for sha where
  gr_new: "new_app sha token [] = Some a \<Longrightarrow> git_reachable sha a"
| gr_admin: "git_reachable sha a \<Longrightarrow>
     app_step sha True (Some git_scope_forget) (Some git_scope_extension) a a' \<Longrightarrow> git_reachable sha a'"
| gr_branches: "git_reachable sha a \<Longrightarrow> push_branches_handler sha now header i body a = (rep, a') \<Longrightarrow>
     git_reachable sha a'"

lemma push_branches_effect:
  assumes "push_branches_handler sha now header i body a = (rep, a')"
  shows "app_registry a' = app_registry a \<and>
    (app_scope a' = app_scope a \<or>
     (\<exists>g B raw. map_of (app_scope a) i = Some g \<and> push g \<and> parse_push_branches raw = Inr B \<and>
        app_scope a' = AList.update i (g\<lparr>push_branches := B\<rparr>) (app_scope a)))"
proof -
  obtain den a1 where den: "(guard_admin sha now header a :: grant_reject reply option \<times> git_grants app) = (den, a1)"
    by (rule prod.exhaust)
  have same: "app_registry a1 = app_registry a" "app_scope a1 = app_scope a"
    using guard_admin_same [OF den] by simp_all
  show ?thesis
  proof (cases "\<exists>d B g. den = None \<and> body = Some (JObj d) \<and> parse_push_branches (get d PUSH_BRANCHES_FIELD) = Inr B \<and>
      map_of (app_scope a) i = Some g \<and> push g")
    case True
    then obtain d B g where d: "den = None" "body = Some (JObj d)"
      "parse_push_branches (get d PUSH_BRANCHES_FIELD) = Inr B" "map_of (app_scope a) i = Some g" "push g" by blast
    then have "a' = a1\<lparr>app_scope := AList.update i (g\<lparr>push_branches := B\<rparr>) (app_scope a)\<rparr>"
      using assms same by (simp add: push_branches_handler_def den Let_def)
    with d same show ?thesis by auto
  next
    case False
    then have "a' = a1"
      using assms same unfolding push_branches_handler_def den
      by (auto simp: Let_def split: option.splits json.splits sum.splits if_splits)
    with same show ?thesis by simp
  qed
qed

lemma git_reachable_inv:
  "git_reachable sha a \<Longrightarrow>
   registry_ok (app_registry a) \<and> keys (app_scope a) \<subseteq> enrolled_ids (app_registry a) \<and> grants_ok (app_scope a)"
proof (induction rule: git_reachable.induct)
  case (gr_new token a)
  then show ?case by (simp add: new_app_sel registry_ok_new grants_ok_def)
next
  case (gr_admin a a')
  then show ?case
    using app_step_ok git_scope.scoped_app_step git_scope.valid_app_step by metis
next
  case (gr_branches a now header i body rep a')
  note e = push_branches_effect [OF gr_branches.hyps(2)]
  show ?case
  proof (cases "app_scope a' = app_scope a")
    case True
    with e gr_branches.IH show ?thesis by simp
  next
    case False
    with e obtain g B raw where g: "map_of (app_scope a) i = Some g" "parse_push_branches raw = Inr B"
      "app_scope a' = AList.update i (g\<lparr>push_branches := B\<rparr>) (app_scope a)" by blast
    then have "grant_ok g" using gr_branches.IH by (auto simp: grants_ok_def)
    then have "grant_ok (g\<lparr>push_branches := B\<rparr>)"
      using parse_push_branches_ok [OF g(2)] by (simp add: grant_ok_def)
    with e g gr_branches.IH show ?thesis by (auto simp: grants_ok_def dest: map_of_SomeD_keys)
  qed
qed

text \<open>In every state the git-proxy's admin routes can reach, a grant belongs to an enrolled
  sandbox; it names at most eight canonical repositories below a canonical upstream URL and at
  most sixteen branch names git accepts; a sandbox that is not enrolled has every request
  refused.\<close>

lemma git_grant_lifecycle:
  assumes "git_reachable sha a"
  shows "keys (app_scope a) \<subseteq> enrolled_ids (app_registry a) \<and>
    (\<forall>i g. map_of (app_scope a) i = Some g \<longrightarrow>
       card (repos g) \<le> 8 \<and> (\<forall>r \<in> repos g. normalize_git_repo r = Some r) \<and>
       (repos g \<noteq> {} \<longrightarrow> normalize_upstream (JStr (upstream g)) = Some (upstream g)) \<and>
       card (push_branches g) \<le> 16 \<and>
       (\<forall>b \<in> push_branches g. git_ref_format (''refs/heads/'' @ b))) \<and>
    (\<forall>i m p q. i \<notin> enrolled_ids (app_registry a) \<longrightarrow>
       git_verdict m p q (map_of (app_scope a) i) = Git_Deny ''unscoped_enrollment'')"
proof -
  note inv = git_reachable_inv [OF assms]
  have "git_verdict m p q (map_of (app_scope a) i) = Git_Deny ''unscoped_enrollment''"
    if "i \<notin> enrolled_ids (app_registry a)" for i m p q
  proof -
    have "map_of (app_scope a) i = None" using inv that by (auto simp: map_of_None_keys)
    then show ?thesis by (simp add: git_verdict_def)
  qed
  moreover have "card (repos g) \<le> 8 \<and> (\<forall>r \<in> repos g. normalize_git_repo r = Some r) \<and>
       (repos g \<noteq> {} \<longrightarrow> normalize_upstream (JStr (upstream g)) = Some (upstream g)) \<and>
       card (push_branches g) \<le> 16 \<and> (\<forall>b \<in> push_branches g. git_ref_format (''refs/heads/'' @ b))"
    if "map_of (app_scope a) i = Some g" for i g
  proof -
    have ok: "grant_ok g" using inv that by (auto simp: grants_ok_def)
    then have "\<forall>b \<in> push_branches g. git_ref_format (''refs/heads/'' @ b)"
      unfolding grant_ok_def using push_branch_ref by blast
    with ok show ?thesis by (auto simp: grant_ok_def MAX_SCOPE_REPOS_def MAX_PUSH_BRANCHES_def)
  qed
  ultimately show ?thesis using inv by blast
qed

definition demo_git_body :: json where
  "demo_git_body = JObj [(''sandbox_id'', JStr ''sb1''), (''sandbox_token'', JStr demo_token),
     (''allowed_repos'', JList [JStr ''Acme/App'']), (''git_upstream'', JStr ''https://github.com''),
     (''git_push'', JBool True), (''git_push_branches'', JList [JStr ''embry0/job-1''])]"

definition demo_git_new :: "git_grants app" where
  "demo_git_new = \<lparr>app_registry = new_registry DEFAULT_MAX_ENTRIES DEFAULT_TTL_SECONDS,
      app_guard = \<lparr>token_hash = ''adm'', failures = [], locked_until = 0\<rparr>, app_scope = []\<rparr>"

definition demo_git :: "git_grants app" where
  "demo_git = snd (enroll_handler (\<lambda>s. s) True (Some git_scope_forget) (Some git_scope_extension) 0 0 0 ''adm''
     (Some demo_git_body) demo_git_new)"

definition demo_git_chosen :: "grant_reject reply \<times> git_grants app" where
  "demo_git_chosen = push_branches_handler (\<lambda>s. s) 1 ''adm'' ''sb1''
     (Some (JObj [(''git_push_branches'', JList [JStr ''embry0/fix-login''])])) demo_git"

lemma demo_git_reachable: "git_reachable (\<lambda>s. s) demo_git" "git_reachable (\<lambda>s. s) (snd demo_git_chosen)"
proof -
  have "git_reachable (\<lambda>s. s) demo_git_new"
    by (rule gr_new [where token = "''adm''"]) (simp add: new_app_def new_admin_guard_def demo_git_new_def)
  then show "git_reachable (\<lambda>s. s) demo_git"
    unfolding demo_git_def by (rule gr_admin) (rule as_enroll, rule surjective_pairing)
  then show "git_reachable (\<lambda>s. s) (snd demo_git_chosen)"
    unfolding demo_git_chosen_def by (rule gr_branches) (rule surjective_pairing)
qed

lemma git_grant_lifecycle_witness:
  "keys (app_scope (snd demo_git_chosen)) \<subseteq> enrolled_ids (app_registry (snd demo_git_chosen)) \<and>
   map_of (app_scope (snd demo_git_chosen)) ''sb1'' = Some \<lparr>upstream = ''https://github.com'',
     repos = {''acme/app''}, push = True, push_branches = {''embry0/fix-login''}, job_id = []\<rparr>"
proof -
  have "map_of (app_scope (snd demo_git_chosen)) ''sb1'' = Some \<lparr>upstream = ''https://github.com'',
     repos = {''acme/app''}, push = True, push_branches = {''embry0/fix-login''}, job_id = []\<rparr>"
    by code_simp
  with git_grant_lifecycle [OF demo_git_reachable(2)] show ?thesis by blast
qed

text \<open>The push-branches route changes nothing but the push branches of one enrolled sandbox that
  may push, answers 200 only then and only to the admin token, and stores only branch names git
  accepts.\<close>

lemma push_branches_replaced:
  assumes "push_branches_handler sha now header i body a = (rep, a')"
  shows "app_registry a' = app_registry a \<and>
    (if \<exists>hs b. rep = Reply 200 hs b
     then header \<noteq> [] \<and> sha header = token_hash (app_guard a) \<and>
       (\<exists>g B. map_of (app_scope a) i = Some g \<and> push g \<and>
          map_of (app_scope a') = (map_of (app_scope a))(i \<mapsto> g\<lparr>push_branches := B\<rparr>) \<and>
          card B \<le> 16 \<and> (\<forall>b \<in> B. git_ref_format (''refs/heads/'' @ b)))
     else app_scope a' = app_scope a)"
proof -
  obtain den a1 where den: "(guard_admin sha now header a :: grant_reject reply option \<times> git_grants app) = (den, a1)"
    by (rule prod.exhaust)
  have same: "app_registry a1 = app_registry a" "app_scope a1 = app_scope a"
    using guard_admin_same [OF den] by simp_all
  show ?thesis
  proof (cases "\<exists>d B g. den = None \<and> body = Some (JObj d) \<and> parse_push_branches (get d PUSH_BRANCHES_FIELD) = Inr B \<and>
      map_of (app_scope a) i = Some g \<and> push g")
    case True
    then obtain d B g where d: "den = None" "body = Some (JObj d)"
      "parse_push_branches (get d PUSH_BRANCHES_FIELD) = Inr B" "map_of (app_scope a) i = Some g" "push g" by blast
    then have "a' = a1\<lparr>app_scope := AList.update i (g\<lparr>push_branches := B\<rparr>) (app_scope a)\<rparr>"
      and r: "rep = Reply 200 [] (Fields (git_echo (g\<lparr>push_branches := B\<rparr>)))"
      using assms same by (simp_all add: push_branches_handler_def den Let_def)
    then have m: "map_of (app_scope a') = (map_of (app_scope a))(i \<mapsto> g\<lparr>push_branches := B\<rparr>)"
      "app_registry a' = app_registry a"
      using same by (auto simp: fun_eq_iff)
    have "header \<noteq> [] \<and> sha header = token_hash (app_guard a)"
      using den d(1) by (auto simp: guard_admin_def guard_check_def Let_def split: if_splits)
    moreover have "card B \<le> 16 \<and> (\<forall>b \<in> B. git_ref_format (''refs/heads/'' @ b))"
      using parse_push_branches_ok [OF d(3)] push_branch_ref by (auto simp: MAX_PUSH_BRANCHES_def)
    ultimately show ?thesis using r m d(4,5) by auto
  next
    case False
    then have "a' = a1 \<and> \<not> (\<exists>hs b. rep = Reply 200 hs b)"
      using assms same den unfolding push_branches_handler_def
      by (auto simp: Let_def guard_admin_def
          split: option.splits json.splits sum.splits if_splits admin_verdict.splits prod.splits)
    with same show ?thesis by auto
  qed
qed

lemma push_branches_replaced_witness:
  "(case fst demo_git_chosen of Reply n _ (Fields fs) \<Rightarrow> n = 200 \<and>
       fs = git_echo \<lparr>upstream = ''https://github.com'', repos = {''acme/app''},
              push = True, push_branches = {''embry0/fix-login''}, job_id = []\<rparr> | _ \<Rightarrow> False) \<and>
   app_registry (snd demo_git_chosen) = app_registry demo_git"
proof -
  have e: "push_branches_handler (\<lambda>s. s) 1 ''adm'' ''sb1''
     (Some (JObj [(''git_push_branches'', JList [JStr ''embry0/fix-login''])])) demo_git =
     (fst demo_git_chosen, snd demo_git_chosen)"
    by (simp add: demo_git_chosen_def)
  have "(case fst demo_git_chosen of Reply n _ (Fields fs) \<Rightarrow> n = 200 \<and>
       fs = git_echo \<lparr>upstream = ''https://github.com'', repos = {''acme/app''},
              push = True, push_branches = {''embry0/fix-login''}, job_id = []\<rparr> | _ \<Rightarrow> False)"
    by code_simp
  with push_branches_replaced [OF e] show ?thesis by blast
qed

end
