(* ===== verification/Receive_Pack.thy ===== *)
theory Receive_Pack
  imports Py_Str
begin

text \<open>
  The ref updates of a push, read before its pack (\<open>embry0/execution/proxy/receive_pack.py\<close>). The
  reader is the part of the request body not read yet; \<open>readexactly\<close> takes a prefix of it or fails.
  A malformed list carries a reason instead of the formatted message.
\<close>

definition MAX_PKT :: int where "MAX_PKT = 65520"
definition MAX_COMMANDS :: int where "MAX_COMMANDS = 1024"
definition MAX_SHALLOW :: int where "MAX_SHALLOW = 4096"
definition SIDEBAND_64K_DATA :: nat where "SIDEBAND_64K_DATA = 65515"
definition SIDEBAND_DATA :: nat where "SIDEBAND_DATA = 995"

datatype malformed =
    Ended_In_List
  | Bad_Length bytes
  | Length_Not_Valid int
  | Ended_In_Pkt
  | Not_A_Command bytes
  | Bad_Object_Ids bytes
  | Ref_Not_Utf8 bytes
  | Bad_Ref_Name bytes
  | Shallow_After_Command
  | Bad_Shallow bytes
  | Too_Many_Shallow
  | Signed_Push
  | Late_Capabilities
  | Too_Many_Updates

text \<open>\<open>_OID.fullmatch\<close>.\<close>

definition lower_hex :: "char \<Rightarrow> bool" where
  "lower_hex c \<longleftrightarrow> is_digit c \<or> in_range CHR ''a'' CHR ''f'' c"

definition is_oid :: "bytes \<Rightarrow> bool" where
  "is_oid s \<longleftrightarrow> (length s = 40 \<or> length s = 64) \<and> list_all lower_hex s"

record ref_update =
  old_id :: bytes
  new_id :: bytes
  ref_name :: pystr

definition is_create :: "ref_update \<Rightarrow> bool" where
  "is_create u \<longleftrightarrow> set (old_id u) = {CHR ''0''}"

definition is_delete :: "ref_update \<Rightarrow> bool" where
  "is_delete u \<longleftrightarrow> set (new_id u) = {CHR ''0''}"

record command_list =
  updates :: "ref_update list"
  capabilities :: "pystr set"
  raw :: bytes

subsection \<open>Reading\<close>

definition hex_int :: "bytes \<Rightarrow> int" where
  "hex_int s = foldl (\<lambda>n c. 16 * n + int (hex_val c)) 0 s"

text \<open>The bytes read, the payload (None for a flush-pkt) and what is left to read.\<close>

definition read_pkt :: "bytes \<Rightarrow> malformed + bytes \<times> bytes option \<times> bytes" where
  "read_pkt r =
     (if length r < 4 then Inl Ended_In_List
      else
        let head = take 4 r; r1 = drop 4 r
        in if \<not> list_all is_hex head then Inl (Bad_Length head)
           else
             let len = hex_int head
             in if len = 0 then Inr (head, None, r1)
                else if len < 4 \<or> MAX_PKT < len then Inl (Length_Not_Valid len)
                else if length r1 < nat (len - 4) then Inl Ended_In_Pkt
                else Inr (head @ take (nat (len - 4)) r1, Some (take (nat (len - 4)) r1),
                          drop (nat (len - 4)) r1))"

definition parse_command :: "bytes \<Rightarrow> malformed + ref_update" where
  "parse_command line =
     (case split_on CHR '' '' line of
        [old, new, ref] \<Rightarrow>
          if \<not> is_oid old \<or> \<not> is_oid new \<or> length old \<noteq> length new then Inl (Bad_Object_Ids line)
          else if \<not> utf8_valid ref then Inl (Ref_Not_Utf8 ref)
          else if ref = [] \<or> list_ex (\<lambda>c. ord c < 0x20 \<or> ord c = 0x7F) ref then Inl (Bad_Ref_Name ref)
          else Inr \<lparr>old_id = old, new_id = new, ref_name = ref\<rparr>
      | _ \<Rightarrow> Inl (Not_A_Command line))"

text \<open>\<open>caps.decode("ascii", "replace").split()\<close>.\<close>

definition ascii_replace :: "bytes \<Rightarrow> pystr" where
  "ascii_replace s = concat (map (\<lambda>c. if ord c < 128 then [c] else [CHR 0xEF, CHR 0xBF, CHR 0xBD]) s)"

definition ascii_space :: "char \<Rightarrow> bool" where
  "ascii_space c \<longleftrightarrow> 9 \<le> ord c \<and> ord c \<le> 13 \<or> 28 \<le> ord c \<and> ord c \<le> 32"

fun split_space :: "pystr \<Rightarrow> pystr list" where
  "split_space [] = []"
| "split_space (c # cs) =
     (if ascii_space c then split_space cs
      else (case cs of
              [] \<Rightarrow> [[c]]
            | d # _ \<Rightarrow> if ascii_space d then [c] # split_space cs
                      else (case split_space cs of [] \<Rightarrow> [[c]] | w # ws \<Rightarrow> (c # w) # ws)))"

text \<open>The loop's state: the updates so far, the capabilities, the number of shallow lines.\<close>

record list_state =
  st_updates :: "ref_update list"
  st_caps :: "pystr set"
  st_shallow :: nat

definition chomp :: "bytes \<Rightarrow> bytes" where
  "chomp s = (if ends_with s [CHR 0x0A] then butlast s else s)"

text \<open>One turn of the loop on the payload of a pkt-line.\<close>

definition command_step :: "bytes \<Rightarrow> list_state \<Rightarrow> malformed + list_state" where
  "command_step payload0 st =
     (let payload = chomp payload0
      in if starts_with payload ''shallow '' then
           if st_updates st \<noteq> [] then Inl Shallow_After_Command
           else if \<not> is_oid (drop (length ''shallow '') payload) then Inl (Bad_Shallow payload)
           else if MAX_SHALLOW < int (st_shallow st) + 1 then Inl Too_Many_Shallow
           else Inr (st\<lparr>st_shallow := st_shallow st + 1\<rparr>)
         else if starts_with payload ''push-cert'' then Inl Signed_Push
         else
           case (if st_updates st = []
                 then (case partition_at CHR 0x00 payload of (line, _, caps) \<Rightarrow>
                         Inr (line, set (split_space (ascii_replace caps))))
                 else if CHR 0x00 \<in> set payload then Inl Late_Capabilities
                 else Inr (payload, st_caps st)) of
             Inl e \<Rightarrow> Inl e
           | Inr (line, caps) \<Rightarrow>
               (case parse_command line of
                  Inl e \<Rightarrow> Inl e
                | Inr u \<Rightarrow>
                    if MAX_COMMANDS < int (length (st_updates st)) + 1 then Inl Too_Many_Updates
                    else Inr (st\<lparr>st_updates := st_updates st @ [u], st_caps := caps\<rparr>)))"

lemma read_pkt_consumes:
  assumes "read_pkt r = Inr (chunk, p, r')"
  shows "r = chunk @ r' \<and> 4 \<le> length chunk"
proof -
  from assms have len: "4 \<le> length r"
    and "chunk = take 4 r \<and> r' = drop 4 r \<or>
      (\<exists>n. chunk = take 4 r @ take n (drop 4 r) \<and> r' = drop n (drop 4 r))"
    unfolding read_pkt_def Let_def by (simp_all split: if_splits) metis
  then show ?thesis by (elim disjE exE conjE) (simp_all del: drop_drop)
qed

function read_commands :: "bytes \<Rightarrow> bytes \<Rightarrow> list_state \<Rightarrow> malformed + command_list \<times> bytes" where
  "read_commands r got st =
     (case read_pkt r of
        Inl e \<Rightarrow> Inl e
      | Inr (chunk, None, r') \<Rightarrow>
          Inr (\<lparr>updates = st_updates st, capabilities = st_caps st, raw = got @ chunk\<rparr>, r')
      | Inr (chunk, Some payload, r') \<Rightarrow>
          (case command_step payload st of
             Inl e \<Rightarrow> Inl e
           | Inr st' \<Rightarrow> read_commands r' (got @ chunk) st'))"
  by pat_completeness auto

termination
  by (relation "measure (\<lambda>(r, _, _). length r)") (auto dest!: read_pkt_consumes)

declare read_commands.simps [simp del]

text \<open>\<open>read_command_list\<close>, with the rest of the body.\<close>

definition read_command_list :: "bytes \<Rightarrow> malformed + command_list \<times> bytes" where
  "read_command_list body = read_commands body [] \<lparr>st_updates = [], st_caps = {}, st_shallow = 0\<rparr>"

subsection \<open>Deciding and refusing\<close>

definition refused_updates :: "ref_update list \<Rightarrow> pystr set \<Rightarrow> pystr dict" where
  "refused_updates us allowed_branches =
     (let allowed = (\<lambda>b. ''refs/heads/'' @ b) ` allowed_branches
      in fold (\<lambda>u refused.
           if ref_name u \<notin> allowed then AList.update (ref_name u) ''not a branch this job may push'' refused
           else if is_delete u
           then AList.update (ref_name u) (''deleting the job'' @ [CHR 0x27] @ ''s branch is not allowed'') refused
           else refused) us [])"

definition lower_digit :: "nat \<Rightarrow> char" where
  "lower_digit n = (if n < 10 then char_of (48 + n) else char_of (87 + n))"

fun hex_str :: "nat \<Rightarrow> string" where
  "hex_str n = (if n < 16 then [lower_digit n] else hex_str (n div 16) @ [lower_digit (n mod 16)])"

declare hex_str.simps [simp del]

definition hex4 :: "nat \<Rightarrow> string" where
  "hex4 n = replicate (4 - length (hex_str n)) CHR ''0'' @ hex_str n"

definition pkt :: "bytes \<Rightarrow> bytes" where
  "pkt payload = hex4 (length payload + 4) @ payload"

function chunks :: "nat \<Rightarrow> bytes \<Rightarrow> bytes list" where
  "chunks n data = (if data = [] \<or> n = 0 then [] else take n data # chunks n (drop n data))"
  by pat_completeness auto
termination by (relation "measure (\<lambda>(n, data). length data)") auto

declare chunks.simps [simp del]

definition band :: "nat \<Rightarrow> bytes \<Rightarrow> nat \<Rightarrow> bytes" where
  "band b data n = concat (map (\<lambda>chunk. pkt (char_of b # chunk)) (chunks n data))"

definition ng_line :: "pystr dict \<Rightarrow> ref_update \<Rightarrow> bytes" where
  "ng_line refused u =
     ''ng '' @ ref_name u @ '' embry0 git-proxy: '' @
     (case map_of refused (ref_name u) of Some reason \<Rightarrow> reason | None \<Rightarrow> ''refused with the rest of this push'') @
     [CHR 0x0A]"

definition refusal_report :: "ref_update list \<Rightarrow> pystr dict \<Rightarrow> bytes" where
  "refusal_report us refused =
     pkt (''unpack ok'' @ [CHR 0x0A]) @ concat (map (\<lambda>u. pkt (ng_line refused u)) us) @ ''0000''"

definition refusal_response ::
  "ref_update list \<Rightarrow> pystr dict \<Rightarrow> pystr set \<Rightarrow> pystr \<Rightarrow> bytes option" where
  "refusal_response us refused caps message =
     (if {''report-status'', ''report-status-v2''} \<inter> caps = {} then None
      else
        let report = refusal_report us refused;
            reply = (\<lambda>n. band 2 (''embry0 git-proxy: '' @ message @ [CHR 0x0A]) n @ band 1 report n @ ''0000'')
        in if ''side-band-64k'' \<in> caps then Some (reply SIDEBAND_64K_DATA)
           else if ''side-band'' \<in> caps then Some (reply SIDEBAND_DATA)
           else Some report)"

subsection \<open>What is read is what is sent on\<close>

lemma read_commands_raw:
  "read_commands r got st = Inr (cl, rest) \<Longrightarrow> raw cl @ rest = got @ r"
proof (induction r got st rule: read_commands.induct)
  case (1 r got st)
  then obtain chunk p r' where p: "read_pkt r = Inr (chunk, p, r')"
    by (subst (asm) (2) read_commands.simps) (auto split: sum.splits)
  note c = read_pkt_consumes [OF p]
  show ?case
  proof (cases p)
    case None
    with 1(2) p c show ?thesis by (subst (asm) read_commands.simps) auto
  next
    case (Some payload)
    with 1(2) p obtain st' where "command_step payload st = Inr st'"
      "read_commands r' (got @ chunk) st' = Inr (cl, rest)"
      by (subst (asm) read_commands.simps) (auto split: sum.splits)
    with 1(1) [OF p refl refl Some] c show ?thesis by simp
  qed
qed

text \<open>What holds of the list read so far.\<close>

definition update_ok :: "ref_update \<Rightarrow> bool" where
  "update_ok u \<longleftrightarrow> is_oid (old_id u) \<and> is_oid (new_id u) \<and> length (old_id u) = length (new_id u) \<and>
     ref_name u \<noteq> [] \<and> utf8_valid (ref_name u) \<and> CHR '' '' \<notin> set (ref_name u) \<and>
     list_all (\<lambda>c. \<not> (ord c < 0x20 \<or> ord c = 0x7F)) (ref_name u)"

lemma parse_command_ok:
  assumes "parse_command line = Inr u"
  shows "update_ok u \<and> line = old_id u @ '' '' @ new_id u @ '' '' @ ref_name u"
proof -
  from assms obtain old new ref where s: "split_on CHR '' '' line = [old, new, ref]"
    and u: "u = \<lparr>old_id = old, new_id = new, ref_name = ref\<rparr>"
    and ok: "is_oid old" "is_oid new" "length old = length new" "utf8_valid ref" "ref \<noteq> []"
      "\<not> list_ex (\<lambda>c. ord c < 0x20 \<or> ord c = 0x7F) ref"
    by (auto simp: parse_command_def split: list.splits if_splits)
  have "line = join '' '' [old, new, ref]" using join_split_on [of "CHR '' ''" line] s by simp
  moreover have "CHR '' '' \<notin> set ref" using split_on_parts [of ref "CHR '' ''" line] s by simp
  ultimately show ?thesis using u ok by (simp add: update_ok_def list_ex_iff list_all_iff)
qed

lemma read_pkt_payload:
  assumes "read_pkt r = Inr (chunk, Some payload, r')"
  shows "int (length payload) \<le> MAX_PKT - 4 \<and> int (length chunk) \<le> MAX_PKT"
  using assms by (auto simp: read_pkt_def Let_def MAX_PKT_def split: if_splits)

lemma read_pkt_flush: "read_pkt r = Inr (chunk, None, r') \<Longrightarrow> length chunk = 4"
  by (auto simp: read_pkt_def Let_def split: if_splits)

definition list_ok :: "bytes \<Rightarrow> list_state \<Rightarrow> bool" where
  "list_ok got st \<longleftrightarrow>
     (\<forall>u \<in> set (st_updates st). update_ok u \<and> int (length (ref_name u)) \<le> 65434) \<and>
     int (length (st_updates st)) \<le> MAX_COMMANDS \<and> int (st_shallow st) \<le> MAX_SHALLOW \<and>
     int (length got) \<le> MAX_PKT * (int (length (st_updates st)) + int (st_shallow st))"

lemma chomp_length: "length (chomp s) \<le> length s"
  by (simp add: chomp_def)

lemma command_step_ok:
  assumes "command_step payload st = Inr st'" and ok: "list_ok got st"
    and p: "int (length payload) \<le> MAX_PKT - 4" "int (length chunk) \<le> MAX_PKT"
  shows "list_ok (got @ chunk) st'"
proof (cases "starts_with (chomp payload) ''shallow ''")
  case True
  then have "st' = st\<lparr>st_shallow := st_shallow st + 1\<rparr>" "int (st_shallow st) + 1 \<le> MAX_SHALLOW"
    using assms(1) by (auto simp: command_step_def Let_def split: if_splits)
  with ok p show ?thesis by (simp add: list_ok_def MAX_PKT_def)
next
  case False
  then obtain line u where l: "parse_command line = Inr u" "length line \<le> length (chomp payload)"
    "st_updates st' = st_updates st @ [u] \<and> st_shallow st' = st_shallow st"
    "int (length (st_updates st)) + 1 \<le> MAX_COMMANDS"
    using assms(1)
    by (auto simp: command_step_def Let_def partition_at_def length_takeWhile_le split: if_splits sum.splits)
  from parse_command_ok [OF l(1)] have u: "update_ok u" "line = old_id u @ '' '' @ new_id u @ '' '' @ ref_name u" by auto
  then have "length (old_id u) \<ge> 40" "length (new_id u) \<ge> 40" by (auto simp: update_ok_def is_oid_def)
  then have "int (length (ref_name u)) \<le> 65434"
    using u(2) l(2) chomp_length [of payload] p(1) by (simp add: MAX_PKT_def)
  with ok p u(1) l(3,4) show ?thesis by (simp add: list_ok_def MAX_PKT_def)
qed

lemma read_commands_ok:
  "read_commands r got st = Inr (cl, rest) \<Longrightarrow> list_ok got st \<Longrightarrow>
   \<exists>got' st'. list_ok got' st' \<and> updates cl = st_updates st' \<and> length (raw cl) = length got' + 4"
proof (induction r got st rule: read_commands.induct)
  case (1 r got st)
  then obtain chunk p r' where p: "read_pkt r = Inr (chunk, p, r')"
    by (subst (asm) (2) read_commands.simps) (auto split: sum.splits)
  show ?case
  proof (cases p)
    case None
    with 1(2) p have "updates cl = st_updates st" "raw cl = got @ chunk"
      by (subst (asm) read_commands.simps, auto)+
    with 1(3) read_pkt_flush [of r chunk r'] p None show ?thesis by (metis length_append)
  next
    case (Some payload)
    with 1(2) p obtain st' where st': "command_step payload st = Inr st'"
      "read_commands r' (got @ chunk) st' = Inr (cl, rest)"
      by (subst (asm) read_commands.simps) (auto split: sum.splits)
    have "list_ok (got @ chunk) st'"
      using command_step_ok [OF st'(1) 1(3)] read_pkt_payload [of r chunk payload r'] p Some by simp
    with 1(1) [OF p refl refl Some st'(1) st'(2)] show ?thesis by simp
  qed
qed

text \<open>The command list kept for the upstream is exactly the part of the body that was read, so
  that re-sending it and then streaming the rest sends the body as it came; it is at most
  1,024 updates and 4,096 shallow lines long, and each update names two object ids of one length
  and a printable ref.\<close>

lemma command_list_read:
  assumes "read_command_list body = Inr (cl, rest)"
  shows "raw cl @ rest = body \<and> length (updates cl) \<le> 1024 \<and>
    int (length (raw cl)) \<le> 65520 * (1024 + 4096) + 4 \<and>
    (\<forall>u \<in> set (updates cl). update_ok u \<and> length (ref_name u) \<le> 65434)"
proof -
  have "list_ok [] \<lparr>st_updates = [], st_caps = {}, st_shallow = 0\<rparr>"
    by (simp add: list_ok_def MAX_COMMANDS_def MAX_SHALLOW_def)
  from read_commands_ok [OF assms [unfolded read_command_list_def] this]
  obtain got st where ok: "list_ok got st" "updates cl = st_updates st" "length (raw cl) = length got + 4" by blast
  then have "int (length got) \<le> 65520 * (int (length (st_updates st)) + int (st_shallow st))"
    "int (length (st_updates st)) \<le> 1024" "int (st_shallow st) \<le> 4096"
    by (simp_all add: list_ok_def MAX_PKT_def MAX_COMMANDS_def MAX_SHALLOW_def)
  then have "int (length got) \<le> 65520 * (1024 + 4096)" by simp
  then show ?thesis
    using ok read_commands_raw [OF assms [unfolded read_command_list_def]]
    by (auto simp: list_ok_def MAX_COMMANDS_def)
qed

subsection \<open>Which pushes go on\<close>

definition push_allowed :: "pystr set \<Rightarrow> ref_update \<Rightarrow> bool" where
  "push_allowed branches u \<longleftrightarrow> (\<exists>b \<in> branches. ref_name u = ''refs/heads/'' @ b) \<and> \<not> is_delete u"

lemma refused_updates_rev:
  "keys (refused_updates us branches) = ref_name ` {u \<in> set us. \<not> push_allowed branches u}"
proof (induction us rule: rev_induct)
  case (snoc u us)
  then show ?case
    by (auto simp: refused_updates_def Let_def push_allowed_def)
qed (simp add: refused_updates_def)

text \<open>A push goes on exactly when every update creates or moves one of the branches the job may
  push; otherwise each offending ref, and no other, is given a reason.\<close>

lemma push_decision:
  "keys (refused_updates us branches) = {ref_name u | u. u \<in> set us \<and> \<not> push_allowed branches u} \<and>
   (refused_updates us branches = [] \<longleftrightarrow>
      (\<forall>u \<in> set us. (\<exists>b \<in> branches. ref_name u = ''refs/heads/'' @ b) \<and> \<not> is_delete u))"
proof -
  have "refused_updates us branches = [] \<longleftrightarrow> keys (refused_updates us branches) = {}"
    by (auto simp: keys_def)
  then show ?thesis by (auto simp: refused_updates_rev push_allowed_def)
qed

lemma push_decision_witness:
  "refused_updates [\<lparr>old_id = ''1'', new_id = ''00'', ref_name = ''refs/heads/b''\<rparr>] {''b''} \<noteq> [] \<and>
   refused_updates [\<lparr>old_id = ''0'', new_id = ''01'', ref_name = ''refs/heads/b''\<rparr>] {''b''} = []"
  using push_decision [of "[\<lparr>old_id = ''1'', new_id = ''00'', ref_name = ''refs/heads/b''\<rparr>]" "{''b''}"]
    push_decision [of "[\<lparr>old_id = ''0'', new_id = ''01'', ref_name = ''refs/heads/b''\<rparr>]" "{''b''}"]
  by (simp add: is_delete_def)

subsection \<open>Pkt-lines\<close>

lemma lower_digit: assumes "d < 16" shows "is_hex (lower_digit d) \<and> hex_val (lower_digit d) = d"
proof (cases "d < 10")
  case True
  then have "ord (lower_digit d) = 48 + d" by (simp add: lower_digit_def)
  with True show ?thesis by (simp add: is_hex_def is_digit_def in_range_def hex_val_def ord_def)
next
  case False
  with assms have "ord (lower_digit d) = 87 + d" by (simp add: lower_digit_def)
  with False assms show ?thesis by (simp add: is_hex_def is_digit_def in_range_def hex_val_def ord_def)
qed

lemma hex_str_hex: "list_all is_hex (hex_str n) \<and> hex_int (hex_str n) = int n"
proof (induction n rule: hex_str.induct)
  case (1 n)
  have "16 * int (n div 16) + int (n mod 16) = int n" by presburger
  with 1 show ?case
    by (subst (1 2) hex_str.simps) (auto simp: lower_digit hex_int_def)
qed

lemma hex_str_length: "n < 16 ^ Suc k \<Longrightarrow> length (hex_str n) \<le> Suc k"
proof (induction k arbitrary: n)
  case 0
  then show ?case by (subst hex_str.simps) simp
next
  case (Suc k)
  then have "n div 16 < 16 ^ Suc k" by (simp add: less_mult_imp_div_less)
  with Suc.IH [of "n div 16"] show ?case by (subst hex_str.simps) simp
qed

lemma hex_int_zeros: "hex_int (replicate k CHR ''0'' @ s) = hex_int s"
proof -
  have "hex_val CHR ''0'' = 0" by code_simp
  then have "foldl (\<lambda>n c. 16 * n + int (hex_val c)) 0 (replicate k CHR ''0'') = 0" by (induction k) simp_all
  then show ?thesis by (simp add: hex_int_def)
qed

lemma hex4:
  assumes "n < 65536"
  shows "length (hex4 n) = 4 \<and> list_all is_hex (hex4 n) \<and> hex_int (hex4 n) = int n"
proof -
  have "is_hex CHR ''0''" by code_simp
  moreover have "length (hex_str n) \<le> 4" using hex_str_length [of n 3] assms by simp
  ultimately show ?thesis
    using hex_str_hex [of n] by (auto simp: hex4_def hex_int_zeros list_all_iff)
qed

lemma read_pkt_pkt:
  assumes "length payload \<le> 65516"
  shows "read_pkt (pkt payload @ s) = Inr (pkt payload, Some payload, s)"
proof -
  note h = hex4 [of "length payload + 4"]
  have "take 4 (pkt payload @ s) = hex4 (length payload + 4)" "drop 4 (pkt payload @ s) = payload @ s"
    using h assms by (simp_all add: pkt_def)
  moreover have "4 \<le> length (pkt payload @ s)" using h assms by (simp add: pkt_def)
  ultimately show ?thesis
    using h assms by (simp add: read_pkt_def MAX_PKT_def pkt_def)
qed

lemma read_pkt_0000: "read_pkt (''0000'' @ s) = Inr (''0000'', None, s)"
proof -
  have "list_all is_hex ''0000''" "hex_int ''0000'' = 0" by code_simp+
  then show ?thesis by (simp add: read_pkt_def numeral_eq_Suc)
qed

text \<open>What a client reads: the payloads up to the flush-pkt, and what follows it.\<close>

function read_pkts :: "bytes \<Rightarrow> (bytes list \<times> bytes) option" where
  "read_pkts r =
     (case read_pkt r of
        Inl e \<Rightarrow> None
      | Inr (_, None, r') \<Rightarrow> Some ([], r')
      | Inr (_, Some p, r') \<Rightarrow> map_option (\<lambda>(ps, rest). (p # ps, rest)) (read_pkts r'))"
  by pat_completeness auto
termination
  by (relation "measure length") (auto dest!: read_pkt_consumes)

declare read_pkts.simps [simp del]

lemma read_pkts_0000: "read_pkts (''0000'' @ s) = Some ([], s)"
  by (subst read_pkts.simps) (simp only: read_pkt_0000, simp)

lemma read_pkts_pkt:
  "length p \<le> 65516 \<Longrightarrow>
   read_pkts (pkt p @ s) = map_option (\<lambda>(ps, rest). (p # ps, rest)) (read_pkts s)"
  by (subst read_pkts.simps) (simp add: read_pkt_pkt)

lemma read_pkts_many:
  "\<forall>p \<in> set ps. length p \<le> 65516 \<Longrightarrow> read_pkts (concat (map pkt ps) @ ''0000'' @ s) = Some (ps, s)"
  by (induction ps) (simp_all only: read_pkts_0000 read_pkts_pkt append_assoc concat.simps list.map
      append_Nil list.set_intros list.set ball_simps, simp)

lemma concat_chunks: "0 < n \<Longrightarrow> concat (chunks n data) = data"
proof (induction n data rule: chunks.induct)
  case (1 n data)
  then show ?case by (subst chunks.simps) auto
qed

lemma chunks_length: "c \<in> set (chunks n data) \<Longrightarrow> length c \<le> n"
proof (induction n data rule: chunks.induct)
  case (1 n data)
  have "chunks n data = (if data = [] \<or> n = 0 then [] else take n data # chunks n (drop n data))"
    by (rule chunks.simps)
  with 1 show ?case by (cases "data = [] \<or> n = 0") auto
qed

subsection \<open>Properties of the refusal\<close>

lemma refused_updates_reason:
  assumes "map_of (refused_updates us branches) r = Some reason"
  shows "length reason \<le> 40"
proof -
  have "\<forall>r reason. map_of (refused_updates us branches) r = Some reason \<longrightarrow> length reason \<le> 40"
    by (induction us rule: rev_induct) (auto simp: refused_updates_def Let_def)
  with assms show ?thesis by blast
qed

lemma ng_line_length:
  "length (ref_name u) \<le> 65434 \<Longrightarrow> length (ng_line (refused_updates us branches) u) \<le> 65497"
  by (auto simp: ng_line_def dest!: refused_updates_reason split: option.split)

lemma report_reads:
  assumes "\<forall>u \<in> set us. length (ref_name u) \<le> 65434" "refused = refused_updates us branches"
  shows "read_pkts (refusal_report us refused) = Some ((''unpack ok'' @ [CHR 0x0A]) # map (ng_line refused) us, [])"
proof -
  let ?ps = "(''unpack ok'' @ [CHR 0x0A]) # map (ng_line refused) us"
  have "length (ng_line refused u) \<le> 65516" if "u \<in> set us" for u
    using ng_line_length [of u us branches] assms that by fastforce
  then have "\<forall>p \<in> set ?ps. length p \<le> 65516" by simp
  from read_pkts_many [OF this, of "[]"] show ?thesis
    by (simp add: refusal_report_def comp_def)
qed

lemma band_frames:
  assumes "0 < n" "n \<le> 65515"
  shows "\<exists>cs. concat cs = data \<and> (\<forall>c \<in> set cs. length c \<le> n) \<and>
    band b data n = concat (map pkt (map ((#) (char_of b)) cs))"
  using assms concat_chunks [of n data] chunks_length [of _ n data]
  by (intro exI [of _ "chunks n data"]) (simp add: band_def comp_def)

text \<open>The answer to a refused push parses the way git reads it: with no side-band it is \<open>unpack ok\<close>
  and one \<open>ng\<close> line for every update, in order; with a side-band its frames fit the agreed size,
  band 1 carries exactly that report and band 2 exactly the message.\<close>

lemma refusal_readable:
  assumes "read_command_list body = Inr (cl, rest)"
    and "refused = refused_updates (updates cl) branches"
    and "refusal_response (updates cl) refused caps message = Some answer"
  shows "if caps \<inter> {''side-band'', ''side-band-64k''} = {}
    then read_pkts answer = Some ((''unpack ok'' @ [CHR 0x0A]) # map (ng_line refused) (updates cl), [])
    else \<exists>msgs reports.
      read_pkts answer = Some (map ((#) (char_of (2 :: nat))) msgs @ map ((#) (char_of (1 :: nat))) reports, []) \<and>
      (\<forall>f \<in> set (msgs @ reports). length f \<le> (if ''side-band-64k'' \<in> caps then 65515 else 995)) \<and>
      concat msgs = ''embry0 git-proxy: '' @ message @ [CHR 0x0A] \<and>
      read_pkts (concat reports) =
        Some ((''unpack ok'' @ [CHR 0x0A]) # map (ng_line refused) (updates cl), [])"
proof -
  have "\<forall>u \<in> set (updates cl). length (ref_name u) \<le> 65434"
    using read_commands_ok [OF assms(1) [unfolded read_command_list_def]]
    by (fastforce simp: list_ok_def MAX_COMMANDS_def MAX_SHALLOW_def)
  note rep = report_reads [OF this assms(2)]
  show ?thesis
  proof (cases "caps \<inter> {''side-band'', ''side-band-64k''} = {}")
    case True
    then have "answer = refusal_report (updates cl) refused"
      using assms(3) by (auto simp: refusal_response_def Let_def split: if_splits)
    with True rep show ?thesis by simp
  next
    case False
    define n :: nat where "n = (if ''side-band-64k'' \<in> caps then 65515 else 995)"
    have n: "0 < n" "n \<le> 65515" by (simp_all add: n_def)
    have a: "answer = band 2 (''embry0 git-proxy: '' @ message @ [CHR 0x0A]) n @
        band 1 (refusal_report (updates cl) refused) n @ ''0000''"
      using False assms(3)
      by (auto simp: refusal_response_def Let_def n_def SIDEBAND_64K_DATA_def SIDEBAND_DATA_def split: if_splits)
    from band_frames [OF n, of "''embry0 git-proxy: '' @ message @ [CHR 0x0A]" 2]
    obtain msgs where msgs: "concat msgs = ''embry0 git-proxy: '' @ message @ [CHR 0x0A]" "\<forall>c \<in> set msgs. length c \<le> n"
      "band 2 (''embry0 git-proxy: '' @ message @ [CHR 0x0A]) n = concat (map pkt (map ((#) (char_of (2 :: nat))) msgs))"
      by blast
    from band_frames [OF n, of "refusal_report (updates cl) refused" 1]
    obtain reports where reports: "concat reports = refusal_report (updates cl) refused" "\<forall>c \<in> set reports. length c \<le> n"
      "band 1 (refusal_report (updates cl) refused) n = concat (map pkt (map ((#) (char_of (1 :: nat))) reports))"
      by blast
    let ?ps = "map ((#) (char_of (2 :: nat))) msgs @ map ((#) (char_of (1 :: nat))) reports"
    have "\<forall>p \<in> set ?ps. length p \<le> 65516" using msgs(2) reports(2) n(2) by fastforce
    from read_pkts_many [OF this, of "[]"] have "read_pkts answer = Some (?ps, [])"
      unfolding a msgs(3) reports(3) by simp
    moreover have "\<forall>f \<in> set (msgs @ reports). length f \<le> n" using msgs(2) reports(2) by auto
    moreover have "read_pkts (concat reports) =
        Some ((''unpack ok'' @ [CHR 0x0A]) # map (ng_line refused) (updates cl), [])"
      using rep reports(1) by simp
    ultimately show ?thesis
      unfolding n_def using False msgs(1) by (simp only: if_False) blast
  qed
qed

subsection \<open>A push as git writes it\<close>

definition command_line :: "ref_update \<Rightarrow> bytes" where
  "command_line u = old_id u @ '' '' @ new_id u @ '' '' @ ref_name u"

definition push_head :: "bytes list \<Rightarrow> ref_update list \<Rightarrow> bytes \<Rightarrow> bytes" where
  "push_head shallow us caps =
     concat (map (\<lambda>o'. pkt (''shallow '' @ o')) shallow) @
     (case us of [] \<Rightarrow> []
      | u # us' \<Rightarrow> pkt (command_line u @ [CHR 0x00] @ caps) @ concat (map (\<lambda>u. pkt (command_line u)) us')) @
     ''0000''"

lemma lower_hex_chars: "lower_hex c \<Longrightarrow> c \<noteq> CHR '' '' \<and> c \<noteq> CHR 0x00 \<and> c \<noteq> CHR 0x0A \<and> c \<noteq> CHR ''s'' \<and> c \<noteq> CHR ''p''"
  by (auto simp: lower_hex_def is_digit_def in_range_def ord_def)

lemma oid_chars: "is_oid x \<Longrightarrow> CHR '' '' \<notin> set x \<and> CHR 0x00 \<notin> set x \<and> CHR 0x0A \<notin> set x \<and> x \<noteq> [] \<and> hd x \<noteq> CHR ''s'' \<and> hd x \<noteq> CHR ''p''"
  using lower_hex_chars by (cases x) (auto simp: is_oid_def list_all_iff)

lemma parse_command_line:
  assumes "update_ok u"
  shows "parse_command (command_line u) = Inr u"
proof -
  have "\<forall>p \<in> set [old_id u, new_id u, ref_name u]. CHR '' '' \<notin> set p"
    using assms oid_chars by (simp add: update_ok_def)
  then have "split_on CHR '' '' (join [CHR '' ''] [old_id u, new_id u, ref_name u]) = [old_id u, new_id u, ref_name u]"
    by (intro split_on_join) simp_all
  then have "split_on CHR '' '' (command_line u) = [old_id u, new_id u, ref_name u]"
    by (simp add: command_line_def)
  with assms show ?thesis
    by (auto simp: parse_command_def update_ok_def list_all_iff list_ex_iff)
qed

lemma command_line_chars:
  assumes "update_ok u"
  shows "CHR 0x00 \<notin> set (command_line u)" "\<not> ends_with (command_line u) [CHR 0x0A]"
    "\<not> starts_with (command_line u @ s) ''shallow ''" "\<not> starts_with (command_line u @ s) ''push-cert''"
proof -
  have r: "\<forall>c \<in> set (ref_name u). c \<noteq> CHR 0x00 \<and> c \<noteq> CHR 0x0A"
    using assms by (auto simp: update_ok_def list_all_iff ord_def)
  then show "CHR 0x00 \<notin> set (command_line u)"
    using assms oid_chars by (auto simp: command_line_def update_ok_def)
  have "ref_name u \<noteq> []" using assms by (simp add: update_ok_def)
  then show "\<not> ends_with (command_line u) [CHR 0x0A]"
    using r by (cases "ref_name u" rule: rev_cases) (auto simp: command_line_def ends_with_iff)
  obtain c cs where "old_id u = c # cs" "c \<noteq> CHR ''s''" "c \<noteq> CHR ''p''"
    using assms oid_chars [of "old_id u"] by (cases "old_id u") (auto simp: update_ok_def)
  then show "\<not> starts_with (command_line u @ s) ''shallow ''" "\<not> starts_with (command_line u @ s) ''push-cert''"
    by (simp_all add: command_line_def starts_with_def)
qed

lemma read_commands_pkt:
  assumes "length payload \<le> 65516" "command_step payload st = Inr st'"
  shows "read_commands (pkt payload @ r) got st = read_commands r (got @ pkt payload) st'"
  using assms by (subst read_commands.simps) (simp add: read_pkt_pkt)

lemma read_commands_end:
  "read_commands (''0000'' @ r) got st =
   Inr (\<lparr>updates = st_updates st, capabilities = st_caps st, raw = got @ ''0000''\<rparr>, r)"
  by (subst read_commands.simps) (simp only: read_pkt_0000, simp)

lemma shallow_step:
  assumes "is_oid x" "st_updates st = []" "int (st_shallow st) + 1 \<le> MAX_SHALLOW"
  shows "command_step (''shallow '' @ x) st = Inr (st\<lparr>st_shallow := st_shallow st + 1\<rparr>)"
proof -
  have "\<not> ends_with (''shallow '' @ x) [CHR 0x0A]"
    using oid_chars [OF assms(1)] by (cases x rule: rev_cases) (auto simp: ends_with_iff)
  then have "chomp (''shallow '' @ x) = ''shallow '' @ x" by (simp add: chomp_def)
  with assms show ?thesis by (simp add: command_step_def starts_with_def)
qed

lemma command_step_first:
  assumes "update_ok u" "st_updates st = []" "\<not> ends_with caps [CHR 0x0A]"
  shows "command_step (command_line u @ [CHR 0x00] @ caps) st =
    Inr (st\<lparr>st_updates := [u], st_caps := set (split_space (ascii_replace caps))\<rparr>)"
proof -
  have "\<not> ends_with (command_line u @ [CHR 0x00] @ caps) [CHR 0x0A]"
    using assms(3) by (cases caps rule: rev_cases) (auto simp: ends_with_iff)
  moreover have "partition_at CHR 0x00 (command_line u @ CHR 0x00 # caps) = (command_line u, True, caps)"
    by (rule partition_at_found) (rule command_line_chars(1) [OF assms(1)])
  ultimately show ?thesis
    using command_line_chars(3,4) [OF assms(1), of "CHR 0x00 # caps"] parse_command_line [OF assms(1)] assms(2)
    by (simp add: command_step_def chomp_def MAX_COMMANDS_def)
qed

lemma command_step_next:
  assumes "update_ok u" "st_updates st \<noteq> []" "int (length (st_updates st)) + 1 \<le> MAX_COMMANDS"
  shows "command_step (command_line u) st = Inr (st\<lparr>st_updates := st_updates st @ [u]\<rparr>)"
  using command_line_chars(1,2) [OF assms(1)] command_line_chars(3,4) [OF assms(1), of "[]"]
    parse_command_line [OF assms(1)] assms(2,3)
  by (simp add: command_step_def chomp_def)

lemma read_shallow_lines:
  assumes "\<forall>x \<in> set xs. is_oid x" "st_updates st = []" "int (st_shallow st) + int (length xs) \<le> MAX_SHALLOW"
  shows "read_commands (concat (map (\<lambda>x. pkt (''shallow '' @ x)) xs) @ r) got st =
    read_commands r (got @ concat (map (\<lambda>x. pkt (''shallow '' @ x)) xs)) (st\<lparr>st_shallow := st_shallow st + length xs\<rparr>)"
  using assms
proof (induction xs arbitrary: got st)
  case (Cons x xs)
  have "length (''shallow '' @ x) \<le> 65516" using Cons.prems(1) by (auto simp: is_oid_def)
  from read_commands_pkt [OF this shallow_step [of x st]] Cons.prems
    Cons.IH [of "st\<lparr>st_shallow := st_shallow st + 1\<rparr>" "got @ pkt (''shallow '' @ x)"]
  show ?case by simp
qed simp

lemma read_command_lines:
  assumes "\<forall>u \<in> set us. update_ok u \<and> length (command_line u) \<le> 65516" "st_updates st \<noteq> []"
    "int (length (st_updates st)) + int (length us) \<le> MAX_COMMANDS"
  shows "read_commands (concat (map (\<lambda>u. pkt (command_line u)) us) @ r) got st =
    read_commands r (got @ concat (map (\<lambda>u. pkt (command_line u)) us)) (st\<lparr>st_updates := st_updates st @ us\<rparr>)"
  using assms
proof (induction us arbitrary: got st)
  case (Cons u us)
  from Cons.prems read_commands_pkt [OF _ command_step_next [of u st]]
    Cons.IH [of "st\<lparr>st_updates := st_updates st @ [u]\<rparr>" "got @ pkt (command_line u)"]
  show ?case by simp
qed simp

text \<open>The head of a push as git writes it is read back: its updates in order, the capability words
  of the first command, and nothing of what follows it.\<close>

lemma push_head_read:
  assumes "\<forall>x \<in> set shallow. is_oid x" "length shallow \<le> 4096"
    and "\<forall>u \<in> set us. update_ok u" "length us \<le> 1024"
    and "\<forall>u \<in> set us. length (command_line u) + length caps + 1 \<le> 65516"
    and "\<not> ends_with caps [CHR 0x0A]"
  shows "read_command_list (push_head shallow us caps @ pack) =
    Inr (\<lparr>updates = us, capabilities = (if us = [] then {} else set (split_space (ascii_replace caps))),
          raw = push_head shallow us caps\<rparr>, pack)"
proof -
  define sh where "sh = concat (map (\<lambda>x. pkt (''shallow '' @ x)) shallow)"
  let ?st = "\<lparr>st_updates = [], st_caps = {}, st_shallow = length shallow\<rparr>"
  have a: "read_command_list (sh @ r) = read_commands r sh ?st" for r
    using read_shallow_lines [of shallow "\<lparr>st_updates = [], st_caps = {}, st_shallow = 0\<rparr>" r "[]"] assms(1,2)
    by (simp add: read_command_list_def sh_def MAX_SHALLOW_def)
  show ?thesis
  proof (cases us)
    case Nil
    then show ?thesis
      using a [of "''0000'' @ pack"] by (simp only: push_head_def sh_def [symmetric] append_assoc list.case
          read_commands_end append_Nil) simp
  next
    case (Cons u us')
    let ?first = "command_line u @ [CHR 0x00] @ caps"
    let ?rest = "concat (map (\<lambda>u. pkt (command_line u)) us')"
    have h: "push_head shallow us caps = sh @ pkt ?first @ ?rest @ ''0000''"
      using Cons by (simp add: push_head_def sh_def)
    have "read_commands (pkt ?first @ ?rest @ ''0000'' @ pack) sh ?st =
        read_commands (?rest @ ''0000'' @ pack) (sh @ pkt ?first)
          (?st\<lparr>st_updates := [u], st_caps := set (split_space (ascii_replace caps))\<rparr>)"
      using assms(3,5,6) Cons by (intro read_commands_pkt command_step_first) auto
    also have "\<dots> = read_commands (''0000'' @ pack) ((sh @ pkt ?first) @ ?rest)
          (?st\<lparr>st_updates := us, st_caps := set (split_space (ascii_replace caps))\<rparr>)"
      using read_command_lines [of us' "?st\<lparr>st_updates := [u], st_caps := set (split_space (ascii_replace caps))\<rparr>"
          "''0000'' @ pack" "sh @ pkt ?first"] assms(3,4,5) Cons
      by (fastforce simp: MAX_COMMANDS_def)
    also have "\<dots> = Inr (\<lparr>updates = us, capabilities = set (split_space (ascii_replace caps)),
          raw = push_head shallow us caps\<rparr>, pack)"
      by (simp only: read_commands_end h) simp
    finally show ?thesis
      using a [of "pkt ?first @ ?rest @ ''0000'' @ pack"] h Cons by simp
  qed
qed

subsection \<open>Instances\<close>

definition demo_update :: ref_update where
  "demo_update = \<lparr>old_id = replicate 40 CHR ''0'', new_id = replicate 40 CHR ''a'', ref_name = ''refs/heads/main''\<rparr>"

definition demo_caps :: bytes where
  "demo_caps = '' report-status side-band agent=git/2''"

definition demo_push :: bytes where
  "demo_push = push_head [] [demo_update] demo_caps @ ''PACK''"

lemma demo_update_ok: "update_ok demo_update" "length (command_line demo_update) = 97"
  by code_simp+

lemma push_head_read_witness:
  "read_command_list demo_push =
    Inr (\<lparr>updates = [demo_update], capabilities = {''report-status'', ''side-band'', ''agent=git/2''},
          raw = push_head [] [demo_update] demo_caps\<rparr>, ''PACK'')"
proof -
  have "set (split_space (ascii_replace demo_caps)) = {''report-status'', ''side-band'', ''agent=git/2''}"
    by code_simp
  moreover have "\<not> ends_with demo_caps [CHR 0x0A]" by code_simp
  moreover have "length demo_caps = 36" by code_simp
  ultimately show ?thesis
    using push_head_read [of "[]" "[demo_update]" demo_caps "''PACK''"] demo_update_ok
    by (simp add: demo_push_def)
qed

lemma demo_push_read:
  "read_command_list demo_push =
    Inr (\<lparr>updates = [demo_update], capabilities = {''report-status'', ''side-band'', ''agent=git/2''},
          raw = push_head [] [demo_update] demo_caps\<rparr>, ''PACK'')"
proof -
  have c: "set (split_space (ascii_replace demo_caps)) = {''report-status'', ''side-band'', ''agent=git/2''}"
    by code_simp
  let ?st = "\<lparr>st_updates = [], st_caps = {}, st_shallow = 0\<rparr>"
  have "\<not> ends_with demo_caps [CHR 0x0A]" "length demo_caps = 36" by code_simp+
  then have "command_step (command_line demo_update @ [CHR 0x00] @ demo_caps) ?st =
      Inr (?st\<lparr>st_updates := [demo_update], st_caps := {''report-status'', ''side-band'', ''agent=git/2''}\<rparr>)"
    using command_step_first [OF demo_update_ok(1), of ?st demo_caps] c by simp
  from read_commands_pkt [OF _ this] \<open>length demo_caps = 36\<close> show ?thesis
    using read_commands_end [of "''PACK''"]
    by (simp add: read_command_list_def demo_push_def push_head_def demo_update_ok(2))
qed

lemma command_list_read_witness:
  "push_head [] [demo_update] demo_caps @ ''PACK'' = demo_push \<and> update_ok demo_update"
  using command_list_read [OF demo_push_read] by simp

lemma refusal_readable_witness:
  "\<exists>msgs reports answer.
     refusal_response [demo_update] (refused_updates [demo_update] {''dev''})
       {''report-status'', ''side-band''} ''no'' = Some answer \<and>
     read_pkts answer = Some (map ((#) (char_of (2 :: nat))) msgs @ map ((#) (char_of (1 :: nat))) reports, [])"
proof -
  obtain answer where a: "refusal_response [demo_update] (refused_updates [demo_update] {''dev''})
       {''report-status'', ''side-band''} ''no'' = Some answer"
    by (simp add: refusal_response_def Let_def)
  have us: "updates \<lparr>updates = [demo_update], capabilities = C, raw = r\<rparr> = [demo_update]" for C r by simp
  have "{''report-status'', ''side-band''} \<inter> {''side-band'', ''side-band-64k''} \<noteq> {}" by blast
  with refusal_readable [OF demo_push_read refl, unfolded us, OF a] a show ?thesis
    by (simp only: if_False) blast
qed

end
