(* ===== verification/Git_Proxy.thy ===== *)
theory Git_Proxy
  imports Git_Scope Receive_Pack
begin

text \<open>
  The git-proxy's request handler (\<open>embry0/execution/proxy/git_proxy.py\<close>): from the sandbox's request
  to the request it sends to the forge or the refusal it answers, and from the forge's answer to
  the one the sandbox gets. The forge is the environment: its answer is an argument. Header lists
  are in the order they came; the body is the part of the request the handler reads or streams.
\<close>

definition DEFAULT_GIT_HOST :: pystr where "DEFAULT_GIT_HOST = ''github.com''"
definition DEFAULT_GIT_USERNAME :: pystr where "DEFAULT_GIT_USERNAME = ''x-access-token''"

definition forwarded_request_headers :: "pystr list" where
  "forwarded_request_headers = [''accept'', ''accept-encoding'', ''content-type'', ''git-protocol'', ''user-agent'']"

definition forwarded_response_headers :: "pystr list" where
  "forwarded_response_headers = [''Content-Type'', ''Content-Encoding'', ''Cache-Control'', ''Expires'', ''Pragma'']"

record git_request =
  gq_method :: pystr
  gq_path :: pystr
  gq_query :: pystr
  gq_headers :: "(pystr \<times> pystr) list"
  gq_body :: bytes

record upstream_call =
  up_method :: pystr
  up_url :: pystr
  up_headers :: "pystr dict"
  up_body :: "bytes option"

datatype git_answer =
    Refusal nat pystr
  | Malformed_Push malformed  \<comment> \<open>403 with the parser's message\<close>
  | Push_Report bytes  \<comment> \<open>200, a receive-pack result\<close>
  | Stream nat "pystr dict" bytes bool  \<comment> \<open>status, headers, content, cut short\<close>

datatype upstream_result =
    Upstream nat "(pystr \<times> pystr) list" bytes bool  \<comment> \<open>status, headers, content, broken off\<close>
  | Upstream_Timeout
  | Upstream_Failed

text \<open>A case-insensitive multi-dict's \<open>get\<close>: the first value.\<close>

definition header_get :: "(pystr \<times> pystr) list \<Rightarrow> pystr \<Rightarrow> pystr option" where
  "header_get hs name = map_option snd (find (\<lambda>(k, v). ascii_lower k = ascii_lower name) hs)"

subsection \<open>The credential\<close>

definition b64_char :: "nat \<Rightarrow> char" where
  "b64_char n = (if n < 26 then char_of (65 + n) else if n < 52 then char_of (71 + n)
                 else if n < 62 then char_of (n - 4) else if n = 62 then CHR ''+'' else CHR ''/'')"

fun b64encode :: "bytes \<Rightarrow> pystr" where
  "b64encode [] = []"
| "b64encode [a] = [b64_char (ord a div 4), b64_char (ord a mod 4 * 16), CHR ''='', CHR ''='']"
| "b64encode [a, b] =
     [b64_char (ord a div 4), b64_char (ord a mod 4 * 16 + ord b div 16), b64_char (ord b mod 16 * 4), CHR ''='']"
| "b64encode (a # b # c # r) =
     [b64_char (ord a div 4), b64_char (ord a mod 4 * 16 + ord b div 16),
      b64_char (ord b mod 16 * 4 + ord c div 64), b64_char (ord c mod 64)] @ b64encode r"

definition basic_auth :: "pystr \<Rightarrow> pystr \<Rightarrow> pystr" where
  "basic_auth username token = ''Basic '' @ b64encode (username @ '':'' @ token)"

text \<open>\<open>_upstream_headers\<close>; None is the \<open>ValueError\<close> of an upstream URL that does not parse.\<close>

definition upstream_headers ::
  "git_request \<Rightarrow> 'x app \<Rightarrow> pystr \<Rightarrow> pystr \<Rightarrow> pystr \<Rightarrow> pystr dict option" where
  "upstream_headers req a i github_token url =
     (let kept = fold (\<lambda>(k, v) d. AList.update k v d)
            (filter (\<lambda>(k, v). ascii_lower k \<in> set forwarded_request_headers) (gq_headers req)) [];
          headers = (if ''Accept-Encoding'' \<in> keys kept then kept
                     else AList.update ''Accept-Encoding'' ''identity'' kept);
          token = payload_token a i github_token
      in if token = [] then Some headers
         else case urlsplit url of
           None \<Rightarrow> None
         | Some parts \<Rightarrow>
             let (host, username) = (case git_identity_for (app_registry a) i of
                                       Some hu \<Rightarrow> hu | None \<Rightarrow> (DEFAULT_GIT_HOST, DEFAULT_GIT_USERNAME))
             in if url_hostname parts \<noteq> host_lower host then Some headers
                else Some (AList.update ''Authorization'' (basic_auth username token) headers))"

subsection \<open>The request\<close>

definition push_message :: "pystr set \<Rightarrow> pystr" where
  "push_message branches =
     ''push refused: this job may push only to '' @
     (let allowed = join '', '' (sorted_list_of_set branches)
      in if allowed = [] then ''none (the enrollment names no branch)'' else allowed) @
     '', and may not delete it''"

definition not_enrolled_message :: pystr where
  "not_enrolled_message = ''this sandbox'' @ CHR 0x27 # ''s proxy bearer is not enrolled (expired or revoked)''"

definition own_repository_message :: pystr where
  "own_repository_message = ''): this proxy serves the job'' @ CHR 0x27 # ''s own repository only''"

text \<open>\<open>_decide_push\<close>: the refusal, or the command list and the rest of the body.\<close>

definition decide_push :: "git_grant \<Rightarrow> bytes \<Rightarrow> git_answer + command_list \<times> bytes" where
  "decide_push g body =
     (case read_command_list body of
        Inl e \<Rightarrow> Inl (Malformed_Push e)
      | Inr (cl, rest) \<Rightarrow>
          let refused = refused_updates (updates cl) (push_branches g)
          in if refused = [] then Inr (cl, rest)
             else case refusal_response (updates cl) refused (capabilities cl) (push_message (push_branches g)) of
                    None \<Rightarrow> Inl (Refusal 403 (push_message (push_branches g)))
                  | Some report \<Rightarrow> Inl (Push_Report report))"

text \<open>The part of \<open>_git_handler\<close> before the forge is asked.\<close>

datatype git_decision =
    Answer git_answer
  | Send pystr upstream_call  \<comment> \<open>the repository, for the refusals below\<close>
  | Handler_Error

definition git_decide ::
  "(pystr \<Rightarrow> pystr) \<Rightarrow> rat \<Rightarrow> pystr \<Rightarrow> git_request \<Rightarrow> git_grants app \<Rightarrow> git_decision \<times> git_grants app" where
  "git_decide sha now github_token req a =
     (case check_bearer sha (Some git_scope_forget) now
             (case header_get (gq_headers req) ''Authorization'' of None \<Rightarrow> [] | Some v \<Rightarrow> v) a of
        (None, a') \<Rightarrow>
          (Answer (Refusal 403 not_enrolled_message), a')
      | (Some i, a') \<Rightarrow>
          (let grant = map_of (app_scope a') i
           in case git_verdict (gq_method req) (gq_path req) (gq_query req) grant of
                Git_Deny reason \<Rightarrow>
                  (Answer (Refusal 403 (''refused ('' @ reason @ own_repository_message)), a')
              | Git_Allow repo service url \<Rightarrow>
                  (let body =
                     (if gq_method req \<noteq> ''POST'' then Inr None
                      else if service = RECEIVE_PACK \<and> grant \<noteq> None
                      then (case decide_push (the grant) (gq_body req) of
                              Inl answer \<Rightarrow> Inl answer
                            | Inr (cl, rest) \<Rightarrow> Inr (Some (raw cl @ rest)))
                      else Inr (Some (gq_body req)))
                   in case body of
                        Inl answer \<Rightarrow> (Answer answer, a')
                      | Inr b \<Rightarrow>
                          (case upstream_headers req a' i github_token url of
                             None \<Rightarrow> (Handler_Error, a')
                           | Some headers \<Rightarrow>
                               (Send repo \<lparr>up_method = gq_method req, up_url = url, up_headers = headers,
                                         up_body = b\<rparr>, a')))))"

text \<open>The rest of it: the forge's answer to the sandbox's.\<close>

definition git_relay :: "pystr \<Rightarrow> upstream_result \<Rightarrow> git_answer" where
  "git_relay repo result =
     (case result of
        Upstream status hs content broken \<Rightarrow>
          if 300 \<le> status \<and> status < 400
          then Refusal 502 (''the forge redirected '' @ repo @ '' (renamed?); redirects are not followed'')
          else if status = 401
          then Refusal 403 (''the forge refused the configured credential for '' @ repo)
          else Stream status
            (fold (\<lambda>name d. case header_get hs name of None \<Rightarrow> d | Some v \<Rightarrow> AList.update name v d)
               forwarded_response_headers []) content broken
      | Upstream_Timeout \<Rightarrow> Refusal 504 (''could not reach the forge for '' @ repo)
      | Upstream_Failed \<Rightarrow> Refusal 502 (''could not reach the forge for '' @ repo))"

subsection \<open>What is sent to the forge\<close>

lemma keys_fold_update:
  "keys (fold (\<lambda>(k, v) d. AList.update k v d) xs d) = fst ` set xs \<union> keys d"
  by (induction xs arbitrary: d) auto

lemma check_bearer_reachable:
  assumes "git_reachable sha a" "check_bearer sha (Some git_scope_forget) now auth a = (who, a')"
  shows "git_reachable sha a'"
  using gr_admin [OF assms(1) as_bearer [OF assms(2)]] .

lemma decide_push_proceeds:
  assumes "decide_push g body = Inr (cl, rest)"
  shows "read_command_list body = Inr (cl, rest) \<and> refused_updates (updates cl) (push_branches g) = []"
  using assms by (auto simp: decide_push_def Let_def split: sum.splits option.splits if_splits prod.splits)

text \<open>The body to send, or the refusal: the middle of the handler.\<close>

definition decide_body :: "git_request \<Rightarrow> git_grant \<Rightarrow> pystr \<Rightarrow> git_answer + bytes option" where
  "decide_body req g svc =
     (if gq_method req \<noteq> ''POST'' then Inr None
      else if svc = RECEIVE_PACK
      then (case decide_push g (gq_body req) of Inl answer \<Rightarrow> Inl answer | Inr (cl, rest) \<Rightarrow> Inr (Some (raw cl @ rest)))
      else Inr (Some (gq_body req)))"

lemma git_decide_allowed:
  assumes "check_bearer sha (Some git_scope_forget) now
      (case header_get (gq_headers req) ''Authorization'' of None \<Rightarrow> [] | Some v \<Rightarrow> v) a = (Some i, a1)"
    and "map_of (app_scope a1) i = Some g"
    and "git_verdict (gq_method req) (gq_path req) (gq_query req) (Some g) = Git_Allow repo svc url"
  shows "git_decide sha now tok req a =
    (case decide_body req g svc of
       Inl answer \<Rightarrow> (Answer answer, a1)
     | Inr b \<Rightarrow> (case upstream_headers req a1 i tok url of
          None \<Rightarrow> (Handler_Error, a1)
        | Some headers \<Rightarrow> (Send repo \<lparr>up_method = gq_method req, up_url = url, up_headers = headers,
                                     up_body = b\<rparr>, a1)))"
  using assms by (simp add: git_decide_def decide_body_def)

lemma git_decide_cases:
  assumes "git_decide sha now tok req a = (Send repo call, a')"
  obtains i g svc where
    "check_bearer sha (Some git_scope_forget) now
       (case header_get (gq_headers req) ''Authorization'' of None \<Rightarrow> [] | Some v \<Rightarrow> v) a = (Some i, a')"
    "map_of (app_scope a') i = Some g"
    "git_verdict (gq_method req) (gq_path req) (gq_query req) (Some g) = Git_Allow repo svc (up_url call)"
    "upstream_headers req a' i tok (up_url call) = Some (up_headers call)"
    "up_method call = gq_method req"
    "if gq_method req \<noteq> ''POST'' then up_body call = None
     else if svc = RECEIVE_PACK
     then \<exists>cl rest. decide_push g (gq_body req) = Inr (cl, rest) \<and> up_body call = Some (raw cl @ rest)
     else up_body call = Some (gq_body req)"
proof -
  obtain who a1 where b: "check_bearer sha (Some git_scope_forget) now
       (case header_get (gq_headers req) ''Authorization'' of None \<Rightarrow> [] | Some v \<Rightarrow> v) a = (who, a1)"
    by (rule prod.exhaust)
  obtain i where who: "who = Some i" using assms b by (auto simp: git_decide_def split: option.splits)
  show ?thesis
  proof (cases "map_of (app_scope a1) i")
    case None
    then show ?thesis using assms b who by (simp add: git_decide_def git_verdict_def)
  next
    case (Some g)
    show ?thesis
    proof (cases "git_verdict (gq_method req) (gq_path req) (gq_query req) (Some g)")
      case (Git_Deny r)
      then show ?thesis using assms b who Some by (simp add: git_decide_def)
    next
      case (Git_Allow repo' svc url)
      note e = git_decide_allowed [OF b [unfolded who] Some Git_Allow, of tok]
      with assms obtain bd hs where c: "decide_body req g svc = Inr bd" "upstream_headers req a1 i tok url = Some hs"
        "repo' = repo" "call = \<lparr>up_method = gq_method req, up_url = url, up_headers = hs, up_body = bd\<rparr>" "a1 = a'"
        by (auto split: sum.splits option.splits)
      have "if gq_method req \<noteq> ''POST'' then bd = None
         else if svc = RECEIVE_PACK
         then \<exists>cl rest. decide_push g (gq_body req) = Inr (cl, rest) \<and> bd = Some (raw cl @ rest)
         else bd = Some (gq_body req)"
        using c(1) by (auto simp: decide_body_def split: sum.splits if_splits)
      with that [of i g svc] b who Some Git_Allow c show ?thesis by simp
    qed
  qed
qed

text \<open>C29: a request goes to the forge only for an enrolled sandbox whose bearer came with it, on the
  verdict of that sandbox's grant, with the body as it came; and a push only when its command list
  parses and every update creates or moves a branch the grant names.\<close>

theorem git_forward_sound:
  assumes "git_reachable sha a" and "git_decide sha now tok req a = (Send repo call, a')"
  shows "git_reachable sha a' \<and>
    (\<exists>i g svc. fst (check_bearer sha (Some git_scope_forget) now
          (case header_get (gq_headers req) ''Authorization'' of None \<Rightarrow> [] | Some v \<Rightarrow> v) a) = Some i \<and>
       i \<in> enrolled_ids (app_registry a') \<and> map_of (app_scope a') i = Some g \<and>
       git_verdict (gq_method req) (gq_path req) (gq_query req) (Some g) = Git_Allow repo svc (up_url call) \<and>
       up_method call = gq_method req \<and>
       up_body call = (if gq_method req = ''POST'' then Some (gq_body req) else None) \<and>
       (gq_method req = ''POST'' \<and> svc = ''git-receive-pack'' \<longrightarrow>
          push g \<and> (\<exists>cl rest. read_command_list (gq_body req) = Inr (cl, rest) \<and>
            (\<forall>u \<in> set (updates cl). (\<exists>b \<in> push_branches g. ref_name u = ''refs/heads/'' @ b) \<and> \<not> is_delete u))))"
proof -
  from assms(2) obtain i g svc where c: "check_bearer sha (Some git_scope_forget) now
       (case header_get (gq_headers req) ''Authorization'' of None \<Rightarrow> [] | Some v \<Rightarrow> v) a = (Some i, a')"
    "map_of (app_scope a') i = Some g"
    "git_verdict (gq_method req) (gq_path req) (gq_query req) (Some g) = Git_Allow repo svc (up_url call)"
    "up_method call = gq_method req"
    and body: "if gq_method req \<noteq> ''POST'' then up_body call = None
     else if svc = RECEIVE_PACK
     then \<exists>cl rest. decide_push g (gq_body req) = Inr (cl, rest) \<and> up_body call = Some (raw cl @ rest)
     else up_body call = Some (gq_body req)"
    by (rule git_decide_cases)
  have r: "git_reachable sha a'" by (rule check_bearer_reachable [OF assms(1) c(1)])
  have i: "i \<in> enrolled_ids (app_registry a')"
    using git_reachable_inv [OF r] c(2) by (auto dest: map_of_SomeD_keys)
  have b: "up_body call = (if gq_method req = ''POST'' then Some (gq_body req) else None)"
    using body decide_push_proceeds read_commands_raw [of "gq_body req" "[]"]
    by (fastforce simp: read_command_list_def split: if_splits)
  have p: "push g \<and> (\<exists>cl rest. read_command_list (gq_body req) = Inr (cl, rest) \<and>
      (\<forall>u \<in> set (updates cl). (\<exists>b \<in> push_branches g. ref_name u = ''refs/heads/'' @ b) \<and> \<not> is_delete u))"
    if m: "gq_method req = ''POST''" and sv: "svc = ''git-receive-pack''"
  proof -
    have rp: "svc = RECEIVE_PACK" using sv by (simp add: RECEIVE_PACK_def)
    then have "push g" using c(3) by (elim git_verdict_cases) simp
    moreover obtain cl rest where "decide_push g (gq_body req) = Inr (cl, rest)"
      using body m rp by auto
    from decide_push_proceeds [OF this] have "read_command_list (gq_body req) = Inr (cl, rest)"
      "keys (refused_updates (updates cl) (push_branches g)) = {}" by auto
    ultimately show ?thesis by (auto simp: refused_updates_rev push_allowed_def)
  qed
  show ?thesis using r c i b p by (metis fst_conv)
qed

definition git_identity_of :: "'x app \<Rightarrow> pystr \<Rightarrow> pystr \<times> pystr" where
  "git_identity_of a i = (case git_identity_for (app_registry a) i of
     Some hu \<Rightarrow> hu | None \<Rightarrow> (DEFAULT_GIT_HOST, DEFAULT_GIT_USERNAME))"

lemma upstream_headers_facts:
  assumes "upstream_headers req a i tok url = Some hs"
  shows "\<forall>k \<in> keys hs. k = ''Authorization'' \<or> ascii_lower k \<in> set forwarded_request_headers"
    and "map_of hs ''Authorization'' = Some v \<Longrightarrow>
      \<exists>parts. urlsplit url = Some parts \<and> url_hostname parts = host_lower (fst (git_identity_of a i)) \<and>
        payload_token a i tok \<noteq> [] \<and> v = basic_auth (snd (git_identity_of a i)) (payload_token a i tok)"
proof -
  define kept where "kept = fold (\<lambda>(k, v) d. AList.update k v d)
    (filter (\<lambda>(k, v). ascii_lower k \<in> set forwarded_request_headers) (gq_headers req)) []"
  define headers where "headers = (if ''Accept-Encoding'' \<in> keys kept then kept
     else AList.update ''Accept-Encoding'' ''identity'' kept)"
  have ae: "ascii_lower ''Accept-Encoding'' \<in> set forwarded_request_headers"
    "ascii_lower ''Authorization'' \<notin> set forwarded_request_headers" by code_simp+
  have k: "ascii_lower k \<in> set forwarded_request_headers" if "k \<in> keys headers" for k
    using that ae(1) by (auto simp: headers_def kept_def keys_fold_update split: if_splits)
  then have "''Authorization'' \<notin> keys headers" using ae(2) by blast
  then have none: "map_of headers ''Authorization'' = None" by (simp add: map_of_None_keys)
  have "hs = headers \<or>
    hs = AList.update ''Authorization'' (basic_auth (snd (git_identity_of a i)) (payload_token a i tok)) headers \<and>
    payload_token a i tok \<noteq> [] \<and>
    (\<exists>parts. urlsplit url = Some parts \<and> url_hostname parts = host_lower (fst (git_identity_of a i)))"
    using assms unfolding upstream_headers_def Let_def kept_def [symmetric] headers_def [symmetric]
    by (auto simp: git_identity_of_def split: if_splits option.splits prod.splits)
  then show "\<forall>k \<in> keys hs. k = ''Authorization'' \<or> ascii_lower k \<in> set forwarded_request_headers"
    "map_of hs ''Authorization'' = Some v \<Longrightarrow>
      \<exists>parts. urlsplit url = Some parts \<and> url_hostname parts = host_lower (fst (git_identity_of a i)) \<and>
        payload_token a i tok \<noteq> [] \<and> v = basic_auth (snd (git_identity_of a i)) (payload_token a i tok)"
    using k none by auto
qed

text \<open>The forwarded URL names the grant's upstream host.\<close>

lemma forwarded_host:
  assumes "git_reachable sha a'" "map_of (app_scope a') i = Some g"
    and "git_verdict m p q (Some g) = Git_Allow repo svc url"
  shows "\<exists>scheme host port path parts. upstream g = scheme @ ''://'' @ host @ port @ path \<and> host_ok host \<and>
    urlsplit url = Some parts \<and> url_hostname parts = host"
proof -
  have ok: "grant_ok g" using git_reachable_inv [OF assms(1)] assms(2) by (auto simp: grants_ok_def)
  from git_allow_url [OF assms(3)] obtain segs tail where u: "repo \<in> repos g" "url = upstream g @ ''/'' @ join ''/'' segs @ tail"
    "\<forall>s \<in> set segs. name_part s" "list_all printable tail" by blast
  have n: "normalize_upstream (JStr (upstream g)) = Some (upstream g)"
    using ok u(1) by (auto simp: grant_ok_def)
  have "printable c" if "c \<in> set (join ''/'' segs)" for c
  proof -
    have "c = CHR ''/'' \<or> (\<exists>s \<in> set segs. c \<in> set s)" using that set_join [of "''/''" segs] by auto
    moreover have "printable CHR ''/''" by code_simp
    ultimately show ?thesis
      using u(3) name_char_facts(1) by (auto simp: name_part_def list_all_iff)
  qed
  moreover have "printable CHR ''/''" by code_simp
  ultimately have "list_all printable (''/'' @ join ''/'' segs @ tail)"
    using u(4) by (auto simp: list_all_iff)
  from upstream_host [OF n _ this] u(2) show ?thesis by simp
qed


lemma upstream_headers_defined:
  "urlsplit url = Some parts \<Longrightarrow> upstream_headers req a i tok url \<noteq> None"
  by (auto simp: upstream_headers_def Let_def split: prod.split option.split)

text \<open>The handler never fails: it forwards, or refuses with 403, or reports the refusal of each
  update of a push.\<close>

lemma git_decide_answers:
  assumes "git_reachable sha a" and "git_decide sha now tok req a = (decision, a')"
  shows "(\<exists>repo call. decision = Send repo call) \<or> (\<exists>text. decision = Answer (Refusal 403 text)) \<or>
    (\<exists>e. decision = Answer (Malformed_Push e)) \<or> (\<exists>report. decision = Answer (Push_Report report))"
proof -
  obtain who a1 where b: "check_bearer sha (Some git_scope_forget) now
       (case header_get (gq_headers req) ''Authorization'' of None \<Rightarrow> [] | Some v \<Rightarrow> v) a = (who, a1)"
    by (rule prod.exhaust)
  note r = check_bearer_reachable [OF assms(1) b]
  have push: "(\<exists>x. decide_push g body = Inr x) \<or> (\<exists>text. decide_push g body = Inl (Refusal 403 text)) \<or>
      (\<exists>e. decide_push g body = Inl (Malformed_Push e)) \<or> (\<exists>rep. decide_push g body = Inl (Push_Report rep))" for g body
    by (auto simp: decide_push_def Let_def split: sum.split option.split)
  show ?thesis
  proof (cases "\<exists>i g repo svc url. who = Some i \<and> map_of (app_scope a1) i = Some g \<and>
      git_verdict (gq_method req) (gq_path req) (gq_query req) (Some g) = Git_Allow repo svc url")
    case True
    then obtain i g repo svc url where c: "who = Some i" "map_of (app_scope a1) i = Some g"
      "git_verdict (gq_method req) (gq_path req) (gq_query req) (Some g) = Git_Allow repo svc url" by blast
    from forwarded_host [OF r c(2,3)] upstream_headers_defined
    obtain hs where "upstream_headers req a1 i tok url = Some hs" by blast
    with assms(2) git_decide_allowed [OF b [unfolded c(1)] c(2,3), of tok] push [of g "gq_body req"]
    show ?thesis by (auto simp: decide_body_def split: if_splits)
  next
    case False
    have none: "git_verdict m p q None = Git_Deny ''unscoped_enrollment''" for m p q
      by (simp add: git_verdict_def)
    show ?thesis
    proof (cases who)
      case (Some i)
      then obtain reason where
        "git_verdict (gq_method req) (gq_path req) (gq_query req) (map_of (app_scope a1) i) = Git_Deny reason"
        using False none by (cases "map_of (app_scope a1) i";
            cases "git_verdict (gq_method req) (gq_path req) (gq_query req) (map_of (app_scope a1) i)") auto
      then show ?thesis using assms(2) b Some by (auto simp: git_decide_def)
    qed (use assms(2) b in \<open>auto simp: git_decide_def\<close>)
  qed
qed

subsection \<open>Instances\<close>

definition demo_git_request :: git_request where
  "demo_git_request = \<lparr>gq_method = ''POST'', gq_path = ''/git/acme/app.git/git-receive-pack'', gq_query = [],
     gq_headers = [(''authorization'', ''Bearer '' @ demo_token), (''X-Forwarded-For'', ''10.0.0.1''),
       (''Accept-Encoding'', ''gzip'')],
     gq_body = push_head [] [\<lparr>old_id = replicate 40 CHR ''0'', new_id = replicate 40 CHR ''a'',
         ref_name = ''refs/heads/embry0/job-1''\<rparr>] ''report-status'' @ ''PACK''\<rparr>"

definition demo_git_decision :: "git_decision \<times> git_grants app" where
  "demo_git_decision = git_decide (\<lambda>s. s) 1 ''s3cret'' demo_git_request demo_git"

definition demo_git_get :: "git_decision \<times> git_grants app" where
  "demo_git_get = git_decide (\<lambda>s. s) 1 ''s3cret''
     (demo_git_request\<lparr>gq_method := ''GET'', gq_path := ''/git/acme/app.git/info/refs'',
        gq_query := ''service=git-upload-pack''\<rparr>) demo_git"

lemma demo_git_get_sent:
  "case fst demo_git_get of
     Send repo call \<Rightarrow> repo = ''acme/app'' \<and> map_of (up_headers call) ''Authorization'' \<noteq> None
   | _ \<Rightarrow> False"
  by code_simp

lemma demo_git_push_sent:
  "case fst demo_git_decision of Send repo call \<Rightarrow> repo = ''acme/app'' | _ \<Rightarrow> False"
  by code_simp

theorem git_forward_sound_witness:
  "\<exists>call. fst demo_git_decision = Send ''acme/app'' call \<and> up_body call = Some (gq_body demo_git_request)"
proof -
  obtain call where c: "fst demo_git_decision = Send ''acme/app'' call"
    using demo_git_push_sent by (auto split: git_decision.splits)
  then have d: "git_decide (\<lambda>s. s) 1 ''s3cret'' demo_git_request demo_git = (Send ''acme/app'' call, snd demo_git_decision)"
    by (metis demo_git_decision_def prod.collapse)
  have "gq_method demo_git_request = ''POST''" by (simp add: demo_git_request_def)
  then have "up_body call = Some (gq_body demo_git_request)"
    using git_forward_sound [OF demo_git_reachable(1) d] by (elim conjE exE) simp
  with c show ?thesis by blast
qed


lemma git_decide_answers_witness:
  "fst demo_git_get \<noteq> Handler_Error"
proof -
  have "git_decide (\<lambda>s. s) 1 ''s3cret'' (demo_git_request\<lparr>gq_method := ''GET'', gq_path := ''/git/acme/app.git/info/refs'',
        gq_query := ''service=git-upload-pack''\<rparr>) demo_git = (fst demo_git_get, snd demo_git_get)"
    by (simp add: demo_git_get_def)
  from git_decide_answers [OF demo_git_reachable(1) this] show ?thesis by auto
qed

end
