(* ===== verification/Template_Routes.thy ===== *)
theory Template_Routes
  imports Py_Value
begin

text \<open>
  Pipeline templates: what a template's row says of its jobs (\<open>embry0/workflows/row_behaviour.py\<close>), when
  a graph may be saved (\<open>embry0/workflows/_validation.py\<close>), the step list a graph is run as and the
  dispatcher that walks it (\<open>embry0/workflows/issue_to_pr/route_plan.py\<close>). A node or edge is read
  through the keys the code reads; a key that is missing and one that is null are both None. A
  problem found by validation is a constructor instead of its wording.
\<close>

definition CODING_AGENT_TYPES :: "pystr list" where "CODING_AGENT_TYPES = [''developer'', ''slopmaster'']"
definition DEFAULT_CODER :: pystr where "DEFAULT_CODER = ''developer''"
definition REVIEW_AGENT_TYPES :: "pystr list" where "REVIEW_AGENT_TYPES = [''reviewer'', ''review'']"
definition QA_AGENT_TYPE :: pystr where "QA_AGENT_TYPE = ''qa''"

definition SPECIALIST_AGENT_TYPES :: "pystr list" where
  "SPECIALIST_AGENT_TYPES = [''kintsugi'', ''gardener'', ''interrogator'', ''why'', ''how'', ''blast-radius'',
     ''comment-sicko'', ''design-auditor'', ''context-auditor'', ''area-mapper'']"

definition FIXED_NODE_TYPES :: "pystr set" where
  "FIXED_NODE_TYPES = {''triage'', ''developer'', ''slopmaster'', ''reviewer'', ''review'', ''qa'', ''output''}"

definition DEFERRED_TOOLS :: "pystr list" where
  "DEFERRED_TOOLS = [''CreateIssue'', ''RequestInput'', ''UpdateStatus'']"

record template_node =
  tn_id :: "pystr option"
  tn_type :: "pystr option"
  tn_fields :: "(pystr \<times> json) list"

record template_edge =
  te_source :: "pystr option"
  te_target :: "pystr option"
  te_type :: "json option"

record template_graph =
  tg_nodes :: "template_node list"
  tg_edges :: "template_edge list"
  tg_agent_tools :: "(pystr \<times> pystr list) list"

definition flow_edges :: "template_graph \<Rightarrow> (pystr option \<times> pystr option) list" where
  "flow_edges g =
     map (\<lambda>e. (te_source e, te_target e))
       (filter (\<lambda>e. te_type e = None \<or> te_type e = Some (JStr ''flow'')) (tg_edges g))"

subsection \<open>Walking the flow\<close>

text \<open>
  Both walks follow the one successor of a node until there is none or a node comes round again;
  the first component is the nodes visited, the second the node that came round.
\<close>

definition successor :: "(pystr option \<times> pystr option) list \<Rightarrow> pystr \<Rightarrow> pystr option" where
  "successor es c = (case map_of es (Some c) of None \<Rightarrow> None | Some t \<Rightarrow> t)"

lemma successor_target: "successor es c = Some d \<Longrightarrow> Some d \<in> snd ` set es"
  by (auto simp: successor_def split: option.splits dest!: map_of_SomeD) force

definition walk_space :: "(pystr option \<times> pystr option) list \<Rightarrow> pystr option \<Rightarrow> pystr list \<Rightarrow> pystr set" where
  "walk_space es cur seen = (set_option cur \<union> {d. Some d \<in> snd ` set es}) - set seen"

lemma finite_walk_space: "finite (walk_space es cur seen)"
proof -
  have "{d. Some d \<in> snd ` set es} \<subseteq> the ` snd ` set es" by force
  then have "finite {d. Some d \<in> snd ` set es}" by (rule finite_subset) simp
  then show ?thesis by (cases cur) (simp_all add: walk_space_def)
qed

lemma walk_space_step:
  assumes "c \<notin> set seen"
  shows "walk_space es (successor es c) (seen @ [c]) \<subset> walk_space es (Some c) seen"
  using assms successor_target [of es c] by (cases "successor es c") (auto simp: walk_space_def)

lemma walk_space_shrinks:
  assumes "c \<notin> set seen"
  shows "card (walk_space es (successor es c) (seen @ [c])) < card (walk_space es (Some c) seen)"
  by (rule psubset_card_mono [OF finite_walk_space walk_space_step [OF assms]])

definition walk_measure :: "(pystr option \<times> pystr option) list \<times> pystr option \<times> pystr list \<Rightarrow> nat" where
  "walk_measure = (\<lambda>(es, cur, seen). (case cur of None \<Rightarrow> 0 | Some c \<Rightarrow> Suc (card (walk_space es cur seen))))"

function walk ::
  "(pystr option \<times> pystr option) list \<Rightarrow> pystr option \<Rightarrow> pystr list \<Rightarrow> pystr list \<times> pystr option" where
  "walk es None seen = (seen, None)"
| "walk es (Some c) seen = (if c \<in> set seen then (seen, Some c) else walk es (successor es c) (seen @ [c]))"
  by pat_completeness auto

termination
proof (relation "measure walk_measure")
  fix es c and seen :: "pystr list"
  assume "c \<notin> set seen"
  then show "((es, successor es c, seen @ [c]), es, Some c, seen) \<in> measure walk_measure"
    using walk_space_shrinks [of c seen es] by (auto simp: walk_measure_def split: option.split)
qed simp

subsection \<open>Validation\<close>

datatype graph_problem =
    Deferred_Tools pystr
  | No_Nodes
  | Duplicate_Ids
  | Unknown_Type "pystr option" "pystr option"
  | Unknown_Edge_Node
  | Branching
  | Root_Count nat
  | Cycle_At pystr
  | Disconnected
  | Triage_Not_Root
  | Only_Triage
  | Output_Not_Terminal

text \<open>\<open>validate_pipeline_tools\<close>; the first agent with a deferred tool is named.\<close>

definition validate_pipeline_tools :: "template_graph \<Rightarrow> graph_problem option" where
  "validate_pipeline_tools g =
     map_option (\<lambda>(agent, _). Deferred_Tools agent)
       (find (\<lambda>(agent, tools). list_ex (\<lambda>t. t \<in> set tools) DEFERRED_TOOLS) (tg_agent_tools g))"

definition count_key :: "'a \<Rightarrow> 'a list \<Rightarrow> nat" where
  "count_key k ks = length (filter (\<lambda>x. x = k) ks)"

definition validate_graph_definition :: "template_graph \<Rightarrow> pystr set \<Rightarrow> graph_problem list" where
  "validate_graph_definition g agent_types =
     (let known = FIXED_NODE_TYPES \<union> agent_types;
          nodes = tg_nodes g;
          deferred = (case validate_pipeline_tools g of None \<Rightarrow> [] | Some p \<Rightarrow> [p])
      in if nodes = [] then deferred @ [No_Nodes]
         else
           let ids = map tn_id nodes;
               dup = (if distinct ids then [] else [Duplicate_Ids]);
               unknown = map (\<lambda>n. Unknown_Type (tn_id n) (tn_type n))
                 (filter (\<lambda>n. case tn_type n of None \<Rightarrow> True | Some t \<Rightarrow> t \<notin> known) nodes);
               es = flow_edges g;
               good = filter (\<lambda>(s, t). s \<in> set ids \<and> t \<in> set ids) es;
               dangling = map (\<lambda>_. Unknown_Edge_Node) (filter (\<lambda>(s, t). s \<notin> set ids \<or> t \<notin> set ids) es);
               branching =
                 (if list_ex (\<lambda>k. 1 < count_key k (map fst good)) (map fst good) \<or>
                     list_ex (\<lambda>k. 1 < count_key k (map snd good)) (map snd good) then [Branching] else []);
               errors = deferred @ dup @ unknown @ dangling @ branching;
               roots = filter (\<lambda>i. i \<notin> set (map snd good)) (remdups ids);
               shape =
                 (if length roots \<noteq> 1 then [Root_Count (length roots)]
                  else if errors = [] then
                    (case walk es (hd roots) [] of
                       (seen, Some c) \<Rightarrow> [Cycle_At c]
                     | (seen, None) \<Rightarrow> if length seen \<noteq> card (set ids) then [Disconnected] else [])
                  else []);
               by_type = fold (\<lambda>n d. AList.update (tn_id n) (tn_type n) d) nodes [];
               triage =
                 (if length roots = 1
                  then map (\<lambda>_. Triage_Not_Root) (filter (\<lambda>(i, t). t = Some ''triage'' \<and> i \<noteq> hd roots) by_type)
                  else []);
               only = (if list_all (\<lambda>n. tn_type n = Some ''triage'') nodes then [Only_Triage] else []);
               terminal = map (\<lambda>_. Output_Not_Terminal)
                 (filter (\<lambda>(s, t). map_of by_type s = Some (Some ''output'')) es)
           in errors @ shape @ triage @ only @ terminal)"

subsection \<open>Linearizing a graph\<close>

definition LEGACY_NODE_OVERRIDE_KEYS :: "pystr list" where
  "LEGACY_NODE_OVERRIDE_KEYS = [''model'', ''max_budget_usd'', ''max_turns'', ''effort'', ''tools'', ''skills'',
     ''prompt_prepend'', ''prompt_append'', ''custom_prompt'', ''custom_tools'', ''sandbox'']"

definition node_config :: "template_node \<Rightarrow> (pystr \<times> json) list" where
  "node_config n =
     (case get (tn_fields n) ''config'' of
        JObj cfg \<Rightarrow> cfg
      | _ \<Rightarrow> map (\<lambda>k. (k, get (tn_fields n) k))
               (filter (\<lambda>k. get (tn_fields n) k \<noteq> JNull) LEGACY_NODE_OVERRIDE_KEYS))"

record route_step =
  rs_type :: pystr
  rs_node :: pystr
  rs_config :: "(pystr \<times> json) list"

datatype plan_error = Plan_Roots "pystr option list" | Plan_Cycle pystr | Plan_Missing_Node pystr

text \<open>The walk over dictionaries: the later entry of a key wins, so it looks the reversed lists up.\<close>

definition build_route_plan :: "template_graph \<Rightarrow> plan_error + route_step list" where
  "build_route_plan g =
     (let nodes = map (\<lambda>n. (tn_id n, n)) (rev (tg_nodes g));
          es = flow_edges g;
          roots = filter (\<lambda>i. i \<notin> set (map snd es)) (rev (remdups (rev (map tn_id (tg_nodes g)))))
      in if length roots \<noteq> 1 then Inl (Plan_Roots roots)
         else
           let (visited, again) = walk (rev es) (hd roots) []
           in case find (\<lambda>i. map_of nodes (Some i) = None) visited of
                Some i \<Rightarrow> Inl (Plan_Missing_Node i)
              | None \<Rightarrow>
                  (case again of
                     Some c \<Rightarrow> Inl (Plan_Cycle c)
                   | None \<Rightarrow>
                       Inr (map (\<lambda>i. let n = the (map_of nodes (Some i)) in
                                   \<lparr>rs_type = (case tn_type n of None \<Rightarrow> [] | Some t \<Rightarrow> t), rs_node = i,
                                    rs_config = node_config n\<rparr>)
                              (filter (\<lambda>i. tn_type (the (map_of nodes (Some i))) \<noteq> Some ''triage'') visited))))"

subsection \<open>The dispatcher\<close>

definition LEGACY_ROUTE_PLAN :: "route_step list" where
  "LEGACY_ROUTE_PLAN =
     [\<lparr>rs_type = ''developer'', rs_node = ''developer'', rs_config = []\<rparr>,
      \<lparr>rs_type = ''reviewer'', rs_node = ''reviewer'', rs_config = []\<rparr>,
      \<lparr>rs_type = ''qa'', rs_node = ''qa'', rs_config = []\<rparr>]"

definition ROUTE_TARGETS :: "(pystr \<times> pystr) list" where
  "ROUTE_TARGETS = [(''developer'', ''developer''), (''review'', ''review''), (''qa'', ''init_orchestrator''),
     (''output'', ''finalize_output''), (''agent'', ''generic_agent'')]"

text \<open>\<open>_step_target\<close>.\<close>

definition step_target :: "route_step \<Rightarrow> pystr" where
  "step_target s =
     (if rs_type s \<in> set CODING_AGENT_TYPES then ''developer''
      else if rs_type s \<in> set REVIEW_AGENT_TYPES then ''review''
      else if rs_type s = ''qa'' then ''qa''
      else if rs_type s = ''output'' then ''output''
      else ''agent'')"

text \<open>The part of the job's state the routing reads; the cursor is never negative.\<close>

record route_state =
  route_plan :: "route_step list"
  route_cursor :: nat
  needs_qa :: bool

function skip_qa :: "route_step list \<Rightarrow> nat \<Rightarrow> bool \<Rightarrow> nat" where
  "skip_qa plan cursor qa =
     (if cursor < length plan \<and> step_target (plan ! cursor) = ''qa'' \<and> \<not> qa then skip_qa plan (cursor + 1) qa
      else cursor)"
  by pat_completeness auto
termination by (relation "measure (\<lambda>(plan, cursor, _). length plan - cursor)") auto

declare skip_qa.simps [simp del]

definition next_route :: "route_state \<Rightarrow> pystr" where
  "next_route st =
     (let c = skip_qa (route_plan st) (route_cursor st) (needs_qa st)
      in if c < length (route_plan st) then step_target (route_plan st ! c) else ''end'')"

definition advance :: "route_state \<Rightarrow> route_state" where
  "advance st = st\<lparr>route_cursor := skip_qa (route_plan st) (route_cursor st) (needs_qa st) + 1\<rparr>"

definition step_run_type :: "pystr \<Rightarrow> pystr" where
  "step_run_type t = (if t = ''reviewer'' then ''review'' else t)"

definition config_overrides :: "(pystr \<times> json) list \<Rightarrow> pystr \<Rightarrow> (pystr \<times> json) list option" where
  "config_overrides cfg run_type =
     (let models = (if truthy (get cfg ''model'') then [(''agent_models'', JObj [(run_type, get cfg ''model'')])] else []);
          tools = (if get cfg ''tools'' = JNull then []
                   else [(''agent_tools'', JObj [(run_type, JList (case get cfg ''tools'' of JList ts \<Rightarrow> ts | _ \<Rightarrow> []))])]);
          skills = (if get cfg ''skills'' = JNull then []
                    else [(''agent_skills'', JObj [(run_type, get cfg ''skills'')])]);
          out = models @ tools @ skills
      in if out = [] then None else Some out)"

definition step_template_config :: "route_state \<Rightarrow> pystr \<Rightarrow> (pystr \<times> json) list option" where
  "step_template_config st run_type =
     (if \<not> route_cursor st < length (route_plan st) then None
      else let s = route_plan st ! route_cursor st
           in if step_run_type (rs_type s) \<noteq> run_type then None
              else config_overrides (rs_config s) run_type)"

definition triage_template_config :: "template_graph \<Rightarrow> (pystr \<times> json) list option" where
  "triage_template_config g =
     (case find (\<lambda>n. tn_type n = Some ''triage'') (tg_nodes g) of
        None \<Rightarrow> None
      | Some n \<Rightarrow> config_overrides (node_config n) ''triage'')"

fun first_index :: "('a \<Rightarrow> bool) \<Rightarrow> 'a list \<Rightarrow> nat option" where
  "first_index p [] = None"
| "first_index p (x # xs) = (if p x then Some 0 else map_option Suc (first_index p xs))"

definition cursor_at :: "route_state \<Rightarrow> pystr \<Rightarrow> nat" where
  "cursor_at st agent_type =
     (let wanted = (if agent_type = ''developer'' then CODING_AGENT_TYPES else [agent_type])
      in case first_index (\<lambda>s. rs_type s \<in> set wanted) (route_plan st) of None \<Rightarrow> 0 | Some i \<Rightarrow> i)"

definition coding_agent_of :: "route_step list \<Rightarrow> pystr" where
  "coding_agent_of plan =
     (case find (\<lambda>s. rs_type s \<in> set CODING_AGENT_TYPES) plan of None \<Rightarrow> DEFAULT_CODER | Some s \<Rightarrow> rs_type s)"

subsection \<open>The chain a walk visits\<close>

lemma walk_facts:
  assumes "walk es cur seen = (vis, again)"
    and "distinct seen" and "successively (\<lambda>a b. successor es a = Some b) seen"
    and "seen \<noteq> [] \<Longrightarrow> cur = successor es (last seen)"
  shows "distinct vis \<and> successively (\<lambda>a b. successor es a = Some b) vis \<and>
    (\<exists>ext. vis = seen @ ext \<and> (\<forall>c. cur = Some c \<longrightarrow> c \<notin> set seen \<longrightarrow> ext \<noteq> [] \<and> hd ext = c))"
  using assms
proof (induction es cur seen rule: walk.induct)
  case (1 es seen)
  then show ?case by simp
next
  case (2 es c seen)
  show ?case
  proof (cases "c \<in> set seen")
    case True
    with "2.prems"(1) have "vis = seen" by simp
    with True "2.prems"(2,3) show ?thesis by auto
  next
    case False
    have w: "walk es (successor es c) (seen @ [c]) = (vis, again)" "distinct (seen @ [c])" using "2.prems"(1,2) False by simp_all
    have n: "successively (\<lambda>a b. successor es a = Some b) (seen @ [c])"
      using "2.prems"(3,4) by (cases "seen = []") (simp_all add: successively_append_iff)
    have "distinct vis \<and> successively (\<lambda>a b. successor es a = Some b) vis \<and>
      (\<exists>ext. vis = (seen @ [c]) @ ext \<and>
         (\<forall>d. successor es c = Some d \<longrightarrow> d \<notin> set (seen @ [c]) \<longrightarrow> ext \<noteq> [] \<and> hd ext = d))"
      by (rule "2.IH" [OF False w n]) simp
    then show ?thesis using False by auto
  qed
qed

lemma walk_cong:
  assumes "\<And>c. successor es c = successor es' c"
  shows "walk es cur seen = walk es' cur seen"
  using assms by (induction es cur seen rule: walk.induct) simp_all

lemma map_of_rev_distinct: "distinct (map fst xs) \<Longrightarrow> map_of (rev xs) = map_of xs"
  by (subst map_of_inject_set) (simp_all add: rev_map [symmetric])

lemma successor_rev: "distinct (map fst es) \<Longrightarrow> successor (rev es) c = successor es c"
  by (simp add: successor_def map_of_rev_distinct)

lemma fold_update_lookup:
  "distinct (map f xs) \<Longrightarrow> n \<in> set xs \<Longrightarrow>
   map_of (fold (\<lambda>n d. AList.update (f n) (g n) d) xs d) (f n) = Some (g n)"
proof (induction xs rule: rev_induct)
  case (snoc x xs)
  show ?case
  proof (cases "n = x")
    case False
    with snoc have "n \<in> set xs" "f n \<noteq> f x" by (auto simp: image_iff)
    with snoc show ?thesis by (simp add: update_conv')
  qed (simp add: update_conv')
qed simp

lemma count_key_Cons: "count_key k (x # ks) = (if x = k then 1 else 0) + count_key k ks"
  by (simp add: count_key_def)

lemma count_key_pos: "k \<in> set ks \<Longrightarrow> 0 < count_key k ks"
  by (induction ks) (auto simp: count_key_def)

lemma count_key_one: "(\<forall>k \<in> set ks. \<not> 1 < count_key k ks) \<Longrightarrow> distinct ks"
proof (induction ks)
  case (Cons x ks)
  have "\<not> 1 < count_key k ks" if "k \<in> set ks" for k
  proof -
    from Cons.prems that have "\<not> 1 < count_key k (x # ks)" by simp
    then show ?thesis by (simp add: count_key_Cons split: if_splits)
  qed
  moreover have "x \<notin> set ks"
  proof
    assume "x \<in> set ks"
    moreover from Cons.prems have "\<not> 1 < count_key x (x # ks)" by simp
    ultimately show False using count_key_pos [of x ks] by (simp add: count_key_Cons)
  qed
  ultimately show ?case using Cons.IH by simp
qed simp

subsection \<open>A valid graph is one chain\<close>

text \<open>What a graph with no problem satisfies, with the nodes of its chain in order.\<close>

definition chain_of :: "template_graph \<Rightarrow> pystr list \<Rightarrow> bool" where
  "chain_of g vis \<longleftrightarrow> vis \<noteq> [] \<and> distinct vis \<and> distinct (map tn_id (tg_nodes g)) \<and>
     Some ` set vis = set (map tn_id (tg_nodes g)) \<and> distinct (map fst (flow_edges g)) \<and>
     successively (\<lambda>a b. successor (flow_edges g) a = Some b) vis \<and>
     filter (\<lambda>i. i \<notin> set (map snd (flow_edges g))) (map tn_id (tg_nodes g)) = [Some (hd vis)] \<and>
     walk (flow_edges g) (Some (hd vis)) [] = (vis, None)"

lemma flow_filter_same:
  "\<forall>(s, t) \<in> set es. s \<in> A \<and> t \<in> A \<Longrightarrow> filter (\<lambda>(s, t). s \<in> A \<and> t \<in> A) es = es"
  by (auto simp: filter_id_conv)

lemma valid_graph_problems:
  assumes "validate_graph_definition g types = []"
  defines "ids \<equiv> map tn_id (tg_nodes g)" and "es \<equiv> flow_edges g"
  shows "tg_nodes g \<noteq> []" and "distinct ids"
    and "\<forall>n \<in> set (tg_nodes g). \<exists>t. tn_type n = Some t \<and> t \<in> FIXED_NODE_TYPES \<union> types"
    and "\<forall>(s, t) \<in> set es. s \<in> set ids \<and> t \<in> set ids"
    and "distinct (map fst es)"
    and "\<exists>r seen. filter (\<lambda>i. i \<notin> set (map snd es)) ids = [r] \<and> walk es r [] = (seen, None) \<and>
      length seen = card (set ids) \<and> (\<forall>n \<in> set (tg_nodes g). tn_type n = Some ''triage'' \<longrightarrow> tn_id n = r)"
    and "\<exists>n \<in> set (tg_nodes g). tn_type n \<noteq> Some ''triage''"
    and "\<forall>n \<in> set (tg_nodes g). \<forall>(s, t) \<in> set es. s = tn_id n \<longrightarrow> tn_type n \<noteq> Some ''output''"
proof -
  show ne: "tg_nodes g \<noteq> []"
    using assms(1) by (auto simp: validate_graph_definition_def Let_def)
  define good where "good = filter (\<lambda>(s, t). s \<in> set ids \<and> t \<in> set ids) es"
  define roots where "roots = filter (\<lambda>i. i \<notin> set (map snd good)) (remdups ids)"
  define by_type where "by_type = fold (\<lambda>n d. AList.update (tn_id n) (tn_type n) d) (tg_nodes g) []"
  note v = assms(1) [unfolded validate_graph_definition_def Let_def, folded ids_def es_def,
    folded good_def, folded roots_def by_type_def]
  show d: "distinct ids" using v ne by (simp split: if_splits)
  show "\<forall>n \<in> set (tg_nodes g). \<exists>t. tn_type n = Some t \<and> t \<in> FIXED_NODE_TYPES \<union> types"
    using v ne by (auto simp: filter_empty_conv split: if_splits option.splits)
  show e: "\<forall>(s, t) \<in> set es. s \<in> set ids \<and> t \<in> set ids"
    using v ne by (auto simp: filter_empty_conv split: if_splits)
  have g: "good = es" unfolding good_def by (rule flow_filter_same [OF e])
  show "distinct (map fst es)"
    by (rule count_key_one) (use v ne g in \<open>auto simp: list_ex_iff split: if_splits\<close>)
  have l: "length roots = 1" using v ne by (simp split: if_splits)
  then obtain r where r: "roots = [r]" by (auto simp: length_Suc_conv)
  show "\<exists>n \<in> set (tg_nodes g). tn_type n \<noteq> Some ''triage''"
    using v ne by (auto simp: list_all_iff split: if_splits)
  have bt: "(tn_id n, tn_type n) \<in> set by_type \<and> map_of by_type (tn_id n) = Some (tn_type n)"
    if "n \<in> set (tg_nodes g)" for n
    using fold_update_lookup [of tn_id "tg_nodes g" n tn_type "[]"] d that
    by (auto simp: by_type_def ids_def intro: map_of_SomeD)
  show "\<forall>n \<in> set (tg_nodes g). \<forall>(s, t) \<in> set es. s = tn_id n \<longrightarrow> tn_type n \<noteq> Some ''output''"
    using v ne bt by (auto simp: filter_empty_conv split: if_splits)
  have "\<forall>n \<in> set (tg_nodes g). tn_type n = Some ''triage'' \<longrightarrow> tn_id n = r"
    using v ne bt r by (fastforce simp: filter_empty_conv split: if_splits)
  moreover obtain seen where "walk es r [] = (seen, None)" "length seen = card (set ids)"
    using v ne r by (auto split: if_splits prod.splits option.splits)
  moreover have "filter (\<lambda>i. i \<notin> set (map snd es)) ids = [r]"
    using r d g by (simp add: roots_def distinct_remdups_id)
  ultimately show "\<exists>r seen. filter (\<lambda>i. i \<notin> set (map snd es)) ids = [r] \<and> walk es r [] = (seen, None) \<and>
      length seen = card (set ids) \<and> (\<forall>n \<in> set (tg_nodes g). tn_type n = Some ''triage'' \<longrightarrow> tn_id n = r)"
    by blast
qed

lemma successively_pred: "successively R (x # xs) \<Longrightarrow> y \<in> set xs \<Longrightarrow> \<exists>p \<in> set (x # xs). R p y"
proof (induction xs arbitrary: x)
  case (Cons z xs)
  then show ?case by (cases "y = z") fastforce+
qed simp

lemma valid_graph_chain:
  assumes "validate_graph_definition g types = []"
  shows "\<exists>vis. chain_of g vis \<and>
    (\<forall>n \<in> set (tg_nodes g). tn_type n = Some ''triage'' \<longrightarrow> tn_id n = Some (hd vis))"
proof -
  note p = valid_graph_problems [OF assms]
  let ?ids = "map tn_id (tg_nodes g)"
  let ?es = "flow_edges g"
  from p(6) obtain r vis where r: "filter (\<lambda>i. i \<notin> set (map snd ?es)) ?ids = [r]"
    "walk ?es r [] = (vis, None)" "length vis = card (set ?ids)"
    "\<forall>n \<in> set (tg_nodes g). tn_type n = Some ''triage'' \<longrightarrow> tn_id n = r" by blast
  have "0 < length vis" using r(3) p(1) by (simp add: card_gt_0_iff)
  then have ne: "vis \<noteq> []" by simp
  obtain r0 where r0: "r = Some r0" using r(2) ne by (cases r) auto
  have w: "distinct vis" "successively (\<lambda>a b. successor ?es a = Some b) vis" "hd vis = r0"
    using walk_facts [OF r(2)] r0 by auto
  have "r \<in> set (filter (\<lambda>i. i \<notin> set (map snd ?es)) ?ids)" unfolding r(1) by simp
  then have root: "Some (hd vis) \<in> set ?ids" using r0 w(3) by simp
  obtain xs where xs: "vis = hd vis # xs" using ne by (cases vis) auto
  have "Some x \<in> set ?ids" if "x \<in> set xs" for x
  proof -
    have "successively (\<lambda>a b. successor ?es a = Some b) (hd vis # xs)" using w(2) xs by simp
    from successively_pred [OF this that] obtain q where "successor ?es q = Some x" by blast
    from successor_target [OF this] p(4) show ?thesis by (auto simp del: set_map)
  qed
  then have sub: "Some ` set vis \<subseteq> set ?ids" using root by (subst xs) auto
  have c: "card (Some ` set vis) = card (set ?ids)"
    using w(1) r(3) by (simp add: card_image distinct_card)
  have "Some ` set vis = set ?ids" by (rule card_subset_eq [OF finite_set sub c])
  then have "chain_of g vis" using ne w p(2,5) r(1,2) r0 by (simp add: chain_of_def)
  then show ?thesis using r(4) r0 w(3) by blast
qed

definition node_at :: "template_graph \<Rightarrow> pystr \<Rightarrow> template_node" where
  "node_at g i = the (map_of (map (\<lambda>n. (tn_id n, n)) (tg_nodes g)) (Some i))"

definition step_of :: "template_graph \<Rightarrow> pystr \<Rightarrow> route_step" where
  "step_of g i = \<lparr>rs_type = (case tn_type (node_at g i) of None \<Rightarrow> [] | Some t \<Rightarrow> t), rs_node = i,
     rs_config = node_config (node_at g i)\<rparr>"

lemma node_at_known:
  assumes "chain_of g vis" and "i \<in> set vis"
  shows "map_of (map (\<lambda>n. (tn_id n, n)) (rev (tg_nodes g))) (Some i) = Some (node_at g i) \<and>
    node_at g i \<in> set (tg_nodes g) \<and> tn_id (node_at g i) = Some i"
proof -
  have d: "distinct (map fst (map (\<lambda>n. (tn_id n, n)) (tg_nodes g)))"
    using assms(1) by (simp add: chain_of_def comp_def)
  have "Some i \<in> set (map tn_id (tg_nodes g))" using assms by (auto simp: chain_of_def simp del: set_map)
  then obtain n where n: "n \<in> set (tg_nodes g)" "tn_id n = Some i" by auto
  have "map_of (map (\<lambda>n. (tn_id n, n)) (tg_nodes g)) (Some i) = Some n"
    by (rule map_of_is_SomeI [OF d]) (use n in force)
  then show ?thesis using n map_of_rev_distinct [OF d] by (simp add: node_at_def rev_map)
qed

lemma node_at_node:
  assumes "chain_of g vis" and "n \<in> set (tg_nodes g)"
  shows "\<exists>i \<in> set vis. tn_id n = Some i \<and> node_at g i = n"
proof -
  have "tn_id n \<in> Some ` set vis" using assms by (auto simp: chain_of_def)
  then obtain i where i: "i \<in> set vis" "tn_id n = Some i" by auto
  then have "node_at g i = n"
    using node_at_known [OF assms(1) i(1)] assms by (auto simp: chain_of_def distinct_map inj_on_def)
  then show ?thesis using i by blast
qed

lemma build_route_plan_chain:
  assumes "chain_of g vis"
  shows "build_route_plan g = Inr (map (step_of g) (filter (\<lambda>i. tn_type (node_at g i) \<noteq> Some ''triage'') vis))"
proof -
  have c: "distinct (map tn_id (tg_nodes g))" "distinct (map fst (flow_edges g))"
    "filter (\<lambda>i. i \<notin> set (map snd (flow_edges g))) (map tn_id (tg_nodes g)) = [Some (hd vis)]"
    "walk (flow_edges g) (Some (hd vis)) [] = (vis, None)"
    using assms by (simp_all add: chain_of_def)
  have roots: "filter (\<lambda>i. i \<notin> set (map snd (flow_edges g))) (rev (remdups (rev (map tn_id (tg_nodes g))))) =
      [Some (hd vis)]"
    using c(1,3) by (simp add: distinct_remdups_id del: set_map)
  have w: "walk (rev (flow_edges g)) (Some (hd vis)) [] = (vis, None)"
    using c(4) walk_cong [of "rev (flow_edges g)" "flow_edges g"] successor_rev [OF c(2)] by simp
  note k = node_at_known [OF assms]
  have "find (\<lambda>i. map_of (map (\<lambda>n. (tn_id n, n)) (rev (tg_nodes g))) (Some i) = None) vis = None"
    using k by (auto simp: find_None_iff)
  moreover have "filter (\<lambda>i. tn_type (the (map_of (map (\<lambda>n. (tn_id n, n)) (rev (tg_nodes g))) (Some i))) \<noteq> Some ''triage'') vis =
      filter (\<lambda>i. tn_type (node_at g i) \<noteq> Some ''triage'') vis"
    using k by (intro filter_cong) auto
  ultimately show ?thesis
    unfolding build_route_plan_def Let_def roots using w k by (simp add: step_of_def)
qed

lemma filter_distinct_head:
  assumes "distinct vis" and "vis \<noteq> []" and "\<And>i. i \<in> set vis \<Longrightarrow> \<not> P i \<Longrightarrow> i = hd vis"
  shows "filter P vis = (if P (hd vis) then vis else tl vis)"
proof (cases vis)
  case (Cons x xs)
  then have "filter P xs = xs" using assms by (auto simp: filter_id_conv)
  then show ?thesis using Cons by simp
qed (use assms in simp)

lemma successively_tl: "successively R xs \<Longrightarrow> successively R (tl xs)"
  by (cases xs) (auto simp: successively_Cons)

lemma successively_butlast: "successively R xs \<Longrightarrow> x \<in> set (butlast xs) \<Longrightarrow> \<exists>y. R x y"
  by (induction xs rule: induct_list012) (auto split: if_splits)

text \<open>C32: a template graph that validation finds no problem in is run as a plan of all its nodes but
  triage: each once, with its agent type and its overrides, in the order its flow edges give, an
  output step last.\<close>

theorem validated_graph_plan:
  assumes "validate_graph_definition g types = []"
  shows "\<exists>plan. build_route_plan g = Inr plan \<and> plan \<noteq> [] \<and> distinct (map rs_node plan) \<and>
    (\<lambda>s. (Some (rs_node s), Some (rs_type s), rs_config s)) ` set plan =
      (\<lambda>n. (tn_id n, tn_type n, node_config n)) ` {n \<in> set (tg_nodes g). tn_type n \<noteq> Some ''triage''} \<and>
    successively (\<lambda>s t. (Some (rs_node s), Some (rs_node t)) \<in> set (flow_edges g)) plan \<and>
    (\<forall>s \<in> set (butlast plan). rs_type s \<noteq> ''output'')"
proof -
  note p = valid_graph_problems [OF assms]
  from valid_graph_chain [OF assms] obtain vis where c: "chain_of g vis"
    and t: "\<forall>n \<in> set (tg_nodes g). tn_type n = Some ''triage'' \<longrightarrow> tn_id n = Some (hd vis)" by blast
  let ?P = "\<lambda>i. tn_type (node_at g i) \<noteq> Some ''triage''"
  let ?ws = "filter ?P vis"
  note k = node_at_known [OF c]
  have v: "distinct vis" "vis \<noteq> []" "successively (\<lambda>a b. successor (flow_edges g) a = Some b) vis"
    using c by (simp_all add: chain_of_def)
  have "?ws = (if ?P (hd vis) then vis else tl vis)"
    by (rule filter_distinct_head [OF v(1,2)]) (use k t in fastforce)
  then have suc: "successively (\<lambda>a b. successor (flow_edges g) a = Some b) ?ws"
    using v(3) by (auto intro: successively_tl)
  have edge: "(Some a, Some b) \<in> set (flow_edges g)" if "successor (flow_edges g) a = Some b" for a b
    using that by (auto simp: successor_def split: option.splits dest: map_of_SomeD)
  have typed: "tn_type (node_at g i) = Some (rs_type (step_of g i))" if "i \<in> set vis" for i
    using k [OF that] p(3) by (fastforce simp: step_of_def)
  have "build_route_plan g = Inr (map (step_of g) ?ws)" by (rule build_route_plan_chain [OF c])
  moreover have "?ws \<noteq> []"
    using p(7) node_at_node [OF c] by (auto simp: filter_empty_conv)
  moreover have "distinct (map rs_node (map (step_of g) ?ws))"
    using v(1) by (simp add: comp_def step_of_def)
  moreover have "(\<lambda>s. (Some (rs_node s), Some (rs_type s), rs_config s)) ` set (map (step_of g) ?ws) =
      (\<lambda>n. (tn_id n, tn_type n, node_config n)) ` {n \<in> set (tg_nodes g). tn_type n \<noteq> Some ''triage''}" (is "?L = ?R")
  proof -
    have "?L = (\<lambda>i. (tn_id (node_at g i), tn_type (node_at g i), node_config (node_at g i))) ` set ?ws"
      using typed k by (auto simp: image_image step_of_def intro!: image_cong)
    also have "\<dots> = (\<lambda>n. (tn_id n, tn_type n, node_config n)) ` node_at g ` set ?ws" by (simp add: image_image)
    also have "node_at g ` set ?ws = {n \<in> set (tg_nodes g). tn_type n \<noteq> Some ''triage''}"
      using k node_at_node [OF c] by fastforce
    finally show ?thesis .
  qed
  moreover have "successively (\<lambda>s t. (Some (rs_node s), Some (rs_node t)) \<in> set (flow_edges g)) (map (step_of g) ?ws)"
    using suc by (auto simp: successively_map step_of_def intro: edge elim!: successively_mono)
  moreover have "\<forall>s \<in> set (butlast (map (step_of g) ?ws)). rs_type s \<noteq> ''output''"
  proof
    fix s assume "s \<in> set (butlast (map (step_of g) ?ws))"
    then obtain i where i: "s = step_of g i" "i \<in> set (butlast ?ws)" by (auto simp: map_butlast [symmetric])
    then have m: "i \<in> set vis" by (auto dest: in_set_butlastD)
    from successively_butlast [OF suc i(2)] edge obtain b where "(Some i, Some b) \<in> set (flow_edges g)" by blast
    then have "tn_type (node_at g i) \<noteq> Some ''output''" using p(8) k [OF m] by fastforce
    then show "rs_type s \<noteq> ''output''" using typed [OF m] i(1) by simp
  qed
  ultimately show ?thesis by blast
qed

definition demo_graph :: template_graph where
  "demo_graph = \<lparr>
     tg_nodes = map (\<lambda>(i, t). \<lparr>tn_id = Some i, tn_type = Some t, tn_fields = [(''effort'', JStr ''high'')]\<rparr>)
       [(''c'', ''qa''), (''t'', ''triage''), (''a'', ''developer''), (''o'', ''output''), (''b'', ''reviewer'')],
     tg_edges = map (\<lambda>(s, t, k). \<lparr>te_source = Some s, te_target = Some t, te_type = k\<rparr>)
       [(''a'', ''b'', None), (''b'', ''c'', Some (JStr ''flow'')), (''t'', ''a'', None), (''c'', ''o'', None),
        (''b'', ''a'', Some (JStr ''note''))],
     tg_agent_tools = [(''developer'', [''Read''])]\<rparr>"

lemma validated_graph_plan_witness:
  "validate_graph_definition demo_graph {} = [] \<and>
   (\<exists>plan. build_route_plan demo_graph = Inr plan \<and> distinct (map rs_node plan))"
proof -
  have v: "validate_graph_definition demo_graph {} = []" by code_simp
  from validated_graph_plan [OF v] v show ?thesis by blast
qed

lemma demo_plan_types:
  "(case build_route_plan demo_graph of Inl _ \<Rightarrow> [] | Inr plan \<Rightarrow> map rs_type plan) =
   [''developer'', ''reviewer'', ''qa'', ''output'']"
  by code_simp

subsection \<open>A route is run step by step\<close>

text \<open>The keys the dispatcher returns when each step's node advances the cursor as it finishes.\<close>

lemma skip_qa_ge: "cursor \<le> skip_qa plan cursor qa"
  by (induction plan cursor qa rule: skip_qa.induct) (subst skip_qa.simps, auto)

lemma next_route_end: "next_route st = ''end'' \<longleftrightarrow> length (route_plan st) \<le> skip_qa (route_plan st) (route_cursor st) (needs_qa st)"
  by (auto simp: next_route_def Let_def step_target_def)

function route_trace :: "route_state \<Rightarrow> pystr list" where
  "route_trace st = (if next_route st = ''end'' then [] else next_route st # route_trace (advance st))"
  by pat_completeness auto

termination
proof (relation "measure (\<lambda>st. length (route_plan st) - route_cursor st)")
  fix st assume "next_route st \<noteq> ''end''"
  then show "(advance st, st) \<in> measure (\<lambda>st. length (route_plan st) - route_cursor st)"
    using skip_qa_ge [of "route_cursor st" "route_plan st" "needs_qa st"]
    by (simp add: next_route_end advance_def)
qed simp

declare route_trace.simps [simp del]

definition step_runs :: "bool \<Rightarrow> route_step \<Rightarrow> bool" where
  "step_runs qa s \<longleftrightarrow> (step_target s = ''qa'' \<longrightarrow> qa)"

lemma skip_qa_drop:
  "filter (step_runs qa) (drop cursor plan) =
     (let c = skip_qa plan cursor qa in if c < length plan then plan ! c # filter (step_runs qa) (drop (Suc c) plan) else [])"
proof (induction plan cursor qa rule: skip_qa.induct)
  case (1 plan cursor qa)
  show ?case
  proof (cases "cursor < length plan")
    case False
    then show ?thesis by (subst skip_qa.simps) simp
  next
    case lt: True
    then have dr: "drop cursor plan = plan ! cursor # drop (Suc cursor) plan" by (simp add: Cons_nth_drop_Suc)
    show ?thesis
    proof (cases "step_target (plan ! cursor) = ''qa'' \<and> \<not> qa")
      case True
      with lt have e: "skip_qa plan cursor qa = skip_qa plan (cursor + 1) qa" by (subst skip_qa.simps) simp
      have "\<not> step_runs qa (plan ! cursor)" using True by (simp add: step_runs_def)
      then have "filter (step_runs qa) (drop cursor plan) = filter (step_runs qa) (drop (cursor + 1) plan)" by (simp add: dr)
      also have "\<dots> = (let c = skip_qa plan (cursor + 1) qa in if c < length plan then plan ! c # filter (step_runs qa) (drop (Suc c) plan) else [])"
        by (rule 1) (use lt True in simp)
      finally show ?thesis unfolding e .
    next
      case False
      with lt show ?thesis by (subst skip_qa.simps) (auto simp: dr step_runs_def Let_def)
    qed
  qed
qed

lemma route_trace_plan:
  "route_trace st = map step_target (filter (step_runs (needs_qa st)) (drop (route_cursor st) (route_plan st)))"
proof (induction st rule: route_trace.induct)
  case (1 st)
  let ?c = "skip_qa (route_plan st) (route_cursor st) (needs_qa st)"
  show ?case
  proof (cases "next_route st = ''end''")
    case True
    then show ?thesis
      by (subst route_trace.simps, subst skip_qa_drop) (simp add: next_route_end Let_def)
  next
    case False
    then have lt: "?c < length (route_plan st)" by (simp add: next_route_end not_le)
    then have "next_route st = step_target (route_plan st ! ?c)" by (simp add: next_route_def)
    then show ?thesis using 1 [OF False] False lt
      by (subst route_trace.simps, subst skip_qa_drop) (simp add: advance_def Let_def)
  qed
qed

text \<open>C33: a job is dispatched to exactly the steps of its plan from the cursor on, each once and in
  order, the QA steps left out when triage decided against QA; then the route ends.\<close>

theorem route_runs_plan:
  "route_trace st = map step_target (filter (step_runs (needs_qa st)) (drop (route_cursor st) (route_plan st)))"
  by (rule route_trace_plan)

end
