(* ===== verification/Row_Behaviour.thy ===== *)
theory Row_Behaviour
  imports Template_Routes
begin

text \<open>
  What a template's row and an agent's row say of the jobs that run them
  (\<open>embry0/workflows/row_behaviour.py\<close>), and the checks of the values an operator writes. A column
  that is missing and one that is NULL are both None. A check's refusal is a constructor instead of
  its wording; the values it names are its arguments.
\<close>

definition JOB_KINDS :: "pystr list" where "JOB_KINDS = [''code'', ''research'', ''analysis'', ''ops'']"
definition DELIVERS_MAX :: int where "DELIVERS_MAX = 300"
definition NAME_MAX :: int where "NAME_MAX = 100"
definition STATIONS :: "pystr list" where
  "STATIONS = [''desk'', ''anvil'', ''lectern'', ''alchemy_table'', ''map_table'']"
definition DEFAULT_STATION :: pystr where "DEFAULT_STATION = ''desk''"

record template_row =
  tr_name :: "pystr option"
  tr_fixed_route :: "bool option"
  tr_offered :: "bool option"
  tr_job_kind :: "pystr option"
  tr_default_for_kind :: "pystr option"
  tr_delivers :: "pystr option"
  tr_leader_agent :: "pystr option"
  tr_graph :: "template_graph option"

definition empty_row :: template_row where
  "empty_row = \<lparr>tr_name = None, tr_fixed_route = None, tr_offered = None, tr_job_kind = None,
     tr_default_for_kind = None, tr_delivers = None, tr_leader_agent = None, tr_graph = None\<rparr>"

text \<open>\<open>WORKFLOW_PIPELINES\<close>: the pipelines the code defines, which have no row of their own.\<close>

definition workflow_row :: "pystr \<Rightarrow> pystr \<Rightarrow> pystr \<Rightarrow> template_row" where
  "workflow_row name agent what =
     empty_row\<lparr>tr_name := Some name, tr_leader_agent := Some agent, tr_delivers := Some what\<rparr>"

definition WORKFLOW_PIPELINES :: "template_row dict" where
  "WORKFLOW_PIPELINES =
     [(''qa'', workflow_row ''qa'' ''qa'' ''a test report''),
      (''pr-review'', workflow_row ''pr-review'' ''pr-reviewer'' ''a review on the pull request''),
      (''onboard'', workflow_row ''onboard'' ''onboarding'' ''a test setup for the repository'')]"

subsection \<open>What a template's row says\<close>

text \<open>\<open>_column\<close> of a row that may itself be missing.\<close>

definition column :: "template_row option \<Rightarrow> (template_row \<Rightarrow> 'a option) \<Rightarrow> 'a \<Rightarrow> 'a" where
  "column row field dflt =
     (case row of None \<Rightarrow> dflt | Some r \<Rightarrow> (case field r of None \<Rightarrow> dflt | Some v \<Rightarrow> v))"

definition fixed_route :: "template_row option \<Rightarrow> bool" where
  "fixed_route row = column row tr_fixed_route False"

definition offered_to_triage :: "template_row option \<Rightarrow> bool" where
  "offered_to_triage row = column row tr_offered True"

definition node_type :: "template_node \<Rightarrow> pystr" where
  "node_type n = (case tn_type n of None \<Rightarrow> [] | Some t \<Rightarrow> t)"

definition graph_nodes :: "template_graph option \<Rightarrow> template_node list" where
  "graph_nodes g = (case g of None \<Rightarrow> [] | Some g \<Rightarrow> tg_nodes g)"

definition derived_kind :: "template_graph option \<Rightarrow> pystr option" where
  "derived_kind g =
     (let steps = map node_type (filter (\<lambda>n. tn_type n \<notin> {Some ''triage'', Some ''output''}) (graph_nodes g))
      in if steps \<noteq> [] \<and> list_all (\<lambda>s. s \<in> set SPECIALIST_AGENT_TYPES) steps then Some ''analysis'' else None)"

definition or_else :: "pystr option \<Rightarrow> pystr \<Rightarrow> pystr" where
  "or_else v d = (case v of None \<Rightarrow> d | Some s \<Rightarrow> if s = [] then d else s)"

definition recorded_kind :: "template_row option \<Rightarrow> pystr option" where
  "recorded_kind row =
     (let r = (case row of None \<Rightarrow> empty_row | Some r \<Rightarrow> r);
          said = or_else (tr_default_for_kind r) (or_else (tr_job_kind r) [])
      in if said = [] then derived_kind (tr_graph r) else Some said)"

definition delivers :: "template_row option \<Rightarrow> pystr" where
  "delivers row = strip (column row tr_delivers [])"

definition leader :: "template_row option \<Rightarrow> pystr option" where
  "leader row = (let v = column row tr_leader_agent [] in if v = [] then None else Some v)"

datatype route_problem =
    Not_A_Code_Kind pystr pystr
  | No_Coding_Step pystr
  | Steps_Missing pystr "pystr list"

definition code_job_problem :: "template_row \<Rightarrow> route_problem option" where
  "code_job_problem row =
     (let name = or_else (tr_name row) []; kind = recorded_kind (Some row)
      in case kind of
           Some k \<Rightarrow> if k \<noteq> ''code'' then Some (Not_A_Code_Kind name k)
                      else if list_ex (\<lambda>n. node_type n \<in> set CODING_AGENT_TYPES) (graph_nodes (tr_graph row)) then None
                      else Some (No_Coding_Step name)
         | None \<Rightarrow> if list_ex (\<lambda>n. node_type n \<in> set CODING_AGENT_TYPES) (graph_nodes (tr_graph row)) then None
                   else Some (No_Coding_Step name))"

definition full_pipeline_problem :: "template_row \<Rightarrow> route_problem option" where
  "full_pipeline_problem row =
     (let name = or_else (tr_name row) [];
          steps = map node_type (graph_nodes (tr_graph row));
          missing = map fst (filter (\<lambda>(_, present). \<not> present)
            [(''review'', list_ex (\<lambda>s. s \<in> set REVIEW_AGENT_TYPES) steps), (''QA'', QA_AGENT_TYPE \<in> set steps)])
      in if missing = [] then None else Some (Steps_Missing name missing))"

subsection \<open>What an agent's row says\<close>

definition station :: "pystr option \<Rightarrow> pystr" where
  "station v = (let s = (case v of None \<Rightarrow> DEFAULT_STATION | Some s \<Rightarrow> s)
                in if s \<in> set STATIONS then s else DEFAULT_STATION)"

record quest_choice =
  offered :: bool
  quest_of :: "pystr option"

definition quest :: "pystr option \<Rightarrow> pystr set option \<Rightarrow> quest_choice" where
  "quest v templates =
     (case v of
        None \<Rightarrow> \<lparr>offered = False, quest_of = None\<rparr>
      | Some s \<Rightarrow>
          (let name = strip s
           in if name = [] then \<lparr>offered = True, quest_of = None\<rparr>
              else case templates of
                     None \<Rightarrow> \<lparr>offered = True, quest_of = Some name\<rparr>
                   | Some known \<Rightarrow> if name \<notin> known then \<lparr>offered = False, quest_of = None\<rparr>
                                   else \<lparr>offered = True, quest_of = Some name\<rparr>))"

subsection \<open>Checking a value an operator writes\<close>

datatype write_error =
    Bad_Kind json
  | Not_Text json
  | Too_Long nat
  | Not_One_Line
  | Not_A_Name json
  | Empty_Name
  | Bad_Station json

definition checked_job_kind :: "json \<Rightarrow> write_error + pystr option" where
  "checked_job_kind v =
     (case v of
        JNull \<Rightarrow> Inr None
      | JStr s \<Rightarrow> if s \<in> set JOB_KINDS then Inr (Some s) else Inl (Bad_Kind v)
      | _ \<Rightarrow> Inl (Bad_Kind v))"

definition checked_delivers :: "json \<Rightarrow> write_error + pystr" where
  "checked_delivers v =
     (case v of
        JStr s \<Rightarrow>
          (let text = strip s
           in if DELIVERS_MAX < int (str_len text) then Inl (Too_Long (str_len text))
              else if list_ex (\<lambda>c. ord c < 32) text then Inl Not_One_Line
              else Inr text)
      | _ \<Rightarrow> Inl (Not_Text v))"

definition checked_name :: "json \<Rightarrow> bool \<Rightarrow> write_error + pystr option" where
  "checked_name v empty_ok =
     (case v of
        JNull \<Rightarrow> Inr None
      | JStr s \<Rightarrow>
          (let name = strip s
           in if name = [] \<and> \<not> empty_ok then Inl Empty_Name
              else if NAME_MAX < int (str_len name) then Inl (Too_Long (str_len name))
              else Inr (Some name))
      | _ \<Rightarrow> Inl (Not_A_Name v))"

definition checked_leader_agent :: "json \<Rightarrow> write_error + pystr option" where
  "checked_leader_agent v = checked_name v False"

definition checked_quest_template :: "json \<Rightarrow> write_error + pystr option" where
  "checked_quest_template v = checked_name v True"

definition checked_station :: "json \<Rightarrow> write_error + pystr" where
  "checked_station v =
     (case v of JStr s \<Rightarrow> if s \<in> set STATIONS then Inr s else Inl (Bad_Station v) | _ \<Rightarrow> Inl (Bad_Station v))"

text \<open>The four checks below answer whether there is a problem; the wording names only their arguments.\<close>

definition leader_problem :: "pystr option \<Rightarrow> pystr set option \<Rightarrow> bool" where
  "leader_problem v agent_types =
     (case v of None \<Rightarrow> False | Some a \<Rightarrow> (case agent_types of None \<Rightarrow> False | Some T \<Rightarrow> a \<notin> T))"

definition untemplated_task_problem :: "pystr \<Rightarrow> pystr option \<Rightarrow> bool" where
  "untemplated_task_problem agent_type v \<longleftrightarrow> v = Some [] \<and> agent_type \<notin> set CODING_AGENT_TYPES"

definition template_name_problem :: "pystr option \<Rightarrow> bool" where
  "template_name_problem name =
     (case name of None \<Rightarrow> False | Some n \<Rightarrow> list_ex (\<lambda>(k, _). k = strip n) WORKFLOW_PIPELINES)"

definition quest_template_problem :: "pystr option \<Rightarrow> pystr set option \<Rightarrow> bool" where
  "quest_template_problem v names =
     (case v of None \<Rightarrow> False
      | Some s \<Rightarrow> s \<noteq> [] \<and> (case names of None \<Rightarrow> False | Some N \<Rightarrow> s \<notin> N))"

definition pipelines_by_name :: "template_row list \<Rightarrow> template_row dict" where
  "pipelines_by_name templates =
     fold (\<lambda>row rows. case tr_name row of None \<Rightarrow> rows
                      | Some n \<Rightarrow> if n = [] then rows else AList.update n row rows)
       templates WORKFLOW_PIPELINES"

subsection \<open>Properties\<close>

text \<open>A template that passes validation and the checks a policy makes before it sends a code job
  there runs the job as one: it is recorded as a code job or not at all, its route has a step that
  codes, and the coding agent recorded is that step's; and under the full-pipeline pin the route
  also reviews and, once triage wants it, tests.\<close>

lemma policy_route_codes:
  assumes "validate_graph_definition g types = []" and "tr_graph row = Some g" and "code_job_problem row = None"
    and "route_plan st = plan" and "route_cursor st = 0" and "build_route_plan g = Inr plan"
  shows "recorded_kind (Some row) \<in> {None, Some ''code''} \<and> ''developer'' \<in> set (route_trace st) \<and>
    (\<exists>s \<in> set plan. rs_type s = coding_agent_of plan \<and> step_target s = ''developer'') \<and>
    (full_pipeline_problem row = None \<and> needs_qa st \<longrightarrow> {''review'', ''qa''} \<subseteq> set (route_trace st))"
proof -
  note chain = valid_graph_chain [OF assms(1)]
  have step: "\<exists>s \<in> set plan. rs_type s = node_type n"
    if n: "n \<in> set (tg_nodes g)" and t: "node_type n \<noteq> ''triage''" for n
  proof -
    from chain obtain vis where c: "chain_of g vis" by blast
    from node_at_node [OF c n] obtain i where i: "i \<in> set vis" "node_at g i = n" by blast
    have "tn_type n \<noteq> Some ''triage''" using t by (auto simp: node_type_def)
    then have "step_of g i \<in> set plan" using build_route_plan_chain [OF c] assms(6) i by auto
    then show ?thesis using i(2) by (force simp: step_of_def node_type_def)
  qed
  have trace: "step_target s \<in> set (route_trace st)"
    if "s \<in> set plan" "step_target s = ''qa'' \<longrightarrow> needs_qa st" for s
    using that assms(4,5) by (auto simp: route_trace_plan step_runs_def)
  have code: "recorded_kind (Some row) \<in> {None, Some ''code''}"
    "\<exists>n \<in> set (tg_nodes g). node_type n \<in> set CODING_AGENT_TYPES"
    using assms(2,3) by (auto simp: code_job_problem_def Let_def graph_nodes_def list_ex_iff split: option.splits if_splits)
  then obtain n where n: "n \<in> set (tg_nodes g)" "node_type n \<in> set CODING_AGENT_TYPES" by blast
  have nt: "''triage'' \<notin> set CODING_AGENT_TYPES" "''triage'' \<notin> set REVIEW_AGENT_TYPES" "QA_AGENT_TYPE \<noteq> ''triage''"
    by code_simp+
  obtain s where s: "s \<in> set plan" "rs_type s \<in> set CODING_AGENT_TYPES"
    using step [OF n(1)] n(2) nt(1) by metis
  then obtain c where c: "find (\<lambda>s. rs_type s \<in> set CODING_AGENT_TYPES) plan = Some c"
    by (cases "find (\<lambda>s. rs_type s \<in> set CODING_AGENT_TYPES) plan") (auto simp: find_None_iff)
  then have p: "c \<in> set plan" "rs_type c \<in> set CODING_AGENT_TYPES" by (auto simp: find_Some_iff)
  then have dev: "step_target c = ''developer''" by (simp add: step_target_def)
  have d: "''developer'' \<in> set (route_trace st)" using trace [OF p(1)] dev by simp
  have full: "{''review'', ''qa''} \<subseteq> set (route_trace st)"
    if "full_pipeline_problem row = None \<and> needs_qa st"
  proof -
    from that assms(2) obtain r q where rq: "r \<in> set (tg_nodes g)" "node_type r \<in> set REVIEW_AGENT_TYPES"
      "q \<in> set (tg_nodes g)" "node_type q = QA_AGENT_TYPE"
      by (fastforce simp: full_pipeline_problem_def Let_def graph_nodes_def list_ex_iff split: if_splits)
    from step [OF rq(1)] rq(2) nt(2) obtain sr where sr: "sr \<in> set plan" "rs_type sr \<in> set REVIEW_AGENT_TYPES" by metis
    from step [OF rq(3)] rq(4) nt(3) obtain sq where sq: "sq \<in> set plan" "rs_type sq = QA_AGENT_TYPE" by metis
    have "step_target sr = ''review''" "step_target sq = ''qa''"
      using sr(2) sq(2) by (auto simp: step_target_def REVIEW_AGENT_TYPES_def CODING_AGENT_TYPES_def QA_AGENT_TYPE_def)
    then show ?thesis using trace [OF sr(1)] trace [OF sq(1)] that by simp
  qed
  have "coding_agent_of plan = rs_type c" using c by (simp add: coding_agent_of_def)
  then show ?thesis using code(1) d p(1) dev full by metis
qed

definition demo_row :: template_row where
  "demo_row = empty_row\<lparr>tr_name := Some ''team route'', tr_graph := Some demo_graph\<rparr>"

lemma policy_route_codes_witness:
  "\<exists>plan. build_route_plan demo_graph = Inr plan \<and>
     {''developer'', ''review'', ''qa''} \<subseteq> set (route_trace \<lparr>route_plan = plan, route_cursor = 0, needs_qa = True\<rparr>)"
proof -
  have v: "validate_graph_definition demo_graph {} = []" by code_simp
  obtain plan where plan: "build_route_plan demo_graph = Inr plan"
    using valid_graph_chain [OF v] build_route_plan_chain by blast
  have r: "tr_graph demo_row = Some demo_graph" "code_job_problem demo_row = None" "full_pipeline_problem demo_row = None"
    by (simp add: demo_row_def) code_simp+
  show ?thesis
    using policy_route_codes [OF v r(1,2) _ _ plan, of "\<lparr>route_plan = plan, route_cursor = 0, needs_qa = True\<rparr>"] r(3) plan
    by simp
qed

lemma template_name_reserved:
  assumes "\<forall>row \<in> set rows. \<not> template_name_problem (tr_name row)"
    and "map_of WORKFLOW_PIPELINES k = Some w"
  shows "map_of (pipelines_by_name rows) k = Some w"
proof -
  have k: "strip k = k" "list_ex (\<lambda>(n, _). n = k) WORKFLOW_PIPELINES"
    using assms(2) by (auto simp: WORKFLOW_PIPELINES_def intro!: strip_id split: if_splits)
      (simp_all add: printable_def ord_def)
  have "tr_name row \<noteq> Some k" if "row \<in> set rows" for row
    using assms(1) that k by (auto simp: template_name_problem_def)
  then show ?thesis
    unfolding pipelines_by_name_def using assms(2)
    by (induction rows rule: rev_induct) (auto split: option.split)
qed

text \<open>C34: what a checked write stores is within its column's bounds and checks to itself again.\<close>

theorem checked_writes_stable:
  "(\<forall>v t. checked_delivers v = Inr t \<longrightarrow>
      checked_delivers (JStr t) = Inr t \<and> int (str_len t) \<le> 300 \<and> (\<forall>c \<in> set t. 32 \<le> ord c)) \<and>
   (\<forall>v e n. checked_name v e = Inr (Some n) \<longrightarrow>
      checked_name (JStr n) e = Inr (Some n) \<and> int (str_len n) \<le> 100 \<and> (n = [] \<longrightarrow> e)) \<and>
   (\<forall>v k. checked_job_kind v = Inr (Some k) \<longrightarrow> k \<in> set JOB_KINDS \<and> checked_job_kind (JStr k) = Inr (Some k)) \<and>
   (\<forall>v s. checked_station v = Inr s \<longrightarrow> station (Some s) = s)"
  by (auto simp: checked_delivers_def checked_name_def checked_job_kind_def checked_station_def station_def
      DELIVERS_MAX_def NAME_MAX_def Let_def list_ex_iff strip_id not_less split: json.splits if_splits)
    (metis not_less)

lemma checked_writes_stable_witness:
  "checked_delivers (JStr '' a report '') = Inr ''a report'' \<and> checked_delivers (JStr ''a report'') = Inr ''a report''"
proof -
  have "(case checked_delivers (JStr '' a report '') of Inr t \<Rightarrow> t = ''a report'' | Inl _ \<Rightarrow> False)" by code_simp
  then have c: "checked_delivers (JStr '' a report '') = Inr ''a report''" by (auto split: sum.splits)
  from checked_writes_stable c show ?thesis by blast
qed

end
