(* ===== verification/Budget.thy ===== *)
theory Budget
  imports Py_Value
begin

text \<open>
  The three layers that bound what jobs spend: the per-job cap
  (\<open>embry0/orchestration/budget.py\<close>, checked after every agent turn by \<open>nodes/agent.py\<close> and routed on
  by \<open>routing/conditions.py\<close>), the daily and monthly caps and the hourly limit per actor
  (\<open>embry0/orchestration/budget_gate.py\<close>, the actors in \<open>dispatch_actors.py\<close>). Amounts are floats. The
  job's state is a record of the keys the code reads: None is a key that is missing or null. What the
  database answers is an argument; a failure is transient, when the gate lets the job through, or a
  defect, which propagates.
\<close>

subsection \<open>The per-job cap\<close>

definition DEFAULT_JOB_BUDGET_USD :: pyfloat where "DEFAULT_JOB_BUDGET_USD = Fin 10"

record budget_check =
  bc_allowed :: bool
  bc_remaining :: pyfloat
  bc_overrun :: pyfloat

definition check_budget :: "pyfloat \<Rightarrow> pyfloat \<Rightarrow> pystr \<Rightarrow> budget_check" where
  "check_budget current_cost max_budget overrun_mode =
     (let overrun = fmax (Fin 0) (fsub current_cost max_budget);
          remaining = fmax (Fin 0) (fsub max_budget current_cost)
      in \<lparr>bc_allowed = (if flt (Fin 0) overrun then overrun_mode = ''soft'' else True),
          bc_remaining = remaining, bc_overrun = overrun\<rparr>)"

definition effective_overrun_mode :: "pystr \<Rightarrow> pystr option \<Rightarrow> pystr" where
  "effective_overrun_mode fleet_mode job_mode = (if job_mode = Some ''hard'' then ''hard'' else fleet_mode)"

text \<open>An amount as \<open>float()\<close> takes it: a number, or a value it refuses.\<close>

datatype amount = Amount pyfloat | Not_A_Number

record budget_state =
  bs_pipeline_budget :: "pyfloat option"
  bs_max_budget :: "pyfloat option"
  bs_allowance :: "amount option"
  bs_total_cost :: "pyfloat option"
  bs_cap :: "pyfloat option"
  bs_spent :: "pyfloat option"
  bs_overrun :: "pyfloat option"

definition or_zero :: "pyfloat option \<Rightarrow> pyfloat" where
  "or_zero v = (case v of None \<Rightarrow> Fin 0 | Some f \<Rightarrow> f)"

definition budget_allowance :: "budget_state \<Rightarrow> pyfloat" where
  "budget_allowance st =
     (case bs_allowance st of
        None \<Rightarrow> Fin 0
      | Some Not_A_Number \<Rightarrow> Fin 0
      | Some (Amount a) \<Rightarrow> if flt (Fin 0) a then a else Fin 0)"

definition wanted_cap :: "budget_state \<Rightarrow> pyfloat" where
  "wanted_cap st =
     (case bs_pipeline_budget st of
        Some b \<Rightarrow> b
      | None \<Rightarrow> (case bs_max_budget st of Some b \<Rightarrow> b | None \<Rightarrow> DEFAULT_JOB_BUDGET_USD))"

definition resolve_job_cap :: "budget_state \<Rightarrow> pyfloat \<Rightarrow> bool \<Rightarrow> pyfloat" where
  "resolve_job_cap st fleet_cap may_exceed =
     (let cap = wanted_cap st;
          bounded = (if flt (Fin 0) fleet_cap then fmin cap fleet_cap else cap);
          whole = fadd bounded (budget_allowance st)
      in if flt (Fin 0) fleet_cap \<and> \<not> may_exceed then fmin whole fleet_cap else whole)"

text \<open>The policy a continue is granted under: its keyword arguments.\<close>

record continue_policy =
  cp_fleet_cap :: pyfloat
  cp_extra :: "pyfloat option"
  cp_default_extra :: "pyfloat option"
  cp_may_exceed :: bool
  cp_extra_max :: "pyfloat option"

definition base_cap :: "budget_state \<Rightarrow> pyfloat \<Rightarrow> pyfloat" where
  "base_cap st fleet_cap = resolve_job_cap (st\<lparr>bs_allowance := Some (Amount (Fin 0))\<rparr>) fleet_cap True"

definition given :: "pyfloat option \<Rightarrow> bool" where
  "given v = (case v of None \<Rightarrow> False | Some f \<Rightarrow> flt (Fin 0) f)"

definition continue_adds :: "budget_state \<Rightarrow> continue_policy \<Rightarrow> pyfloat" where
  "continue_adds st p =
     (let base = base_cap st (cp_fleet_cap p);
          more = (if given (cp_extra p) then the (cp_extra p)
                  else if given (cp_default_extra p) then the (cp_default_extra p) else base);
          more = (if given (cp_extra_max p) then fmin more (the (cp_extra_max p)) else more)
      in if flt (Fin 0) (cp_fleet_cap p) \<and> \<not> cp_may_exceed p
         then fmin more (fmax (Fin 0) (fsub (cp_fleet_cap p) (or_zero (bs_total_cost st)))) else more)"

definition allowance_to_continue :: "budget_state \<Rightarrow> continue_policy \<Rightarrow> pyfloat" where
  "allowance_to_continue st p =
     (let base = base_cap st (cp_fleet_cap p); more = continue_adds st p; spent = or_zero (bs_total_cost st)
      in fmax (budget_allowance st) (fround 2 (fadd (fsub spent base) more)))"

text \<open>\<open>conditions.check_budget\<close>: soft-mode routing after an agent node.\<close>

definition over_budget :: "budget_state \<Rightarrow> bool" where
  "over_budget st =
     (case bs_cap st of
        Some cap \<Rightarrow> flt cap (fmax (or_zero (bs_total_cost st)) (or_zero (bs_spent st)))
      | None \<Rightarrow>
          if flt (Fin 0) (or_zero (bs_overrun st)) \<and> fle (budget_allowance st) (Fin 0) then True
          else flt (resolve_job_cap st (Fin 0) True) (or_zero (bs_total_cost st)))"

text \<open>
  The end of an agent turn (\<open>evaluate_job_cap\<close> and the block of \<open>run_agent_node\<close> after it): the traces'
  sum, when it can be read, raises the spend; None is the \<open>BudgetOverrunError\<close>.
\<close>

record budget_settings =
  st_fleet_cap :: pyfloat
  st_mode :: pystr
  st_may_exceed :: bool

definition evaluate_job_cap ::
  "budget_state \<Rightarrow> budget_settings \<Rightarrow> pystr option \<Rightarrow> pyfloat \<Rightarrow> pyfloat option \<Rightarrow> pyfloat \<times> pyfloat \<times> budget_check" where
  "evaluate_job_cap st settings job_mode state_total traced =
     (let whole = (case traced of None \<Rightarrow> state_total | Some t \<Rightarrow> fmax state_total t);
          cap = resolve_job_cap st (st_fleet_cap settings) (st_may_exceed settings)
      in (whole, cap, check_budget whole cap (effective_overrun_mode (st_mode settings) job_mode)))"

definition after_turn ::
  "budget_state \<Rightarrow> budget_settings \<Rightarrow> pystr option \<Rightarrow> pyfloat \<Rightarrow> pyfloat option \<Rightarrow> budget_state option" where
  "after_turn st settings job_mode state_total traced =
     (case evaluate_job_cap st settings job_mode state_total traced of
        (whole, cap, decision) \<Rightarrow>
          if \<not> bc_allowed decision then None
          else Some (st\<lparr>bs_total_cost := Some state_total, bs_cap := Some cap, bs_spent := Some whole,
                       bs_overrun := (if flt (Fin 0) (bc_overrun decision) then Some (bc_overrun decision)
                                      else bs_overrun st)\<rparr>))"

subsection \<open>Who asked for a job\<close>

definition RESERVED_PREFIX :: pystr where "RESERVED_PREFIX = ''embry0:''"
definition WATCHER :: pystr where "WATCHER = RESERVED_PREFIX @ ''watcher''"
definition AUTO_RETRIAGE :: pystr where "AUTO_RETRIAGE = RESERVED_PREFIX @ ''auto-retriage''"
definition ANSWER_RESUME :: pystr where "ANSWER_RESUME = RESERVED_PREFIX @ ''answer-resume''"
definition CONTEXT_AUDIT :: pystr where "CONTEXT_AUDIT = RESERVED_PREFIX @ ''context-audit''"
definition SCOUT :: pystr where "SCOUT = RESERVED_PREFIX @ ''scout''"

definition RATE_LIMIT_EXEMPT :: "pystr list" where
  "RATE_LIMIT_EXEMPT = [WATCHER, AUTO_RETRIAGE, ANSWER_RESUME, CONTEXT_AUDIT, SCOUT]"

definition is_rate_limit_exempt :: "pystr option \<Rightarrow> bool" where
  "is_rate_limit_exempt actor = (case actor of None \<Rightarrow> False | Some a \<Rightarrow> a \<in> set RATE_LIMIT_EXEMPT)"

definition is_reserved :: "pystr option \<Rightarrow> bool" where
  "is_reserved actor = (case actor of None \<Rightarrow> False | Some a \<Rightarrow> a \<noteq> [] \<and> starts_with a RESERVED_PREFIX)"

subsection \<open>The gate before a job is dispatched\<close>

datatype db_error = Transient | Defect

datatype dispatch_decision =
    Allowed
  | Daily_Reached pyfloat pyfloat
  | Monthly_Reached pyfloat pyfloat
  | Rate_Reached pystr int int

text \<open>\<open>public_message\<close>: what is published of a refusal, no figures and no names.\<close>

definition public_message :: "dispatch_decision \<Rightarrow> pystr" where
  "public_message d =
     (case d of
        Rate_Reached _ _ _ \<Rightarrow> ''dispatch refused: dispatch rate limit reached''
      | Allowed \<Rightarrow> []
      | _ \<Rightarrow> ''dispatch refused: budget cap reached'')"

definition positive :: "amount \<Rightarrow> pyfloat" where
  "positive v = (case v of Not_A_Number \<Rightarrow> Fin 0 | Amount f \<Rightarrow> if flt (Fin 0) f then f else Fin 0)"

record gate_policy =
  gp_daily_cap :: amount
  gp_monthly_cap :: amount
  gp_rate_limit :: int

text \<open>\<open>BudgetGate.check\<close>; the read of the policy and the spend, and the count of the actor's last hour.\<close>

definition gate_check ::
  "(db_error + gate_policy \<times> pyfloat \<times> pyfloat) \<Rightarrow> pystr option \<Rightarrow> (pystr \<Rightarrow> db_error + int) \<Rightarrow>
   db_error + dispatch_decision" where
  "gate_check policy_and_spend actor dispatched_last_hour =
     (case policy_and_spend of
        Inl Transient \<Rightarrow> Inr Allowed
      | Inl Defect \<Rightarrow> Inl Defect
      | Inr (policy, daily, monthly) \<Rightarrow>
          (let daily_cap = positive (gp_daily_cap policy); monthly_cap = positive (gp_monthly_cap policy)
           in if ftruthy daily_cap \<and> fle daily_cap daily then Inr (Daily_Reached daily daily_cap)
              else if ftruthy monthly_cap \<and> fle monthly_cap monthly then Inr (Monthly_Reached monthly monthly_cap)
              else if actor \<notin> {None, Some []} \<and> 0 < gp_rate_limit policy \<and> \<not> is_rate_limit_exempt actor
              then (case dispatched_last_hour (the actor) of
                      Inl Transient \<Rightarrow> Inr Allowed
                    | Inl Defect \<Rightarrow> Inl Defect
                    | Inr n \<Rightarrow> if gp_rate_limit policy \<le> n then Inr (Rate_Reached (the actor) n (gp_rate_limit policy))
                              else Inr Allowed)
              else Inr Allowed))"

subsection \<open>Arithmetic on amounts\<close>

lemma fadd_Fin_iff: "fadd a b = Fin q \<longleftrightarrow> (\<exists>x y. a = Fin x \<and> b = Fin y \<and> q = x + y)"
  by (cases a; cases b) auto

lemma fle_fmin: "fle (fmin a b) b \<or> a = NaN \<or> b = NaN"
  by (cases a; cases b) (auto simp: fmin_def)

lemma fle_fadd_mono: "fle a (Fin c) \<Longrightarrow> fadd a b = NaN \<or> fle (fadd a b) (fadd (Fin c) b)"
  by (cases a; cases b) auto

lemma flt_zero_max [simp]: "flt (Fin 0) (fmax (Fin 0) x) \<longleftrightarrow> flt (Fin 0) x"
  by (cases x) (auto simp: fmax_def)

lemma fsub_pos: "flt (Fin 0) (fsub a b) \<longleftrightarrow> flt b a"
  by (cases a; cases b) (auto simp: fsub_def)

lemma fmax_fmax [simp]: "fmax a (fmax a b) = fmax a b"
  by (cases a; cases b) (auto simp: fmax_def)

subsection \<open>Properties of the per-job cap\<close>

text \<open>The fleet's cap on a job holds: whatever triage or the job asks for, the cap in force is at most
  the fleet's plus what a person let the job spend past it, and at most the fleet's alone where the
  deployment made it a hard limit. (A cap that is NaN is the one exception.)\<close>

lemma job_cap_bounded:
  assumes "0 < c"
  shows "(resolve_job_cap st (Fin c) True = NaN \<or> fle (resolve_job_cap st (Fin c) True) (fadd (Fin c) (budget_allowance st))) \<and>
    (resolve_job_cap st (Fin c) False = NaN \<or> fle (resolve_job_cap st (Fin c) False) (Fin c))"
proof -
  define cap where "cap = wanted_cap st"
  have t: "resolve_job_cap st (Fin c) True = fadd (fmin cap (Fin c)) (budget_allowance st)"
    and f: "resolve_job_cap st (Fin c) False = fmin (fadd (fmin cap (Fin c)) (budget_allowance st)) (Fin c)"
    using assms by (simp_all add: resolve_job_cap_def cap_def Let_def)
  have "fmin cap (Fin c) = NaN \<or> fle (fmin cap (Fin c)) (Fin c)"
    by (cases cap) (auto simp: fmin_def)
  then have "fadd (fmin cap (Fin c)) (budget_allowance st) = NaN \<or>
      fle (fadd (fmin cap (Fin c)) (budget_allowance st)) (fadd (Fin c) (budget_allowance st))"
    using fle_fadd_mono by fastforce
  moreover have "\<And>x. fmin x (Fin c) = NaN \<or> fle (fmin x (Fin c)) (Fin c)"
    using fmin_le_right by (metis (full_types) fle.simps(1) fmin_def)
  ultimately show ?thesis unfolding t f by blast
qed

text \<open>After an agent's turn the job is stopped exactly when it has spent more than its cap and its
  mode is not soft, a job pinned to hard included whatever the fleet's mode; a job that goes on is
  routed as over budget exactly when it has spent more than its cap.\<close>

lemma turn_against_cap:
  "(after_turn st s job_mode whole traced = None \<longleftrightarrow>
      flt (resolve_job_cap st (st_fleet_cap s) (st_may_exceed s)) (case traced of None \<Rightarrow> whole | Some t \<Rightarrow> fmax whole t) \<and>
      (job_mode = Some ''hard'' \<or> st_mode s \<noteq> ''soft'')) \<and>
   (case after_turn st s job_mode whole traced of None \<Rightarrow> True | Some st' \<Rightarrow>
      over_budget st' \<longleftrightarrow>
        flt (resolve_job_cap st (st_fleet_cap s) (st_may_exceed s)) (case traced of None \<Rightarrow> whole | Some t \<Rightarrow> fmax whole t))"
proof -
  have m: "fmax a a = a" for a by (simp add: fmax_def)
  show ?thesis
    by (auto simp: after_turn_def evaluate_job_cap_def check_budget_def Let_def fsub_pos effective_overrun_mode_def
        over_budget_def or_zero_def m split: option.split)
qed

text \<open>The numbers of a state and a policy that are plain amounts.\<close>

definition plain :: "pyfloat option \<Rightarrow> bool" where
  "plain v = (case v of None \<Rightarrow> True | Some f \<Rightarrow> \<exists>q. f = Fin q)"

lemma plain_given: "plain v \<Longrightarrow> given v \<Longrightarrow> \<exists>q. the v = Fin q"
  by (auto simp: plain_def given_def split: option.splits)

definition plain_state :: "budget_state \<Rightarrow> bool" where
  "plain_state st \<longleftrightarrow>
     (\<forall>v \<in> {bs_pipeline_budget st, bs_max_budget st, bs_total_cost st}. plain v) \<and>
     (\<exists>q. budget_allowance st = Fin q)"

definition plain_policy :: "continue_policy \<Rightarrow> bool" where
  "plain_policy p \<longleftrightarrow> (\<exists>q. cp_fleet_cap p = Fin q) \<and>
     (\<forall>v \<in> {cp_extra p, cp_default_extra p, cp_extra_max p}. plain v)"

lemma allowance_nonneg: "fle (Fin 0) (budget_allowance st)"
proof -
  have "fle (Fin 0) a" if "flt (Fin 0) a" for a using that by (cases a) auto
  then show ?thesis by (auto simp: budget_allowance_def split: option.split amount.split)
qed

lemma base_cap_plain:
  assumes "plain_state st" and "plain_policy p"
  shows "\<exists>b. base_cap st (cp_fleet_cap p) = Fin b \<and>
    (\<forall>a may. resolve_job_cap (st\<lparr>bs_allowance := Some (Amount (Fin a))\<rparr>) (cp_fleet_cap p) may =
       (let t = b + max 0 a in if flt (Fin 0) (cp_fleet_cap p) \<and> \<not> may then fmin (Fin t) (cp_fleet_cap p) else Fin t))"
proof -
  from assms obtain c where c: "cp_fleet_cap p = Fin c" by (auto simp: plain_policy_def)
  define cap where "cap = wanted_cap st"
  obtain q where q: "cap = Fin q"
    using assms(1) by (auto simp: plain_state_def plain_def cap_def wanted_cap_def DEFAULT_JOB_BUDGET_USD_def split: option.splits)
  have w: "wanted_cap (st\<lparr>bs_allowance := v\<rparr>) = cap" for v
    by (simp add: cap_def wanted_cap_def cong: option.case_cong)
  have al: "budget_allowance (st\<lparr>bs_allowance := Some (Amount (Fin a))\<rparr>) = Fin (max 0 a)" for a
    by (auto simp: budget_allowance_def)
  show ?thesis
    by (intro exI [of _ "if 0 < c then min q c else q"])
      (simp add: base_cap_def resolve_job_cap_def al w q c fmin_Fin Let_def)
qed

lemma continue_adds_plain:
  assumes "plain_state st" and "plain_policy p"
  shows "\<exists>m. continue_adds st p = Fin m"
proof -
  obtain b where b: "base_cap st (cp_fleet_cap p) = Fin b" using base_cap_plain [OF assms] by blast
  obtain c where c: "cp_fleet_cap p = Fin c" using assms(2) by (auto simp: plain_policy_def)
  obtain t where t: "or_zero (bs_total_cost st) = Fin t"
    using assms(1) by (auto simp: plain_state_def plain_def or_zero_def split: option.splits)
  have pl: "plain (cp_extra p)" "plain (cp_default_extra p)" "plain (cp_extra_max p)"
    using assms(2) by (simp_all add: plain_policy_def)
  have more: "\<exists>q. (if given (cp_extra p) then the (cp_extra p)
      else if given (cp_default_extra p) then the (cp_default_extra p) else base_cap st (cp_fleet_cap p)) = Fin q" (is "\<exists>q. ?m = _")
    using b plain_given [OF pl(1)] plain_given [OF pl(2)] by simp
  then obtain q where q: "?m = Fin q" by blast
  have "\<exists>r. (if given (cp_extra_max p) then fmin ?m (the (cp_extra_max p)) else ?m) = Fin r" (is "\<exists>r. ?n = _")
    unfolding q using plain_given [OF pl(3)] by (auto simp: fmin_Fin)
  then obtain r where r: "?n = Fin r" by blast
  have "continue_adds st p = (if 0 < c \<and> \<not> cp_may_exceed p then fmin ?n (fmax (Fin 0) (fsub (Fin c) (Fin t))) else ?n)"
    unfolding continue_adds_def Let_def t c by simp
  then show ?thesis unfolding r by (simp add: fmin_Fin fmax_Fin)
qed

text \<open>A continue lets the job go on: with the allowance it writes, the cap is at least what the job
  has spent plus what the continue adds, to within half a cent, and the fleet's cap where that is a
  hard limit; an allowance the job already holds is never lowered.\<close>

lemma continue_raises_cap:
  assumes "plain_state st" and "plain_policy p"
    and "continue_adds st p = Fin extra" and "or_zero (bs_total_cost st) = Fin spent"
    and "st' = st\<lparr>bs_allowance := Some (Amount (allowance_to_continue st p))\<rparr>"
  shows "(\<exists>cap. resolve_job_cap st' (cp_fleet_cap p) (cp_may_exceed p) = Fin cap \<and>
      (spent + extra - 1 / 200 \<le> cap \<or>
       flt (Fin 0) (cp_fleet_cap p) \<and> \<not> cp_may_exceed p \<and> Fin cap = cp_fleet_cap p)) \<and>
    fle (budget_allowance st) (budget_allowance st')"
proof -
  obtain b where b: "base_cap st (cp_fleet_cap p) = Fin b"
    "\<And>a may. resolve_job_cap (st\<lparr>bs_allowance := Some (Amount (Fin a))\<rparr>) (cp_fleet_cap p) may =
       (let t = b + max 0 a in if flt (Fin 0) (cp_fleet_cap p) \<and> \<not> may then fmin (Fin t) (cp_fleet_cap p) else Fin t)"
    using base_cap_plain [OF assms(1,2)] by blast
  obtain c where c: "cp_fleet_cap p = Fin c" using assms(2) by (auto simp: plain_policy_def)
  obtain h where h: "budget_allowance st = Fin h" using assms(1) by (auto simp: plain_state_def)
  then have h0: "0 \<le> h" using allowance_nonneg [of st] by simp
  define r where "r = round_to 2 (spent - b + extra)"
  have r: "spent - b + extra - 1 / 200 \<le> r" using round_to_near [of "spent - b + extra" 2] by (simp add: r_def)
  have a: "allowance_to_continue st p = Fin (max h r)"
    by (simp add: allowance_to_continue_def Let_def b(1) assms(3,4) h r_def fmax_Fin)
  have cap: "resolve_job_cap st' (cp_fleet_cap p) (cp_may_exceed p) =
      (if 0 < c \<and> \<not> cp_may_exceed p then Fin (min (b + max 0 (max h r)) c) else Fin (b + max 0 (max h r)))"
    unfolding assms(5) a b(2) by (simp add: c fmin_Fin Let_def)
  have "budget_allowance st' = Fin (max h r)"
    unfolding assms(5) a using h0 by (auto simp: budget_allowance_def)
  then show ?thesis unfolding cap using r h c by (auto simp: min_def)
qed

subsection \<open>Properties of the gate\<close>

text \<open>With the database readable, a job is refused exactly when a positive cap on the day or the month
  has been reached or an actor that is not exempt has reached a positive hourly limit; exempt actors
  and jobs nobody asked for are still held to both caps; and what is published of a refusal names
  neither a figure nor an actor.\<close>

lemma gate_refuses:
  assumes "counts = (\<lambda>a. Inr (n a))"
  shows "(gate_check (Inr (policy, daily, monthly)) actor counts = Inr Allowed \<longleftrightarrow>
      \<not> (flt (Fin 0) (positive (gp_daily_cap policy)) \<and> fle (positive (gp_daily_cap policy)) daily) \<and>
      \<not> (flt (Fin 0) (positive (gp_monthly_cap policy)) \<and> fle (positive (gp_monthly_cap policy)) monthly) \<and>
      \<not> (\<exists>a. actor = Some a \<and> a \<noteq> [] \<and> a \<notin> set RATE_LIMIT_EXEMPT \<and>
           0 < gp_rate_limit policy \<and> gp_rate_limit policy \<le> n a)) \<and>
    (\<exists>d. gate_check (Inr (policy, daily, monthly)) actor counts = Inr d \<and>
      public_message d \<in> {[], ''dispatch refused: dispatch rate limit reached'', ''dispatch refused: budget cap reached''})"
proof -
  have p: "ftruthy (positive v) \<longleftrightarrow> flt (Fin 0) (positive v)" for v
    by (cases v) (auto simp: positive_def ftruthy_def)
  show ?thesis unfolding assms
    by (auto simp: gate_check_def p Let_def is_rate_limit_exempt_def public_message_def split: option.splits)
qed

text \<open>
  A history of dispatches: who asked and when; the count the gate is given is of the entries since an
  hour before.
\<close>

definition asked_since :: "(pystr \<times> rat) list \<Rightarrow> rat \<Rightarrow> pystr \<Rightarrow> int" where
  "asked_since hist t a = int (length (filter (\<lambda>(who, tm). who = a \<and> t \<le> tm) hist))"

inductive gated :: "int \<Rightarrow> (pystr \<times> rat) list \<Rightarrow> bool" for limit where
  g_empty: "gated limit []"
| g_step: "gated limit hist \<Longrightarrow> gp_rate_limit policy = limit \<Longrightarrow>
    gate_check (Inr (policy, daily, monthly)) (Some a) (\<lambda>x. Inr (asked_since hist (t - 3600) x)) = Inr Allowed \<Longrightarrow>
    gated limit (hist @ [(a, t)])"


subsection \<open>Witnesses\<close>

definition demo_budget :: budget_state where
  "demo_budget = \<lparr>bs_pipeline_budget = Some (Fin 40), bs_max_budget = None, bs_allowance = Some (Amount (Fin 5)),
     bs_total_cost = Some (Fin 31), bs_cap = None, bs_spent = None, bs_overrun = None\<rparr>"

definition demo_policy :: continue_policy where
  "demo_policy = \<lparr>cp_fleet_cap = Fin 25, cp_extra = Some (Fin 8), cp_default_extra = None, cp_may_exceed = True,
     cp_extra_max = Some (Fin 6)\<rparr>"

lemma demo_cap: "resolve_job_cap demo_budget (Fin 25) True = Fin 30"
  by code_simp

lemma job_cap_bounded_witness:
  "resolve_job_cap demo_budget (Fin 25) True = Fin 30 \<and>
   fle (resolve_job_cap demo_budget (Fin 25) True) (fadd (Fin 25) (budget_allowance demo_budget))"
  using job_cap_bounded [of 25 demo_budget] by (simp add: demo_cap)

lemma continue_raises_cap_witness:
  "\<exists>cap. resolve_job_cap (demo_budget\<lparr>bs_allowance := Some (Amount (allowance_to_continue demo_budget demo_policy))\<rparr>)
     (Fin 25) True = Fin cap \<and> 37 - 1 / 200 \<le> cap"
proof -
  have a: "budget_allowance demo_budget = Fin 5" by code_simp
  have p: "plain_state demo_budget" "plain_policy demo_policy"
    using a by (auto simp: plain_state_def plain_policy_def plain_def demo_budget_def demo_policy_def)
  have "continue_adds demo_budget demo_policy = Fin 6" "or_zero (bs_total_cost demo_budget) = Fin 31"
    "cp_fleet_cap demo_policy = Fin 25" "cp_may_exceed demo_policy"
    by code_simp+
  then show ?thesis using continue_raises_cap [OF p _ _ refl, of 6 31] by simp
qed

lemma gate_refuses_witness:
  "gate_check (Inr (\<lparr>gp_daily_cap = Amount (Fin 0), gp_monthly_cap = Not_A_Number, gp_rate_limit = 2\<rparr>, Fin 900, Fin 900))
     (Some ''mallory'') (\<lambda>a. Inr 2) \<noteq> Inr Allowed \<and>
   gate_check (Inr (\<lparr>gp_daily_cap = Amount (Fin 0), gp_monthly_cap = Not_A_Number, gp_rate_limit = 2\<rparr>, Fin 900, Fin 900))
     (Some WATCHER) (\<lambda>a. Inr 2) = Inr Allowed"
proof -
  have p: "positive (Amount (Fin 0)) = Fin 0" "positive Not_A_Number = Fin 0" by code_simp+
  have e: "''mallory'' \<notin> set RATE_LIMIT_EXEMPT" "WATCHER \<in> set RATE_LIMIT_EXEMPT" by code_simp+
  show ?thesis
    using e p gate_refuses [of "\<lambda>a. Inr 2" "\<lambda>a. 2" "\<lparr>gp_daily_cap = Amount (Fin 0), gp_monthly_cap = Not_A_Number, gp_rate_limit = 2\<rparr>"
        "Fin 900" "Fin 900" "Some ''mallory''"]
      gate_refuses [of "\<lambda>a. Inr 2" "\<lambda>a. 2" "\<lparr>gp_daily_cap = Amount (Fin 0), gp_monthly_cap = Not_A_Number, gp_rate_limit = 2\<rparr>"
        "Fin 900" "Fin 900" "Some WATCHER"]
    by simp
qed

definition demo_gate :: gate_policy where
  "demo_gate = \<lparr>gp_daily_cap = Not_A_Number, gp_monthly_cap = Not_A_Number, gp_rate_limit = 1\<rparr>"

lemma demo_gate_allows:
  "gate_check (Inr (demo_gate, Fin 0, Fin 0)) (Some ''ann'') (\<lambda>x. Inr (asked_since [] (1 - 3600) x)) = Inr Allowed"
  "gate_check (Inr (demo_gate, Fin 0, Fin 0)) (Some ''bob'') (\<lambda>x. Inr (asked_since [(''ann'', 1)] (2 - 3600) x)) = Inr Allowed"
  "gate_check (Inr (demo_gate, Fin 0, Fin 0)) (Some ''ann'')
     (\<lambda>x. Inr (asked_since [(''ann'', 1), (''bob'', 2)] (4000 - 3600) x)) = Inr Allowed"
  by code_simp+


lemma turn_against_cap_witness:
  "after_turn demo_budget \<lparr>st_fleet_cap = Fin 25, st_mode = ''soft'', st_may_exceed = True\<rparr> (Some ''hard'') (Fin 29) (Some (Fin 31)) = None"
proof -
  have "flt (resolve_job_cap demo_budget (Fin 25) True) (fmax (Fin 29) (Fin 31))" by (simp only: demo_cap) code_simp
  then show ?thesis
    using turn_against_cap [of demo_budget "\<lparr>st_fleet_cap = Fin 25, st_mode = ''soft'', st_may_exceed = True\<rparr>"
        "Some ''hard''" "Fin 29" "Some (Fin 31)"]
    by simp
qed

end
