(* ===== verification/Restart.thy ===== *)
theory Restart
  imports Py_Value
begin

text \<open>
  What a restart of the orchestrator does to the jobs in flight
  (\<open>embry0/orchestration/restart.py\<close>), over the rows of the jobs table it reads and the updates it
  makes there (\<open>inflight_for_recovery\<close>, \<open>fail_jobs\<close>, \<open>begin_recovery\<close>, \<open>mark_interrupted\<close> and
  \<open>fail_orphaned\<close> of \<open>embry0/storage/repositories/jobs.py\<close>, whose statements select by job id and by
  the status running or pending). Columns recovery neither reads nor writes are left out; a job's
  launch record is whether it has one.
\<close>

definition NOT_RESUMABLE_PIPELINES :: "pystr list" where
  "NOT_RESUMABLE_PIPELINES = [''qa'', ''onboard'', ''pr-review'']"

record job_row =
  jr_id :: pystr
  jr_status :: pystr
  jr_template :: "pystr option"
  jr_launch :: bool
  jr_interrupted :: "rat option"
  jr_attempts :: int
  jr_error :: pystr

datatype action = Resume | Relaunch | Exhausted | Fail

record decision =
  d_job :: pystr
  d_action :: action
  d_counts :: bool

definition plan_action :: "pystr set \<Rightarrow> int \<Rightarrow> job_row \<Rightarrow> action" where
  "plan_action checkpointed max_attempts row =
     (let act =
        (if 0 < max_attempts then
           if jr_status row = ''running'' \<and> jr_id row \<in> checkpointed then
             if (case jr_template row of None \<Rightarrow> True | Some t \<Rightarrow> t \<notin> set NOT_RESUMABLE_PIPELINES) then Resume else Fail
           else if jr_launch row then Relaunch else Fail
         else Fail)
      in if act \<noteq> Fail \<and> jr_interrupted row = None \<and> max_attempts \<le> jr_attempts row then Exhausted else act)"

definition plan_recovery :: "pystr set \<Rightarrow> int \<Rightarrow> job_row list \<Rightarrow> decision list" where
  "plan_recovery checkpointed max_attempts rows =
     map (\<lambda>row. \<lparr>d_job = jr_id row, d_action = plan_action checkpointed max_attempts row,
                d_counts = (jr_interrupted row = None)\<rparr>) rows"

definition plan_ids :: "action \<Rightarrow> decision list \<Rightarrow> pystr list" where
  "plan_ids a plan = map d_job (filter (\<lambda>d. d_action d = a) plan)"

definition recovered :: "decision list \<Rightarrow> pystr list" where
  "recovered plan = map d_job (filter (\<lambda>d. d_action d \<in> {Resume, Relaunch}) plan)"

definition counted :: "decision list \<Rightarrow> pystr list" where
  "counted plan = map d_job (filter (\<lambda>d. d_action d \<in> {Resume, Relaunch} \<and> d_counts d) plan)"

subsection \<open>The jobs table\<close>

definition in_flight :: "job_row \<Rightarrow> bool" where
  "in_flight r \<longleftrightarrow> jr_status r = ''running'' \<or> jr_status r = ''pending''"

definition inflight_for_recovery :: "job_row list \<Rightarrow> job_row list" where
  "inflight_for_recovery jobs = filter in_flight jobs"

text \<open>An \<open>UPDATE ... WHERE job_id = ANY(ids) AND status IN ('running', 'pending') RETURNING job_id\<close>.\<close>

definition update_in_flight :: "pystr list \<Rightarrow> (job_row \<Rightarrow> job_row) \<Rightarrow> job_row list \<Rightarrow> pystr list \<times> job_row list" where
  "update_in_flight ids f jobs =
     (map jr_id (filter (\<lambda>r. jr_id r \<in> set ids \<and> in_flight r) jobs),
      map (\<lambda>r. if jr_id r \<in> set ids \<and> in_flight r then f r else r) jobs)"

definition fail_jobs :: "pystr list \<Rightarrow> pystr \<Rightarrow> job_row list \<Rightarrow> pystr list \<times> job_row list" where
  "fail_jobs ids code jobs =
     (if ids = [] then ([], jobs) else update_in_flight ids (\<lambda>r. r\<lparr>jr_status := ''failed'', jr_error := code\<rparr>) jobs)"

definition begin_recovery :: "pystr list \<Rightarrow> pystr list \<Rightarrow> job_row list \<Rightarrow> pystr list \<times> job_row list" where
  "begin_recovery ids counts jobs =
     (if ids = [] then ([], jobs)
      else update_in_flight ids
        (\<lambda>r. r\<lparr>jr_interrupted := None, jr_attempts := jr_attempts r + (if jr_id r \<in> set counts then 1 else 0)\<rparr>) jobs)"

definition mark_interrupted :: "pystr list \<Rightarrow> rat \<Rightarrow> job_row list \<Rightarrow> pystr list \<times> job_row list" where
  "mark_interrupted ids now jobs =
     (if ids = [] then ([], jobs) else update_in_flight ids (\<lambda>r. r\<lparr>jr_interrupted := Some now\<rparr>) jobs)"

text \<open>\<open>fail_orphaned\<close>: every job in flight but the kept ones.\<close>

definition fail_orphaned :: "pystr list \<Rightarrow> pystr \<Rightarrow> pystr option \<Rightarrow> job_row list \<Rightarrow> job_row list" where
  "fail_orphaned keep code interrupted_code jobs =
     map (\<lambda>r. if in_flight r \<and> jr_id r \<notin> set keep
              then r\<lparr>jr_status := ''failed'',
                     jr_error := (if jr_status r = ''running'' \<and> jr_interrupted r \<noteq> None \<and> interrupted_code \<noteq> None
                                  then the interrupted_code else code)\<rparr>
              else r) jobs"

definition RESUME_LIMIT :: pystr where "RESUME_LIMIT = ''ERR_RESUME_LIMIT''"

text \<open>\<open>take_back_jobs\<close>: the recovered rows with their action, the exhausted ids, the table after it.\<close>

definition take_back_jobs ::
  "pystr set \<Rightarrow> int \<Rightarrow> job_row list \<Rightarrow> (job_row \<times> action) list \<times> pystr list \<times> job_row list" where
  "take_back_jobs checkpoints max_attempts jobs =
     (let rows = inflight_for_recovery jobs;
          plan = plan_recovery checkpoints max_attempts rows;
          (exhausted, jobs1) = fail_jobs (plan_ids Exhausted plan) RESUME_LIMIT jobs;
          (taken, jobs2) = begin_recovery (recovered plan) (counted plan) jobs1;
          actions = map (\<lambda>d. (d_job d, d_action d)) (rev plan)
      in (map (\<lambda>row. (row, the (map_of actions (jr_id row)))) (filter (\<lambda>row. jr_id row \<in> set taken) rows),
          exhausted, jobs2))"

subsection \<open>A restart, job by job\<close>

text \<open>Boot: take jobs back, then fail what is left in flight but not kept.\<close>

definition boot :: "pystr set \<Rightarrow> int \<Rightarrow> pystr \<Rightarrow> pystr option \<Rightarrow> job_row list \<Rightarrow> (job_row \<times> action) list \<times> job_row list" where
  "boot checkpoints max_attempts code interrupted_code jobs =
     (case take_back_jobs checkpoints max_attempts jobs of
        (rows, _, jobs') \<Rightarrow> (rows, fail_orphaned (map (\<lambda>(r, _). jr_id r) rows) code interrupted_code jobs'))"

text \<open>What it promises of one job.\<close>

definition boot_row :: "pystr set \<Rightarrow> int \<Rightarrow> pystr \<Rightarrow> pystr option \<Rightarrow> job_row \<Rightarrow> job_row" where
  "boot_row checkpoints max_attempts code interrupted_code r =
     (if \<not> in_flight r then r
      else case plan_action checkpoints max_attempts r of
             Exhausted \<Rightarrow> r\<lparr>jr_status := ''failed'', jr_error := RESUME_LIMIT\<rparr>
           | Fail \<Rightarrow> r\<lparr>jr_status := ''failed'',
                     jr_error := (if jr_status r = ''running'' \<and> jr_interrupted r \<noteq> None \<and> interrupted_code \<noteq> None
                                  then the interrupted_code else code)\<rparr>
           | _ \<Rightarrow> r\<lparr>jr_interrupted := None,
                   jr_attempts := jr_attempts r + (if jr_interrupted r = None then 1 else 0)\<rparr>)"

lemma update_in_flight_rows:
  "snd (update_in_flight ids f jobs) = map (\<lambda>r. if jr_id r \<in> set ids \<and> in_flight r then f r else r) jobs"
  "set (fst (update_in_flight ids f jobs)) = {jr_id r | r. r \<in> set jobs \<and> jr_id r \<in> set ids \<and> in_flight r}"
  by (auto simp: update_in_flight_def)

lemma fail_jobs_rows:
  "snd (fail_jobs ids code jobs) =
     map (\<lambda>r. if jr_id r \<in> set ids \<and> in_flight r then r\<lparr>jr_status := ''failed'', jr_error := code\<rparr> else r) jobs"
  by (auto simp: fail_jobs_def update_in_flight_rows map_idI [symmetric])

lemma begin_recovery_rows:
  "snd (begin_recovery ids counts jobs) =
     map (\<lambda>r. if jr_id r \<in> set ids \<and> in_flight r
              then r\<lparr>jr_interrupted := None, jr_attempts := jr_attempts r + (if jr_id r \<in> set counts then 1 else 0)\<rparr>
              else r) jobs"
  "set (fst (begin_recovery ids counts jobs)) = {jr_id r | r. r \<in> set jobs \<and> jr_id r \<in> set ids \<and> in_flight r}"
  by (auto simp: begin_recovery_def update_in_flight_rows map_idI [symmetric])

lemma plan_sets:
  assumes "distinct (map jr_id jobs)" and "r \<in> set jobs"
    and "plan = plan_recovery cp m (inflight_for_recovery jobs)"
  shows "jr_id r \<in> set (plan_ids a plan) \<longleftrightarrow> in_flight r \<and> plan_action cp m r = a"
    and "jr_id r \<in> set (recovered plan) \<longleftrightarrow> in_flight r \<and> plan_action cp m r \<in> {Resume, Relaunch}"
    and "jr_id r \<in> set (counted plan) \<longleftrightarrow>
      in_flight r \<and> plan_action cp m r \<in> {Resume, Relaunch} \<and> jr_interrupted r = None"
  using assms(1,2) unfolding assms(3) plan_ids_def recovered_def counted_def plan_recovery_def inflight_for_recovery_def
  by (auto simp: distinct_map inj_on_def image_iff)

lemma in_flight_failed [simp]: "\<not> in_flight (r\<lparr>jr_status := ''failed'', jr_error := e\<rparr>)"
  by (simp add: in_flight_def)

lemma in_flight_other [simp]: "in_flight (r\<lparr>jr_interrupted := i, jr_attempts := n\<rparr>) = in_flight r"
  "in_flight (r\<lparr>jr_interrupted := i\<rparr>) = in_flight r"
  by (simp_all add: in_flight_def)

lemma take_back_rows:
  assumes "distinct (map jr_id jobs)"
  shows "snd (snd (take_back_jobs cp m jobs)) = map (\<lambda>r. if \<not> in_flight r then r else case plan_action cp m r of
      Exhausted \<Rightarrow> r\<lparr>jr_status := ''failed'', jr_error := RESUME_LIMIT\<rparr>
    | Fail \<Rightarrow> r
    | _ \<Rightarrow> r\<lparr>jr_interrupted := None, jr_attempts := jr_attempts r + (if jr_interrupted r = None then 1 else 0)\<rparr>) jobs"
    and "set (fst (take_back_jobs cp m jobs)) =
      {(r, plan_action cp m r) | r. r \<in> set jobs \<and> in_flight r \<and> plan_action cp m r \<in> {Resume, Relaunch}}"
proof -
  define plan where "plan = plan_recovery cp m (inflight_for_recovery jobs)"
  note ps = plan_sets [OF assms _ plan_def]
  define jobs1 where "jobs1 = snd (fail_jobs (plan_ids Exhausted plan) RESUME_LIMIT jobs)"
  have j1: "jobs1 = map (\<lambda>r. if in_flight r \<and> plan_action cp m r = Exhausted
      then r\<lparr>jr_status := ''failed'', jr_error := RESUME_LIMIT\<rparr> else r) jobs"
    unfolding jobs1_def fail_jobs_rows using ps(1) by (intro map_cong) auto
  define got where "got = begin_recovery (recovered plan) (counted plan) jobs1"
  have tb: "take_back_jobs cp m jobs =
     (map (\<lambda>row. (row, the (map_of (map (\<lambda>d. (d_job d, d_action d)) (rev plan)) (jr_id row))))
        (filter (\<lambda>row. jr_id row \<in> set (fst got)) (inflight_for_recovery jobs)),
      fst (fail_jobs (plan_ids Exhausted plan) RESUME_LIMIT jobs), snd got)"
    by (simp add: take_back_jobs_def Let_def plan_def [symmetric] jobs1_def got_def split: prod.split)
  show "snd (snd (take_back_jobs cp m jobs)) = map (\<lambda>r. if \<not> in_flight r then r else case plan_action cp m r of
      Exhausted \<Rightarrow> r\<lparr>jr_status := ''failed'', jr_error := RESUME_LIMIT\<rparr>
    | Fail \<Rightarrow> r
    | _ \<Rightarrow> r\<lparr>jr_interrupted := None, jr_attempts := jr_attempts r + (if jr_interrupted r = None then 1 else 0)\<rparr>) jobs"
    unfolding tb snd_conv got_def begin_recovery_rows j1 map_map
    by (rule map_cong [OF refl]) (auto simp: ps split: action.split)
  have taken: "set (fst got) = {jr_id r | r. r \<in> set jobs \<and> in_flight r \<and> plan_action cp m r \<in> {Resume, Relaunch}}"
    unfolding got_def begin_recovery_rows j1 using ps(2) by (auto simp: image_iff)
  have act: "map_of (map (\<lambda>d. (d_job d, d_action d)) (rev plan)) (jr_id r) = Some (plan_action cp m r)"
    if "r \<in> set jobs" "in_flight r" for r
  proof -
    have d: "distinct (map fst (map (\<lambda>d. (d_job d, d_action d)) (rev plan)))"
      using assms by (simp add: plan_def plan_recovery_def inflight_for_recovery_def comp_def rev_map [symmetric]
          distinct_map_filter)
    show ?thesis
      by (rule map_of_is_SomeI [OF d]) (use that in \<open>force simp: plan_def plan_recovery_def inflight_for_recovery_def\<close>)
  qed
  have "set (fst (take_back_jobs cp m jobs)) =
      (\<lambda>r. (r, plan_action cp m r)) ` {r \<in> set jobs. in_flight r \<and> jr_id r \<in> set (fst got)}"
    unfolding tb fst_conv using act by (auto simp: inflight_for_recovery_def image_iff)
  moreover have "{r \<in> set jobs. in_flight r \<and> jr_id r \<in> set (fst got)} =
      {r \<in> set jobs. in_flight r \<and> plan_action cp m r \<in> {Resume, Relaunch}}"
    unfolding taken using assms by (auto simp: distinct_map inj_on_def)
  ultimately show "set (fst (take_back_jobs cp m jobs)) =
      {(r, plan_action cp m r) | r. r \<in> set jobs \<and> in_flight r \<and> plan_action cp m r \<in> {Resume, Relaunch}}"
    by auto
qed

lemma boot_rows:
  assumes "distinct (map jr_id jobs)"
  shows "snd (boot cp m code icode jobs) = map (boot_row cp m code icode) jobs"
proof -
  note tb = take_back_rows [OF assms, of cp m]
  obtain rows e jobs' where b: "take_back_jobs cp m jobs = (rows, e, jobs')" by (rule prod_cases3)
  have keep: "jr_id r \<in> set (map (\<lambda>(r, _). jr_id r) rows) \<longleftrightarrow> in_flight r \<and> plan_action cp m r \<in> {Resume, Relaunch}"
    if "r \<in> set jobs" for r
    using tb(2) b that assms by (auto simp: distinct_map inj_on_def image_iff split_beta)
  show ?thesis
    using tb(1) unfolding boot_def b fail_orphaned_def prod.case snd_conv
    by (auto simp: boot_row_def keep simp del: set_map split: action.split)
qed

text \<open>C36: a restart treats each job on its own: a job that is not in flight is left alone; one that stopped
  in a drain is taken back without being counted; one that did not is taken back, and counted, only
  while it has attempts left, and is failed for good after; and a job is resumed only from a
  checkpoint and launched again only from a launch record. No job in flight is forgotten.\<close>

theorem boot_refines:
  assumes "distinct (map jr_id jobs)"
  shows "snd (boot cp m code icode jobs) = map (boot_row cp m code icode) jobs \<and>
    (\<forall>r a. (r, a) \<in> set (fst (boot cp m code icode jobs)) \<longrightarrow>
       in_flight (boot_row cp m code icode r) \<and>
       (a = Resume \<and> jr_status r = ''running'' \<and> jr_id r \<in> cp \<or> a = Relaunch \<and> jr_launch r)) \<and>
    (\<forall>r' \<in> set (snd (boot cp m code icode jobs)). in_flight r' \<longrightarrow>
       jr_id r' \<in> (\<lambda>(r, a). jr_id r) ` set (fst (boot cp m code icode jobs)))"
proof -
  note tb = take_back_rows [OF assms, of cp m]
  obtain rows e jobs' where b: "take_back_jobs cp m jobs = (rows, e, jobs')" by (rule prod_cases3)
  have rows: "snd (boot cp m code icode jobs) = map (boot_row cp m code icode) jobs" by (rule boot_rows [OF assms])
  have act: "plan_action cp m r = Resume \<Longrightarrow> jr_status r = ''running'' \<and> jr_id r \<in> cp"
    "plan_action cp m r = Relaunch \<Longrightarrow> jr_launch r" for r
    by (auto simp: plan_action_def Let_def split: if_splits)
  have flight: "in_flight (boot_row cp m code icode r) \<longleftrightarrow> in_flight r \<and> plan_action cp m r \<in> {Resume, Relaunch}" for r
    by (auto simp: boot_row_def split: action.split)
  have fst: "set (fst (boot cp m code icode jobs)) =
      {(r, plan_action cp m r) | r. r \<in> set jobs \<and> in_flight r \<and> plan_action cp m r \<in> {Resume, Relaunch}}"
    using tb(2) b by (simp add: boot_def)
  have "in_flight (boot_row cp m code icode r) \<and>
       (a = Resume \<and> jr_status r = ''running'' \<and> jr_id r \<in> cp \<or> a = Relaunch \<and> jr_launch r)"
    if "(r, a) \<in> set (fst (boot cp m code icode jobs))" for r a
    using that act [of r] unfolding fst flight by auto
  moreover have id: "jr_id (boot_row cp m code icode r) = jr_id r" for r
    by (auto simp: boot_row_def split: action.split)
  have "jr_id r' \<in> (\<lambda>(r, a). jr_id r) ` set (fst (boot cp m code icode jobs))"
    if "r' \<in> set (snd (boot cp m code icode jobs))" "in_flight r'" for r'
    using that unfolding rows fst by (force simp: flight id image_iff)
  ultimately show ?thesis using rows by blast
qed

subsection \<open>The life of a jobs table\<close>

text \<open>
  Between boots jobs are created, their status changes, and drains stamp them; each boot plans with
  whatever checkpoints there are.
\<close>

inductive jobs_reachable :: "int \<Rightarrow> job_row list \<Rightarrow> bool" for m where
  j_empty: "jobs_reachable m []"
| j_new: "jobs_reachable m jobs \<Longrightarrow> jr_id r \<notin> jr_id ` set jobs \<Longrightarrow> jr_attempts r = 0 \<Longrightarrow> jobs_reachable m (jobs @ [r])"
| j_status: "jobs_reachable m jobs \<Longrightarrow>
    jobs_reachable m (map (\<lambda>r. if jr_id r = i then r\<lparr>jr_status := s, jr_launch := l\<rparr> else r) jobs)"
| j_drain: "jobs_reachable m jobs \<Longrightarrow> jobs_reachable m (snd (mark_interrupted ids now jobs))"
| j_boot: "jobs_reachable m jobs \<Longrightarrow> jobs_reachable m (snd (boot cp m code icode jobs))"

text \<open>C37: no job is recovered more often than allowed: in every state the jobs table can reach, each job's
  id is its own and the recoveries counted against a job are between none and the limit, so a job
  that takes the orchestrator down is taken back at most that many times.\<close>

theorem recoveries_bounded:
  assumes "jobs_reachable m jobs" and "0 \<le> m"
  shows "distinct (map jr_id jobs) \<and> (\<forall>r \<in> set jobs. 0 \<le> jr_attempts r \<and> jr_attempts r \<le> m)"
  using assms(1)
proof induction
  case (j_boot jobs cp code icode)
  have a: "0 \<le> jr_attempts (boot_row cp m code icode r) \<and> jr_attempts (boot_row cp m code icode r) \<le> m"
    if "0 \<le> jr_attempts r" "jr_attempts r \<le> m" for r
    using that by (auto simp: boot_row_def plan_action_def Let_def split: action.splits if_splits)
  have "map jr_id (map (boot_row cp m code icode) jobs) = map jr_id jobs"
    by (auto simp: boot_row_def split: action.split)
  then have "distinct (map jr_id (map (boot_row cp m code icode) jobs))" using j_boot.IH by metis
  then show ?case using j_boot.IH a boot_rows [of jobs cp m code icode] by auto
next
  case (j_drain jobs ids now)
  then show ?case by (auto simp: mark_interrupted_def update_in_flight_def comp_def if_distrib cong: if_cong)
next
  case (j_status jobs i l s)
  have "map jr_id (map (\<lambda>r. if jr_id r = i then r\<lparr>jr_status := s, jr_launch := l\<rparr> else r) jobs) = map jr_id jobs"
    by auto
  then have "distinct (map jr_id (map (\<lambda>r. if jr_id r = i then r\<lparr>jr_status := s, jr_launch := l\<rparr> else r) jobs))"
    using j_status.IH by metis
  then show ?case using j_status.IH by auto
next
  case (j_new jobs r)
  then show ?case using assms(2) by (auto simp: image_iff)
qed simp

definition demo_jobs :: "job_row list" where
  "demo_jobs = map (\<lambda>(i, s, l, t, n). \<lparr>jr_id = i, jr_status = s, jr_template = None, jr_launch = l,
       jr_interrupted = t, jr_attempts = n, jr_error = []\<rparr>)
     [(''a'', ''running'', True, None, 3), (''b'', ''running'', True, Some 7, 3), (''c'', ''pending'', False, None, 0),
      (''d'', ''done'', True, None, 0)]"

lemma boot_refines_witness:
  "map (\<lambda>r. (jr_status r, jr_attempts r)) (snd (boot {''a'', ''b''} 3 ''ERR_ORPHANED'' None demo_jobs)) =
     [(''failed'', 3), (''running'', 3), (''failed'', 0), (''done'', 0)]"
proof -
  have "distinct (map jr_id demo_jobs)" by code_simp
  note b = conjunct1 [OF boot_refines [OF this, of "{''a'', ''b''}" 3 "''ERR_ORPHANED''" None]]
  show ?thesis unfolding b by code_simp
qed

lemma recoveries_bounded_witness:
  "jr_attempts (hd (snd (boot {} 1 ''ERR_ORPHANED'' None [hd demo_jobs\<lparr>jr_attempts := 0\<rparr>]))) \<le> 1"
proof -
  have "jobs_reachable 1 ([] @ [hd demo_jobs\<lparr>jr_attempts := 0\<rparr>])" by (rule j_new [OF j_empty]) simp_all
  then have "jobs_reachable 1 (snd (boot {} 1 ''ERR_ORPHANED'' None [hd demo_jobs\<lparr>jr_attempts := 0\<rparr>]))"
    by (auto intro: j_boot)
  note bounded = recoveries_bounded [OF this zero_le_one]
  have "snd (boot {} 1 ''ERR_ORPHANED'' None [hd demo_jobs\<lparr>jr_attempts := 0\<rparr>]) \<noteq> []" by (simp add: boot_rows)
  from list.set_sel(1) [OF this] bounded show ?thesis by blast
qed

end
