(* ===== verification/Test_Gate.thy ===== *)
theory Test_Gate
  imports Py_Value "HOL-Library.List_Lexorder" "HOL-Library.Char_ord"
begin

text \<open>
  The deterministic test gate (\<open>embry0/workflows/verification/gate.py\<close>): one target's runs on the head
  against its run on the base, the report over all targets, and the report as it is stored and read
  back. Reading failure lines out of a runner's output is left out: a run carries the names that
  were read. A list of names in a report is sorted by code point, which on UTF-8 bytes is their order.
\<close>

datatype side = Base | Head
datatype run_outcome = Passed | Failed | Timed_Out | Errored
datatype granularity = Test | File
datatype target_status = TS_Passed | New_Failures | Preexisting_Failures | Flaky | TS_Error
datatype comparison = CNone | Tests | Files | Exit_Code
datatype gate_verdict = GV_Passed | GV_New_Failures | Unstable | GV_Error | Not_Configured | No_Matching_Targets

definition SCHEMA_VERSION :: int where "SCHEMA_VERSION = 1"
definition MAX_NAMES :: nat where "MAX_NAMES = 50"

record target_run =
  tr_target :: pystr
  tr_side :: side
  tr_attempt :: int
  tr_outcome :: run_outcome
  tr_exit_code :: "int option"
  tr_duration_ms :: int
  tr_failed_tests :: "pystr list option"
  tr_summary :: "pystr option"
  tr_output_tail :: pystr
  tr_granularity :: granularity

definition run_red :: "target_run \<Rightarrow> bool" where
  "run_red r \<longleftrightarrow> tr_outcome r = Failed \<or> tr_outcome r = Timed_Out"

definition run_names :: "target_run \<Rightarrow> pystr set option" where
  "run_names r =
     (if tr_outcome r \<noteq> Failed then None
      else case tr_failed_tests r of None \<Rightarrow> None | Some ns \<Rightarrow> if ns = [] then None else Some (set ns))"

definition file_granular :: "target_run \<Rightarrow> bool" where
  "file_granular r \<longleftrightarrow> tr_granularity r = File"

record target_verdict =
  tv_target :: pystr
  tv_status :: target_status
  tv_comparison :: comparison
  tv_new_failures :: "pystr list"
  tv_preexisting :: "pystr list"
  tv_flaky :: "pystr list"
  tv_fixed :: "pystr list"
  tv_note :: pystr

definition tv_blocking :: "target_verdict \<Rightarrow> bool" where
  "tv_blocking v \<longleftrightarrow> tv_status v = New_Failures"

definition plain_verdict :: "pystr \<Rightarrow> target_status \<Rightarrow> target_verdict" where
  "plain_verdict t s = \<lparr>tv_target = t, tv_status = s, tv_comparison = CNone, tv_new_failures = [],
     tv_preexisting = [], tv_flaky = [], tv_fixed = [], tv_note = []\<rparr>"

definition capped :: "pystr set \<Rightarrow> pystr list" where
  "capped names = take MAX_NAMES (sorted_list_of_set names)"

definition names_or_none :: "target_run \<Rightarrow> pystr set" where
  "names_or_none r = (case run_names r of None \<Rightarrow> {} | Some ns \<Rightarrow> ns)"

text \<open>The names that failed in every red head run, and in any; none where one of them has no names.\<close>

definition stable_names :: "target_run list \<Rightarrow> pystr set" where
  "stable_names reds = (case map names_or_none reds of [] \<Rightarrow> {} | n # ns \<Rightarrow> fold (\<inter>) ns n)"

definition seen_names :: "target_run list \<Rightarrow> pystr set" where
  "seen_names reds = fold (\<union>) (map names_or_none reds) {}"

definition compare_with_base :: "pystr \<Rightarrow> target_run list \<Rightarrow> target_run \<Rightarrow> target_verdict" where
  "compare_with_base target red_heads base =
     (let by_name = list_all (\<lambda>r. run_names r \<noteq> None) red_heads;
          stable = (if by_name then stable_names red_heads else {});
          seen = (if by_name then seen_names red_heads else {});
          unstable = capped (seen - stable)
      in if tr_outcome base = Passed then
           if by_name \<and> stable = {} then
             (plain_verdict target Flaky)\<lparr>tv_comparison := Tests, tv_flaky := unstable,
               tv_note := ''no test failed on every head attempt''\<rparr>
           else
             (plain_verdict target New_Failures)\<lparr>tv_comparison := (if by_name then Tests else Exit_Code),
               tv_new_failures := capped stable, tv_flaky := unstable\<rparr>
         else case (if by_name then run_names base else None) of
                Some base_names \<Rightarrow>
                  (let new = stable - base_names;
                       coarse = (file_granular base \<or> list_ex file_granular red_heads)
                   in (plain_verdict target (if new \<noteq> {} then New_Failures else Preexisting_Failures))
                        \<lparr>tv_comparison := (if coarse then Files else Tests), tv_new_failures := capped new,
                         tv_preexisting := capped (stable \<inter> base_names), tv_flaky := unstable,
                         tv_note := (if coarse \<and> new = {} then
                           ''base fails too and the test runner named only files, so a new failure inside an already-failing file cannot be ruled out''
                           else [])\<rparr>)
              | None \<Rightarrow>
                  (plain_verdict target Preexisting_Failures)\<lparr>tv_comparison := Exit_Code,
                    tv_note := ''base fails too and test names could not be read, so new failures cannot be told from old ones''\<rparr>)"

text \<open>\<open>compare_target\<close>; None is the \<open>IndexError\<close> of no head run.\<close>

definition compare_target :: "target_run list \<Rightarrow> target_run option \<Rightarrow> target_verdict option" where
  "compare_target head_runs base =
     (case head_runs of
        [] \<Rightarrow> None
      | first # reruns \<Rightarrow>
          (let target = tr_target first
           in if tr_outcome first = Errored then
                Some ((plain_verdict target TS_Error)\<lparr>tv_note := ''the command could not be run on head''\<rparr>)
              else if tr_outcome first = Passed then
                (case base of
                   Some b \<Rightarrow>
                     if run_red b then
                       Some ((plain_verdict target TS_Passed)\<lparr>tv_fixed := capped (names_or_none b),
                         tv_note := ''fails on base, passes on head''\<rparr>)
                     else Some (plain_verdict target TS_Passed)
                 | None \<Rightarrow> Some (plain_verdict target TS_Passed))
              else if list_ex (\<lambda>r. tr_outcome r = Passed) reruns then
                Some ((plain_verdict target Flaky)\<lparr>tv_flaky := capped (names_or_none first),
                  tv_note := ''failed once on head and passed when re-run''\<rparr>)
              else
                (case base of
                   None \<Rightarrow> Some ((plain_verdict target TS_Error)\<lparr>tv_note := ''head fails and there is no usable base run to compare with''\<rparr>)
                 | Some b \<Rightarrow>
                     if tr_outcome b = Errored then
                       Some ((plain_verdict target TS_Error)\<lparr>tv_note := ''head fails and there is no usable base run to compare with''\<rparr>)
                     else Some (compare_with_base target (filter run_red head_runs) b))))"

subsection \<open>The report\<close>

record gate_report =
  gr_verdict :: gate_verdict
  gr_targets :: "target_verdict list"
  gr_runs :: "target_run list"
  gr_base_sha :: pystr
  gr_head_sha :: pystr
  gr_base_ref :: pystr
  gr_note :: pystr

definition gr_blocking :: "gate_report \<Rightarrow> bool" where
  "gr_blocking r \<longleftrightarrow> gr_verdict r = GV_New_Failures"

definition without_runs :: "gate_verdict \<Rightarrow> pystr \<Rightarrow> gate_report" where
  "without_runs v note' = \<lparr>gr_verdict = v, gr_targets = [], gr_runs = [], gr_base_sha = [], gr_head_sha = [],
     gr_base_ref = [], gr_note = note'\<rparr>"

definition runs_for :: "gate_report \<Rightarrow> side \<Rightarrow> target_run list" where
  "runs_for r s = filter (\<lambda>x. tr_side x = s) (gr_runs r)"

definition build_report ::
  "target_verdict list \<Rightarrow> target_run list \<Rightarrow> pystr \<Rightarrow> pystr \<Rightarrow> pystr \<Rightarrow> pystr \<Rightarrow> gate_report" where
  "build_report targets runs base_sha head_sha base_ref note' =
     (let statuses = set (map tv_status targets);
          verdict = (if New_Failures \<in> statuses then GV_New_Failures
                     else if TS_Error \<in> statuses then GV_Error
                     else if statuses \<inter> {Preexisting_Failures, Flaky} \<noteq> {} then Unstable
                     else GV_Passed)
      in \<lparr>gr_verdict = verdict, gr_targets = targets, gr_runs = runs, gr_base_sha = base_sha, gr_head_sha = head_sha,
          gr_base_ref = base_ref, gr_note = note'\<rparr>)"

subsection \<open>The stored report\<close>

text \<open>
  \<open>to_dict\<close> and \<open>from_dict\<close>. Reading is over the values \<open>to_dict\<close> writes: None stands for a \<open>KeyError\<close>
  or \<open>TypeError\<close>, and for a value of another type, which Python would keep as it is.
\<close>

definition side_str :: "side \<Rightarrow> pystr" where
  "side_str s = (case s of Base \<Rightarrow> ''base'' | Head \<Rightarrow> ''head'')"
definition outcome_str :: "run_outcome \<Rightarrow> pystr" where
  "outcome_str s = (case s of Passed \<Rightarrow> ''passed'' | Failed \<Rightarrow> ''failed'' | Timed_Out \<Rightarrow> ''timed_out'' | Errored \<Rightarrow> ''errored'')"
definition granularity_str :: "granularity \<Rightarrow> pystr" where
  "granularity_str s = (case s of Test \<Rightarrow> ''test'' | File \<Rightarrow> ''file'')"
definition status_str :: "target_status \<Rightarrow> pystr" where
  "status_str s = (case s of TS_Passed \<Rightarrow> ''passed'' | New_Failures \<Rightarrow> ''new_failures''
     | Preexisting_Failures \<Rightarrow> ''preexisting_failures'' | Flaky \<Rightarrow> ''flaky'' | TS_Error \<Rightarrow> ''error'')"
definition comparison_str :: "comparison \<Rightarrow> pystr" where
  "comparison_str s = (case s of CNone \<Rightarrow> ''none'' | Tests \<Rightarrow> ''tests'' | Files \<Rightarrow> ''files'' | Exit_Code \<Rightarrow> ''exit_code'')"
definition verdict_str :: "gate_verdict \<Rightarrow> pystr" where
  "verdict_str s = (case s of GV_Passed \<Rightarrow> ''passed'' | GV_New_Failures \<Rightarrow> ''new_failures'' | Unstable \<Rightarrow> ''unstable''
     | GV_Error \<Rightarrow> ''error'' | Not_Configured \<Rightarrow> ''not_configured'' | No_Matching_Targets \<Rightarrow> ''no_matching_targets'')"

definition opt_json :: "('a \<Rightarrow> json) \<Rightarrow> 'a option \<Rightarrow> json" where
  "opt_json f v = (case v of None \<Rightarrow> JNull | Some x \<Rightarrow> f x)"

definition names_json :: "pystr list \<Rightarrow> json" where
  "names_json ns = JList (map JStr ns)"

definition verdict_dict :: "target_verdict \<Rightarrow> json" where
  "verdict_dict v = JObj
     [(''target'', JStr (tv_target v)), (''status'', JStr (status_str (tv_status v))),
      (''comparison'', JStr (comparison_str (tv_comparison v))), (''new_failures'', names_json (tv_new_failures v)),
      (''preexisting'', names_json (tv_preexisting v)), (''flaky'', names_json (tv_flaky v)),
      (''fixed'', names_json (tv_fixed v)), (''note'', JStr (tv_note v)), (''blocking'', JBool (tv_blocking v))]"

definition run_dict :: "target_run \<Rightarrow> json" where
  "run_dict r = JObj
     [(''target'', JStr (tr_target r)), (''side'', JStr (side_str (tr_side r))), (''attempt'', JInt (tr_attempt r)),
      (''outcome'', JStr (outcome_str (tr_outcome r))), (''exit_code'', opt_json JInt (tr_exit_code r)),
      (''duration_ms'', JInt (tr_duration_ms r)), (''failed_tests'', opt_json names_json (tr_failed_tests r)),
      (''summary'', opt_json JStr (tr_summary r)), (''output_tail'', JStr (tr_output_tail r)),
      (''name_granularity'', JStr (granularity_str (tr_granularity r)))]"

definition report_dict :: "gate_report \<Rightarrow> (pystr \<times> json) list" where
  "report_dict r =
     [(''schema_version'', JInt SCHEMA_VERSION), (''verdict'', JStr (verdict_str (gr_verdict r))),
      (''blocking'', JBool (gr_blocking r)), (''base_ref'', JStr (gr_base_ref r)), (''base_sha'', JStr (gr_base_sha r)),
      (''head_sha'', JStr (gr_head_sha r)), (''note'', JStr (gr_note r)),
      (''targets'', JList (map verdict_dict (gr_targets r))), (''runs'', JList (map run_dict (gr_runs r)))]"

text \<open>Readers: a field of a dict with its default, a list element by element.\<close>

fun traverse :: "('a \<Rightarrow> 'b option) \<Rightarrow> 'a list \<Rightarrow> 'b list option" where
  "traverse f [] = Some []"
| "traverse f (x # xs) = (case f x of None \<Rightarrow> None | Some y \<Rightarrow> (case traverse f xs of None \<Rightarrow> None | Some ys \<Rightarrow> Some (y # ys)))"

definition field :: "(json \<Rightarrow> 'a option) \<Rightarrow> 'a option \<Rightarrow> (pystr \<times> json) list \<Rightarrow> pystr \<Rightarrow> 'a option" where
  "field f dflt d k = (case map_of d k of None \<Rightarrow> dflt | Some v \<Rightarrow> f v)"

definition as_str :: "json \<Rightarrow> pystr option" where
  "as_str v = (case v of JStr s \<Rightarrow> Some s | _ \<Rightarrow> None)"
definition as_int :: "json \<Rightarrow> int option" where
  "as_int v = (case v of JInt n \<Rightarrow> Some n | _ \<Rightarrow> None)"
definition as_names :: "json \<Rightarrow> pystr list option" where
  "as_names v = (case v of JList vs \<Rightarrow> traverse as_str vs | _ \<Rightarrow> None)"
definition as_opt :: "(json \<Rightarrow> 'a option) \<Rightarrow> json \<Rightarrow> 'a option option" where
  "as_opt f v = (if v = JNull then Some None else map_option Some (f v))"

definition of_str :: "('a \<Rightarrow> pystr) \<Rightarrow> 'a list \<Rightarrow> json \<Rightarrow> 'a option" where
  "of_str name all v = (case v of JStr s \<Rightarrow> find (\<lambda>x. name x = s) all | _ \<Rightarrow> None)"

definition read_status :: "json \<Rightarrow> target_status option" where
  "read_status = of_str status_str [TS_Passed, New_Failures, Preexisting_Failures, Flaky, TS_Error]"
definition read_comparison :: "json \<Rightarrow> comparison option" where
  "read_comparison = of_str comparison_str [CNone, Tests, Files, Exit_Code]"
definition read_side :: "json \<Rightarrow> side option" where
  "read_side = of_str side_str [Base, Head]"
definition read_outcome :: "json \<Rightarrow> run_outcome option" where
  "read_outcome = of_str outcome_str [Passed, Failed, Timed_Out, Errored]"
definition read_granularity :: "json \<Rightarrow> granularity option" where
  "read_granularity = of_str granularity_str [Test, File]"
definition read_gate_verdict :: "json \<Rightarrow> gate_verdict option" where
  "read_gate_verdict = of_str verdict_str [GV_Passed, GV_New_Failures, Unstable, GV_Error, Not_Configured, No_Matching_Targets]"

text \<open>A dataclass takes the keys of its fields and no other.\<close>

definition only_keys :: "pystr list \<Rightarrow> (pystr \<times> json) list \<Rightarrow> bool" where
  "only_keys ks d \<longleftrightarrow> list_all (\<lambda>(k, _). k \<in> set ks) d"

definition read_verdict :: "json \<Rightarrow> target_verdict option" where
  "read_verdict v =
     (case v of JObj d0 \<Rightarrow>
        (let d = filter (\<lambda>(k, _). k \<noteq> ''blocking'') d0
         in if \<not> only_keys [''target'', ''status'', ''comparison'', ''new_failures'', ''preexisting'', ''flaky'', ''fixed'', ''note''] d then None
            else case (field as_str None d ''target'', field read_status None d ''status'',
                field read_comparison (Some CNone) d ''comparison'', field as_names (Some []) d ''new_failures'',
                field as_names (Some []) d ''preexisting'', field as_names (Some []) d ''flaky'',
                field as_names (Some []) d ''fixed'', field as_str (Some []) d ''note'') of
                (Some t, Some s, Some c, Some n, Some p, Some fl, Some fx, Some nt) \<Rightarrow>
                  Some \<lparr>tv_target = t, tv_status = s, tv_comparison = c, tv_new_failures = n, tv_preexisting = p,
                        tv_flaky = fl, tv_fixed = fx, tv_note = nt\<rparr>
              | _ \<Rightarrow> None)
      | _ \<Rightarrow> None)"

definition read_run :: "json \<Rightarrow> target_run option" where
  "read_run v =
     (case v of JObj d \<Rightarrow>
        (if \<not> only_keys [''target'', ''side'', ''attempt'', ''outcome'', ''exit_code'', ''duration_ms'', ''failed_tests'',
                         ''summary'', ''output_tail'', ''name_granularity''] d then None
         else case (field as_str None d ''target'', field read_side None d ''side'', field as_int None d ''attempt'',
             field read_outcome None d ''outcome'', field (as_opt as_int) None d ''exit_code'',
             field as_int None d ''duration_ms'', field (as_opt as_names) None d ''failed_tests'',
             field (as_opt as_str) None d ''summary'', field as_str None d ''output_tail'',
             field read_granularity (Some Test) d ''name_granularity'') of
             (Some t, Some s, Some a, Some out, Some e, Some ms, Some f, Some sm, Some out_tail, Some g) \<Rightarrow>
               Some \<lparr>tr_target = t, tr_side = s, tr_attempt = a, tr_outcome = out, tr_exit_code = e, tr_duration_ms = ms,
                     tr_failed_tests = f, tr_summary = sm, tr_output_tail = out_tail, tr_granularity = g\<rparr>
           | _ \<Rightarrow> None)
      | _ \<Rightarrow> None)"

definition elements :: "json \<Rightarrow> json list option" where
  "elements v = (if truthy v then (case v of JList vs \<Rightarrow> Some vs | _ \<Rightarrow> None) else Some [])"

definition from_dict :: "(pystr \<times> json) list \<Rightarrow> gate_report option" where
  "from_dict data =
     (case elements (get data ''targets'') of None \<Rightarrow> None | Some ts \<Rightarrow>
      (case traverse read_verdict ts of None \<Rightarrow> None | Some targets \<Rightarrow>
       (case elements (get data ''runs'') of None \<Rightarrow> None | Some rs \<Rightarrow>
        (case traverse read_run rs of None \<Rightarrow> None | Some runs \<Rightarrow>
         (case (field read_gate_verdict None data ''verdict'', field as_str (Some []) data ''base_sha'',
             field as_str (Some []) data ''head_sha'', field as_str (Some []) data ''base_ref'',
             field as_str (Some []) data ''note'') of
            (Some v, Some b, Some h, Some r, Some n) \<Rightarrow>
              Some \<lparr>gr_verdict = v, gr_targets = targets, gr_runs = runs, gr_base_sha = b, gr_head_sha = h,
                    gr_base_ref = r, gr_note = n\<rparr>
          | _ \<Rightarrow> None)))))"

lemma traverse_map: "(\<And>x. f (g x) = Some x) \<Longrightarrow> traverse f (map g xs) = Some xs"
  by (induction xs) auto

lemma as_names_json [simp]: "as_names (names_json ns) = Some ns"
  by (simp add: as_names_def names_json_def traverse_map as_str_def)

lemma as_opt_json [simp]: "(\<And>x. f (g x) = Some x \<and> g x \<noteq> JNull) \<Longrightarrow> as_opt f (opt_json g v) = Some v"
  by (cases v) (simp_all add: as_opt_def opt_json_def)

lemma as_scalars [simp]: "as_str (JStr s) = Some s" "as_int (JInt n) = Some n"
  by (simp_all add: as_str_def as_int_def)

lemma read_status_str [simp]: "read_status (JStr (status_str v)) = Some v"
  by (cases v) (simp_all add: read_status_def of_str_def status_str_def)

lemma read_comparison_str [simp]: "read_comparison (JStr (comparison_str v)) = Some v"
  by (cases v) (simp_all add: read_comparison_def of_str_def comparison_str_def)

lemma read_side_str [simp]: "read_side (JStr (side_str v)) = Some v"
  by (cases v) (simp_all add: read_side_def of_str_def side_str_def)

lemma read_outcome_str [simp]: "read_outcome (JStr (outcome_str v)) = Some v"
  by (cases v) (simp_all add: read_outcome_def of_str_def outcome_str_def)

lemma read_granularity_str [simp]: "read_granularity (JStr (granularity_str v)) = Some v"
  by (cases v) (simp_all add: read_granularity_def of_str_def granularity_str_def)

lemma read_gate_verdict_str [simp]: "read_gate_verdict (JStr (verdict_str v)) = Some v"
  by (cases v) (simp_all add: read_gate_verdict_def of_str_def verdict_str_def)

lemma read_verdict_dict: "read_verdict (verdict_dict v) = Some v"
  by (simp add: read_verdict_def verdict_dict_def only_keys_def field_def Let_def)

lemma read_run_dict: "read_run (run_dict r) = Some r"
  by (simp add: read_run_def run_dict_def only_keys_def field_def names_json_def as_names_def traverse_map)

text \<open>The stored report reads back as the report it was written from.\<close>

lemma report_round_trip: "from_dict (report_dict r) = Some r"
proof -
  have "elements (JList (map verdict_dict ts)) = Some (map verdict_dict ts)" for ts
    by (auto simp: elements_def)
  moreover have "elements (JList (map run_dict rs)) = Some (map run_dict rs)" for rs
    by (auto simp: elements_def)
  ultimately show ?thesis
    by (simp add: from_dict_def report_dict_def get_def get_or_def field_def traverse_map read_verdict_dict read_run_dict)
qed

subsection \<open>What the gate blames on a change\<close>

lemma stable_names_iff:
  "reds \<noteq> [] \<Longrightarrow> x \<in> stable_names reds \<longleftrightarrow> (\<forall>r \<in> set reds. x \<in> names_or_none r)"
proof (cases reds)
  case (Cons n ns)
  have "x \<in> fold (\<inter>) (map names_or_none ns) A \<longleftrightarrow> x \<in> A \<and> (\<forall>r \<in> set ns. x \<in> names_or_none r)" for A
    by (induction ns arbitrary: A) auto
  then show ?thesis using Cons by (simp add: stable_names_def)
qed simp

lemma finite_names [simp]: "finite (names_or_none r)"
  by (auto simp: names_or_none_def run_names_def split: option.split)

lemma finite_stable [simp]: "finite (stable_names reds)"
proof (cases reds)
  case (Cons n ns)
  have "finite (fold (\<inter>) (map names_or_none ns) A)" if "finite A" for A
    using that by (induction ns arbitrary: A) auto
  then show ?thesis using Cons by (simp add: stable_names_def)
qed (simp add: stable_names_def)

lemma capped_sub: "finite A \<Longrightarrow> set (capped A) \<subseteq> A"
  using set_take_subset [of MAX_NAMES "sorted_list_of_set A"] by (simp add: capped_def)

lemma capped_all: "finite A \<Longrightarrow> card A \<le> 50 \<Longrightarrow> set (capped A) = A"
  by (simp add: capped_def MAX_NAMES_def)

lemma compare_blames:
  assumes "v = compare_with_base target reds b" and "tv_status v = New_Failures"
  shows "(tr_outcome b = Passed \<or> (\<exists>ns. run_names b = Some ns \<and> (\<exists>t. t \<notin> ns \<and> t \<in> stable_names reds))) \<and>
    (\<forall>t \<in> set (tv_new_failures v). t \<notin> names_or_none b \<and> t \<in> stable_names reds)"
proof (cases "tr_outcome b = Passed")
  case True
  then have "names_or_none b = {}" by (simp add: names_or_none_def run_names_def)
  moreover have "set (tv_new_failures v) \<subseteq> stable_names reds"
    using assms True capped_sub [of "stable_names reds"]
    by (auto simp: compare_with_base_def plain_verdict_def Let_def capped_def split: if_splits)
  ultimately show ?thesis using True by auto
next
  case False
  then obtain ns where n: "run_names b = Some ns" "list_all (\<lambda>r. run_names r \<noteq> None) reds"
    using assms by (auto simp: compare_with_base_def plain_verdict_def Let_def split: if_splits option.splits)
  then have e: "tv_new_failures v = capped (stable_names reds - ns)" "stable_names reds - ns \<noteq> {}"
    using assms False by (auto simp: compare_with_base_def plain_verdict_def Let_def split: if_splits)
  then show ?thesis using capped_sub [of "stable_names reds - ns"] n by (auto simp: names_or_none_def)
qed

lemma compare_catches:
  assumes "t \<in> stable_names reds" and "\<forall>r \<in> set reds. run_names r \<noteq> None"
    and "tr_outcome b = Passed \<or> (\<exists>ns. run_names b = Some ns \<and> t \<notin> ns)"
  shows "tv_status (compare_with_base target reds b) = New_Failures"
proof -
  have "list_all (\<lambda>r. run_names r \<noteq> None) reds" using assms(2) by (simp add: list_all_iff)
  then show ?thesis using assms(1,3)
    by (cases "tr_outcome b = Passed") (auto simp: compare_with_base_def plain_verdict_def Let_def)
qed


text \<open>The report blocks exactly when one of its targets does, and it reports a pass only when every
  target passed.\<close>

lemma report_verdict:
  "(gr_blocking (build_report ts rs b h br n) \<longleftrightarrow> (\<exists>t \<in> set ts. tv_blocking t)) \<and>
   (gr_verdict (build_report ts rs b h br n) = GV_Passed \<longleftrightarrow> (\<forall>t \<in> set ts. tv_status t = TS_Passed))"
proof -
  define S where "S = tv_status ` set ts"
  have b: "(\<exists>t \<in> set ts. tv_status t = New_Failures) \<longleftrightarrow> New_Failures \<in> S" unfolding S_def by force
  have "s = TS_Passed" if "s \<in> S" "New_Failures \<notin> S" "TS_Error \<notin> S" "S \<inter> {Preexisting_Failures, Flaky} = {}" for s
    using that by (cases s) auto
  then have "New_Failures \<notin> S \<and> TS_Error \<notin> S \<and> S \<inter> {Preexisting_Failures, Flaky} = {} \<longleftrightarrow> (\<forall>s \<in> S. s = TS_Passed)"
    by auto
  moreover have "(\<forall>s \<in> S. s = TS_Passed) \<longleftrightarrow> (\<forall>t \<in> set ts. tv_status t = TS_Passed)" by (auto simp: S_def)
  ultimately show ?thesis
    unfolding build_report_def gr_blocking_def tv_blocking_def Let_def b set_map S_def [symmetric] by auto
qed

definition demo_run :: "side \<Rightarrow> run_outcome \<Rightarrow> pystr list option \<Rightarrow> target_run" where
  "demo_run s out names = \<lparr>tr_target = ''unit'', tr_side = s, tr_attempt = 1, tr_outcome = out, tr_exit_code = Some 1,
     tr_duration_ms = 5, tr_failed_tests = names, tr_summary = None, tr_output_tail = [], tr_granularity = Test\<rparr>"


end
