(* ===== verification/Review_Routing.thy ===== *)
theory Review_Routing
  imports Json Template_Routes
begin

text \<open>
  Routing on what the reviewer wrote: its verdict read from the text of its output, the tests it
  reports, and where the job goes next (\<open>embry0/orchestration/routing/conditions.py\<close>,
  \<open>embry0/orchestration/agent_json.py\<close>, \<open>embry0/workflows/issue_to_pr/routing.py\<close>). Parameters:
  \<open>show\<close>, how Python prints a float, a list or a dict, and \<open>uni_word\<close>, whether the character outside
  ASCII that a text starts with is a letter or digit (\<open>\w\<close>); nothing is assumed of them.
\<close>

subsection \<open>The JSON an agent ends with\<close>

definition object_with :: "pystr \<Rightarrow> string \<Rightarrow> (pystr \<times> json) list option" where
  "object_with key s =
     (if starts_with s ''{'' then
        (case raw_decode s of
           Some (JObj d, _) \<Rightarrow> if list_ex (\<lambda>(k, _). k = key) d then Some d else None
         | _ \<Rightarrow> None)
      else None)"

text \<open>Every \<open>{\<close> is tried, from the first; the last object found wins.\<close>

fun last_object_with :: "pystr \<Rightarrow> string \<Rightarrow> (pystr \<times> json) list option" where
  "last_object_with key [] = None"
| "last_object_with key (c # cs) =
     (case last_object_with key cs of Some d \<Rightarrow> Some d | None \<Rightarrow> object_with key (c # cs))"

definition backticks :: pystr where "backticks = ''```''"

fun every_second :: "'a list \<Rightarrow> 'a list" where
  "every_second (_ # b # r) = b # every_second r"
| "every_second _ = []"

definition block_json :: "string \<Rightarrow> json option" where
  "block_json block =
     (let b = strip block in json_loads (if starts_with b ''json'' then strip (drop 4 b) else b))"

text \<open>\<open>_json_from_markdown\<close>; None is also what it returns for a block that is \<open>null\<close>.\<close>

definition json_from_markdown :: "string \<Rightarrow> json option" where
  "json_from_markdown text =
     (if \<not> contains text backticks then None
      else case find (\<lambda>b. block_json b \<noteq> None) (every_second (split_str backticks text)) of
             None \<Rightarrow> None
           | Some b \<Rightarrow> (case block_json b of Some JNull \<Rightarrow> None | v \<Rightarrow> v))"

definition output_text :: "json \<Rightarrow> string" where
  "output_text v = (case v of JStr s \<Rightarrow> s | _ \<Rightarrow> [])"

definition review_payload :: "json \<Rightarrow> (pystr \<times> json) list option" where
  "review_payload out =
     (let text = output_text out
      in case json_loads text of
           Some v \<Rightarrow> (case v of JObj d \<Rightarrow> Some d | _ \<Rightarrow> None)
         | None \<Rightarrow>
             (case json_from_markdown text of
                Some v \<Rightarrow> (case v of JObj d \<Rightarrow> Some d | _ \<Rightarrow> None)
              | None \<Rightarrow> last_object_with ''decision'' text))"

subsection \<open>Tests that did not run\<close>

definition ALLOWED_TEST_SKIP_REASONS :: "pystr list" where
  "ALLOWED_TEST_SKIP_REASONS = [''needs_service'', ''not_applicable'']"

text \<open>
  \<open>re.IGNORECASE\<close>: the characters outside ASCII that match an ASCII letter are the Kelvin sign, the
  long s and the dotless and dotted i.
\<close>

fun fold_case :: "string \<Rightarrow> string" where
  "fold_case [] = []"
| "fold_case (c # cs) =
     (if starts_with (c # cs) [CHR 0xE2, CHR 0x84, CHR 0xAA] then CHR ''k'' # fold_case (drop 2 cs)
      else if starts_with (c # cs) [CHR 0xC5, CHR 0xBF] then CHR ''s'' # fold_case (drop 1 cs)
      else if starts_with (c # cs) [CHR 0xC4, CHR 0xB1] \<or> starts_with (c # cs) [CHR 0xC4, CHR 0xB0]
      then CHR ''i'' # fold_case (drop 1 cs)
      else lower_char c # fold_case cs)"

definition word_at :: "(string \<Rightarrow> bool) \<Rightarrow> string \<Rightarrow> bool" where
  "word_at uni_word s =
     (case s of [] \<Rightarrow> False
      | c # _ \<Rightarrow> if ord c < 128 then is_alnum c \<or> c = CHR ''_'' else uni_word s)"

text \<open>The characters of a text, and one of them dropped when it is not a line feed (the \<open>.\<close>).\<close>

definition drop_char :: "string \<Rightarrow> string" where
  "drop_char s = (case s of [] \<Rightarrow> [] | c # r \<Rightarrow> if ord c < 128 then r else dropWhile cont r)"

fun last_char :: "string \<Rightarrow> string" where
  "last_char [] = []"
| "last_char (c # r) = (if r = [] \<or> list_all cont r then c # r else last_char r)"

definition plain_toolchain_words :: "pystr list" where
  "plain_toolchain_words =
     [''no jvm'', ''no jdk'', ''java: not found'', ''java not found'', ''cannot compile'', ''no compiler'', ''toolchain'',
      ''command not found'']"

text \<open>\<open>_TOOLCHAIN_TEXT\<close> at one position: what came before, what follows.\<close>

definition toolchain_at :: "(string \<Rightarrow> bool) \<Rightarrow> string \<Rightarrow> string \<Rightarrow> bool" where
  "toolchain_at uni_word before s \<longleftrightarrow>
     list_ex (starts_with s) plain_toolchain_words \<or>
     starts_with s ''no java'' \<and> \<not> word_at uni_word (drop 7 s) \<or>
     (starts_with s ''mvn: not found'' \<or> starts_with s ''mvnw: not found'') \<and> \<not> word_at uni_word (last_char before) \<or>
     starts_with s ''compiling isn'' \<and>
       (let r = drop 13 s in starts_with r ''t possible'' \<or> \<not> starts_with r [CHR 0x0A] \<and> starts_with (drop_char r) ''t possible'') \<or>
     starts_with s ''can'' \<and>
       (let r = drop 3 s in starts_with r ''t compile'' \<or> starts_with r (CHR 0x27 # ''t compile''))"

definition toolchain_text :: "(string \<Rightarrow> bool) \<Rightarrow> string \<Rightarrow> bool" where
  "toolchain_text uni_word blob =
     (let s = fold_case blob in list_ex (\<lambda>i. toolchain_at uni_word (take i s) (drop i s)) [0..<length s])"

datatype block_reason = Failed_Checks | Toolchain_Missing | Tests_Not_Run

definition check_failed :: "(pystr \<times> json) list \<Rightarrow> pystr \<Rightarrow> bool" where
  "check_failed validation name =
     (case get validation name of
        JObj entry \<Rightarrow> (case get entry ''status'' of JStr s \<Rightarrow> str_lower s = ''fail'' | _ \<Rightarrow> False)
      | _ \<Rightarrow> False)"

definition tests_block_reason :: "(json \<Rightarrow> pystr) \<Rightarrow> (string \<Rightarrow> bool) \<Rightarrow> json \<Rightarrow> block_reason option" where
  "tests_block_reason show uni_word out =
     (case review_payload out of
        None \<Rightarrow> None
      | Some data \<Rightarrow>
          (case get data ''validation'' of
             JObj validation \<Rightarrow>
               if list_ex (check_failed validation) [''tests'', ''lint'', ''typecheck''] then Some Failed_Checks
               else
                 (case get validation ''tests'' of
                    JObj tests \<Rightarrow>
                      if str_lower (str_or_empty show (get tests ''status'')) \<noteq> ''skipped'' then None
                      else
                        (let reason = str_lower (strip (str_or_empty show (get tests ''reason'')))
                         in if reason \<in> set ALLOWED_TEST_SKIP_REASONS then None
                            else
                              (let blob = str_or_empty show (get tests ''output'') @ '' '' @
                                   str_or_empty show (get tests ''reason'') @ '' '' @
                                   str_or_empty show (get data ''summary'')
                               in if reason = ''no_toolchain'' \<or> toolchain_text uni_word blob then Some Toolchain_Missing
                                  else Some Tests_Not_Run))
                  | _ \<Rightarrow> None)
           | _ \<Rightarrow> None))"

subsection \<open>The verdict\<close>

datatype review_decision = Approved | Changes_Requested

datatype type_error = Unhashable

text \<open>\<open>decision in REVIEW_DECISIONS\<close>, a set: a list or a dict is not hashable and raises.\<close>

definition decision_of :: "json \<Rightarrow> type_error + review_decision option" where
  "decision_of v =
     (case v of
        JStr s \<Rightarrow> Inr (if s = ''approved'' then Some Approved
                      else if s = ''changes_requested'' then Some Changes_Requested else None)
      | JList _ \<Rightarrow> Inl Unhashable
      | JObj _ \<Rightarrow> Inl Unhashable
      | _ \<Rightarrow> Inr None)"

definition parse_review_decision :: "json \<Rightarrow> type_error + review_decision option" where
  "parse_review_decision out =
     (let data = review_payload out
      in case (case data of None \<Rightarrow> Inr None | Some d \<Rightarrow> decision_of (get d ''decision'')) of
           Inl e \<Rightarrow> Inl e
         | Inr said \<Rightarrow>
             (case (if said = None \<and> contains (str_lower (output_text out)) ''changes_requested''
                    then Some Changes_Requested else said) of
                None \<Rightarrow> Inr None
              | Some Changes_Requested \<Rightarrow> Inr (Some Changes_Requested)
              | Some Approved \<Rightarrow>
                  (case data of
                     None \<Rightarrow> Inr (Some Approved)
                   | Some d \<Rightarrow>
                       (case get d ''docs_review'' of
                          JObj docs \<Rightarrow> Inr (Some (if truthy (get docs ''needs_update'') then Changes_Requested else Approved))
                        | _ \<Rightarrow> Inr (Some Approved)))))"

subsection \<open>Where the job goes\<close>

record agent_output =
  ao_type :: pystr
  ao_error :: bool
  ao_output :: json

record review_state =
  rv_outputs :: "agent_output list"
  rv_retry_count :: int
  rv_max_loops :: "int option"

datatype review_route = To_Approved | To_Changes_Requested | To_Max_Retries

text \<open>The end of \<open>check_review_decision\<close>, once there is a verdict; a missing \<open>max_feedback_loops\<close> is 5.\<close>

definition route_decision ::
  "(json \<Rightarrow> pystr) \<Rightarrow> (string \<Rightarrow> bool) \<Rightarrow> review_state \<Rightarrow> json \<Rightarrow> review_decision \<Rightarrow> type_error + review_route" where
  "route_decision show uni_word st out d =
     (let block = (if d = Approved then tests_block_reason show uni_word out else None);
          decision = (if block \<in> {Some Failed_Checks, Some Tests_Not_Run} then Changes_Requested else d);
          max_loops = (case rv_max_loops st of None \<Rightarrow> 5 | Some m \<Rightarrow> m)
      in if block = Some Toolchain_Missing then Inr To_Max_Retries
         else if decision = Changes_Requested then
           Inr (if max_loops \<le> rv_retry_count st then To_Max_Retries else To_Changes_Requested)
         else Inr To_Approved)"

definition check_review_decision :: "(json \<Rightarrow> pystr) \<Rightarrow> (string \<Rightarrow> bool) \<Rightarrow> review_state \<Rightarrow> type_error + review_route" where
  "check_review_decision show uni_word st =
     (let reviews = filter (\<lambda>out. ao_type out = ''review'') (rv_outputs st)
      in if reviews = [] then Inr To_Changes_Requested
         else
           let latest = last reviews
           in if ao_error latest then Inr To_Max_Retries
              else
                case parse_review_decision (ao_output latest) of
                  Inl e \<Rightarrow> Inl e
                | Inr None \<Rightarrow> Inr To_Max_Retries
                | Inr (Some d) \<Rightarrow> route_decision show uni_word st (ao_output latest) d)"

definition check_triage_action :: "json \<Rightarrow> pystr" where
  "check_triage_action triage_decision =
     (let act = (case triage_decision of JObj d \<Rightarrow> get_or d ''action'' (JStr ''proceed'') | _ \<Rightarrow> JStr ''proceed'')
      in if act = JStr ''split'' then ''split'' else ''proceed'')"

definition route_after_triage :: "json \<Rightarrow> pystr" where
  "route_after_triage triage_decision = check_triage_action triage_decision"

definition DEFAULT_MAX_QA_FAILURE_ROUNDS :: int where "DEFAULT_MAX_QA_FAILURE_ROUNDS = 2"

text \<open>The QA block of the job's state.\<close>

record qa_state =
  qs_status :: pystr
  qs_rounds :: int
  qs_max_rounds :: "int option"

definition route_after_review :: "pystr \<Rightarrow> route_state \<Rightarrow> pystr" where
  "route_after_review current_stage st =
     (if current_stage = ''review_failed'' then ''developer''
      else if route_plan st \<noteq> [] then next_route st
      else if needs_qa st then ''qa''
      else ''end'')"

definition route_after_qa_report :: "qa_state \<Rightarrow> route_state \<Rightarrow> pystr" where
  "route_after_qa_report qa st =
     (let max_rounds = (case qs_max_rounds qa of None \<Rightarrow> DEFAULT_MAX_QA_FAILURE_ROUNDS | Some m \<Rightarrow> m)
      in if qs_status qa = ''passed'' then (if route_plan st \<noteq> [] then next_route st else ''end'')
         else if qs_status qa = ''exhausted'' then ''end''
         else if qs_status qa = ''failed'' then (if max_rounds \<le> qs_rounds qa then ''exhausted'' else ''triage'')
         else ''end'')"

subsection \<open>Properties\<close>

lemma parse_approved:
  assumes "parse_review_decision out = Inr (Some Approved)"
  obtains d where "review_payload out = Some d" "get d ''decision'' = JStr ''approved''"
    "\<And>docs. get d ''docs_review'' = JObj docs \<Longrightarrow> \<not> truthy (get docs ''needs_update'')"
proof -
  note p = assms [unfolded parse_review_decision_def Let_def]
  show ?thesis
  proof (cases "review_payload out")
    case None
    then show ?thesis using p by (auto split: if_splits)
  next
    case (Some d)
    note p = p [unfolded Some option.case]
    obtain said where s: "decision_of (get d ''decision'') = Inr said"
      using p by (cases "decision_of (get d ''decision'')") auto
    have a: "said = Some Approved" using p unfolding s by (cases said) (auto split: if_splits review_decision.splits)
    have docs: "\<not> truthy (get docs ''needs_update'')" if "get d ''docs_review'' = JObj docs" for docs
      using p unfolding s a that by (auto split: if_splits)
    have "get d ''decision'' = JStr ''approved''"
      using s a by (cases "get d ''decision''") (auto simp: decision_of_def split: if_splits)
    with that Some docs show ?thesis by blast
  qed
qed

text \<open>C39: a job is approved only by a reviewer that said so: its last review ran without error and wrote a
  JSON object whose decision is the word approved, with no documentation left to update and no test,
  lint or type check reported as failed; and tests it reports as skipped were skipped for one of the
  two allowed reasons. Prose, truncated JSON, an unknown word or a missing key never approve.\<close>

theorem approval_is_earned:
  assumes "check_review_decision show uni_word st = Inr To_Approved"
  shows "\<exists>out d. out = last (filter (\<lambda>x. ao_type x = ''review'') (rv_outputs st)) \<and> ao_type out = ''review'' \<and>
    \<not> ao_error out \<and> review_payload (ao_output out) = Some d \<and> get d ''decision'' = JStr ''approved'' \<and>
    (\<forall>docs. get d ''docs_review'' = JObj docs \<longrightarrow> \<not> truthy (get docs ''needs_update'')) \<and>
    (\<forall>validation. get d ''validation'' = JObj validation \<longrightarrow>
       (\<forall>name \<in> {''tests'', ''lint'', ''typecheck''}. \<not> check_failed validation name) \<and>
       (\<forall>tests. get validation ''tests'' = JObj tests \<longrightarrow>
          str_lower (str_or_empty show (get tests ''status'')) = ''skipped'' \<longrightarrow>
          str_lower (strip (str_or_empty show (get tests ''reason''))) \<in> {''needs_service'', ''not_applicable''}))"
proof -
  let ?rs = "filter (\<lambda>x. ao_type x = ''review'') (rv_outputs st)"
  define out where "out = last ?rs"
  have ne: "?rs \<noteq> []" using assms by (auto simp: check_review_decision_def Let_def split: if_splits)
  have c: "check_review_decision show uni_word st =
     (if ao_error out then Inr To_Max_Retries
      else case parse_review_decision (ao_output out) of
             Inl e \<Rightarrow> Inl e
           | Inr None \<Rightarrow> Inr To_Max_Retries
           | Inr (Some d) \<Rightarrow> route_decision show uni_word st (ao_output out) d)"
    unfolding check_review_decision_def Let_def out_def by (simp only: ne if_False simp_thms)
  have e: "\<not> ao_error out" using c assms by (metis sum.inject(2) review_route.distinct(4))
  obtain x where x: "parse_review_decision (ao_output out) = Inr (Some x)"
    using c e assms by (auto split: sum.splits option.splits)
  then have r: "route_decision show uni_word st (ao_output out) x = Inr To_Approved" using c e assms by simp
  have p: "parse_review_decision (ao_output out) = Inr (Some Approved)" using r x by (cases x) (auto simp: route_decision_def Let_def split: if_splits)
  have t: "tests_block_reason show uni_word (ao_output out) = None"
    using r p x by (cases "tests_block_reason show uni_word (ao_output out)")
      (auto simp: route_decision_def Let_def split: if_splits elim: block_reason.exhaust, metis block_reason.exhaust)
  have ty: "ao_type out = ''review''" using ne last_in_set [OF ne] by (simp add: out_def)
  from parse_approved [OF p] obtain d where d: "review_payload (ao_output out) = Some d"
    "get d ''decision'' = JStr ''approved''"
    "\<And>docs. get d ''docs_review'' = JObj docs \<Longrightarrow> \<not> truthy (get docs ''needs_update'')" by blast
  have v: "(\<forall>name \<in> {''tests'', ''lint'', ''typecheck''}. \<not> check_failed validation name) \<and>
       (\<forall>tests. get validation ''tests'' = JObj tests \<longrightarrow>
          str_lower (str_or_empty show (get tests ''status'')) = ''skipped'' \<longrightarrow>
          str_lower (strip (str_or_empty show (get tests ''reason''))) \<in> {''needs_service'', ''not_applicable''})"
    if w: "get d ''validation'' = JObj validation" for validation
  proof (intro conjI)
    have f: "\<not> list_ex (check_failed validation) [''tests'', ''lint'', ''typecheck'']"
    proof
      assume "list_ex (check_failed validation) [''tests'', ''lint'', ''typecheck'']"
      then have "tests_block_reason show uni_word (ao_output out) = Some Failed_Checks"
        unfolding tests_block_reason_def d(1) option.case w json.case by (rule if_P)
      then show False using t by simp
    qed
    then show "\<forall>name \<in> {''tests'', ''lint'', ''typecheck''}. \<not> check_failed validation name" by simp
    show "\<forall>tests. get validation ''tests'' = JObj tests \<longrightarrow>
          str_lower (str_or_empty show (get tests ''status'')) = ''skipped'' \<longrightarrow>
          str_lower (strip (str_or_empty show (get tests ''reason''))) \<in> {''needs_service'', ''not_applicable''}"
      using t unfolding tests_block_reason_def d(1) option.case w json.case if_not_P [OF f] Let_def ALLOWED_TEST_SKIP_REASONS_def
      by (auto split: if_splits)
  qed
  show ?thesis using out_def ty e d v by blast
qed

text \<open>An output the router cannot read pauses the job for a person: with no JSON object in the last
  review's text and no mention of a change request the job is neither approved nor sent back.\<close>

lemma unreadable_review_pauses:
  assumes "filter (\<lambda>x. ao_type x = ''review'') (rv_outputs st) = outs @ [out]"
    and "review_payload (ao_output out) = None"
    and "\<not> contains (str_lower (output_text (ao_output out))) ''changes_requested''"
  shows "check_review_decision show uni_word st = Inr To_Max_Retries"
  using assms by (simp add: check_review_decision_def parse_review_decision_def Let_def)

text \<open>A review whose decision is a JSON list or object is not treated as unreadable: the membership test
  raises, whatever else the output holds.\<close>

lemma structured_decision_raises:
  assumes "filter (\<lambda>x. ao_type x = ''review'') (rv_outputs st) = outs @ [out]" and "\<not> ao_error out"
    and "review_payload (ao_output out) = Some d" and "get d ''decision'' = JList vs \<or> get d ''decision'' = JObj ms"
  shows "check_review_decision show uni_word st = Inl Unhashable"
  using assms by (cases "get d ''decision''") (simp_all add: check_review_decision_def parse_review_decision_def decision_of_def)

subsection \<open>Witnesses\<close>

definition verdict_text :: "pystr \<Rightarrow> json" where
  "verdict_text v = JStr (''{'' @ [CHR 0x22] @ ''decision'' @ [CHR 0x22] @ '':'' @ v @ ''}'')"

definition review_of :: "json \<Rightarrow> review_state" where
  "review_of out = \<lparr>rv_outputs = [\<lparr>ao_type = ''review'', ao_error = False, ao_output = out\<rparr>],
     rv_retry_count = 0, rv_max_loops = None\<rparr>"

definition approved_text :: json where
  "approved_text = verdict_text (CHR 0x22 # ''approved'' @ [CHR 0x22])"

lemma payload_approved: "review_payload approved_text = Some [(''decision'', JStr ''approved'')]"
  by code_simp

lemma payload_list: "review_payload (verdict_text ''[]'') = Some [(''decision'', JList [])]"
  by code_simp

lemma approval_is_earned_witness:
  "check_review_decision (\<lambda>_. []) (\<lambda>_. False) (review_of approved_text) = Inr To_Approved \<and>
   (\<exists>d. review_payload approved_text = Some d \<and> get d ''decision'' = JStr ''approved'')"
proof -
  have a: "check_review_decision (\<lambda>_. []) (\<lambda>_. False) (review_of approved_text) = Inr To_Approved"
    by (simp add: check_review_decision_def review_of_def parse_review_decision_def payload_approved get_def get_or_def
        decision_of_def tests_block_reason_def route_decision_def Let_def)
  from approval_is_earned [OF a] a show ?thesis by (auto simp: review_of_def)
qed

lemma structured_decision_raises_witness:
  "check_review_decision (\<lambda>_. []) (\<lambda>_. False) (review_of (verdict_text ''[]'')) = Inl Unhashable"
  by (rule structured_decision_raises [of _ "[]" "\<lparr>ao_type = ''review'', ao_error = False, ao_output = verdict_text ''[]''\<rparr>"
        "[(''decision'', JList [])]" "[]" "[]"])
    (simp_all add: review_of_def payload_list get_def get_or_def)

lemma unreadable_review_pauses_witness:
  "check_review_decision (\<lambda>_. []) (\<lambda>_. False) (review_of (JStr ''VERDICT: OK'')) = Inr To_Max_Retries"
proof -
  have "review_payload (JStr ''VERDICT: OK'') = None" by code_simp
  moreover have "\<not> contains (str_lower (output_text (JStr ''VERDICT: OK''))) ''changes_requested''" by code_simp
  ultimately show ?thesis
    by (intro unreadable_review_pauses [of _ "[]" "\<lparr>ao_type = ''review'', ao_error = False, ao_output = JStr ''VERDICT: OK''\<rparr>"])
      (simp_all add: review_of_def)
qed

end
