(* ===== verification/Affected.thy ===== *)
theory Affected
  imports Py_Value
begin

text \<open>
  Which apps of an npm workspace a change affects: the graph of the workspace's packages
  (\<open>embry0/workspace_providers/npm_workspaces_turbo/_dep_graph.py\<close>) and the search upstream from the
  changed ones (\<open>_affected.py\<close> beside it). Reading the files is left out: the model starts from the
  parsed \<open>package.json\<close> of each member directory, in the order they are visited, None for one that is
  missing or does not parse. A frozenset is a list without duplicates; nothing depends on its order.
\<close>

subsection \<open>The graph of a workspace\<close>

definition EDGE_FIELDS :: "pystr list" where
  "EDGE_FIELDS = [''dependencies'', ''devDependencies'', ''peerDependencies'', ''optionalDependencies'']"

type_synonym package_json = "(pystr \<times> json) list"

record dep_graph =
  dg_nodes :: "pystr list"
  dg_out :: "pystr list dict"
  dg_in :: "pystr list dict"

definition edges_out :: "dep_graph \<Rightarrow> pystr \<Rightarrow> pystr list" where
  "edges_out g n = (case map_of (dg_out g) n of None \<Rightarrow> [] | Some ns \<Rightarrow> ns)"

definition consumers_of :: "dep_graph \<Rightarrow> pystr \<Rightarrow> pystr list" where
  "consumers_of g n = (case map_of (dg_in g) n of None \<Rightarrow> [] | Some ns \<Rightarrow> ns)"

text \<open>The first pass: the packages by name, the first of a name kept.\<close>

definition add_package :: "package_json option \<Rightarrow> package_json dict \<Rightarrow> package_json dict" where
  "add_package pkg names =
     (case pkg of
        None \<Rightarrow> names
      | Some p \<Rightarrow>
          (case get p ''name'' of
             JStr name \<Rightarrow> if name \<noteq> [] \<and> map_of names name = None then names @ [(name, p)] else names
           | _ \<Rightarrow> names))"

definition name_to_pkg :: "package_json option list \<Rightarrow> package_json dict" where
  "name_to_pkg members = fold add_package members []"

text \<open>The second pass, for one package: the internal names its four fields name, itself left out.\<close>

definition field_names :: "package_json \<Rightarrow> pystr \<Rightarrow> pystr list" where
  "field_names p dep_field = (case get p dep_field of JObj block \<Rightarrow> map fst block | _ \<Rightarrow> [])"

definition package_deps :: "pystr list \<Rightarrow> pystr \<Rightarrow> package_json \<Rightarrow> pystr list" where
  "package_deps nodes name p =
     remdups (filter (\<lambda>d. d \<in> set nodes \<and> d \<noteq> name) (concat (map (field_names p) EDGE_FIELDS)))"

definition add_consumer :: "pystr \<Rightarrow> pystr \<Rightarrow> pystr list dict \<Rightarrow> pystr list dict" where
  "add_consumer name dep ins = AList.update dep (List.insert name (case map_of ins dep of None \<Rightarrow> [] | Some ns \<Rightarrow> ns)) ins"

definition add_edges ::
  "pystr list \<Rightarrow> pystr \<times> package_json \<Rightarrow> pystr list dict \<times> pystr list dict \<Rightarrow> pystr list dict \<times> pystr list dict" where
  "add_edges nodes np maps =
     (let name = fst np; deps = package_deps nodes name (snd np)
      in (AList.update name deps (fst maps), fold (add_consumer name) deps (snd maps)))"

definition edge_maps :: "package_json dict \<Rightarrow> pystr list dict \<times> pystr list dict" where
  "edge_maps pkgs =
     (let nodes = map fst pkgs in fold (add_edges nodes) pkgs ([], map (\<lambda>n. (n, [])) nodes))"

text \<open>\<open>build_dep_graph\<close>; None is the \<open>WorkspaceProviderError\<close> of a root that does not parse.\<close>

definition build_dep_graph :: "package_json option \<Rightarrow> package_json option list \<Rightarrow> dep_graph option" where
  "build_dep_graph root_pkg members =
     (case root_pkg of
        None \<Rightarrow> None
      | Some _ \<Rightarrow>
          (let pkgs = name_to_pkg members; (outs, ins) = edge_maps pkgs
           in Some \<lparr>dg_nodes = map fst pkgs, dg_out = outs, dg_in = ins\<rparr>))"

subsection \<open>The search upstream\<close>

definition bfs_space :: "dep_graph \<Rightarrow> pystr list \<Rightarrow> pystr set" where
  "bfs_space g visited = (\<Union> (set ` snd ` set (dg_in g))) - set visited"

lemma finite_bfs_space [simp]: "finite (bfs_space g visited)"
  by (simp add: bfs_space_def)

lemma consumers_in_graph: "set (consumers_of g n) \<subseteq> \<Union> (set ` snd ` set (dg_in g))"
  by (auto simp: consumers_of_def split: option.splits dest!: map_of_SomeD [OF sym])

lemma bfs_space_step:
  assumes "new = remdups (filter (\<lambda>c. c \<notin> set visited) (consumers_of g node))" and "new \<noteq> []"
  shows "card (bfs_space g (visited @ new)) < card (bfs_space g visited)"
proof (rule psubset_card_mono [OF finite_bfs_space])
  obtain x where "x \<in> set new" using assms(2) by (cases new) auto
  then have "x \<in> bfs_space g visited" "x \<notin> bfs_space g (visited @ new)"
    using consumers_in_graph [of g node] by (auto simp: assms(1) bfs_space_def)
  then show "bfs_space g (visited @ new) \<subset> bfs_space g visited" by (auto simp: bfs_space_def)
qed

text \<open>The loop of \<open>_bfs_upstream\<close>: what has been visited and the queue.\<close>

function bfs_loop :: "dep_graph \<Rightarrow> pystr list \<Rightarrow> pystr list \<Rightarrow> pystr list \<Rightarrow> pystr list" where
  "bfs_loop g block visited [] = visited"
| "bfs_loop g block visited (node # queue) =
     (if node \<in> set block then bfs_loop g block visited queue
      else
        let new = remdups (filter (\<lambda>c. c \<notin> set visited) (consumers_of g node))
        in bfs_loop g block (visited @ new) (queue @ new))"
  by pat_completeness auto

termination
proof (relation "measures [\<lambda>(g, block, visited, queue). card (bfs_space g visited), \<lambda>(g, block, visited, queue). length queue]")
  fix g block visited node queue and new :: "pystr list"
  assume n: "new = remdups (filter (\<lambda>c. c \<notin> set visited) (consumers_of g node))"
  show "((g, block, visited @ new, queue @ new), g, block, visited, node # queue) \<in>
      measures [\<lambda>(g, block, visited, queue). card (bfs_space g visited), \<lambda>(g, block, visited, queue). length queue]"
    using bfs_space_step [OF n] by (cases "new = []") auto
qed auto

definition bfs_upstream :: "dep_graph \<Rightarrow> pystr list \<Rightarrow> pystr list \<Rightarrow> pystr list" where
  "bfs_upstream g sources block = bfs_loop g block (remdups sources) (remdups sources)"

record affected_set =
  directly_changed :: "pystr list"
  cascade_closure :: "pystr list"
  apps_to_qa :: "pystr list"

definition compute_affected :: "pystr list \<Rightarrow> dep_graph \<Rightarrow> pystr list \<Rightarrow> pystr list \<Rightarrow> affected_set" where
  "compute_affected changed g apps no_cascade =
     (let cascade = bfs_upstream g changed []; cascade_no_nc = bfs_upstream g changed no_cascade
      in \<lparr>directly_changed = remdups changed, cascade_closure = cascade,
          apps_to_qa = remdups (filter (\<lambda>p. p \<in> set apps) (cascade_no_nc @ changed))\<rparr>)"

subsection \<open>The search finds what can be reached\<close>

text \<open>One step upstream, out of a package that is not blocked.\<close>

definition upstream :: "dep_graph \<Rightarrow> pystr list \<Rightarrow> (pystr \<times> pystr) set" where
  "upstream g block = {(a, b). a \<notin> set block \<and> b \<in> set (consumers_of g a)}"

lemma bfs_loop_reach:
  assumes "set queue \<subseteq> set visited"
    and "\<forall>a \<in> set visited - set queue. \<forall>b. (a, b) \<in> upstream g block \<longrightarrow> b \<in> set visited"
  shows "set (bfs_loop g block visited queue) = (upstream g block)\<^sup>* `` set visited"
  using assms
proof (induction g block visited queue rule: bfs_loop.induct)
  case (1 g block visited)
  have "(upstream g block)\<^sup>* `` set visited \<subseteq> set visited"
  proof
    fix y assume "y \<in> (upstream g block)\<^sup>* `` set visited"
    then obtain x where x: "x \<in> set visited" and p: "(x, y) \<in> (upstream g block)\<^sup>*" by blast
    from p show "y \<in> set visited" using x "1.prems"(2) by (induction rule: rtrancl_induct) auto
  qed
  then show ?case by auto
next
  case (2 g block visited node queue)
  show ?case
  proof (cases "node \<in> set block")
    case True
    have "set (bfs_loop g block visited queue) = (upstream g block)\<^sup>* `` set visited"
    proof (rule "2.IH"(1) [OF True])
      show "set queue \<subseteq> set visited" using "2.prems"(1) by simp
      have "b \<in> set visited" if a: "a \<in> set visited" "a \<notin> set queue" "(a, b) \<in> upstream g block" for a b
      proof -
        have "a \<noteq> node" using a(3) True by (auto simp: upstream_def)
        with a have "a \<in> set visited - set (node # queue)" by simp
        with a(3) "2.prems"(2) show ?thesis by blast
      qed
      then show "\<forall>a \<in> set visited - set queue. \<forall>b. (a, b) \<in> upstream g block \<longrightarrow> b \<in> set visited" by blast
    qed
    then show ?thesis using True by simp
  next
    case False
    define new where "new = remdups (filter (\<lambda>c. c \<notin> set visited) (consumers_of g node))"
    have e: "bfs_loop g block visited (node # queue) = bfs_loop g block (visited @ new) (queue @ new)"
      using False by (simp add: new_def Let_def)
    have n: "set new \<subseteq> upstream g block `` set visited" "set (consumers_of g node) \<subseteq> set (visited @ new)"
      using False "2.prems"(1) by (auto simp: new_def upstream_def)
    have "set (bfs_loop g block (visited @ new) (queue @ new)) = (upstream g block)\<^sup>* `` set (visited @ new)"
    proof (rule "2.IH"(2) [OF False new_def])
      show "set (queue @ new) \<subseteq> set (visited @ new)" using "2.prems"(1) by auto
      have "b \<in> set (visited @ new)" if a: "a \<in> set visited" "a \<notin> set queue" "(a, b) \<in> upstream g block" for a b
      proof (cases "a = node")
        case True
        then show ?thesis using a(3) n(2) by (auto simp: upstream_def)
      next
        case False
        with a have "a \<in> set visited - set (node # queue)" by simp
        with a(3) "2.prems"(2) have "b \<in> set visited" by blast
        then show ?thesis by simp
      qed
      then show "\<forall>a \<in> set (visited @ new) - set (queue @ new). \<forall>b. (a, b) \<in> upstream g block \<longrightarrow> b \<in> set (visited @ new)"
        by auto
    qed
    also have "\<dots> = (upstream g block)\<^sup>* `` set visited"
      using n(1) by (auto intro: converse_rtrancl_into_rtrancl)
    finally show ?thesis unfolding e .
  qed
qed

lemma bfs_upstream_reach: "set (bfs_upstream g sources block) = (upstream g block)\<^sup>* `` set sources"
  by (simp add: bfs_upstream_def bfs_loop_reach)

subsection \<open>The edges of a built graph\<close>

lemma map_of_snoc: "map_of (xs @ [(k, v)]) n = (case map_of xs n of Some w \<Rightarrow> Some w | None \<Rightarrow> if n = k then Some v else None)"
  by (induction xs) auto

lemma name_to_pkg_distinct: "distinct (map fst (name_to_pkg members))"
proof -
  have "distinct (map fst (fold add_package members d))" if "distinct (map fst d)" for d
    using that
  proof (induction members arbitrary: d)
    case (Cons m members)
    have "distinct (map fst (add_package m d))"
      using Cons.prems by (auto simp: add_package_def map_of_eq_None_iff split: option.split json.split)
    then show ?case using Cons.IH by simp
  qed simp
  then show ?thesis by (simp add: name_to_pkg_def)
qed

lemma map_of_add_consumers:
  "distinct ds \<Longrightarrow> map_of (fold (add_consumer name) ds ins) d =
     (if d \<in> set ds then Some (List.insert name (case map_of ins d of None \<Rightarrow> [] | Some ns \<Rightarrow> ns)) else map_of ins d)"
  by (induction ds arbitrary: ins) (auto simp: add_consumer_def)

lemma edge_maps_fold:
  assumes "distinct (map fst pkgs)"
  shows "(\<forall>n. map_of (fst (fold (add_edges nodes) pkgs (outs, ins))) n =
      (case map_of pkgs n of None \<Rightarrow> map_of outs n | Some p \<Rightarrow> Some (package_deps nodes n p))) \<and>
    (\<forall>d. set (case map_of (snd (fold (add_edges nodes) pkgs (outs, ins))) d of None \<Rightarrow> [] | Some ns \<Rightarrow> ns) =
      set (case map_of ins d of None \<Rightarrow> [] | Some ns \<Rightarrow> ns) \<union>
      {n. \<exists>p. (n, p) \<in> set pkgs \<and> d \<in> set (package_deps nodes n p)})"
  using assms(1)
proof (induction pkgs arbitrary: outs ins)
  case Nil
  then show ?case by simp
next
  case (Cons np pkgs)
  obtain n p where np: "np = (n, p)" by force
  have d: "distinct (package_deps nodes n p)" by (simp add: package_deps_def)
  have fresh: "map_of pkgs n = None" using Cons.prems np by (simp add: map_of_eq_None_iff)
  have s: "fold (add_edges nodes) (np # pkgs) (outs, ins) = fold (add_edges nodes) pkgs
     (AList.update n (package_deps nodes n p) outs, fold (add_consumer n) (package_deps nodes n p) ins)"
    by (simp add: np add_edges_def Let_def)
  have "distinct (map fst pkgs)" using Cons.prems by simp
  note IH = Cons.IH [OF this, of "AList.update n (package_deps nodes n p) outs" "fold (add_consumer n) (package_deps nodes n p) ins"]
  show ?case
  proof (intro conjI allI)
    fix m
    show "map_of (fst (fold (add_edges nodes) (np # pkgs) (outs, ins))) m =
      (case map_of (np # pkgs) m of None \<Rightarrow> map_of outs m | Some q \<Rightarrow> Some (package_deps nodes m q))"
      unfolding s using IH fresh by (auto simp: np split: option.split)
  next
    fix e
    have "set (case map_of (fold (add_consumer n) (package_deps nodes n p) ins) e of None \<Rightarrow> [] | Some ns \<Rightarrow> ns) =
        set (case map_of ins e of None \<Rightarrow> [] | Some ns \<Rightarrow> ns) \<union> (if e \<in> set (package_deps nodes n p) then {n} else {})"
      by (cases "map_of ins e") (auto simp: map_of_add_consumers [OF d])
    then show "set (case map_of (snd (fold (add_edges nodes) (np # pkgs) (outs, ins))) e of None \<Rightarrow> [] | Some ns \<Rightarrow> ns) =
      set (case map_of ins e of None \<Rightarrow> [] | Some ns \<Rightarrow> ns) \<union>
      {m. \<exists>q. (m, q) \<in> set (np # pkgs) \<and> e \<in> set (package_deps nodes m q)}"
      unfolding s using IH by (auto simp: np)
  qed
qed

text \<open>That package \<open>c\<close> depends on \<open>p\<close>, as the manifests say it.\<close>

definition depends :: "package_json dict \<Rightarrow> pystr \<Rightarrow> pystr \<Rightarrow> bool" where
  "depends pkgs c p \<longleftrightarrow> c \<noteq> p \<and> p \<in> set (map fst pkgs) \<and>
     (\<exists>q. map_of pkgs c = Some q \<and> (\<exists>f \<in> set EDGE_FIELDS. p \<in> set (field_names q f)))"

lemma depends_nodes: "depends pkgs c p \<Longrightarrow> c \<noteq> p \<and> c \<in> set (map fst pkgs) \<and> p \<in> set (map fst pkgs)"
  by (metis depends_def list.set_map map_of_eq_None_iff option.distinct(1))

lemma package_deps_depends:
  "map_of pkgs c = Some q \<Longrightarrow> p \<in> set (package_deps (map fst pkgs) c q) \<longleftrightarrow> depends pkgs c p"
  by (auto simp: package_deps_def depends_def)

lemma dep_graph_edges:
  assumes "build_dep_graph root_pkg members = Some g"
  shows "p \<in> set (edges_out g c) \<longleftrightarrow> depends (name_to_pkg members) c p"
    and "c \<in> set (consumers_of g p) \<longleftrightarrow> depends (name_to_pkg members) c p"
proof -
  let ?pk = "name_to_pkg members"
  have dist: "distinct (map fst ?pk)" by (rule name_to_pkg_distinct)
  from assms have g: "dg_out g = fst (edge_maps ?pk)" "dg_in g = snd (edge_maps ?pk)"
    by (auto simp: build_dep_graph_def Let_def split: option.splits prod.splits)
  note e = edge_maps_fold [OF dist, of "map fst ?pk" "[]" "map (\<lambda>n. (n, [])) (map fst ?pk)"]
  have o: "map_of (dg_out g) c = (case map_of ?pk c of None \<Rightarrow> None | Some q \<Rightarrow> Some (package_deps (map fst ?pk) c q))"
    unfolding g edge_maps_def Let_def using conjunct1 [OF e, THEN spec, of c] by (cases "map_of ?pk c") simp_all
  show "p \<in> set (edges_out g c) \<longleftrightarrow> depends ?pk c p"
    by (cases "map_of ?pk c") (auto simp: edges_out_def o package_deps_depends depends_def)
  have none: "set (case map_of (map (\<lambda>n. (n, [])) (map fst ?pk)) p of None \<Rightarrow> [] | Some ns \<Rightarrow> ns) = ({} :: pystr set)"
  proof -
    define m where "m = map_of (map (\<lambda>n. (n, [] :: pystr list)) (map fst ?pk)) p"
    have "map_of (map (\<lambda>n. (n, [] :: pystr list)) ns) p = None \<or>
      map_of (map (\<lambda>n. (n, [] :: pystr list)) ns) p = Some []" for ns by (induction ns) auto
    from this [of "map fst ?pk"] have "m = None \<or> m = Some []" unfolding m_def .
    then show ?thesis unfolding m_def [symmetric] by (elim disjE) simp_all
  qed
  have i: "set (consumers_of g p) = {n. \<exists>q. (n, q) \<in> set ?pk \<and> p \<in> set (package_deps (map fst ?pk) n q)}"
    unfolding consumers_of_def g edge_maps_def Let_def by (simp only: conjunct2 [OF e, rule_format] none Un_empty_left)
  show "c \<in> set (consumers_of g p) \<longleftrightarrow> depends ?pk c p"
    unfolding i using package_deps_depends [of ?pk c] dist by (auto simp: depends_def map_of_eq_Some_iff)
qed


text \<open>The two directions of a graph agree: a package is a consumer of another exactly when it has an
  edge to it; edges stay inside the workspace and never loop back to their own package.\<close>

lemma dep_graph_converse:
  assumes "build_dep_graph root_pkg members = Some g"
  shows "(c \<in> set (consumers_of g p) \<longleftrightarrow> p \<in> set (edges_out g c)) \<and>
    (p \<in> set (edges_out g c) \<longrightarrow> c \<noteq> p \<and> c \<in> set (dg_nodes g) \<and> p \<in> set (dg_nodes g))"
proof -
  have "dg_nodes g = map fst (name_to_pkg members)"
    using assms by (auto simp: build_dep_graph_def Let_def split: option.splits prod.splits)
  then show ?thesis
    using dep_graph_edges [OF assms] depends_nodes by metis
qed

definition demo_members :: "package_json option list" where
  "demo_members = [Some [(''name'', JStr ''web''), (''dependencies'', JObj [(''ui'', JStr ''*''), (''react'', JStr ''19'')])],
     None, Some [(''name'', JStr ''ui''), (''devDependencies'', JObj [(''lint'', JStr ''*'')])],
     Some [(''name'', JStr ''lint'')]]"

definition demo_dep_graph :: dep_graph where
  "demo_dep_graph = (case build_dep_graph (Some []) demo_members of Some g \<Rightarrow> g | None \<Rightarrow> \<lparr>dg_nodes = [], dg_out = [], dg_in = []\<rparr>)"

lemma demo_built: "build_dep_graph (Some []) demo_members = Some demo_dep_graph"
  by (simp add: demo_dep_graph_def build_dep_graph_def Let_def split: prod.split)

lemma demo_web: "apps_to_qa (compute_affected [''lint''] demo_dep_graph [''web''] []) = [''web'']"
  by code_simp

lemma demo_blocked: "apps_to_qa (compute_affected [''lint''] demo_dep_graph [''web''] [''ui'']) = []"
  by code_simp


lemma dep_graph_converse_witness: "''web'' \<in> set (consumers_of demo_dep_graph ''ui'')"
proof -
  have "''ui'' \<in> set (edges_out demo_dep_graph ''web'')" by code_simp
  then show ?thesis using dep_graph_converse [OF demo_built] by blast
qed

text \<open>
  An app tagged as not cascading is still tested when a package it depends on changes: the block holds
  only its own dependents back.
\<close>

lemma blocked_app_reached: "apps_to_qa (compute_affected [''ui''] demo_dep_graph [''web''] [''web'']) = [''web'']"
  by code_simp

end
