(* ===== verification/Healing_Lifecycle.thy ===== *)
theory Healing_Lifecycle
  imports Prelude
begin

text \<open>
  The stage machine of a healing case (\<open>embry0/services/healing/lifecycle.py\<close>): the vocabularies, the
  definition of a deployed fix, and the transition function with its three guards. A stage or
  event outside the vocabulary is a \<open>ValueError\<close>; an event that cannot apply is an
  \<open>IllegalTransitionError\<close>.
\<close>

datatype stage = Detected | Tracked | Accepted | Pr_Open | Merged | Deployed | Verified | Closed

datatype case_event =
    Tracker_Attached | Ev_Accepted | Pr_Opened | Pr_Updated | Pr_Closed | Ev_Merged | Ev_Deployed
  | Verdict_Recorded | Recurrence | Ev_Abandoned | Reopened | Ev_Closed

datatype origin = Watcher | Human | Webhook | Alert | Ci | Org

datatype resolution_path = Embry0 | Out_Of_Band | Cancelled | Non_Code | Self_Resolved | Abandoned

datatype healing_verdict = Pending | Healed | Not_Healed | Inconclusive | Regressed

datatype signature_source = Evidence | Fallback

datatype effect = Applied | Repeat | Late | Noted | Post_Close

record transition_result =
  tr_stage :: stage
  tr_effect :: effect
  tr_target :: "stage option"
  tr_backward :: bool

datatype transition_error = Illegal_Transition stage case_event | Not_In_Vocabulary

definition OPEN_UNACCEPTED_STAGES :: "stage list" where
  "OPEN_UNACCEPTED_STAGES = [Detected, Tracked]"

fun stage_order :: "stage \<Rightarrow> nat" where
  "stage_order Detected = 0"
| "stage_order Tracked = 1"
| "stage_order Accepted = 2"
| "stage_order Pr_Open = 3"
| "stage_order Merged = 4"
| "stage_order Deployed = 5"
| "stage_order Verified = 6"
| "stage_order Closed = 7"

lemma stage_order_eq: "stage_order s = stage_order t \<longleftrightarrow> s = t"
  by (cases s; cases t) simp_all

text \<open>Declaration order is lifecycle order.\<close>

instantiation stage :: linorder
begin

definition less_eq_stage :: "stage \<Rightarrow> stage \<Rightarrow> bool" where
  "less_eq_stage s t \<longleftrightarrow> stage_order s \<le> stage_order t"

definition less_stage :: "stage \<Rightarrow> stage \<Rightarrow> bool" where
  "less_stage s t \<longleftrightarrow> stage_order s < stage_order t"

instance
  by standard (auto simp: less_eq_stage_def less_stage_def stage_order_eq)

end

fun event_target :: "case_event \<Rightarrow> stage option" where
  "event_target Tracker_Attached = Some Tracked"
| "event_target Ev_Accepted = Some Accepted"
| "event_target Pr_Opened = Some Pr_Open"
| "event_target Ev_Merged = Some Merged"
| "event_target Ev_Deployed = Some Deployed"
| "event_target Verdict_Recorded = Some Verified"
| "event_target Ev_Abandoned = Some Closed"
| "event_target Ev_Closed = Some Closed"
| "event_target _ = None"

text \<open>\<open>fix_deployed\<close>, on clock readings.\<close>

definition fix_deployed :: "pystr option \<Rightarrow> rat option \<Rightarrow> rat option \<Rightarrow> bool" where
  "fix_deployed merge_sha merged_at deployed_at \<longleftrightarrow>
     merge_sha \<noteq> None \<and>
     (case (merged_at, deployed_at) of (Some m, Some d) \<Rightarrow> m \<le> d | _ \<Rightarrow> False)"

record guards =
  other_open_prs :: bool
  deploy_anchors :: bool
  merge_current :: bool

definition moved :: "stage \<Rightarrow> effect \<Rightarrow> stage option \<Rightarrow> transition_result" where
  "moved s e t = \<lparr>tr_stage = s, tr_effect = e, tr_target = t, tr_backward = False\<rparr>"

definition transition :: "stage \<Rightarrow> case_event \<Rightarrow> guards \<Rightarrow> transition_error + transition_result" where
  "transition s ev g =
     (let target = event_target ev in
      if s = Closed then
        if ev = Ev_Closed then Inr (moved Closed Repeat target)
        else if ev = Reopened then Inl (Illegal_Transition s ev)
        else Inr (moved Closed Post_Close target)
      else if ev = Reopened then
        if s = Verified
        then Inr \<lparr>tr_stage = Tracked, tr_effect = Applied, tr_target = None, tr_backward = True\<rparr>
        else if s = Tracked then Inr (moved Tracked Repeat None)
        else Inl (Illegal_Transition s ev)
      else if ev = Pr_Closed then
        if s = Pr_Open \<and> \<not> other_open_prs g
        then Inr \<lparr>tr_stage = Accepted, tr_effect = Applied, tr_target = None, tr_backward = True\<rparr>
        else Inr (moved s Noted None)
      else if ev = Ev_Abandoned then
        if s = Accepted then Inr (moved Closed Applied (Some Closed)) else Inr (moved s Noted None)
      else if ev \<in> {Recurrence, Pr_Updated} then Inr (moved s Noted None)
      else if ev = Ev_Deployed \<and> \<not> deploy_anchors g then Inr (moved s Noted None)
      else if ev = Ev_Merged \<and> \<not> merge_current g then Inr (moved s Noted None)
      else (case target of
              None \<Rightarrow> Inl (Illegal_Transition s ev)
            | Some t \<Rightarrow>
                if stage_order s < stage_order t then Inr (moved t Applied target)
                else if t = s then Inr (moved s Repeat target)
                else Inr (moved s Late target)))"

text \<open>The same on the stored strings: \<open>Stage(stage)\<close> and \<open>CaseEvent(event)\<close>.\<close>

definition stage_names :: "(pystr \<times> stage) list" where
  "stage_names = [(''detected'', Detected), (''tracked'', Tracked), (''accepted'', Accepted),
     (''pr_open'', Pr_Open), (''merged'', Merged), (''deployed'', Deployed), (''verified'', Verified),
     (''closed'', Closed)]"

definition event_names :: "(pystr \<times> case_event) list" where
  "event_names = [(''tracker_attached'', Tracker_Attached), (''accepted'', Ev_Accepted),
     (''pr_opened'', Pr_Opened), (''pr_updated'', Pr_Updated), (''pr_closed'', Pr_Closed),
     (''merged'', Ev_Merged), (''deployed'', Ev_Deployed), (''verdict_recorded'', Verdict_Recorded),
     (''recurrence'', Recurrence), (''abandoned'', Ev_Abandoned), (''reopened'', Reopened),
     (''closed'', Ev_Closed)]"

definition transition_of_names :: "pystr \<Rightarrow> pystr \<Rightarrow> guards \<Rightarrow> transition_error + transition_result" where
  "transition_of_names s ev g =
     (case map_of stage_names s of
        None \<Rightarrow> Inl Not_In_Vocabulary
      | Some st \<Rightarrow> (case map_of event_names ev of
                     None \<Rightarrow> Inl Not_In_Vocabulary
                   | Some e \<Rightarrow> transition st e g))"

subsection \<open>One event\<close>

lemmas transition_simps = transition_def Let_def moved_def

lemma transition_cases:
  assumes "transition s ev g = Inr t"
  shows "(tr_effect t = Applied \<longleftrightarrow> tr_stage t \<noteq> s) \<and>
    (tr_backward t \<longleftrightarrow> tr_stage t < s) \<and>
    (tr_stage t < s \<longrightarrow> ev = Pr_Closed \<and> s = Pr_Open \<and> tr_stage t = Accepted \<and> \<not> other_open_prs g \<or>
       ev = Reopened \<and> s = Verified \<and> tr_stage t = Tracked) \<and>
    (s < tr_stage t \<longrightarrow> event_target ev = Some (tr_stage t))"
  using assms
  by (cases ev; cases s) (auto simp: transition_simps less_stage_def split: if_splits)

text \<open>A case moves back in two ways only, a pull request closed unmerged with no other open and a
  reopened verdict; every other move is to the later stage its event stands for; and an event is
  recorded as applied exactly when the stage changes.\<close>

lemma stage_moves:
  assumes "transition s ev g = Inr t"
  shows "(tr_effect t = Applied \<longleftrightarrow> tr_stage t \<noteq> s) \<and>
    (tr_stage t = s \<or> s < tr_stage t \<and> event_target ev = Some (tr_stage t) \<and> \<not> tr_backward t \<or>
     tr_backward t \<and> (ev = Pr_Closed \<and> s = Pr_Open \<and> tr_stage t = Accepted \<and> \<not> other_open_prs g \<or>
       ev = Reopened \<and> s = Verified \<and> tr_stage t = Tracked))"
  using transition_cases [OF assms] by (cases rule: linorder_cases [of "tr_stage t" s]) auto

lemma stage_moves_witness:
  "transition Tracked Ev_Merged \<lparr>other_open_prs = False, deploy_anchors = True, merge_current = True\<rparr> =
     Inr \<lparr>tr_stage = Merged, tr_effect = Applied, tr_target = Some Merged, tr_backward = False\<rparr> \<and> Tracked < Merged"
proof -
  have a: "transition Tracked Ev_Merged \<lparr>other_open_prs = False, deploy_anchors = True, merge_current = True\<rparr> =
     Inr \<lparr>tr_stage = Merged, tr_effect = Applied, tr_target = Some Merged, tr_backward = False\<rparr>"
    by code_simp
  show ?thesis using stage_moves [OF a] a by simp
qed

text \<open>A redelivered event is inert: delivered again with the same facts to the case it left
  behind, it changes nothing and is not recorded as applied.\<close>

lemma redelivery_inert:
  assumes "transition s ev g = Inr t"
  shows "\<exists>t'. transition (tr_stage t) ev g = Inr t' \<and> tr_stage t' = tr_stage t \<and> tr_effect t' \<noteq> Applied"
  using assms by (cases ev; cases s) (auto simp: transition_simps split: if_splits)

lemma redelivery_inert_witness:
  "\<exists>t'. transition Tracked Reopened \<lparr>other_open_prs = False, deploy_anchors = True, merge_current = True\<rparr> = Inr t' \<and>
     tr_effect t' \<noteq> Applied"
proof -
  have a: "transition Verified Reopened \<lparr>other_open_prs = False, deploy_anchors = True, merge_current = True\<rparr> =
     Inr \<lparr>tr_stage = Tracked, tr_effect = Applied, tr_target = None, tr_backward = True\<rparr>"
    by code_simp
  show ?thesis using redelivery_inert [OF a] by auto
qed

subsection \<open>The life of a case\<close>

text \<open>
  One event with the facts about the case's data at that moment; an event that raises leaves the
  case as it is.
\<close>

type_synonym case_input = "case_event \<times> guards"

definition case_next :: "stage \<Rightarrow> case_input \<Rightarrow> stage" where
  "case_next s e = (case transition s (fst e) (snd e) of Inl _ \<Rightarrow> s | Inr t \<Rightarrow> tr_stage t)"

definition case_run :: "stage \<Rightarrow> case_input list \<Rightarrow> stage" where
  "case_run s es = foldl case_next s es"

lemma case_run_simps [simp]: "case_run s [] = s" "case_run s (e # es) = case_run (case_next s e) es"
  by (simp_all add: case_run_def)

lemma case_next_cases:
  "case_next s e = s \<or> s < case_next s e \<and> event_target (fst e) = Some (case_next s e) \<or>
   fst e = Pr_Closed \<and> s = Pr_Open \<and> case_next s e = Accepted \<or>
   fst e = Reopened \<and> s = Verified \<and> case_next s e = Tracked"
proof (cases "transition s (fst e) (snd e)")
  case (Inr t)
  from transition_cases [OF Inr] show ?thesis
    using Inr by (cases rule: linorder_cases [of "tr_stage t" s]) (auto simp: case_next_def)
qed (simp add: case_next_def)

lemma case_next_closed [simp]: "case_next Closed e = Closed"
  by (simp add: case_next_def transition_simps)

text \<open>What an event does to the stage, with its target where it may move the case forward.\<close>

definition carries :: "case_input \<Rightarrow> stage option" where
  "carries e =
     (if fst e = Ev_Deployed \<and> \<not> deploy_anchors (snd e) \<or> fst e = Ev_Merged \<and> \<not> merge_current (snd e)
      then None else event_target (fst e))"

definition forward_only :: "case_input \<Rightarrow> bool" where
  "forward_only e \<longleftrightarrow> fst e \<notin> {Pr_Closed, Reopened, Ev_Abandoned}"

lemma case_next_forward:
  assumes "forward_only e"
  shows "case_next s e = (case carries e of None \<Rightarrow> s | Some t \<Rightarrow> max s t)"
proof -
  obtain ev g where e: "e = (ev, g)" by (cases e)
  show ?thesis
    using assms unfolding e case_next_def carries_def forward_only_def transition_simps max_def less_eq_stage_def
    by (cases ev; cases s; simp)
qed


definition usual_facts :: guards where
  "usual_facts = \<lparr>other_open_prs = False, deploy_anchors = True, merge_current = True\<rparr>"


text \<open>How many of a run's events are applied.\<close>

fun applied_count :: "stage \<Rightarrow> case_input list \<Rightarrow> nat" where
  "applied_count s [] = 0"
| "applied_count s (e # es) = (if case_next s e = s then 0 else 1) + applied_count (case_next s e) es"

lemma applied_count_bound:
  "applied_count s es + stage_order s \<le>
   7 + 2 * length (filter (\<lambda>e. fst e = Pr_Closed) es) + 6 * length (filter (\<lambda>e. fst e = Reopened) es)"
proof (induction es arbitrary: s)
  case Nil
  show ?case by (cases s) simp_all
next
  case (Cons e es)
  from Cons [of "case_next s e"] case_next_cases [of s e] show ?case
    by (auto simp: less_stage_def)
qed

text \<open>A case cannot run for ever: of any sequence of events at most seven are applied, plus two for
  each closed pull request and six for each reopened verdict; and once closed it stays closed,
  whatever still arrives.\<close>

lemma case_life_bounded:
  "applied_count Detected es \<le>
     7 + 2 * length (filter (\<lambda>e. fst e = Pr_Closed) es) + 6 * length (filter (\<lambda>e. fst e = Reopened) es) \<and>
   case_run Closed es = Closed \<and> applied_count Closed es = 0"
proof -
  have "case_run Closed es = Closed \<and> applied_count Closed es = 0" by (induction es) simp_all
  then show ?thesis using applied_count_bound [of Detected es] by simp
qed

end
