(* ===== verification/Healing_Confirm.thy ===== *)
theory Healing_Confirm
  imports Healing_Lifecycle Py_Value
begin

text \<open>
  Did the fix work (\<open>embry0/services/healing/confirm.py\<close>): how long to watch a signature after a
  deploy, when a case can be judged, and the verdict. Times are clock readings and spans in
  microseconds, the resolution of \<open>datetime\<close>; a rate is a finite float. The wording of reasons and
  summaries is left out: a reason is a constructor.
\<close>

definition EXPECTED_OCCURRENCES :: rat where "EXPECTED_OCCURRENCES = 3"
definition MIN_WINDOW :: int where "MIN_WINDOW = 15 * 60 * 1000000"
definition MAX_WINDOW :: int where "MAX_WINDOW = 7 * 86400 * 1000000"
definition MAX_TIMEDELTA :: int where "MAX_TIMEDELTA = 86400 * 1000000000 * 1000000 - 1"

definition total_seconds :: "int \<Rightarrow> rat" where
  "total_seconds d = of_int d / 1000000"

definition MIN_JUDGEABLE_RATE_PER_HOUR :: rat where
  "MIN_JUDGEABLE_RATE_PER_HOUR = EXPECTED_OCCURRENCES / total_seconds MAX_WINDOW * 3600"

text \<open>\<open>timedelta(hours=h)\<close>; None is the \<open>OverflowError\<close>.\<close>

definition timedelta_hours :: "rat \<Rightarrow> int option" where
  "timedelta_hours h =
     (let us = round_even (h * 3600 * 1000000) in if us \<le> MAX_TIMEDELTA then Some us else None)"

datatype readiness = Ready | Too_Early | Unjudgeable

datatype plan_reason = Too_Rare_Before_The_Fix | Elapsed_And_Window

record verification_plan =
  vp_readiness :: readiness
  vp_window :: int
  vp_elapsed :: int
  vp_prior_rate :: "rat option"
  vp_reason :: plan_reason

definition vp_ready :: "verification_plan \<Rightarrow> bool" where
  "vp_ready p \<longleftrightarrow> vp_readiness p = Ready"

definition observation_window :: "rat option \<Rightarrow> int option" where
  "observation_window prior_rate =
     (case prior_rate of
        None \<Rightarrow> Some MAX_WINDOW
      | Some r \<Rightarrow>
          if r \<le> 0 then Some MAX_WINDOW
          else map_option (\<lambda>w. max MIN_WINDOW (min MAX_WINDOW w)) (timedelta_hours (EXPECTED_OCCURRENCES / r)))"

definition plan_verification :: "int \<Rightarrow> int \<Rightarrow> rat option \<Rightarrow> verification_plan option" where
  "plan_verification deployed_at now prior_rate =
     (let elapsed = max (now - deployed_at) 0
      in case observation_window prior_rate of
           None \<Rightarrow> None
         | Some window \<Rightarrow>
             if (case prior_rate of None \<Rightarrow> False | Some r \<Rightarrow> 0 < r \<and> r < MIN_JUDGEABLE_RATE_PER_HOUR)
             then Some \<lparr>vp_readiness = Unjudgeable, vp_window = window, vp_elapsed = elapsed,
                    vp_prior_rate = prior_rate, vp_reason = Too_Rare_Before_The_Fix\<rparr>
             else Some \<lparr>vp_readiness = (if elapsed < window then Too_Early else Ready), vp_window = window,
                    vp_elapsed = elapsed, vp_prior_rate = prior_rate, vp_reason = Elapsed_And_Window\<rparr>)"

record judge_evidence =
  je_signature_id :: "pystr option"
  je_repo :: pystr
  je_window_s :: int
  je_elapsed_s :: int
  je_before_rate_per_hour :: "rat option"
  je_expected_if_unfixed :: rat
  je_seen_since_deploy :: bool
  je_after_at_least :: int
  je_last_seen_at :: "int option"
  je_deployed_at :: "int option"
  je_signature_source :: "pystr option"

datatype judge_reason = No_Signature_Id | Not_Quoted_By_Evidence | Too_Rare plan_reason | Not_Seen_Since | Still_Firing

record judgement =
  jd_verdict :: healing_verdict
  jd_evidence :: judge_evidence
  jd_reason :: judge_reason

definition judge ::
  "pystr option \<Rightarrow> pystr \<Rightarrow> bool \<Rightarrow> int \<Rightarrow> rat option \<Rightarrow> verification_plan \<Rightarrow> int option \<Rightarrow> int option \<Rightarrow>
   pystr option \<Rightarrow> judgement" where
  "judge signature_id repo seen occurrences prior_rate plan last_seen_at deployed_at signature_source =
     (let expected = (case prior_rate of None \<Rightarrow> 0 | Some r \<Rightarrow> r) * total_seconds (vp_window plan) / 3600;
          evidence = \<lparr>je_signature_id = signature_id, je_repo = repo,
            je_window_s = vp_window plan div 1000000, je_elapsed_s = vp_elapsed plan div 1000000,
            je_before_rate_per_hour =
              (case prior_rate of None \<Rightarrow> None | Some r \<Rightarrow> if r = 0 then None else Some (round_to 4 r)),
            je_expected_if_unfixed = round_to 2 expected, je_seen_since_deploy = seen,
            je_after_at_least = (if seen then occurrences else 0), je_last_seen_at = last_seen_at,
            je_deployed_at = deployed_at, je_signature_source = signature_source\<rparr>;
          answer = (\<lambda>v r. \<lparr>jd_verdict = v, jd_evidence = evidence, jd_reason = r\<rparr>)
      in if signature_id = None then answer Inconclusive No_Signature_Id
         else if signature_source = Some ''fallback'' then answer Inconclusive Not_Quoted_By_Evidence
         else if vp_readiness plan = Unjudgeable then answer Inconclusive (Too_Rare (vp_reason plan))
         else if \<not> seen then answer Healed Not_Seen_Since
         else answer Not_Healed Still_Firing)"

subsection \<open>Windows\<close>

lemma round_even_bounds: "x - 1 / 2 \<le> of_int (round_even x) \<and> of_int (round_even x) \<le> x + 1 / 2"
proof -
  define f where "f = floor x"
  have "of_int f \<le> x" "x < of_int f + 1" unfolding f_def by linarith+
  then show ?thesis by (auto simp: round_even_def Let_def simp flip: f_def)
qed

lemma observation_window_range:
  "observation_window rate = Some w \<Longrightarrow> MIN_WINDOW \<le> w \<and> w \<le> MAX_WINDOW"
  by (auto simp: observation_window_def MIN_WINDOW_def MAX_WINDOW_def split: option.splits if_splits)

lemma plan_verification_cases:
  assumes "plan_verification deployed_at now rate = Some p"
  shows "observation_window rate = Some (vp_window p) \<and> vp_elapsed p = max (now - deployed_at) 0 \<and>
    vp_prior_rate p = rate \<and>
    (vp_readiness p = Ready \<longrightarrow> vp_window p \<le> vp_elapsed p \<and> (\<forall>r. rate = Some r \<longrightarrow> 0 < r \<longrightarrow> MIN_JUDGEABLE_RATE_PER_HOUR \<le> r))"
  using assms by (auto simp: plan_verification_def Let_def split: option.splits if_splits)

text \<open>The expected number of occurrences in the window chosen for a judgeable rate.\<close>

lemma window_expects:
  assumes "observation_window (Some r) = Some w" "MIN_JUDGEABLE_RATE_PER_HOUR \<le> r"
  shows "299 / 100 \<le> r * total_seconds w / 3600"
proof -
  have r: "1 / 56 \<le> r" using assms(2)
    by (simp add: MIN_JUDGEABLE_RATE_PER_HOUR_def EXPECTED_OCCURRENCES_def total_seconds_def MAX_WINDOW_def)
  then obtain v where v: "timedelta_hours (3 / r) = Some v" and w: "w = max MIN_WINDOW (min MAX_WINDOW v)"
    using assms(1) by (auto simp: observation_window_def EXPECTED_OCCURRENCES_def split: if_splits)
  have us: "3 / r * 3600 * 1000000 - 1 / 2 \<le> of_int v"
    using v round_even_bounds [of "3 / r * 3600 * 1000000"]
    by (auto simp: timedelta_hours_def Let_def split: if_splits)
  consider "v \<le> MAX_WINDOW" "r \<le> 100" | "MAX_WINDOW < v" | "100 < r" by linarith
  then show ?thesis
  proof cases
    case 1
    then have "v \<le> w" using w by simp
    then have "(of_int v :: rat) \<le> of_int w" by simp
    then have "3 / r * 3600 * 1000000 - 1 / 2 \<le> (of_int w :: rat)" using us by linarith
    then have "r * (3 / r * 3600 * 1000000 - 1 / 2) \<le> r * of_int w" using r by (intro mult_left_mono) simp_all
    then have "3 * 3600 * 1000000 - r / 2 \<le> r * of_int w" using r by (simp add: algebra_simps)
    with 1(2) show ?thesis by (simp add: total_seconds_def)
  next
    case 2
    then have "w = MAX_WINDOW" using w by (simp add: MIN_WINDOW_def MAX_WINDOW_def)
    with r show ?thesis by (simp add: total_seconds_def MAX_WINDOW_def)
  next
    case 3
    have "MIN_WINDOW \<le> w" using w by simp
    then have "(900000000 :: rat) \<le> of_int w" unfolding MIN_WINDOW_def by linarith
    with 3 have "100 * 900000000 \<le> r * of_int w" by (intro mult_mono) simp_all
    then show ?thesis by (simp add: total_seconds_def)
  qed
qed

text \<open>A fix is called healed only on evidence: the case names a signature its own evidence quotes,
  which has not been seen since the deploy; and when the plan was ready and the signature's rate
  known, at least a quarter of an hour and at most a week of it has passed, in which the unfixed
  fault would have been expected (to within rounding) three times.\<close>

lemma healed_on_evidence:
  assumes "plan_verification deployed_at now rate = Some plan"
    and "jd_verdict (judge signature_id repo seen n rate plan last_seen dep source) = Healed"
  shows "signature_id \<noteq> None \<and> source \<noteq> Some ''fallback'' \<and> \<not> seen \<and> vp_readiness plan \<noteq> Unjudgeable \<and>
    (vp_ready plan \<longrightarrow> vp_window plan \<le> now - deployed_at \<and>
       MIN_WINDOW \<le> vp_window plan \<and> vp_window plan \<le> MAX_WINDOW \<and>
       (\<forall>r. rate = Some r \<longrightarrow> 0 < r \<longrightarrow> 299 / 100 \<le> r * total_seconds (vp_window plan) / 3600))"
proof -
  note p = plan_verification_cases [OF assms(1)]
  note w = observation_window_range [of rate "vp_window plan"]
  have "signature_id \<noteq> None \<and> source \<noteq> Some ''fallback'' \<and> \<not> seen \<and> vp_readiness plan \<noteq> Unjudgeable"
    using assms(2) by (auto simp: judge_def Let_def split: if_splits)
  moreover have "vp_window plan \<le> now - deployed_at" if "vp_ready plan"
  proof -
    have "0 < vp_window plan" using p w by (simp add: MIN_WINDOW_def)
    moreover have "vp_window plan \<le> max (now - deployed_at) 0" using p that by (simp add: vp_ready_def)
    ultimately show ?thesis by linarith
  qed
  moreover have "299 / 100 \<le> r * total_seconds (vp_window plan) / 3600"
    if "vp_ready plan" "rate = Some r" "0 < r" for r
    using p that by (intro window_expects) (auto simp: vp_ready_def)
  ultimately show ?thesis using p w by blast
qed

text \<open>The verdict has no other outcome than healed, not healed and inconclusive, and a signature that
  reappeared is never called healed, however it was chosen or counted.\<close>

lemma verdict_of_reappearance:
  "jd_verdict (judge signature_id repo seen n rate plan last_seen dep source) =
    (if signature_id = None \<or> source = Some ''fallback'' \<or> vp_readiness plan = Unjudgeable then Inconclusive
     else if seen then Not_Healed else Healed) \<and>
   je_after_at_least (jd_evidence (judge signature_id repo False n rate plan last_seen dep source)) = 0"
  by (simp add: judge_def Let_def)

definition demo_plan :: verification_plan where
  "demo_plan = \<lparr>vp_readiness = Ready, vp_window = 15 * 60 * 1000000, vp_elapsed = 3600000000,
     vp_prior_rate = Some 20, vp_reason = Elapsed_And_Window\<rparr>"

lemma healed_on_evidence_witness:
  "jd_verdict (judge (Some ''sig'') ''acme/app'' False 0 (Some 20) demo_plan None (Some 0) None) = Healed \<and>
   299 / 100 \<le> (20 :: rat) * total_seconds (vp_window demo_plan) / 3600"
proof -
  have p: "plan_verification 0 3600000000 (Some 20) = Some demo_plan"
    by (simp add: plan_verification_def observation_window_def timedelta_hours_def round_even_def Let_def
      EXPECTED_OCCURRENCES_def MAX_TIMEDELTA_def MIN_JUDGEABLE_RATE_PER_HOUR_def total_seconds_def MAX_WINDOW_def
      MIN_WINDOW_def demo_plan_def)
  have h: "jd_verdict (judge (Some ''sig'') ''acme/app'' False 0 (Some 20) demo_plan None (Some 0) None) = Healed"
    by (simp add: judge_def demo_plan_def Let_def)
  from healed_on_evidence [OF p h] h show ?thesis by (simp add: vp_ready_def demo_plan_def)
qed

end
