(* ===== verification/Spec2Isabelle.thy ===== *)
theory Spec2Isabelle
  imports Context_Fit Fallback Brace_Expansion Redaction File_Weights Slop_Score Repo_Allowlist Settings_Scope Settings_Layers Skills Diff_Positions Tool_Policy Run_Slots Git_Proxy Row_Behaviour Budget Restart Test_Gate Review_Routing Affected Healing_Confirm
begin

text \<open>
  A development for embry0 (\<open>src/embry0\<close>), an orchestrator that runs coding agents in sandboxes: jobs are
  claimed from a queue, run through a graph of agent steps, and end in a pull request. It models the parts of
  the Python code that decide, rather than move data: which calls of an agent are allowed, what its sandbox
  can reach, what a job may spend, which step runs next, and when work counts as done. Every definition is a
  translation of the function or class it is named after.

  \<^bold>\<open>How the program fits together.\<close> The run-slot gate lets a job start; the dispatcher walks the route plan built
  from its template; before a turn the model of the agent and its stand-ins are planned, the conversation is
  fitted into the window of the model, and what the agent prints is scrubbed. Every tool call passes the
  policy gate inside the sandbox, and every credentialed request leaves through a proxy the sandbox is
  enrolled with. After a turn the budget, the test gate and the review decide where the job goes. A restart
  takes the jobs in flight back, and the healing lifecycle follows a fix after it is merged.

  \<^bold>\<open>Foundations.\<close>
  \<^item> \<open>Prelude\<close>: Python strings as UTF-8 bytes, dictionaries as association lists, shared facts.
  \<^item> \<open>Py_Str\<close>, \<open>Py_Value\<close>, \<open>Url\<close>, \<open>Json\<close>: what the code uses of \<open>str\<close>, \<open>bytes\<close>, \<open>float\<close>, \<open>urllib.parse\<close> and
    \<open>json\<close>. \<open>Posix_Path\<close>, \<open>Py_Regex\<close>: \<open>os.path\<close> and \<open>re\<close> over code points.
  \<^item> \<open>Worklist\<close>: a depth-first search as a locale, proved once to find exactly what is reachable.

  \<^bold>\<open>What leaves a sandbox.\<close>
  \<^item> \<open>Enrollment\<close> (\<open>execution/proxy/enrollment.py\<close>): the registry of bearers every proxy shares and the lockout
    of its admin routes. Bearers and sandboxes stay in one-to-one correspondence; wrong tokens are bounded.
  \<^item> \<open>Forge_Scope\<close>, \<open>Git_Scope\<close>, \<open>Receive_Pack\<close>, \<open>Git_Proxy\<close> (\<open>forge_scope.py\<close>, \<open>git_scope.py\<close>, \<open>receive_pack.py\<close>,
    \<open>git_proxy.py\<close> beside it, and \<open>git_refs.py\<close>): the calls forwarded to a forge are those the grant names, what is
    forwarded is what was checked, a push reaches the forge only for allowed branches, and the credential
    reaches only its host. The locales \<open>scoped_hook\<close>, \<open>scoped_extension\<close>, \<open>repo_normalizer\<close> and \<open>forge_policy\<close> are
    the interfaces between the registry, the proxies and their rule tables; each is interpreted on the code's
    own functions.

  \<^bold>\<open>What a tool call may do\<close> (\<open>safety/\<close>).
  \<^item> \<open>Path_Patterns\<close>, \<open>Brace_Expansion\<close>: the paths a shell word can name and whether a deny rule can match one.
    The search is exact; brace expansion over-approximates within its limits.
  \<^item> \<open>Command_Checks\<close>, \<open>Tool_Policy\<close>: the command rules, and the gate itself, which fails closed: an error in any
    step is a refusal.
  \<^item> \<open>Redaction\<close>: the scrubbing of secrets, with all of its patterns.

  \<^bold>\<open>Who may act on what\<close>.
  \<^item> \<open>Repo_Renames\<close> (\<open>storage/repo_renames.py\<close>): the renames an operator names; no chain is kept, so a current name
    stays as it is. \<open>Repo_Allowlist\<close> (\<open>api/repo_allowlist.py\<close>): the repositories an API key covers; a list of rows
    and the check of one row agree, a minted key is no wider than its minter, and refusals are on record.
  \<^item> \<open>Settings_Scope\<close>, \<open>Settings_Layers\<close> (\<open>settings/scope.py\<close>, \<open>settings/layers.py\<close>): which settings document a repository
    reads, through the renames, and a section read through its layers, each value applied or refused by name.
  \<^item> \<open>Skills\<close> (\<open>agents/skills.py\<close>): the skills of an agent; a request at run time never widens them.

  \<^bold>\<open>Which model answers\<close> (\<open>agents/\<close>).
  \<^item> \<open>Model_Catalog\<close>, \<open>Model_Providers\<close>, \<open>Fallback\<close>, \<open>Context_Fit\<close>: the catalog of priced models, the provider of a
    model, the stand-in for a spent account, and the fitting of a conversation into a context window.

  \<^bold>\<open>Where a job goes.\<close>
  \<^item> \<open>Run_Slots\<close> (\<open>orchestration/run_slots.py\<close>): the gate as a step relation over a heap of slots, its cap as an
    invariant and the progress of a waiting job.
  \<^item> \<open>Template_Routes\<close>, \<open>Row_Behaviour\<close> (\<open>workflows/\<close>): validation of a template graph, its linear plan, and the
    dispatcher, which terminates and runs exactly the plan.
  \<^item> \<open>Budget\<close>, \<open>Restart\<close> (\<open>orchestration/\<close>): caps and hourly limits; recovery after a restart refines a
    specification given for each job.
  \<^item> \<open>Test_Gate\<close>, \<open>Affected\<close>, \<open>Review_Routing\<close>: which failures are held against a change, which apps are tested, and
    what the reviewer's text means.
  \<^item> \<open>Diff_Positions\<close> (\<open>workflows/pr_review/diff_positions.py\<close>): where an inline comment can stand, against the two
    versions of a file.
  \<^item> \<open>Healing_Lifecycle\<close>, \<open>Healing_Confirm\<close> (\<open>services/healing/\<close>): the stage machine of a case, whose end does not
    depend on the order of its events, and the verdict on a deployed fix.

  \<^bold>\<open>How much of a history is slop\<close> (\<open>services/slop_meter/\<close>).
  \<^item> \<open>Glob_Index\<close>, \<open>File_Weights\<close>: the globs a file's weight is set by, the index that looks few of them up and
    answers as trying all would, and the weigher, whose caches cannot be told.
  \<^item> \<open>Slop_Score\<close>: the attention spent, as time covered by intervals, and the score, between 0 and 1.

  \<^bold>\<open>Parameters.\<close> Code that is not under \<open>src/\<close>, and the platform where Python's answer is a table, is an argument of
  the definitions: SHA-256, the Unicode tables (letters, digits, case, normal forms), how Python prints a float
  or a container, the length of \<open>json.dumps\<close>, the database's answers, the forge's answers, the parse of a shell
  command. What is assumed of one is a hypothesis of the theorem, with a witness.

  \<^bold>\<open>Bounds and fuel.\<close> Loops are recursive functions with a measure. The reader of JSON carries fuel, twice the
  length of the text and one, which is never used up (lemma \<open>raw_decode_fuel\<close>).
  Clock readings and spans are
  integers of microseconds or exact rationals where the code has floats; sums of floats are not rounded,
  prices of the catalog are.

  \<^bold>\<open>Not modelled.\<close> The shell parser (\<open>safety/bash_paths.py\<close>, \<open>shell_*.py\<close>) is a parameter of the gate: it is one
  mutable scanner over six modules, whose parts have no contract of their own. The services, the graph nodes,
  the executor and the watcher drive databases, forges and models through asyncio and only call the decisions
  modelled here. Storage is SQL, the HTTP API is FastAPI and pydantic, the sandbox runtime is Docker. Metrics,
  notifications, trackers, the MCP server and the command line hold no rule of their own.
  Wording of messages and logging are left out everywhere; a refusal is a constructor.
\<close>

end
